(* ===== verification/Prelude.thy ===== *)
theory Prelude
  imports Main "HOL-Library.Word" "HOL-Library.Multiset"
begin

text \<open>
  Shared vocabulary of the development: the machine integers and the clock of the C++ code, the
  collections of facts the component proofs draw on, and generic lemmas on words, lists and maps.

  \<^item> \<open>std::uint64_t\<close>, \<open>std::size_t\<close> and \<open>std::uint8_t\<close> are words of their width; a value that the
    code only compares or counts with is a \<open>nat\<close>.
  \<^item> \<open>std::chrono::steady_clock::time_point\<close> is a signed 64-bit number of nanoseconds, read here as
    an \<open>int\<close>; where the code guards against overflow the bounds \<open>time_min\<close> and \<open>time_max\<close> are used.
\<close>

unbundle bit_operations_syntax

type_synonym u8 = "8 word"
type_synonym u16 = "16 word"
type_synonym u32 = "32 word"
type_synonym u64 = "64 word"
type_synonym time = int

named_theorems inv_defs \<open>definitions of the invariants of the components\<close>
named_theorems op_defs \<open>definitions of the operations of the components\<close>
named_theorems frame_simps \<open>what an operation leaves unchanged\<close>

abbreviation u64_max :: u64 where
  "u64_max \<equiv> - 1"

definition time_max :: time where
  "time_max = 2 ^ 63 - 1"

definition time_min :: time where
  "time_min = - (2 ^ 63)"

section \<open>Words\<close>

lemma unat_u64_max [simp]: "unat (u64_max :: u64) = 2 ^ 64 - 1"
  by (simp add: unsigned_minus_1_eq_mask mask_eq_exp_minus_1)

lemma unat_u64_bound: "unat (x :: u64) < 2 ^ 64"
  using unsigned_less [of x, where ?'a = nat] by simp

lemma unat_inc:
  fixes x :: u64
  assumes "x \<noteq> u64_max"
  shows "unat (x + 1) = Suc (unat x)"
proof -
  have "unat x \<noteq> 2 ^ 64 - 1"
    using assms by (metis unat_u64_max word_unat_eq_iff)
  then have "unat x + 1 < 2 ^ 64"
    using unat_u64_bound [of x] by linarith
  then show ?thesis
    by (simp add: unat_word_ariths)
qed

lemma unat_dec:
  fixes x :: u64
  assumes "x \<noteq> 0"
  shows "unat (x - 1) = unat x - 1"
  using assms by (metis unat_minus_one)

lemma u64_less_max_iff [simp]: "(x :: u64) < u64_max \<longleftrightarrow> x \<noteq> u64_max"
  by (simp add: word_order.not_eq_extremum)

lemma inc_not_zero: "(x :: u64) \<noteq> u64_max \<Longrightarrow> x + 1 \<noteq> 0"
  by (metis add_eq_0_iff2 add.inverse_inverse)

section \<open>Lists\<close>

definition swap_at :: "'a list \<Rightarrow> nat \<Rightarrow> nat \<Rightarrow> 'a list" where
  "swap_at xs i j = xs[i := xs ! j, j := xs ! i]"

lemma length_swap_at [simp]: "length (swap_at xs i j) = length xs"
  by (simp add: swap_at_def)

lemma swap_at_nth:
  "i < length xs \<Longrightarrow> j < length xs \<Longrightarrow> k < length xs \<Longrightarrow>
   swap_at xs i j ! k = (if k = i then xs ! j else if k = j then xs ! i else xs ! k)"
  by (auto simp: swap_at_def nth_list_update)

lemma mset_swap_at [simp]:
  "i < length xs \<Longrightarrow> j < length xs \<Longrightarrow> mset (swap_at xs i j) = mset xs"
  by (simp add: swap_at_def mset_swap)

lemma set_swap_at [simp]:
  "i < length xs \<Longrightarrow> j < length xs \<Longrightarrow> set (swap_at xs i j) = set xs"
  by (metis mset_swap_at set_mset_mset)

lemma distinct_swap_at [simp]:
  "i < length xs \<Longrightarrow> j < length xs \<Longrightarrow> distinct (swap_at xs i j) = distinct xs"
  by (metis mset_swap_at mset_eq_imp_distinct_iff)

lemma mset_list_update_last:
  assumes "i < length xs - 1"
  shows "mset ((butlast xs)[i := last xs]) = mset xs - {# xs ! i #}"
proof -
  have ne: "xs \<noteq> []" and i: "i < length (butlast xs)"
    using assms by auto
  have "mset xs = add_mset (last xs) (mset (butlast xs))"
    using ne by (metis append_butlast_last_id mset.simps mset_append union_mset_add_mset_right
        add.right_neutral)
  moreover have "butlast xs ! i = xs ! i"
    using i by (simp add: nth_butlast)
  moreover have "butlast xs ! i \<in># mset (butlast xs)"
    using i by (simp add: nth_mem)
  ultimately show ?thesis
    using i by (simp add: mset_update diff_add_mset_swap)
qed

lemma mset_butlast_last:
  assumes "xs \<noteq> []"
  shows "mset (butlast xs) = mset xs - {# last xs #}"
  using assms by (metis append_butlast_last_id add_mset_remove_trivial mset.simps mset_append
      union_mset_add_mset_right add.right_neutral)

lemma map_upt_update:
  "i < n \<Longrightarrow> (map f [0..<n])[i := y] = map (f(i := y)) [0..<n]"
  by (rule nth_equalityI) (auto simp: nth_list_update)

lemma map_upt_nth: "map (\<lambda>i. f (xs ! i)) [0..<length xs] = map f xs"
  by (rule nth_equalityI) auto

end
