(* ===== verification/Status.thy ===== *)
theory Status
  imports Prelude
begin

text \<open>
  The value types every component shares: lifecycle status (\<open>include/astra/status.hpp\<close>) and its
  16-bit packing (\<open>src/runtime/runtime_state.hpp\<close>), task options and deadlines
  (\<open>include/astra/task_options.hpp\<close>), and the scheduler options with their validation
  (\<open>include/astra/scheduler_options.hpp\<close>, \<open>src/runtime/scheduler.cpp\<close>).

  A C++ enumeration with a fixed underlying type can hold values that no enumerator names; where
  the code decodes or validates such a value the datatype keeps them as a constructor of its own.
\<close>

section \<open>Lifecycle status\<close>

datatype SchedulerState = Running | Stopping | Stopped | Unnamed_state u8

datatype ShutdownMode = No_shutdown | Graceful | Immediate | Unnamed_mode u8

record SchedulerStatus =
  state :: SchedulerState
  shutdown_mode :: ShutdownMode

datatype TaskState = Waiting | Ready | Running | Suspended | Succeeded | Failed | Cancelled

datatype WaitResult = Completed | TimedOut

fun state_code :: "SchedulerState \<Rightarrow> u8" where
  "state_code SchedulerState.Running = 0"
| "state_code Stopping = 1"
| "state_code Stopped = 2"
| "state_code (Unnamed_state w) = w"

definition state_of_code :: "u8 \<Rightarrow> SchedulerState" where
  "state_of_code w =
     (if w = 0 then SchedulerState.Running else if w = 1 then Stopping
      else if w = 2 then Stopped else Unnamed_state w)"

fun mode_code :: "ShutdownMode \<Rightarrow> u8" where
  "mode_code No_shutdown = 0"
| "mode_code Graceful = 1"
| "mode_code Immediate = 2"
| "mode_code (Unnamed_mode w) = w"

definition mode_of_code :: "u8 \<Rightarrow> ShutdownMode" where
  "mode_of_code w =
     (if w = 0 then No_shutdown else if w = 1 then Graceful
      else if w = 2 then Immediate else Unnamed_mode w)"

definition pack :: "SchedulerState \<Rightarrow> ShutdownMode \<Rightarrow> u16" where
  "pack s m = push_bit 8 (ucast (state_code s)) OR ucast (mode_code m)"

definition unpack :: "u16 \<Rightarrow> SchedulerStatus" where
  "unpack v =
     \<lparr>state = state_of_code (ucast (drop_bit 8 v AND 0xFF)),
      shutdown_mode = mode_of_code (ucast (v AND 0xFF))\<rparr>"

definition named_state :: "SchedulerState \<Rightarrow> bool" where
  "named_state s \<longleftrightarrow> s \<in> {SchedulerState.Running, Stopping, Stopped}"

definition named_mode :: "ShutdownMode \<Rightarrow> bool" where
  "named_mode m \<longleftrightarrow> m \<in> {No_shutdown, Graceful, Immediate}"

text \<open>The combinations the status header calls legal.\<close>

definition legal_status :: "SchedulerStatus \<Rightarrow> bool" where
  "legal_status st \<longleftrightarrow>
     (state st = SchedulerState.Running \<and> shutdown_mode st = No_shutdown) \<or>
     (state st \<in> {Stopping, Stopped} \<and> shutdown_mode st \<in> {Graceful, Immediate})"

lemma state_code_inverse [simp]: "named_state s \<Longrightarrow> state_of_code (state_code s) = s"
  by (auto simp: named_state_def state_of_code_def)

lemma mode_code_inverse [simp]: "named_mode m \<Longrightarrow> mode_of_code (mode_code m) = m"
  by (auto simp: named_mode_def mode_of_code_def)

lemma mode_of_code_named_state [simp]:
  "state_code (state_of_code w) = w" "mode_code (mode_of_code w) = w"
  by (simp_all add: state_of_code_def mode_of_code_def)

lemma low_byte_mask: "(0xFF :: u16) = mask 8"
  by (simp add: mask_eq_exp_minus_1)

lemma packed_high_byte: "ucast (drop_bit 8 (pack s m) AND 0xFF) = state_code s"
  unfolding low_byte_mask
  by (rule bit_word_eqI) (auto simp: pack_def bit_simps dest: bit_imp_le_length)

lemma packed_low_byte: "ucast (pack s m AND 0xFF) = mode_code m"
  unfolding low_byte_mask
  by (rule bit_word_eqI) (auto simp: pack_def bit_simps dest: bit_imp_le_length)

lemma unpack_pack:
  assumes "named_state s" and "named_mode m"
  shows "unpack (pack s m) = \<lparr>state = s, shutdown_mode = m\<rparr>"
  using assms by (simp add: unpack_def packed_high_byte packed_low_byte)

lemma pack_unpack: "pack (state (unpack v)) (shutdown_mode (unpack v)) = v"
proof (rule bit_word_eqI)
  fix n
  assume "n < LENGTH(16)"
  then have n: "n < 16" by simp
  show "bit (pack (state (unpack v)) (shutdown_mode (unpack v))) n = bit v n"
    using n by (auto simp: pack_def unpack_def low_byte_mask bit_simps dest: bit_imp_le_length)
qed

lemma legal_named: "legal_status st \<Longrightarrow> named_state (state st) \<and> named_mode (shutdown_mode st)"
  by (auto simp: legal_status_def named_state_def named_mode_def)

section \<open>Task options\<close>

datatype Priority = Low | Normal | High | Critical | Unnamed_priority u8

fun priority_code :: "Priority \<Rightarrow> u8" where
  "priority_code Low = 0"
| "priority_code Normal = 1"
| "priority_code High = 2"
| "priority_code Critical = 3"
| "priority_code (Unnamed_priority w) = w"

text \<open>An unnamed constructor never carries the code of a named one.\<close>

fun wf_priority :: "Priority \<Rightarrow> bool" where
  "wf_priority (Unnamed_priority w) \<longleftrightarrow> 3 < w"
| "wf_priority _ \<longleftrightarrow> True"

definition is_valid_priority :: "Priority \<Rightarrow> bool" where
  "is_valid_priority p \<longleftrightarrow> priority_code p \<le> priority_code Critical"

datatype invalid_argument = Invalid_argument string

definition validate_priority :: "Priority \<Rightarrow> invalid_argument + unit" where
  "validate_priority p =
     (if \<not> is_valid_priority p
      then Inl (Invalid_argument ''unknown or invalid Priority value (R-080 / D-129)'')
      else Inr ())"

lemma valid_priority_cases:
  "wf_priority p \<Longrightarrow> is_valid_priority p \<longleftrightarrow> p \<in> {Low, Normal, High, Critical}"
  by (cases p) (auto simp: is_valid_priority_def)

text \<open>
  A deadline is its absolute target; \<open>deadline_after\<close> is \<open>TaskDeadline::after\<close> with the clock
  reading and the already converted duration as arguments.
\<close>

datatype TaskDeadline = TaskDeadline (time_point: time)

definition no_deadline :: TaskDeadline where
  "no_deadline = TaskDeadline time_min"

definition deadline_after :: "time \<Rightarrow> int \<Rightarrow> TaskDeadline" where
  "deadline_after now req_dur =
     (if 0 \<le> req_dur then
        (let max_add = time_max - now
         in if max_add < req_dur then TaskDeadline time_max else TaskDeadline (now + req_dur))
      else if now < time_min - req_dur then TaskDeadline time_min
      else TaskDeadline (now + req_dur))"

lemma deadline_after_clamps:
  assumes "time_min \<le> now" "now \<le> time_max"
  shows "time_point (deadline_after now d) = max time_min (min time_max (now + d))"
  using assms by (auto simp: deadline_after_def Let_def max_def min_def time_min_def time_max_def)

datatype DeadlineDisposition = No_disposition | Met | Missed

record TaskOptions =
  priority :: Priority
  deadline :: "TaskDeadline option"

definition default_options :: TaskOptions where
  "default_options = \<lparr>priority = Normal, deadline = None\<rparr>"

section \<open>Scheduler options\<close>

datatype ExternalBackpressure = Reject | Block | Unnamed_backpressure u8

datatype MetricsLevel = Off | Basic | Detailed | Unnamed_level u8

record SchedulerOptions =
  worker_count :: u64
  external_pending_capacity :: u64
  external_backpressure :: ExternalBackpressure
  max_helping_depth :: u64
  local_burst_limit :: u64
  steal_probe_limit :: u64
  metrics_level :: MetricsLevel
  trace_collector :: "nat option"

definition recommended_worker_count :: "u32 \<Rightarrow> u64" where
  "recommended_worker_count hw = (if hw = 0 then 1 else ucast hw)"

definition default_scheduler_options :: "u32 \<Rightarrow> SchedulerOptions" where
  "default_scheduler_options hw =
     \<lparr>worker_count = recommended_worker_count hw, external_pending_capacity = 65536,
      external_backpressure = Reject, max_helping_depth = 64, local_burst_limit = 64,
      steal_probe_limit = 8, metrics_level = Basic, trace_collector = None\<rparr>"

definition validate_options :: "SchedulerOptions \<Rightarrow> invalid_argument + unit" where
  "validate_options opts =
     (if worker_count opts = 0 then
        Inl (Invalid_argument ''SchedulerOptions::worker_count must be greater than 0'')
      else if external_pending_capacity opts = 0 then
        Inl (Invalid_argument ''SchedulerOptions::external_pending_capacity must be greater than 0'')
      else if max_helping_depth opts = 0 then
        Inl (Invalid_argument ''SchedulerOptions::max_helping_depth must be greater than 0'')
      else if local_burst_limit opts = 0 then
        Inl (Invalid_argument ''SchedulerOptions::local_burst_limit must be greater than 0'')
      else if steal_probe_limit opts = 0 then
        Inl (Invalid_argument ''SchedulerOptions::steal_probe_limit must be greater than 0'')
      else if external_backpressure opts \<noteq> Reject \<and> external_backpressure opts \<noteq> Block then
        Inl (Invalid_argument ''SchedulerOptions::external_backpressure contains unknown enum value'')
      else if metrics_level opts \<noteq> Off \<and> metrics_level opts \<noteq> Basic \<and> metrics_level opts \<noteq> Detailed then
        Inl (Invalid_argument ''SchedulerOptions::metrics_level contains unknown enum value'')
      else Inr ())"

definition usable_options :: "SchedulerOptions \<Rightarrow> bool" where
  "usable_options opts \<longleftrightarrow>
     0 < worker_count opts \<and> 0 < external_pending_capacity opts \<and> 0 < max_helping_depth opts \<and>
     0 < local_burst_limit opts \<and> 0 < steal_probe_limit opts \<and>
     external_backpressure opts \<in> {Reject, Block} \<and> metrics_level opts \<in> {Off, Basic, Detailed}"

lemma recommended_worker_count_pos: "0 < recommended_worker_count c"
proof (cases "c = 0")
  case False
  then have "unat (ucast c :: u64) \<noteq> 0"
    using unsigned_less [of c, where ?'a = nat]
    by (simp add: unsigned_ucast_eq take_bit_nat_eq_self unat_eq_zero)
  with False show ?thesis
    by (auto simp: recommended_worker_count_def word_less_nat_alt)
qed (simp add: recommended_worker_count_def)

lemma validate_options_iff: "validate_options opts = Inr () \<longleftrightarrow> usable_options opts"
  by (auto simp: validate_options_def usable_options_def word_gt_0)

end
