(* ===== verification/Ids.thy ===== *)
theory Ids
  imports Prelude
begin

text \<open>
  The logical identities of \<open>include/astra/id.hpp\<close> (\<open>RuntimeId\<close>, \<open>TaskId\<close>, \<open>GraphRunId\<close>,
  \<open>NodeId\<close>) with their validity, order and hash, and the allocators of
  \<open>src/runtime/runtime_identity.hpp\<close> and \<open>src/runtime/scheduler.cpp\<close> that never wrap.
\<close>

section \<open>Identities\<close>

datatype RuntimeId = RuntimeId (runtime_value: u64)

datatype TaskId = TaskId (task_runtime: RuntimeId) (task_sequence: u64)

datatype GraphRunId = GraphRunId (run_runtime: RuntimeId) (run_sequence: u64)

datatype NodeId = NodeId (node_value: u64)

definition runtime_id_valid :: "RuntimeId \<Rightarrow> bool" where
  "runtime_id_valid r \<longleftrightarrow> runtime_value r \<noteq> 0"

definition task_id_valid :: "TaskId \<Rightarrow> bool" where
  "task_id_valid t \<longleftrightarrow> runtime_id_valid (task_runtime t) \<and> task_sequence t \<noteq> 0"

definition graph_run_id_valid :: "GraphRunId \<Rightarrow> bool" where
  "graph_run_id_valid g \<longleftrightarrow> runtime_id_valid (run_runtime g) \<and> run_sequence g \<noteq> 0"

definition node_id_valid :: "NodeId \<Rightarrow> bool" where
  "node_id_valid n \<longleftrightarrow> node_value n \<noteq> 0"

definition no_runtime :: RuntimeId where "no_runtime = RuntimeId 0"
definition no_task :: TaskId where "no_task = TaskId no_runtime 0"
definition no_graph_run :: GraphRunId where "no_graph_run = GraphRunId no_runtime 0"

text \<open>The defaulted three-way comparisons compare member by member, in declaration order.\<close>

instantiation RuntimeId :: linorder
begin

definition less_eq_RuntimeId :: "RuntimeId \<Rightarrow> RuntimeId \<Rightarrow> bool" where
  "less_eq_RuntimeId a b \<longleftrightarrow> runtime_value a \<le> runtime_value b"

definition less_RuntimeId :: "RuntimeId \<Rightarrow> RuntimeId \<Rightarrow> bool" where
  "less_RuntimeId a b \<longleftrightarrow> runtime_value a < runtime_value b"

instance
proof
  fix x y z :: RuntimeId
  show "x < y \<longleftrightarrow> x \<le> y \<and> \<not> y \<le> x"
    by (auto simp: less_eq_RuntimeId_def less_RuntimeId_def)
  show "x \<le> x"
    by (simp add: less_eq_RuntimeId_def)
  show "x \<le> y \<Longrightarrow> y \<le> z \<Longrightarrow> x \<le> z"
    by (simp add: less_eq_RuntimeId_def)
  show "x \<le> y \<Longrightarrow> y \<le> x \<Longrightarrow> x = y"
    by (cases x; cases y) (simp add: less_eq_RuntimeId_def)
  show "x \<le> y \<or> y \<le> x"
    by (auto simp: less_eq_RuntimeId_def)
qed

end

instantiation TaskId :: linorder
begin

definition less_TaskId :: "TaskId \<Rightarrow> TaskId \<Rightarrow> bool" where
  "less_TaskId a b \<longleftrightarrow> task_runtime a < task_runtime b \<or>
     task_runtime a = task_runtime b \<and> task_sequence a < task_sequence b"

definition less_eq_TaskId :: "TaskId \<Rightarrow> TaskId \<Rightarrow> bool" where
  "less_eq_TaskId a b \<longleftrightarrow> task_runtime a < task_runtime b \<or>
     task_runtime a = task_runtime b \<and> task_sequence a \<le> task_sequence b"

instance
proof
  fix x y z :: TaskId
  show "x < y \<longleftrightarrow> x \<le> y \<and> \<not> y \<le> x"
    by (auto simp: less_eq_TaskId_def less_TaskId_def)
  show "x \<le> x"
    by (simp add: less_eq_TaskId_def)
  show "x \<le> y \<Longrightarrow> y \<le> z \<Longrightarrow> x \<le> z"
    by (auto simp: less_eq_TaskId_def)
  show "x \<le> y \<Longrightarrow> y \<le> x \<Longrightarrow> x = y"
    by (cases x; cases y) (auto simp: less_eq_TaskId_def)
  show "x \<le> y \<or> y \<le> x"
    by (auto simp: less_eq_TaskId_def)
qed

end

section \<open>Hashes\<close>

text \<open>
  \<open>h\<close> is the library's \<open>std::hash<std::uint64_t>\<close>, a function of the value only.
\<close>

definition hash_runtime_id :: "(u64 \<Rightarrow> u64) \<Rightarrow> RuntimeId \<Rightarrow> u64" where
  "hash_runtime_id h r = h (runtime_value r)"

definition hash_task_id :: "(u64 \<Rightarrow> u64) \<Rightarrow> TaskId \<Rightarrow> u64" where
  "hash_task_id h t =
     (let h1 = hash_runtime_id h (task_runtime t); h2 = h (task_sequence t)
      in h1 XOR (h2 + 0x9e3779b97f4a7c15 + push_bit 6 h1 + drop_bit 2 h1))"

definition hash_graph_run_id :: "(u64 \<Rightarrow> u64) \<Rightarrow> GraphRunId \<Rightarrow> u64" where
  "hash_graph_run_id h g =
     (let h1 = hash_runtime_id h (run_runtime g); h2 = h (run_sequence g)
      in h1 XOR (h2 + 0x9e3779b97f4a7c15 + push_bit 6 h1 + drop_bit 2 h1))"

definition hash_node_id :: "(u64 \<Rightarrow> u64) \<Rightarrow> NodeId \<Rightarrow> u64" where
  "hash_node_id h n = h (node_value n)"

text \<open>
  Within one runtime the mixing step keeps tasks apart whenever the underlying hash does.
\<close>

lemma xor_left_cancel: "(a :: u64) XOR b = a XOR c \<longleftrightarrow> b = c"
proof
  assume "a XOR b = a XOR c"
  then have "a XOR (a XOR b) = a XOR (a XOR c)" by simp
  then show "b = c" by (simp add: xor.assoc [symmetric])
qed simp

lemma hash_task_id_inj_in_runtime:
  assumes "inj h"
  shows "hash_task_id h (TaskId r s) = hash_task_id h (TaskId r s') \<longleftrightarrow> s = s'"
  using assms by (auto simp: hash_task_id_def Let_def xor_left_cancel inj_eq)

section \<open>Allocators\<close>

record id_allocator =
  task_seq :: u64
  graph_run_seq :: u64

definition fresh_allocator :: id_allocator where
  "fresh_allocator = \<lparr>task_seq = 0, graph_run_seq = 0\<rparr>"

datatype overflow_error = Overflow_error string

text \<open>
  The compare-exchange loop takes effect at its one successful exchange, so one call is one atomic
  step: the next value, or the exception once the sequence is at its maximum.
\<close>

definition allocate_sequence :: "u64 \<Rightarrow> string \<Rightarrow> overflow_error + (u64 \<times> u64)" where
  "allocate_sequence current identity_name =
     (if current \<noteq> u64_max then Inr (current + 1, current + 1)
      else Inl (Overflow_error (identity_name @ '' sequence exhausted'')))"

definition allocate_task :: "RuntimeId \<Rightarrow> id_allocator \<Rightarrow> overflow_error + (TaskId \<times> id_allocator)" where
  "allocate_task r a =
     (case allocate_sequence (task_seq a) ''TaskId'' of
        Inl e \<Rightarrow> Inl e
      | Inr (s, nxt) \<Rightarrow> Inr (TaskId r s, a\<lparr>task_seq := nxt\<rparr>))"

definition allocate_graph_run ::
  "RuntimeId \<Rightarrow> id_allocator \<Rightarrow> overflow_error + (GraphRunId \<times> id_allocator)" where
  "allocate_graph_run r a =
     (case allocate_sequence (graph_run_seq a) ''GraphRunId'' of
        Inl e \<Rightarrow> Inl e
      | Inr (s, nxt) \<Rightarrow> Inr (GraphRunId r s, a\<lparr>graph_run_seq := nxt\<rparr>))"

definition allocate_runtime_id :: "u64 \<Rightarrow> overflow_error + (RuntimeId \<times> u64)" where
  "allocate_runtime_id current =
     (if current = u64_max then Inl (Overflow_error ''RuntimeId sequence exhausted'')
      else Inr (RuntimeId (current + 1), current + 1))"

text \<open>A run of \<open>k\<close> task allocations: the identities handed out, and where it stopped.\<close>

fun allocate_tasks :: "nat \<Rightarrow> RuntimeId \<Rightarrow> id_allocator \<Rightarrow> TaskId list \<times> id_allocator" where
  "allocate_tasks 0 r a = ([], a)"
| "allocate_tasks (Suc k) r a =
     (case allocate_task r a of
        Inl e \<Rightarrow> allocate_tasks k r a
      | Inr (t, a') \<Rightarrow> (case allocate_tasks k r a' of (ts, a'') \<Rightarrow> (t # ts, a'')))"

lemma allocate_task_Inr:
  "allocate_task r a = Inr (t, a') \<longleftrightarrow>
     task_seq a \<noteq> u64_max \<and> t = TaskId r (task_seq a + 1) \<and> a' = a\<lparr>task_seq := task_seq a + 1\<rparr>"
  by (auto simp: allocate_task_def allocate_sequence_def split: if_splits)

lemma allocate_task_Inl:
  "allocate_task r a = Inl e \<longleftrightarrow>
     task_seq a = u64_max \<and> e = Overflow_error ''TaskId sequence exhausted''"
  by (auto simp: allocate_task_def allocate_sequence_def split: if_splits)

lemma allocate_tasks_spec:
  "allocate_tasks k r a = (ts, a') \<Longrightarrow>
     length ts = min k (2 ^ 64 - 1 - unat (task_seq a)) \<and>
     (\<forall>i < length ts. task_runtime (ts ! i) = r \<and>
        unat (task_sequence (ts ! i)) = unat (task_seq a) + Suc i)"
proof (induction k arbitrary: a ts a')
  case 0
  then show ?case by simp
next
  case (Suc k)
  show ?case
  proof (cases "task_seq a = u64_max")
    case True
    then have "allocate_task r a = Inl (Overflow_error ''TaskId sequence exhausted'')"
      by (simp add: allocate_task_Inl)
    then have "allocate_tasks k r a = (ts, a')"
      using Suc.prems by simp
    from Suc.IH [OF this] True show ?thesis by simp
  next
    case False
    let ?b = "a\<lparr>task_seq := task_seq a + 1\<rparr>"
    from False have step: "allocate_task r a = Inr (TaskId r (task_seq a + 1), ?b)"
      by (simp add: allocate_task_Inr)
    then obtain us where us: "allocate_tasks k r ?b = (us, a')"
      and ts: "ts = TaskId r (task_seq a + 1) # us"
      using Suc.prems by (auto split: prod.splits)
    have inc: "unat (task_seq a + 1) = Suc (unat (task_seq a))"
      using False by (rule unat_inc)
    have "unat (task_seq a) < 2 ^ 64 - 1"
      using inc unat_u64_bound [of "task_seq a + 1"] by linarith
    with Suc.IH [OF us] show ?thesis
      by (auto simp: ts inc nth_Cons split: nat.splits)
  qed
qed

end
