(* ===== verification/Metrics.thy ===== *)
theory Metrics
  imports Status Ids
begin

text \<open>
  Runtime metrics: \<open>include/astra/metrics.hpp\<close> and \<open>src/runtime/runtime_metrics.cpp\<close>.  The 41
  counters and 11 histograms of a shard are functions from a datatype that names them, so that the
  field-by-field accumulation of the code is a fold over the fields in the code's order.
\<close>

section \<open>Saturating arithmetic\<close>

text \<open>Each compare-exchange loop takes effect at its one successful exchange.\<close>

definition saturating_inc :: "u64 \<Rightarrow> u64" where
  "saturating_inc cur = (if cur < u64_max then cur + 1 else cur)"

definition saturating_dec :: "u64 \<Rightarrow> u64" where
  "saturating_dec cur = (if cur \<noteq> 0 then cur - 1 else cur)"

definition saturating_add :: "u64 \<Rightarrow> u64 \<Rightarrow> u64" where
  "saturating_add cur val =
     (if val = 0 then cur
      else let nxt = (if u64_max - cur < val then u64_max else cur + val)
           in if cur = u64_max then cur else nxt)"

definition add_to :: "u64 \<Rightarrow> u64 \<Rightarrow> bool \<Rightarrow> u64 \<times> bool" where
  "add_to dst src any_saturated =
     (if src = u64_max \<or> u64_max - dst < src then (u64_max, True) else (dst + src, any_saturated))"

lemma unat_max_minus: "unat (u64_max - x) = 2 ^ 64 - 1 - unat (x :: u64)"
proof -
  have "x \<le> u64_max" by simp
  then show ?thesis by (simp add: unat_sub)
qed

lemma max_minus_less_iff: "u64_max - dst < src \<longleftrightarrow> 2 ^ 64 - 1 < unat dst + unat (src :: u64)"
  using unat_u64_bound [of dst] unat_u64_bound [of src]
  by (auto simp: word_less_nat_alt unat_max_minus)

lemma unat_add_u64: "unat dst + unat src < 2 ^ 64 \<Longrightarrow> unat (dst + src :: u64) = unat dst + unat src"
  by (simp add: unat_word_ariths)

lemma unat_saturating_inc: "unat (saturating_inc c) = min (2 ^ 64 - 1) (unat c + 1)"
proof (cases "c = u64_max")
  case False
  then show ?thesis
    using unat_inc [OF False] unat_u64_bound [of "c + 1"] by (simp add: saturating_inc_def)
qed (simp add: saturating_inc_def)

lemma unat_saturating_dec: "unat (saturating_dec c) = unat c - 1"
  by (auto simp: saturating_dec_def unat_dec)

lemma unat_saturating_add: "unat (saturating_add c v) = min (2 ^ 64 - 1) (unat c + unat v)"
  using unat_u64_bound [of c]
  by (auto simp: saturating_add_def Let_def max_minus_less_iff unat_add_u64 min_def)

lemma unat_add_to: "unat (fst (add_to dst src b)) = min (2 ^ 64 - 1) (unat dst + unat src)"
  using unat_u64_bound [of dst] unat_u64_bound [of src]
  by (auto simp: add_to_def max_minus_less_iff unat_add_u64 min_def)

lemma add_to_flag:
  "snd (add_to dst src b) \<longleftrightarrow> b \<or> src = u64_max \<or> 2 ^ 64 - 1 < unat dst + unat src"
  by (auto simp: add_to_def max_minus_less_iff)

section \<open>Histograms\<close>

record Log2Histogram =
  h_count :: u64
  h_sum_ns :: u64
  h_max_ns :: u64
  h_buckets :: "u64 list"

definition empty_histogram :: Log2Histogram where
  "empty_histogram = \<lparr>h_count = 0, h_sum_ns = 0, h_max_ns = 0, h_buckets = replicate 64 0\<rparr>"

definition clzll :: "u64 \<Rightarrow> nat" where
  "clzll w = length (takeWhile Not (map (bit w) (rev [0..<64])))"

definition bucket_for_ns :: "u64 \<Rightarrow> nat" where
  "bucket_for_ns ns =
     (if ns \<le> 1 then 0 else let k = 63 - clzll ns in if 63 < k then 63 else k)"

definition record_ns :: "u64 \<Rightarrow> Log2Histogram \<Rightarrow> Log2Histogram" where
  "record_ns ns h =
     (let b = bucket_for_ns ns
      in \<lparr>h_count = saturating_inc (h_count h),
          h_sum_ns = saturating_add (h_sum_ns h) ns,
          h_max_ns = (if h_max_ns h < ns then ns else h_max_ns h),
          h_buckets = (h_buckets h)[b := saturating_inc (h_buckets h ! b)]\<rparr>)"

text \<open>The builtin counts the zeros above the highest set bit.\<close>

lemma clzll_highest_bit:
  assumes "w \<noteq> 0"
  shows "clzll w < 64 \<and> bit w (63 - clzll w) \<and> (\<forall>j. 63 - clzll w < j \<longrightarrow> \<not> bit w j)"
proof -
  let ?xs = "map (bit w) (rev [0..<64])"
  have nth: "?xs ! i = bit w (63 - i)" if "i < 64" for i
    using that by (simp add: rev_nth)
  obtain k where "bit w k"
    using assms by (metis bit_eqI bit_0_eq bot_apply bot_bool_def)
  then have k: "k < 64"
    by (auto dest: bit_imp_le_length)
  then have "?xs ! (63 - k)" "63 - k < length ?xs"
    using \<open>bit w k\<close> nth [of "63 - k"] by simp_all
  then have ex: "\<exists>x \<in> set ?xs. \<not> Not x"
    using nth_mem by blast
  have "takeWhile Not ?xs \<noteq> ?xs"
    using ex unfolding takeWhile_eq_all_conv by blast
  then have "length (takeWhile Not ?xs) \<noteq> length ?xs"
    by (metis takeWhile_eq_take take_all_iff order_refl)
  then have lt: "clzll w < 64"
    using length_takeWhile_le [of Not ?xs] by (simp add: clzll_def)
  have "\<not> Not (?xs ! clzll w)"
    using nth_length_takeWhile [of Not ?xs] lt by (simp add: clzll_def)
  then have hit: "bit w (63 - clzll w)"
    using nth [OF lt] by simp
  have "\<not> bit w j" if j: "63 - clzll w < j" for j
  proof (cases "j < 64")
    case True
    then have i: "63 - j < clzll w"
      using j lt by linarith
    then have "Not (takeWhile Not ?xs ! (63 - j))"
      unfolding clzll_def using nth_mem set_takeWhileD by fastforce
    then show ?thesis
      using i nth [of "63 - j"] True lt takeWhile_nth [of "63 - j" Not ?xs]
      by (simp add: clzll_def)
  next
    case False
    then show ?thesis by (auto dest: bit_imp_le_length)
  qed
  with lt hit show ?thesis by blast
qed

lemma bucket_bounds:
  assumes "1 \<le> ns"
  shows "2 ^ bucket_for_ns ns \<le> unat ns \<and> unat ns < 2 ^ Suc (bucket_for_ns ns)"
proof (cases "ns \<le> 1")
  case True
  with assms have "ns = 1" by simp
  then show ?thesis by (simp add: bucket_for_ns_def)
next
  case False
  let ?k = "63 - clzll ns"
  have b: "bucket_for_ns ns = ?k"
    using False by (simp add: bucket_for_ns_def Let_def)
  from assms have "ns \<noteq> 0" by auto
  note hb = clzll_highest_bit [OF this]
  have "take_bit (Suc ?k) ns = ns"
    using hb by (auto intro!: bit_word_eqI simp: bit_take_bit_iff less_Suc_eq_le simp flip: not_less)
  then have "take_bit (Suc ?k) (unat ns) = unat ns"
    by (metis unsigned_take_bit_eq)
  then have up: "unat ns < 2 ^ Suc ?k"
    by (metis take_bit_nat_less_exp)
  have "bit (unat ns) ?k"
    using hb by (simp add: bit_unsigned_iff)
  then have "2 ^ ?k \<le> unat ns"
    by (metis bit_take_bit_iff take_bit_nat_eq_self less_irrefl not_le)
  with up b show ?thesis by simp
qed

lemma bucket_lt_64: "bucket_for_ns ns < 64"
  by (simp add: bucket_for_ns_def Let_def)

section \<open>Shards\<close>

datatype counter =
    N_submission_attempts | N_accepted_task_identities | N_rejected_lifecycle
     | N_rejected_capacity | N_blocking_submit_waits | N_blocking_submit_wakeups
     | N_first_starts | N_resume_segments | N_succeeded | N_failed | N_cancelled_before_start
     | N_cancelled_cooperative | N_unobserved_failures | N_global_claims | N_local_claims
     | N_steal_attempts | N_steal_successes | N_steal_failures | N_worker_parks | N_worker_wakes
     | N_explicit_yields | N_coroutine_suspends | N_timer_registrations | N_timer_fires
     | N_timer_cancellations | N_graph_admission_attempts | N_graph_runs_accepted
     | N_graph_runs_rejected | N_graph_nodes_terminal | N_deadline_admitted | N_deadline_met
     | N_deadline_missed | N_deadline_cancelled_before_start | N_task_wait_calls
     | N_graph_wait_calls | N_wait_for_timeouts | N_same_runtime_helping_waits
     | N_cross_runtime_helping_waits | N_coroutine_await_registrations
     | N_direct_self_wait_rejections | N_helping_depth_rejections

text \<open>The accumulation order of \<open>fill_counters_and_histograms\<close>.\<close>

definition counter_order :: "counter list" where
  "counter_order =
    [N_submission_attempts, N_accepted_task_identities, N_rejected_lifecycle
     , N_rejected_capacity, N_blocking_submit_waits, N_blocking_submit_wakeups, N_first_starts
     , N_resume_segments, N_succeeded, N_failed, N_cancelled_before_start
     , N_cancelled_cooperative, N_unobserved_failures, N_global_claims, N_local_claims
     , N_steal_attempts, N_steal_successes, N_steal_failures, N_worker_parks, N_worker_wakes
     , N_explicit_yields, N_coroutine_suspends, N_timer_registrations, N_timer_fires
     , N_timer_cancellations, N_graph_admission_attempts, N_graph_runs_accepted
     , N_graph_runs_rejected, N_graph_nodes_terminal, N_deadline_admitted, N_deadline_met
     , N_deadline_missed, N_deadline_cancelled_before_start, N_task_wait_calls
     , N_graph_wait_calls, N_wait_for_timeouts, N_same_runtime_helping_waits
     , N_cross_runtime_helping_waits, N_coroutine_await_registrations
     , N_direct_self_wait_rejections, N_helping_depth_rejections]"

datatype hist_kind =
    H_ready_queue_wait | H_execution_segment | H_task_wall_time | H_blocking_admission_wait
     | H_timer_wake_lateness | H_deadline_start_lateness | H_worker_park_duration
     | H_runtime_join_latency | H_thread_wait_duration | H_helping_wait_duration
     | H_coroutine_await_duration

definition hist_order :: "hist_kind list" where
  "hist_order =
    [H_ready_queue_wait, H_execution_segment, H_task_wall_time, H_blocking_admission_wait
     , H_timer_wake_lateness, H_deadline_start_lateness, H_worker_park_duration
     , H_runtime_join_latency, H_thread_wait_duration, H_helping_wait_duration
     , H_coroutine_await_duration]"

lemma counter_order_complete [simp]: "c \<in> set counter_order"
  by (cases c) (simp_all add: counter_order_def)

lemma counter_order_distinct: "distinct counter_order"
  by (simp add: counter_order_def)

lemma hist_order_complete [simp]: "k \<in> set hist_order"
  by (cases k) (simp_all add: hist_order_def)

lemma hist_order_distinct: "distinct hist_order"
  by (simp add: hist_order_def)

record WorkerShard =
  counters :: "counter \<Rightarrow> u64"
  histograms :: "hist_kind \<Rightarrow> Log2Histogram"

definition empty_shard :: WorkerShard where
  "empty_shard = \<lparr>counters = (\<lambda>_. 0), histograms = (\<lambda>_. empty_histogram)\<rparr>"

definition shard_inc :: "counter \<Rightarrow> WorkerShard \<Rightarrow> WorkerShard" where
  "shard_inc c s = s\<lparr>counters := (counters s)(c := saturating_inc (counters s c))\<rparr>"

definition shard_record :: "hist_kind \<Rightarrow> u64 \<Rightarrow> WorkerShard \<Rightarrow> WorkerShard" where
  "shard_record k ns s = s\<lparr>histograms := (histograms s)(k := record_ns ns (histograms s k))\<rparr>"

record RuntimeMetrics =
  level :: MetricsLevel
  worker_shards :: "WorkerShard list"
  control_shard :: "WorkerShard option"
  owner_runtime_id :: RuntimeId
  waiting_tasks :: u64
  ready_tasks :: u64
  running_tasks :: u64
  suspended_tasks :: u64
  active_graph_runs :: u64

definition metrics_init :: "MetricsLevel \<Rightarrow> nat \<Rightarrow> RuntimeId \<Rightarrow> RuntimeMetrics" where
  "metrics_init lvl workers owner =
     \<lparr>level = lvl,
      worker_shards = (if lvl \<noteq> Off then replicate workers empty_shard else []),
      control_shard = (if lvl \<noteq> Off then Some empty_shard else None),
      owner_runtime_id = owner,
      waiting_tasks = 0, ready_tasks = 0, running_tasks = 0, suspended_tasks = 0,
      active_graph_runs = 0\<rparr>"

text \<open>
  The thread-locals that name the worker a thread is: its index, its runtime's identity and its
  runtime object (a null pointer is \<open>None\<close>).
\<close>

record thread_context =
  current_worker_index :: nat
  current_worker_runtime_id :: RuntimeId
  current_worker_impl :: "nat option"

definition foreign_thread :: thread_context where
  "foreign_thread = \<lparr>current_worker_index = 0, current_worker_runtime_id = no_runtime,
     current_worker_impl = None\<rparr>"

datatype shard_choice = Worker_shard nat | Control_shard | Fallback_shard

definition shard_for_current :: "thread_context \<Rightarrow> RuntimeMetrics \<Rightarrow> shard_choice" where
  "shard_for_current ctx m =
     (let w_idx = current_worker_index ctx;
          on_owned_worker = current_worker_impl ctx \<noteq> None \<and>
            current_worker_runtime_id ctx = owner_runtime_id m
      in if on_owned_worker \<and> w_idx < length (worker_shards m) then Worker_shard w_idx
         else if control_shard m \<noteq> None then Control_shard
         else Fallback_shard)"

text \<open>
  Writing through the chosen reference.  The fallback shard is a static of the process that no
  snapshot reads, so a write to it leaves the runtime's metrics as they are.
\<close>

definition on_current_shard ::
  "thread_context \<Rightarrow> (WorkerShard \<Rightarrow> WorkerShard) \<Rightarrow> RuntimeMetrics \<Rightarrow> RuntimeMetrics" where
  "on_current_shard ctx f m =
     (case shard_for_current ctx m of
        Worker_shard i \<Rightarrow> m\<lparr>worker_shards := (worker_shards m)[i := f (worker_shards m ! i)]\<rparr>
      | Control_shard \<Rightarrow> m\<lparr>control_shard := map_option f (control_shard m)\<rparr>
      | Fallback_shard \<Rightarrow> m)"

definition count_event :: "thread_context \<Rightarrow> counter \<Rightarrow> RuntimeMetrics \<Rightarrow> RuntimeMetrics" where
  "count_event ctx c = on_current_shard ctx (shard_inc c)"

definition record_duration ::
  "thread_context \<Rightarrow> hist_kind \<Rightarrow> u64 \<Rightarrow> RuntimeMetrics \<Rightarrow> RuntimeMetrics" where
  "record_duration ctx k ns = on_current_shard ctx (shard_record k ns)"

section \<open>Snapshots\<close>

definition accumulate_shard ::
  "WorkerShard \<Rightarrow> (counter \<Rightarrow> u64) \<times> bool \<Rightarrow> (counter \<Rightarrow> u64) \<times> bool" where
  "accumulate_shard s =
     fold (\<lambda>c (dst, any_saturated).
         case add_to (dst c) (counters s c) any_saturated of (v, b) \<Rightarrow> (dst(c := v), b))
       counter_order"

definition accumulate_hist ::
  "Log2Histogram \<Rightarrow> Log2Histogram \<times> bool \<Rightarrow> Log2Histogram \<times> bool" where
  "accumulate_hist src = (\<lambda>(dst, b0).
     (case add_to (h_count dst) (h_count src) b0 of (cnt, b1) \<Rightarrow>
      case add_to (h_sum_ns dst) (h_sum_ns src) b1 of (sm, b2) \<Rightarrow>
      case fold (\<lambda>i (bs, b). case add_to (bs ! i) (h_buckets src ! i) b of (v, b') \<Rightarrow> (bs[i := v], b'))
             [0..<64] (h_buckets dst, b2) of (bs, b3) \<Rightarrow>
      (\<lparr>h_count = cnt, h_sum_ns = sm,
        h_max_ns = (if h_max_ns dst < h_max_ns src then h_max_ns src else h_max_ns dst),
        h_buckets = bs\<rparr>, b3)))"

definition accumulate_histograms ::
  "WorkerShard \<Rightarrow> (hist_kind \<Rightarrow> Log2Histogram) \<times> bool \<Rightarrow> (hist_kind \<Rightarrow> Log2Histogram) \<times> bool" where
  "accumulate_histograms s =
     fold (\<lambda>k (dst, b). case accumulate_hist (histograms s k) (dst k, b) of (h, b') \<Rightarrow> (dst(k := h), b'))
       hist_order"

definition all_shards :: "RuntimeMetrics \<Rightarrow> WorkerShard list" where
  "all_shards m = (case control_shard m of None \<Rightarrow> [] | Some s \<Rightarrow> [s]) @ worker_shards m"

definition fill_counters_and_histograms ::
  "RuntimeMetrics \<Rightarrow> (counter \<Rightarrow> u64) \<times> (hist_kind \<Rightarrow> Log2Histogram) \<times> bool \<Rightarrow>
     (counter \<Rightarrow> u64) \<times> (hist_kind \<Rightarrow> Log2Histogram) \<times> bool" where
  "fill_counters_and_histograms m = (\<lambda>(cs, hs, b).
     (case fold accumulate_shard (all_shards m) (cs, b) of (cs', b1) \<Rightarrow>
      if level m \<noteq> Detailed then (cs', hs, b1)
      else case fold accumulate_histograms (all_shards m) (hs, b1) of (hs', b2) \<Rightarrow> (cs', hs', b2)))"

record task_gauges =
  g_waiting_tasks :: u64
  g_ready_tasks :: u64
  g_running_tasks :: u64
  g_suspended_tasks :: u64
  g_active_graph_runs :: u64

definition fill_task_gauges :: "RuntimeMetrics \<Rightarrow> task_gauges" where
  "fill_task_gauges m =
     \<lparr>g_waiting_tasks = waiting_tasks m, g_ready_tasks = ready_tasks m,
      g_running_tasks = running_tasks m, g_suspended_tasks = suspended_tasks m,
      g_active_graph_runs = active_graph_runs m\<rparr>"

definition empty_totals :: "(counter \<Rightarrow> u64) \<times> (hist_kind \<Rightarrow> Log2Histogram) \<times> bool" where
  "empty_totals = (\<lambda>_. 0, \<lambda>_. empty_histogram, False)"

definition snapshot_counter :: "RuntimeMetrics \<Rightarrow> counter \<Rightarrow> u64" where
  "snapshot_counter m c = fst (fill_counters_and_histograms m empty_totals) c"

text \<open>What the accumulation computes, field by field.\<close>

lemma fst_add_to_flag: "fst (add_to d v b) = fst (add_to d v False)"
  by (simp add: add_to_def)

lemma fold_add_fields:
  assumes "distinct cs"
  shows "fold (\<lambda>c (dst, b). case add_to (dst c) (f c) b of (v, b') \<Rightarrow> (dst(c := v), b')) cs (d, b) =
    (\<lambda>c. if c \<in> set cs then fst (add_to (d c) (f c) False) else d c,
     b \<or> (\<exists>c \<in> set cs. snd (add_to (d c) (f c) False)))"
  using assms
proof (induction cs arbitrary: d b)
  case Nil
  then show ?case by simp
next
  case (Cons x cs)
  obtain v b' where vb: "add_to (d x) (f x) b = (v, b')"
    by (cases "add_to (d x) (f x) b")
  have v: "v = fst (add_to (d x) (f x) False)"
    using fst_add_to_flag [of "d x" "f x" b] vb by simp
  have b': "b' \<longleftrightarrow> b \<or> snd (add_to (d x) (f x) False)"
    using vb by (auto simp: add_to_def split: if_splits)
  from Cons.prems have x: "x \<notin> set cs" and d: "distinct cs" by simp_all
  let ?d = "d(x := v)"
  have "(if c \<in> set cs then fst (add_to (?d c) (f c) False) else ?d c) =
        (if c \<in> set (x # cs) then fst (add_to (d c) (f c) False) else d c)" for c
    using x by (auto simp: v)
  moreover have "(\<exists>c \<in> set cs. snd (add_to (?d c) (f c) False)) =
      (\<exists>c \<in> set cs. snd (add_to (d c) (f c) False))"
    using x by (metis fun_upd_other)
  ultimately show ?case
    by (simp add: vb Cons.IH [OF d] b' disj_assoc del: fun_upd_apply)
qed

lemma accumulate_shard_eq:
  "accumulate_shard s (d, b) =
    (\<lambda>c. fst (add_to (d c) (counters s c) False),
     b \<or> (\<exists>c. snd (add_to (d c) (counters s c) False)))"
  unfolding accumulate_shard_def
  by (subst fold_add_fields [OF counter_order_distinct]) (simp add: Bex_def)

lemma fold_accumulate_shard:
  "unat (fst (fold accumulate_shard ss (d, b)) c) =
     min (2 ^ 64 - 1) (unat (d c) + (\<Sum>s\<leftarrow>ss. unat (counters s c)))"
proof (induction ss arbitrary: d b)
  case Nil
  then show ?case using unat_u64_bound [of "d c"] by simp
next
  case (Cons s ss)
  then show ?case by (simp add: accumulate_shard_eq unat_add_to min_def)
qed

lemma fold_accumulate_shard_flag:
  "\<not> snd (fold accumulate_shard ss (d, b)) \<Longrightarrow>
     \<not> b \<and> unat (d c) + (\<Sum>s\<leftarrow>ss. unat (counters s c)) \<le> 2 ^ 64 - 1"
proof (induction ss arbitrary: d b)
  case Nil
  then show ?case using unat_u64_bound [of "d c"] by simp
next
  case (Cons s ss)
  from Cons.prems have "\<not> snd (fold accumulate_shard ss (accumulate_shard s (d, b)))" by simp
  then have nf: "\<not> (b \<or> (\<exists>c. snd (add_to (d c) (counters s c) False)))"
    and le: "unat (fst (add_to (d c) (counters s c) False)) + (\<Sum>s\<leftarrow>ss. unat (counters s c)) \<le> 2 ^ 64 - 1"
    using Cons.IH unfolding accumulate_shard_eq by blast+
  from nf have "\<not> snd (add_to (d c) (counters s c) False)" "\<not> b" by blast+
  then have "unat (d c) + unat (counters s c) \<le> 2 ^ 64 - 1" "\<not> b"
    by (simp_all add: add_to_flag)
  with le show ?case by (simp add: unat_add_to)
qed

lemma snapshot_counter_total:
  "unat (snapshot_counter m c) = min (2 ^ 64 - 1) (\<Sum>s\<leftarrow>all_shards m. unat (counters s c))"
  using fold_accumulate_shard [of "all_shards m" "\<lambda>_. 0" False c]
  by (simp add: snapshot_counter_def fill_counters_and_histograms_def empty_totals_def
      split_beta)

section \<open>Histories of events\<close>

text \<open>A history of counted events, each on whatever thread it happened.\<close>

definition count_events :: "(thread_context \<times> counter) list \<Rightarrow> RuntimeMetrics \<Rightarrow> RuntimeMetrics" where
  "count_events es m = fold (\<lambda>(ctx, c). count_event ctx c) es m"

definition shard_total :: "RuntimeMetrics \<Rightarrow> counter \<Rightarrow> nat" where
  "shard_total m c = (\<Sum>s\<leftarrow>all_shards m. unat (counters s c))"

lemma sum_list_update_nat:
  fixes f :: "'a \<Rightarrow> nat"
  assumes "i < length xs"
  shows "(\<Sum>x\<leftarrow>xs[i := y]. f x) + f (xs ! i) = (\<Sum>x\<leftarrow>xs. f x) + f y"
  using assms
proof (induction xs arbitrary: i)
  case (Cons x xs)
  then show ?case by (cases i) auto
qed simp

lemma nth_le_sum_list_nat:
  fixes f :: "'a \<Rightarrow> nat"
  assumes "i < length xs"
  shows "f (xs ! i) \<le> (\<Sum>x\<leftarrow>xs. f x)"
proof (rule member_le_sum_list)
  show "f (xs ! i) \<in> set (map f xs)"
    using assms by simp
qed simp

lemma unat_shard_inc:
  "unat (counters (shard_inc k s) c) =
     (if k = c then min (2 ^ 64 - 1) (unat (counters s c) + 1) else unat (counters s c))"
  by (simp add: shard_inc_def unat_saturating_inc)

lemma count_event_total:
  assumes "control_shard m \<noteq> None"
  shows "min (2 ^ 64 - 1) (shard_total (count_event ctx k m) c) =
     min (2 ^ 64 - 1) (shard_total m c + (if k = c then 1 else 0)) \<and>
     control_shard (count_event ctx k m) \<noteq> None"
proof -
  from assms obtain cs where cs: "control_shard m = Some cs" by auto
  show ?thesis
  proof (cases "shard_for_current ctx m")
    case (Worker_shard i)
    then have i: "i < length (worker_shards m)"
      by (auto simp: shard_for_current_def Let_def split: if_splits)
    show ?thesis
      using sum_list_update_nat [OF i, of "\<lambda>s. unat (counters s c)" "shard_inc k (worker_shards m ! i)"]
        nth_le_sum_list_nat [OF i, of "\<lambda>s. unat (counters s c)"]
        unat_u64_bound [of "counters (worker_shards m ! i) c"]
      by (auto simp: count_event_def on_current_shard_def Worker_shard shard_total_def all_shards_def
          cs unat_shard_inc min_def split: if_splits)
  next
    case Control_shard
    show ?thesis
      using unat_u64_bound [of "counters cs c"]
      by (auto simp: count_event_def on_current_shard_def Control_shard shard_total_def
          all_shards_def cs unat_shard_inc min_def)
  next
    case Fallback_shard
    then show ?thesis
      using cs by (auto simp: shard_for_current_def Let_def split: if_splits)
  qed
qed

lemma count_events_total:
  assumes "control_shard m \<noteq> None"
  shows "min (2 ^ 64 - 1) (shard_total (count_events es m) c) =
     min (2 ^ 64 - 1) (shard_total m c + length (filter (\<lambda>e. snd e = c) es))"
  using assms
proof (induction es arbitrary: m)
  case Nil
  then show ?case by (simp add: count_events_def)
next
  case (Cons e es)
  obtain ctx k where e: "e = (ctx, k)" by (cases e)
  note step = count_event_total [OF Cons.prems, of ctx k c]
  have "count_events (e # es) m = count_events es (count_event ctx k m)"
    by (simp add: count_events_def e)
  with Cons.IH [of "count_event ctx k m"] step show ?case
    by (auto simp: e min_def split: if_splits)
qed

lemma shard_total_init: "shard_total (metrics_init lvl n owner) c = 0"
  by (simp add: shard_total_def all_shards_def metrics_init_def empty_shard_def sum_list_replicate)

lemma snapshot_counter_history:
  assumes "lvl \<noteq> Off"
  shows "unat (snapshot_counter (count_events es (metrics_init lvl n owner)) c) =
    min (2 ^ 64 - 1) (length (filter (\<lambda>e. snd e = c) es))"
proof -
  have "control_shard (metrics_init lvl n owner) \<noteq> None"
    using assms by (simp add: metrics_init_def)
  from count_events_total [OF this, of es c] show ?thesis
    by (simp add: snapshot_counter_total shard_total_init flip: shard_total_def)
qed

lemma count_events_off: "count_events es (metrics_init Off n owner) = metrics_init Off n owner"
proof (induction es)
  case (Cons e es)
  moreover have "count_event ctx c (metrics_init Off n owner) = metrics_init Off n owner" for ctx c
    by (simp add: count_event_def on_current_shard_def shard_for_current_def metrics_init_def)
  ultimately show ?case
    by (cases e) (simp add: count_events_def)
qed (simp add: count_events_def)

text \<open>A history of recorded durations in one histogram.\<close>

lemma record_ns_history:
  fixes xs :: "u64 list"
  assumes "h = fold record_ns xs empty_histogram"
  shows "length (h_buckets h) = 64 \<and>
    unat (h_count h) = min (2 ^ 64 - 1) (length xs) \<and>
    unat (h_sum_ns h) = min (2 ^ 64 - 1) (\<Sum>x\<leftarrow>xs. unat x) \<and>
    h_max_ns h = (if xs = [] then 0 else Max (set xs)) \<and>
    (\<forall>b < 64. unat (h_buckets h ! b) = min (2 ^ 64 - 1) (length (filter (\<lambda>x. bucket_for_ns x = b) xs)))"
  using assms
proof (induction xs arbitrary: h rule: rev_induct)
  case Nil
  then show ?case by (simp add: empty_histogram_def)
next
  case (snoc x xs)
  let ?g = "fold record_ns xs empty_histogram"
  note IH = snoc.IH [OF refl]
  have h: "h = record_ns x ?g" using snoc.prems by simp
  have len: "length (h_buckets ?g) = 64"
    and cnt: "unat (h_count ?g) = min (2 ^ 64 - 1) (length xs)"
    and sm: "unat (h_sum_ns ?g) = min (2 ^ 64 - 1) (\<Sum>x\<leftarrow>xs. unat x)"
    and mx: "h_max_ns ?g = (if xs = [] then 0 else Max (set xs))"
    and bs: "\<And>b. b < 64 \<Longrightarrow> unat (h_buckets ?g ! b) =
               min (2 ^ 64 - 1) (length (filter (\<lambda>x. bucket_for_ns x = b) xs))"
    using IH by simp_all
  have "length (h_buckets h) = 64"
    by (simp add: h record_ns_def Let_def len)
  moreover have "unat (h_count h) = min (2 ^ 64 - 1) (length (xs @ [x]))"
    by (simp add: h record_ns_def Let_def unat_saturating_inc cnt min_def)
  moreover have "unat (h_sum_ns h) = min (2 ^ 64 - 1) (\<Sum>x\<leftarrow>xs @ [x]. unat x)"
    by (simp add: h record_ns_def Let_def unat_saturating_add sm min_def)
  moreover have "h_max_ns h = (if xs @ [x] = [] then 0 else Max (set (xs @ [x])))"
  proof (cases "xs = []")
    case True
    then show ?thesis by (auto simp: h record_ns_def Let_def empty_histogram_def word_gt_0)
  next
    case False
    then have "Max (set (xs @ [x])) = max x (Max (set xs))" by simp
    moreover have "h_max_ns ?g = Max (set xs)" using mx False by simp
    moreover have "h_max_ns h = (if h_max_ns ?g < x then x else h_max_ns ?g)"
      by (simp add: h record_ns_def Let_def)
    ultimately show ?thesis by (metis max_def not_le snoc_eq_iff_butlast)
  qed
  moreover have "unat (h_buckets h ! b) =
      min (2 ^ 64 - 1) (length (filter (\<lambda>x. bucket_for_ns x = b) (xs @ [x])))" if b: "b < 64" for b
  proof (cases "bucket_for_ns x = b")
    case True
    then show ?thesis
      using b by (simp add: h record_ns_def Let_def unat_saturating_inc bs len min_def)
  next
    case False
    then show ?thesis
      using b by (simp add: h record_ns_def Let_def bs)
  qed
  ultimately show ?case by blast
qed

end
