(* ===== verification/Trace_Event.thy ===== *)
theory Trace_Event
  imports Ids
begin

text \<open>
  The trace vocabulary of \<open>include/astra/trace.hpp\<close>: categories as bit masks, the versioned event
  kinds with their codes and categories, the fixed-size event record, the capture options, and the
  emission descriptor of \<open>src/observability/trace_collector.hpp\<close>.
\<close>

section \<open>Categories\<close>

type_synonym TraceCategory = u64

definition Cat_None :: TraceCategory where "Cat_None = 0"
definition TaskLifecycle :: TraceCategory where "TaskLifecycle = 0x1"
definition QueueScheduling :: TraceCategory where "QueueScheduling = 0x2"
definition Cat_StealSuccess :: TraceCategory where "Cat_StealSuccess = 0x4"
definition Cat_StealAttempt :: TraceCategory where "Cat_StealAttempt = 0x8"
definition WaitAwait :: TraceCategory where "WaitAwait = 0x10"
definition Coroutine :: TraceCategory where "Coroutine = 0x20"
definition Graph :: TraceCategory where "Graph = 0x40"
definition Timer :: TraceCategory where "Timer = 0x80"
definition Deadline :: TraceCategory where "Deadline = 0x100"
definition RuntimeLifecycle :: TraceCategory where "RuntimeLifecycle = 0x200"
definition Verbose :: TraceCategory where "Verbose = 0x400"
definition Cat_Default :: TraceCategory where "Cat_Default = 0x3F7"
definition Cat_All :: TraceCategory where "Cat_All = 0x7FF"

lemmas category_defs =
  Cat_None_def TaskLifecycle_def QueueScheduling_def Cat_StealSuccess_def Cat_StealAttempt_def
  WaitAwait_def Coroutine_def Graph_def Timer_def Deadline_def RuntimeLifecycle_def Verbose_def
  Cat_Default_def Cat_All_def

definition has_category :: "TraceCategory \<Rightarrow> TraceCategory \<Rightarrow> bool" where
  "has_category m cat \<longleftrightarrow> m AND cat \<noteq> Cat_None"

datatype TraceProducerKind = Worker | ExternalControl | Reaper

record TraceOptions =
  opt_events_per_worker :: u64
  opt_external_control_events :: u64
  opt_events_per_reaper_producer :: u64
  opt_categories :: TraceCategory

definition default_trace_options :: TraceOptions where
  "default_trace_options =
     \<lparr>opt_events_per_worker = 16384, opt_external_control_events = 65536,
      opt_events_per_reaper_producer = 4096, opt_categories = Cat_Default\<rparr>"

section \<open>Events\<close>

datatype TraceEventKind =
    Admission | Rejected | TaskReady | TaskClaimed | TaskFirstStart | TaskSegmentEnd
  | TaskTerminal | CancelRequested | LocalClaim | GlobalClaim | StealSuccess | StealAttempt
  | WorkerPark | WorkerWake | CoroutineSuspend | CoroutineResume | CoroutineYield
  | TimerRegister | TimerFire | TimerCancel | GraphAccepted | GraphTerminal
  | NodeDependencyRelease | DeadlineMet | DeadlineMissed | WaitBegin | WaitEnd | AwaitArmed
  | AwaitTriggered | AwaitResumed | RuntimeHandoff | RuntimeJoinReady | RuntimeJoined
  | FinalizationBegin | FinalizationEscalate | CoordinatorExit | FinalizationComplete
  | UnobservedFailure

fun kind_code :: "TraceEventKind \<Rightarrow> u16" where
  "kind_code Admission = 1"
| "kind_code Rejected = 2"
| "kind_code TaskReady = 3"
| "kind_code TaskClaimed = 4"
| "kind_code TaskFirstStart = 5"
| "kind_code TaskSegmentEnd = 6"
| "kind_code TaskTerminal = 7"
| "kind_code CancelRequested = 8"
| "kind_code LocalClaim = 9"
| "kind_code GlobalClaim = 10"
| "kind_code StealSuccess = 11"
| "kind_code StealAttempt = 12"
| "kind_code WorkerPark = 13"
| "kind_code WorkerWake = 14"
| "kind_code CoroutineSuspend = 15"
| "kind_code CoroutineResume = 16"
| "kind_code CoroutineYield = 17"
| "kind_code TimerRegister = 18"
| "kind_code TimerFire = 19"
| "kind_code TimerCancel = 20"
| "kind_code GraphAccepted = 21"
| "kind_code GraphTerminal = 22"
| "kind_code NodeDependencyRelease = 23"
| "kind_code DeadlineMet = 24"
| "kind_code DeadlineMissed = 25"
| "kind_code WaitBegin = 26"
| "kind_code WaitEnd = 27"
| "kind_code AwaitArmed = 28"
| "kind_code AwaitTriggered = 29"
| "kind_code AwaitResumed = 30"
| "kind_code RuntimeHandoff = 31"
| "kind_code RuntimeJoinReady = 32"
| "kind_code RuntimeJoined = 33"
| "kind_code FinalizationBegin = 34"
| "kind_code FinalizationEscalate = 35"
| "kind_code CoordinatorExit = 36"
| "kind_code FinalizationComplete = 37"
| "kind_code UnobservedFailure = 38"

fun category_for_kind :: "TraceEventKind \<Rightarrow> TraceCategory" where
  "category_for_kind Admission = TaskLifecycle"
| "category_for_kind Rejected = TaskLifecycle"
| "category_for_kind TaskReady = TaskLifecycle"
| "category_for_kind TaskClaimed = TaskLifecycle"
| "category_for_kind TaskFirstStart = TaskLifecycle"
| "category_for_kind TaskSegmentEnd = TaskLifecycle"
| "category_for_kind TaskTerminal = TaskLifecycle"
| "category_for_kind CancelRequested = TaskLifecycle"
| "category_for_kind LocalClaim = QueueScheduling"
| "category_for_kind GlobalClaim = QueueScheduling"
| "category_for_kind StealSuccess = QueueScheduling"
| "category_for_kind StealAttempt = Cat_StealAttempt"
| "category_for_kind WorkerPark = QueueScheduling"
| "category_for_kind WorkerWake = QueueScheduling"
| "category_for_kind CoroutineSuspend = Coroutine"
| "category_for_kind CoroutineResume = Coroutine"
| "category_for_kind CoroutineYield = Coroutine"
| "category_for_kind TimerRegister = Timer"
| "category_for_kind TimerFire = Timer"
| "category_for_kind TimerCancel = Timer"
| "category_for_kind GraphAccepted = Graph"
| "category_for_kind GraphTerminal = Graph"
| "category_for_kind NodeDependencyRelease = Graph"
| "category_for_kind DeadlineMet = Deadline"
| "category_for_kind DeadlineMissed = Deadline"
| "category_for_kind WaitBegin = WaitAwait"
| "category_for_kind WaitEnd = WaitAwait"
| "category_for_kind AwaitArmed = WaitAwait"
| "category_for_kind AwaitTriggered = WaitAwait"
| "category_for_kind AwaitResumed = WaitAwait"
| "category_for_kind RuntimeHandoff = RuntimeLifecycle"
| "category_for_kind RuntimeJoinReady = RuntimeLifecycle"
| "category_for_kind RuntimeJoined = RuntimeLifecycle"
| "category_for_kind FinalizationBegin = RuntimeLifecycle"
| "category_for_kind FinalizationEscalate = RuntimeLifecycle"
| "category_for_kind CoordinatorExit = RuntimeLifecycle"
| "category_for_kind FinalizationComplete = RuntimeLifecycle"
| "category_for_kind UnobservedFailure = RuntimeLifecycle"

record TraceEvent =
  ev_schema_version :: u32
  ev_category :: u16
  ev_kind :: u16
  ev_timestamp_ns :: u64
  ev_producer_id :: u64
  ev_local_sequence :: u64
  ev_runtime_id :: u64
  ev_task_id :: u64
  ev_target_runtime_id :: u64
  ev_target_task_id :: u64
  ev_graph_run_id :: u64
  ev_node_id :: u32
  ev_worker_id :: u32
  ev_segment_sequence :: u32
  ev_priority :: u16
  ev_source :: u16
  ev_task_state :: u16
  ev_outcome :: u16
  ev_reason :: u16
  ev_deadline_disposition :: u16

definition blank_event :: TraceEvent where
  "blank_event =
     \<lparr>ev_schema_version = 1, ev_category = 0, ev_kind = 0, ev_timestamp_ns = 0, ev_producer_id = 0,
      ev_local_sequence = 0, ev_runtime_id = 0, ev_task_id = 0, ev_target_runtime_id = 0, ev_target_task_id = 0,
      ev_graph_run_id = 0, ev_node_id = 0, ev_worker_id = 0, ev_segment_sequence = 0, ev_priority = 0,
      ev_source = 0, ev_task_state = 0, ev_outcome = 0, ev_reason = 0, ev_deadline_disposition = 0\<rparr>"

record TraceEmitDesc =
  d_kind :: TraceEventKind
  d_runtime_id :: RuntimeId
  d_task_sequence :: u64
  d_target_runtime_id :: RuntimeId
  d_target_task_sequence :: u64
  d_graph_run_sequence :: u64
  d_node_id :: u32
  d_worker_id :: u32
  d_segment_sequence :: u32
  d_priority :: u16
  d_source :: u16
  d_task_state :: u16
  d_outcome :: u16
  d_reason :: u16
  d_deadline_disposition :: u16

definition blank_desc :: TraceEmitDesc where
  "blank_desc =
     \<lparr>d_kind = Admission, d_runtime_id = no_runtime, d_task_sequence = 0,
      d_target_runtime_id = no_runtime, d_target_task_sequence = 0, d_graph_run_sequence = 0,
      d_node_id = 0, d_worker_id = 0, d_segment_sequence = 0, d_priority = 0, d_source = 0,
      d_task_state = 0, d_outcome = 0, d_reason = 0, d_deadline_disposition = 0\<rparr>"

definition event_of_desc :: "TraceEmitDesc \<Rightarrow> TraceEvent" where
  "event_of_desc d = blank_event
     \<lparr>ev_kind := kind_code (d_kind d),
      ev_runtime_id := runtime_value (d_runtime_id d),
      ev_task_id := d_task_sequence d,
      ev_target_runtime_id := runtime_value (d_target_runtime_id d),
      ev_target_task_id := d_target_task_sequence d,
      ev_graph_run_id := d_graph_run_sequence d,
      ev_node_id := d_node_id d,
      ev_worker_id := d_worker_id d,
      ev_segment_sequence := d_segment_sequence d,
      ev_priority := d_priority d,
      ev_source := d_source d,
      ev_task_state := d_task_state d,
      ev_outcome := d_outcome d,
      ev_reason := d_reason d,
      ev_deadline_disposition := d_deadline_disposition d\<rparr>"

text \<open>Kinds have distinct codes, and each belongs to exactly one known category bit.\<close>

lemma kind_code_range: "0 < kind_code k \<and> kind_code k \<le> 38"
  by (cases k) simp_all

lemma category_known: "category_for_kind k AND Cat_All = category_for_kind k"
  by (cases k) (simp_all add: category_defs)

lemma category_never_steal_success: "category_for_kind k \<noteq> Cat_StealSuccess"
  by (cases k) (simp_all add: category_defs)

end
