(* ===== verification/Diagnostics.thy ===== *)
theory Diagnostics
  imports Metrics Trace_Event
begin

text \<open>
  Runtime diagnostics (\<open>src/runtime/runtime_diagnostics.cpp\<close>) and the process-wide registry that
  finds them (\<open>src/runtime/runtime_registry.cpp\<close>).  The process state maps a runtime identity to the
  diagnostics object the registry points to, and logs the trace descriptors handed to a collector
  with the slot they go to.
\<close>

section \<open>The registry\<close>

record RuntimeDiagnostics =
  diag_runtime_id :: RuntimeId
  diag_metrics :: RuntimeMetrics
  diag_collector :: "nat option"
  diag_worker_slots :: "nat list"
  diag_external_slot :: "nat option"

record process =
  registry :: "u64 \<rightharpoonup> RuntimeDiagnostics"
  trace_log :: "(nat \<times> nat \<times> TraceEmitDesc) list"

definition register_runtime_instance :: "RuntimeId \<Rightarrow> RuntimeDiagnostics \<Rightarrow> process \<Rightarrow> process" where
  "register_runtime_instance rt d p = p\<lparr>registry := (registry p)(runtime_value rt \<mapsto> d)\<rparr>"

definition unregister_runtime_instance :: "RuntimeId \<Rightarrow> process \<Rightarrow> process" where
  "unregister_runtime_instance rt p = p\<lparr>registry := (registry p)(runtime_value rt := None)\<rparr>"

definition find_runtime_instance :: "RuntimeId \<Rightarrow> process \<Rightarrow> RuntimeDiagnostics option" where
  "find_runtime_instance rt p = registry p (runtime_value rt)"

definition new_diagnostics :: "RuntimeId \<Rightarrow> RuntimeMetrics \<Rightarrow> RuntimeDiagnostics" where
  "new_diagnostics rt m = \<lparr>diag_runtime_id = rt, diag_metrics = m, diag_collector = None,
     diag_worker_slots = [], diag_external_slot = None\<rparr>"

text \<open>
  Updating the metrics of a registered runtime through the pointer the registry returns.
  \<open>on_metrics\<close> is the guard of most recorders (nothing when the runtime is unknown or \<open>Off\<close>),
  \<open>on_detailed\<close> that of the duration recorders.
\<close>

definition update_metrics :: "RuntimeId \<Rightarrow> (RuntimeMetrics \<Rightarrow> RuntimeMetrics) \<Rightarrow> process \<Rightarrow> process" where
  "update_metrics rt f p =
     p\<lparr>registry := (registry p)(runtime_value rt :=
        map_option (\<lambda>d. d\<lparr>diag_metrics := f (diag_metrics d)\<rparr>) (registry p (runtime_value rt)))\<rparr>"

definition on_metrics :: "RuntimeId \<Rightarrow> (RuntimeMetrics \<Rightarrow> RuntimeMetrics) \<Rightarrow> process \<Rightarrow> process" where
  "on_metrics rt f p =
     (case find_runtime_instance rt p of
        None \<Rightarrow> p
      | Some d \<Rightarrow> if level (diag_metrics d) = Off then p else update_metrics rt f p)"

definition on_detailed :: "RuntimeId \<Rightarrow> (RuntimeMetrics \<Rightarrow> RuntimeMetrics) \<Rightarrow> process \<Rightarrow> process" where
  "on_detailed rt f p =
     (case find_runtime_instance rt p of
        None \<Rightarrow> p
      | Some d \<Rightarrow> if level (diag_metrics d) \<noteq> Detailed then p else update_metrics rt f p)"

section \<open>Wait and await trace events\<close>

definition select_slot :: "RuntimeDiagnostics \<Rightarrow> bool \<Rightarrow> nat \<Rightarrow> nat option" where
  "select_slot d from_current_worker w =
     (if diag_collector d = None then None
      else if from_current_worker \<and> w < length (diag_worker_slots d) then Some (diag_worker_slots d ! w)
      else diag_external_slot d)"

definition wait_description ::
  "RuntimeId \<Rightarrow> TraceEventKind \<Rightarrow> TaskId \<Rightarrow> TaskId \<Rightarrow> GraphRunId \<Rightarrow> u16 \<Rightarrow> TraceEmitDesc" where
  "wait_description rt k src target graph_target rsn = blank_desc
     \<lparr>d_kind := k,
      d_runtime_id := rt,
      d_task_sequence := (if task_id_valid src then task_sequence src else 0),
      d_target_runtime_id :=
        (if task_id_valid target then RuntimeId (runtime_value (task_runtime target)) else no_runtime),
      d_target_task_sequence := (if task_id_valid target then task_sequence target else 0),
      d_graph_run_sequence :=
        (if graph_run_id_valid graph_target then run_sequence graph_target else 0),
      d_reason := rsn\<rparr>"

definition emit_wait_event ::
  "RuntimeDiagnostics \<Rightarrow> bool \<Rightarrow> nat \<Rightarrow> TraceEventKind \<Rightarrow> TaskId \<Rightarrow> TaskId \<Rightarrow> GraphRunId \<Rightarrow> u16 \<Rightarrow>
     process \<Rightarrow> process" where
  "emit_wait_event d from_worker w k src target graph_target rsn p =
     (case (select_slot d from_worker w, diag_collector d) of
        (Some slot, Some col) \<Rightarrow>
          p\<lparr>trace_log := trace_log p @
             [(col, slot, wait_description (diag_runtime_id d) k src target graph_target rsn)]\<rparr>
      | _ \<Rightarrow> p)"

text \<open>The runtime of the current worker, as the key under which the registry knows it.\<close>

definition current_worker_diagnostics :: "thread_context \<Rightarrow> process \<Rightarrow> RuntimeId option" where
  "current_worker_diagnostics ctx p =
     (if current_worker_impl ctx = None \<or> \<not> runtime_id_valid (current_worker_runtime_id ctx) then None
      else if find_runtime_instance (current_worker_runtime_id ctx) p = None then None
      else Some (current_worker_runtime_id ctx))"

definition find_runtime_diagnostics :: "RuntimeId \<Rightarrow> process \<Rightarrow> RuntimeId option" where
  "find_runtime_diagnostics rt p = (if find_runtime_instance rt p = None then None else Some rt)"

definition emit_wait_trace_event ::
  "thread_context \<Rightarrow> RuntimeId option \<Rightarrow> TraceEventKind \<Rightarrow> TaskId \<Rightarrow> TaskId \<Rightarrow> GraphRunId \<Rightarrow> u16 \<Rightarrow>
     process \<Rightarrow> process" where
  "emit_wait_trace_event ctx rt_opt k src target graph_target rsn p =
     (case rt_opt of
        None \<Rightarrow> p
      | Some rt \<Rightarrow>
          (case find_runtime_instance rt p of
             None \<Rightarrow> p
           | Some d \<Rightarrow> emit_wait_event d (current_worker_diagnostics ctx p = Some rt)
               (current_worker_index ctx) k src target graph_target rsn p))"

text \<open>Where a wait or an await is attributed: the worker's runtime, or else the target's.\<close>

definition waiting_diagnostics :: "thread_context \<Rightarrow> TaskId \<Rightarrow> process \<Rightarrow> RuntimeId option" where
  "waiting_diagnostics ctx target p =
     (if current_worker_impl ctx \<noteq> None then current_worker_diagnostics ctx p
      else find_runtime_diagnostics (task_runtime target) p)"

section \<open>Task metrics\<close>

definition record_metrics_submission_attempt :: "thread_context \<Rightarrow> RuntimeId \<Rightarrow> process \<Rightarrow> process" where
  "record_metrics_submission_attempt ctx rt = on_metrics rt (count_event ctx N_submission_attempts)"

definition record_metrics_first_start ::
  "thread_context \<Rightarrow> TaskId \<Rightarrow> DeadlineDisposition option \<Rightarrow> process \<Rightarrow> process" where
  "record_metrics_first_start ctx t dl_disp = on_metrics (task_runtime t) (\<lambda>m.
     let m1 = count_event ctx N_first_starts m;
         m2 = m1\<lparr>ready_tasks := saturating_dec (ready_tasks m1)\<rparr>;
         m3 = m2\<lparr>running_tasks := running_tasks m2 + 1\<rparr>
     in case dl_disp of
          Some Met \<Rightarrow> count_event ctx N_deadline_met m3
        | Some Missed \<Rightarrow> count_event ctx N_deadline_missed m3
        | _ \<Rightarrow> m3)"

definition finish_running :: "thread_context \<Rightarrow> counter \<Rightarrow> TaskId \<Rightarrow> process \<Rightarrow> process" where
  "finish_running ctx c t = on_metrics (task_runtime t) (\<lambda>m.
     let m1 = count_event ctx c m in m1\<lparr>running_tasks := saturating_dec (running_tasks m1)\<rparr>)"

definition record_metrics_succeeded :: "thread_context \<Rightarrow> TaskId \<Rightarrow> process \<Rightarrow> process" where
  "record_metrics_succeeded ctx = finish_running ctx N_succeeded"

definition record_metrics_failed :: "thread_context \<Rightarrow> TaskId \<Rightarrow> process \<Rightarrow> process" where
  "record_metrics_failed ctx = finish_running ctx N_failed"

definition record_metrics_cancelled_cooperative :: "thread_context \<Rightarrow> TaskId \<Rightarrow> process \<Rightarrow> process" where
  "record_metrics_cancelled_cooperative ctx = finish_running ctx N_cancelled_cooperative"

definition record_metrics_cancelled_before_start ::
  "thread_context \<Rightarrow> TaskId \<Rightarrow> bool \<Rightarrow> process \<Rightarrow> process" where
  "record_metrics_cancelled_before_start ctx t has_deadline = on_metrics (task_runtime t) (\<lambda>m.
     let m1 = count_event ctx N_cancelled_before_start m;
         m2 = m1\<lparr>ready_tasks := saturating_dec (ready_tasks m1)\<rparr>
     in if has_deadline then count_event ctx N_deadline_cancelled_before_start m2 else m2)"

definition record_metrics_suspended :: "thread_context \<Rightarrow> TaskId \<Rightarrow> process \<Rightarrow> process" where
  "record_metrics_suspended ctx t = on_metrics (task_runtime t) (\<lambda>m.
     let m1 = count_event ctx N_coroutine_suspends m;
         m2 = m1\<lparr>running_tasks := saturating_dec (running_tasks m1)\<rparr>
     in m2\<lparr>suspended_tasks := suspended_tasks m2 + 1\<rparr>)"

definition record_metrics_resumed :: "TaskId \<Rightarrow> process \<Rightarrow> process" where
  "record_metrics_resumed t = on_metrics (task_runtime t) (\<lambda>m.
     let m1 = m\<lparr>suspended_tasks := saturating_dec (suspended_tasks m)\<rparr>
     in m1\<lparr>ready_tasks := ready_tasks m1 + 1\<rparr>)"

definition record_metrics_resume_segment :: "thread_context \<Rightarrow> TaskId \<Rightarrow> process \<Rightarrow> process" where
  "record_metrics_resume_segment ctx t = on_metrics (task_runtime t) (\<lambda>m.
     let m1 = count_event ctx N_resume_segments m;
         m2 = m1\<lparr>ready_tasks := saturating_dec (ready_tasks m1)\<rparr>
     in m2\<lparr>running_tasks := running_tasks m2 + 1\<rparr>)"

definition record_metrics_explicit_yield :: "thread_context \<Rightarrow> process \<Rightarrow> process" where
  "record_metrics_explicit_yield ctx p =
     (if current_worker_impl ctx \<noteq> None then
        (case current_worker_diagnostics ctx p of
           None \<Rightarrow> p
         | Some rt \<Rightarrow> on_metrics rt (count_event ctx N_explicit_yields) p)
      else p)"

definition record_metrics_graph_node_terminal :: "thread_context \<Rightarrow> RuntimeId \<Rightarrow> process \<Rightarrow> process" where
  "record_metrics_graph_node_terminal ctx rt = on_metrics rt (count_event ctx N_graph_nodes_terminal)"

definition record_metrics_graph_run_completed :: "RuntimeId \<Rightarrow> process \<Rightarrow> process" where
  "record_metrics_graph_run_completed rt = on_metrics rt (\<lambda>m.
     m\<lparr>active_graph_runs := saturating_dec (active_graph_runs m)\<rparr>)"

definition record_metrics_ready_queue_wait :: "thread_context \<Rightarrow> TaskId \<Rightarrow> u64 \<Rightarrow> process \<Rightarrow> process" where
  "record_metrics_ready_queue_wait ctx t ns =
     on_detailed (task_runtime t) (record_duration ctx H_ready_queue_wait ns)"

definition record_metrics_execution_segment :: "thread_context \<Rightarrow> TaskId \<Rightarrow> u64 \<Rightarrow> process \<Rightarrow> process" where
  "record_metrics_execution_segment ctx t ns =
     on_detailed (task_runtime t) (record_duration ctx H_execution_segment ns)"

definition record_metrics_task_wall_time :: "thread_context \<Rightarrow> TaskId \<Rightarrow> u64 \<Rightarrow> process \<Rightarrow> process" where
  "record_metrics_task_wall_time ctx t ns =
     on_detailed (task_runtime t) (record_duration ctx H_task_wall_time ns)"

definition record_metrics_blocking_admission_wait ::
  "thread_context \<Rightarrow> RuntimeId \<Rightarrow> u64 \<Rightarrow> process \<Rightarrow> process" where
  "record_metrics_blocking_admission_wait ctx rt ns =
     on_detailed rt (record_duration ctx H_blocking_admission_wait ns)"

definition record_metrics_timer_wake_lateness ::
  "thread_context \<Rightarrow> RuntimeId \<Rightarrow> u64 \<Rightarrow> process \<Rightarrow> process" where
  "record_metrics_timer_wake_lateness ctx rt ns =
     on_detailed rt (record_duration ctx H_timer_wake_lateness ns)"

definition record_metrics_deadline_start_lateness ::
  "thread_context \<Rightarrow> TaskId \<Rightarrow> u64 \<Rightarrow> process \<Rightarrow> process" where
  "record_metrics_deadline_start_lateness ctx t ns =
     on_detailed (task_runtime t) (record_duration ctx H_deadline_start_lateness ns)"

definition record_metrics_worker_park_duration ::
  "thread_context \<Rightarrow> RuntimeId \<Rightarrow> u64 \<Rightarrow> process \<Rightarrow> process" where
  "record_metrics_worker_park_duration ctx rt ns =
     on_detailed rt (record_duration ctx H_worker_park_duration ns)"

definition record_metrics_runtime_join_latency ::
  "thread_context \<Rightarrow> RuntimeId \<Rightarrow> u64 \<Rightarrow> process \<Rightarrow> process" where
  "record_metrics_runtime_join_latency ctx rt ns =
     on_detailed rt (record_duration ctx H_runtime_join_latency ns)"

section \<open>Waits and awaits\<close>

record wait_guard =
  wg_diagnostics :: "RuntimeId option"
  wg_deadline :: "time option"
  wg_begin :: time
  wg_helping :: bool
  wg_source :: TaskId
  wg_target :: TaskId
  wg_graph_target :: GraphRunId

text \<open>The scope exit of a wait; \<open>done\<close> is whether the awaited task or run is complete by then.\<close>

definition wait_diagnostics_end :: "thread_context \<Rightarrow> wait_guard \<Rightarrow> bool \<Rightarrow> time \<Rightarrow> process \<Rightarrow> process" where
  "wait_diagnostics_end ctx g finished now p =
     (let timed_out = (\<not> finished \<and> (case wg_deadline g of None \<Rightarrow> False | Some d \<Rightarrow> d \<le> now));
          duration_ns = word_of_int (now - wg_begin g);
          p1 = (case wg_diagnostics g of
                  None \<Rightarrow> p
                | Some rt \<Rightarrow> on_metrics rt (\<lambda>m.
                    let m1 = (if level m = Detailed
                              then record_duration ctx
                                (if wg_helping g then H_helping_wait_duration else H_thread_wait_duration)
                                duration_ns m
                              else m)
                    in if timed_out then count_event ctx N_wait_for_timeouts m1 else m1) p)
      in emit_wait_trace_event ctx (wg_diagnostics g) WaitEnd (wg_source g) (wg_target g)
           (wg_graph_target g) (if finished then 1 else if timed_out then 2 else 0) p1)"

definition record_metrics_unobserved_failure :: "thread_context \<Rightarrow> TaskId \<Rightarrow> process \<Rightarrow> process" where
  "record_metrics_unobserved_failure ctx t p =
     (case find_runtime_instance (task_runtime t) p of
        None \<Rightarrow> p
      | Some d \<Rightarrow>
          if level (diag_metrics d) = Off then p
          else emit_wait_trace_event ctx (Some (task_runtime t)) UnobservedFailure t no_task no_graph_run 0
                 (on_metrics (task_runtime t) (count_event ctx N_unobserved_failures) p))"

definition record_wait_call :: "thread_context \<Rightarrow> TaskId \<Rightarrow> bool \<Rightarrow> process \<Rightarrow> process" where
  "record_wait_call ctx target timed_out p =
     (case waiting_diagnostics ctx target p of
        None \<Rightarrow> p
      | Some rt \<Rightarrow> (case find_runtime_instance rt p of
            None \<Rightarrow> p
          | Some d \<Rightarrow> on_metrics rt (\<lambda>m.
              let worker = (current_worker_impl ctx \<noteq> None);
                  m1 = (if worker then
                          (if task_runtime target = diag_runtime_id d
                           then count_event ctx N_same_runtime_helping_waits m
                           else count_event ctx N_cross_runtime_helping_waits m)
                        else count_event ctx N_task_wait_calls m);
                  m2 = (if timed_out then count_event ctx N_wait_for_timeouts m1 else m1)
              in if level m2 = Detailed
                 then record_duration ctx
                   (if worker then H_helping_wait_duration else H_thread_wait_duration) 0 m2
                 else m2) p))"

definition record_self_wait_rejection :: "thread_context \<Rightarrow> TaskId \<Rightarrow> process \<Rightarrow> process" where
  "record_self_wait_rejection ctx target =
     on_metrics (task_runtime target) (count_event ctx N_direct_self_wait_rejections)"

definition record_await_registration :: "thread_context \<Rightarrow> TaskId \<Rightarrow> TaskId \<Rightarrow> process \<Rightarrow> process" where
  "record_await_registration ctx src target p =
     (let p1 = on_metrics (task_runtime target) (count_event ctx N_coroutine_await_registrations) p
      in emit_wait_trace_event ctx (waiting_diagnostics ctx target p1) AwaitArmed src target no_graph_run 0 p1)"

definition record_await_triggered :: "thread_context \<Rightarrow> TaskId \<Rightarrow> TaskId \<Rightarrow> bool \<Rightarrow> process \<Rightarrow> process" where
  "record_await_triggered ctx src target was_cancelled p =
     emit_wait_trace_event ctx (waiting_diagnostics ctx target p) AwaitTriggered src target no_graph_run
       (if was_cancelled then 2 else 1) p"

definition record_await_resumed :: "thread_context \<Rightarrow> TaskId \<Rightarrow> TaskId \<Rightarrow> u64 \<Rightarrow> process \<Rightarrow> process" where
  "record_await_resumed ctx src target ns p =
     (let p1 = on_detailed (task_runtime target) (record_duration ctx H_coroutine_await_duration ns) p
      in emit_wait_trace_event ctx (waiting_diagnostics ctx target p1) AwaitResumed src target no_graph_run 0 p1)"

section \<open>The gauges count the tasks in each phase\<close>

datatype task_phase = Phase_ready | Phase_running | Phase_suspended | Phase_done

datatype task_event =
    Ev_start "DeadlineDisposition option" | Ev_succeed | Ev_fail | Ev_cancel_cooperative
  | Ev_cancel_before_start bool | Ev_suspend | Ev_resume

fun phase_step :: "task_event \<Rightarrow> task_phase \<Rightarrow> task_phase option" where
  "phase_step (Ev_start _) Phase_ready = Some Phase_running"
| "phase_step Ev_succeed Phase_running = Some Phase_done"
| "phase_step Ev_fail Phase_running = Some Phase_done"
| "phase_step Ev_cancel_cooperative Phase_running = Some Phase_done"
| "phase_step (Ev_cancel_before_start _) Phase_ready = Some Phase_done"
| "phase_step Ev_suspend Phase_running = Some Phase_suspended"
| "phase_step Ev_resume Phase_suspended = Some Phase_running"
| "phase_step _ _ = None"

fun record_event :: "thread_context \<Rightarrow> TaskId \<Rightarrow> task_event \<Rightarrow> process \<Rightarrow> process" where
  "record_event ctx t (Ev_start d) p = record_metrics_first_start ctx t d p"
| "record_event ctx t Ev_succeed p = record_metrics_succeeded ctx t p"
| "record_event ctx t Ev_fail p = record_metrics_failed ctx t p"
| "record_event ctx t Ev_cancel_cooperative p = record_metrics_cancelled_cooperative ctx t p"
| "record_event ctx t (Ev_cancel_before_start b) p = record_metrics_cancelled_before_start ctx t b p"
| "record_event ctx t Ev_suspend p = record_metrics_suspended ctx t p"
| "record_event ctx t Ev_resume p = record_metrics_resume_segment ctx t (record_metrics_resumed t p)"

fun run_events ::
  "(thread_context \<times> TaskId \<times> task_event) list \<Rightarrow> (TaskId \<Rightarrow> task_phase) \<times> process \<Rightarrow>
     ((TaskId \<Rightarrow> task_phase) \<times> process) option" where
  "run_events [] s = Some s"
| "run_events ((ctx, t, e) # es) (ph, p) =
     (case phase_step e (ph t) of
        None \<Rightarrow> None
      | Some x \<Rightarrow> run_events es (ph(t := x), record_event ctx t e p))"

definition in_phase :: "TaskId set \<Rightarrow> (TaskId \<Rightarrow> task_phase) \<Rightarrow> task_phase \<Rightarrow> nat" where
  "in_phase T ph x = card {t \<in> T. ph t = x}"

definition gauges_match :: "TaskId set \<Rightarrow> (TaskId \<Rightarrow> task_phase) \<Rightarrow> RuntimeMetrics \<Rightarrow> bool" where
  "gauges_match T ph m \<longleftrightarrow>
     unat (ready_tasks m) = in_phase T ph Phase_ready \<and>
     unat (running_tasks m) = in_phase T ph Phase_running \<and>
     unat (suspended_tasks m) = in_phase T ph Phase_suspended"

lemma count_event_frame [simp]:
  "level (count_event ctx c m) = level m"
  "ready_tasks (count_event ctx c m) = ready_tasks m"
  "running_tasks (count_event ctx c m) = running_tasks m"
  "suspended_tasks (count_event ctx c m) = suspended_tasks m"
  "active_graph_runs (count_event ctx c m) = active_graph_runs m"
  by (simp_all add: count_event_def on_current_shard_def split: shard_choice.split)

lemma in_phase_update:
  assumes "finite T" and "t \<in> T" and "ph t = a" and "a \<noteq> b"
  shows "in_phase T (ph(t := b)) x =
    (if x = a then in_phase T ph x - 1 else if x = b then in_phase T ph x + 1 else in_phase T ph x)"
    and "0 < in_phase T ph a" and "in_phase T ph b < card T"
proof -
  have sub: "{s \<in> T. (ph(t := b)) s = x} =
    (if x = a then {s \<in> T. ph s = x} - {t} else if x = b then insert t {s \<in> T. ph s = x}
     else {s \<in> T. ph s = x})"
    using assms by auto
  show "in_phase T (ph(t := b)) x =
    (if x = a then in_phase T ph x - 1 else if x = b then in_phase T ph x + 1 else in_phase T ph x)"
    unfolding in_phase_def sub using assms by (auto simp: card_insert_if)
  show "0 < in_phase T ph a"
    using assms by (auto simp: in_phase_def card_gt_0_iff)
  have "{s \<in> T. ph s = b} \<subset> T" using assms by auto
  then show "in_phase T ph b < card T"
    unfolding in_phase_def using assms(1) by (rule psubset_card_mono [rotated])
qed

lemma unat_inc_bounded:
  fixes x :: u64
  assumes "unat x < n" and "n < 2 ^ 64"
  shows "unat (x + 1) = unat x + 1"
proof -
  have "x \<noteq> u64_max" using assms unat_u64_max by (auto simp del: unat_u64_max)
  then show ?thesis by (simp add: unat_inc)
qed

lemma on_metrics_found:
  assumes "find_runtime_instance rt p = Some d" and "level (diag_metrics d) \<noteq> Off"
  shows "find_runtime_instance rt (on_metrics rt f p) = Some (d\<lparr>diag_metrics := f (diag_metrics d)\<rparr>)"
  using assms by (simp add: on_metrics_def update_metrics_def find_runtime_instance_def)

text \<open>Every recorder of a task event acts on the gauges alone, whatever counters it bumps.\<close>

definition event_gauges :: "task_event \<Rightarrow> RuntimeMetrics \<Rightarrow> u64 \<times> u64 \<times> u64" where
  "event_gauges e m =
     (case e of
        Ev_start _ \<Rightarrow> (saturating_dec (ready_tasks m), running_tasks m + 1, suspended_tasks m)
      | Ev_cancel_before_start _ \<Rightarrow> (saturating_dec (ready_tasks m), running_tasks m, suspended_tasks m)
      | Ev_suspend \<Rightarrow> (ready_tasks m, saturating_dec (running_tasks m), suspended_tasks m + 1)
      | Ev_resume \<Rightarrow> (saturating_dec (ready_tasks m + 1), running_tasks m + 1, saturating_dec (suspended_tasks m))
      | _ \<Rightarrow> (ready_tasks m, saturating_dec (running_tasks m), suspended_tasks m))"

definition gauges :: "RuntimeMetrics \<Rightarrow> u64 \<times> u64 \<times> u64" where
  "gauges m = (ready_tasks m, running_tasks m, suspended_tasks m)"

lemma on_metrics_gauges:
  assumes "find_runtime_instance rt p = Some d" and "level (diag_metrics d) \<noteq> Off"
    and "level (f (diag_metrics d)) = level (diag_metrics d)" and "gauges (f (diag_metrics d)) = g"
  shows "\<exists>m'. find_runtime_instance rt (on_metrics rt f p) = Some (d\<lparr>diag_metrics := m'\<rparr>) \<and>
    level m' = level (diag_metrics d) \<and> gauges m' = g"
  using on_metrics_found [OF assms(1,2), of f] assms(3,4) by blast

lemma record_event_gauges:
  assumes f: "find_runtime_instance (task_runtime t) p = Some d" and l: "level (diag_metrics d) \<noteq> Off"
  shows "\<exists>m'. find_runtime_instance (task_runtime t) (record_event ctx t e p) = Some (d\<lparr>diag_metrics := m'\<rparr>) \<and>
    level m' = level (diag_metrics d) \<and> gauges m' = event_gauges e (diag_metrics d)"
proof (cases e)
  case Ev_resume
  let ?m = "(diag_metrics d)\<lparr>suspended_tasks := saturating_dec (suspended_tasks (diag_metrics d)),
        ready_tasks := ready_tasks (diag_metrics d) + 1\<rparr>"
  have r: "find_runtime_instance (task_runtime t) (record_metrics_resumed t p) = Some (d\<lparr>diag_metrics := ?m\<rparr>)"
    unfolding record_metrics_resumed_def by (subst on_metrics_found [OF f l]) (simp add: Let_def)
  have "level (diag_metrics (d\<lparr>diag_metrics := ?m\<rparr>)) \<noteq> Off" using l by simp
  from on_metrics_gauges [OF r this, where g = "event_gauges e (diag_metrics d)"] show ?thesis
    by (simp add: Ev_resume record_metrics_resume_segment_def Let_def event_gauges_def gauges_def)
qed (simp_all only: record_event.simps record_metrics_first_start_def record_metrics_succeeded_def
    record_metrics_failed_def record_metrics_cancelled_cooperative_def
    record_metrics_cancelled_before_start_def record_metrics_suspended_def finish_running_def,
  (rule on_metrics_gauges [OF f l];
    simp add: Let_def event_gauges_def gauges_def split: option.split DeadlineDisposition.split)+)

lemma phase_step_changes: "phase_step e a = Some b \<Longrightarrow> a \<noteq> b"
  by (cases e; cases a) auto

lemma gauges_match_step:
  assumes T: "finite T" "card T < 2 ^ 64" "t \<in> T"
    and st: "phase_step e (ph t) = Some x" and g: "gauges_match T ph m"
    and m': "gauges m' = event_gauges e m"
  shows "gauges_match T (ph(t := x)) m'"
proof -
  note up = in_phase_update [where ph = ph and t = t and a = "ph t", OF T(1,3) refl phase_step_changes [OF st]]
  have inc: "unat (y + 1) = unat y + 1" if "unat y = in_phase T ph x" for y :: u64
    using unat_inc_bounded [of y "card T"] that up(3) T(2) by simp
  have cap: "in_phase T ph z \<le> card T" for z
    unfolding in_phase_def using T(1) by (auto intro: card_mono)
  have disj: "in_phase T ph (ph t) + in_phase T ph Phase_ready \<le> card T" if "ph t \<noteq> Phase_ready"
  proof -
    have "card ({s \<in> T. ph s = ph t} \<union> {s \<in> T. ph s = Phase_ready}) \<le> card T"
      using T(1) by (auto intro: card_mono)
    moreover have "card ({s \<in> T. ph s = ph t} \<union> {s \<in> T. ph s = Phase_ready}) =
        in_phase T ph (ph t) + in_phase T ph Phase_ready"
      unfolding in_phase_def using T(1) that by (intro card_Un_disjoint) auto
    ultimately show ?thesis by simp
  qed
  have res: "unat (saturating_dec (y + 1)) = unat y"
    if "e = Ev_resume" "unat y = in_phase T ph Phase_ready" for y :: u64
  proof -
    have "ph t = Phase_suspended" using that st by (cases "ph t") auto
    then have "unat y < card T" using disj up(2) that by simp
    then have "unat (y + 1) = unat y + 1" using unat_inc_bounded T(2) by blast
    then show ?thesis by (simp add: unat_saturating_dec)
  qed
  show ?thesis
    using st g m' inc res up(1) [of Phase_ready] up(1) [of Phase_running] up(1) [of Phase_suspended]
    by (cases e; cases "ph t")
      (auto simp: gauges_match_def gauges_def event_gauges_def unat_saturating_dec)
qed

section \<open>Properties\<close>

lemma record_event_other_registry:
  "find_runtime_instance (task_runtime t) p = Some d \<Longrightarrow> level (diag_metrics d) \<noteq> Off \<Longrightarrow>
   task_runtime t = rt \<Longrightarrow> \<exists>m'. find_runtime_instance rt (record_event ctx t e p) = Some (d\<lparr>diag_metrics := m'\<rparr>) \<and>
    level m' = level (diag_metrics d) \<and> gauges m' = event_gauges e (diag_metrics d)"
  using record_event_gauges by blast


definition demo_process :: process where
  "demo_process = register_runtime_instance (RuntimeId 1)
     (new_diagnostics (RuntimeId 1) ((metrics_init Basic 1 (RuntimeId 1))\<lparr>ready_tasks := 2\<rparr>))
     \<lparr>registry = Map.empty, trace_log = []\<rparr>"


text \<open>
  A snapshot counts every event once: after any history of counted events, on any threads and
  in any order, each counter of the snapshot is the number of its events (saturating at the largest
  64-bit value); with metrics off nothing is counted at all.
\<close>

theorem snapshot_counts_every_event:
  "unat (snapshot_counter (count_events es (metrics_init lvl n owner)) c) =
     (if lvl = Off then 0 else min (2 ^ 64 - 1) (length (filter (\<lambda>e. snd e = c) es)))"
proof (cases "lvl = Off")
  case True
  then show ?thesis
    by (simp add: count_events_off snapshot_counter_total shard_total_init flip: shard_total_def)
qed (simp add: snapshot_counter_history)

text \<open>
  C38: A latency histogram is exact: after any history of durations it has counted each of them,
  holds their (saturating) sum and their maximum, and bucket \<open>b\<close> holds the number of durations from
  \<open>2^b\<close> up to \<open>2^(b+1)\<close>, zero joining the first bucket.
\<close>

theorem histogram_records_history:
  fixes xs :: "u64 list"
  assumes "h = fold record_ns xs empty_histogram"
  shows "unat (h_count h) = min (2 ^ 64 - 1) (length xs) \<and>
    unat (h_sum_ns h) = min (2 ^ 64 - 1) (\<Sum>x\<leftarrow>xs. unat x) \<and>
    h_max_ns h = (if xs = [] then 0 else Max (set xs)) \<and>
    (\<forall>b < 64. unat (h_buckets h ! b) = min (2 ^ 64 - 1)
       (length (filter (\<lambda>x. (b = 0 \<and> x = 0) \<or> (2 ^ b \<le> unat x \<and> unat x < 2 ^ Suc b)) xs)))"
proof -
  have same: "bucket_for_ns x = b \<longleftrightarrow> (b = 0 \<and> x = 0) \<or> (2 ^ b \<le> unat x \<and> unat x < 2 ^ Suc b)" for x b
  proof (cases "x = 0")
    case True
    then show ?thesis by (auto simp: bucket_for_ns_def)
  next
    case False
    then have "1 \<le> x" by (simp add: word_le_nat_alt Suc_le_eq unat_gt_0)
    note bb = bucket_bounds [OF this]
    have "bucket_for_ns x = b" if "2 ^ b \<le> unat x" "unat x < 2 ^ Suc b"
    proof -
      have "(2::nat) ^ b < 2 ^ Suc (bucket_for_ns x)" "(2::nat) ^ bucket_for_ns x < 2 ^ Suc b"
        using bb that by linarith+
      then have "b < Suc (bucket_for_ns x)" "bucket_for_ns x < Suc b"
        by (simp_all only: power_strict_increasing_iff one_less_numeral_iff semiring_norm)
      then show ?thesis by simp
    qed
    with bb False show ?thesis by auto
  qed
  show ?thesis
    using record_ns_history [OF assms] unfolding same by blast
qed

theorem histogram_records_history_witness:
  "\<exists>h. h = fold record_ns [0, 1, 5, 6] empty_histogram \<and> h_buckets h ! 2 = 2 \<and> h_max_ns h = 6"
proof -
  let ?h = "fold record_ns [0, 1, 5, 6] empty_histogram"
  have *: "unat (h_count ?h) = 4 \<and> h_max_ns ?h = Max {0, 1, 5, 6} \<and> unat (h_buckets ?h ! 2) = 2"
    using histogram_records_history [of ?h "[0, 1, 5, 6]"] by simp
  then have "h_buckets ?h ! 2 = 2"
    by (simp add: word_unat_eq_iff)
  moreover have "h_max_ns ?h = 6" using * by simp
  ultimately show ?thesis by blast
qed

end
