(* ===== verification/Admission.thy ===== *)
theory Admission
  imports Metrics
begin

text \<open>
  External admission (\<open>src/runtime/admission_controller.cpp\<close>): a bounded pool of pending slots with
  rejecting or blocking backpressure.  One pass of the acquire loop is \<open>admission_attempt\<close>; a caller
  that has to wait sleeps while other threads act, which is the list of environment steps
  \<open>acquire\<close> consumes, and re-evaluates the wait predicate after each of them.
\<close>

section \<open>State\<close>

datatype AdmissionDecision = Success | Stopped_decision | Stopping_decision | CapacityExhausted

record AdmissionController =
  adm_packed_status :: u16
  adm_capacity :: u64
  adm_backpressure :: ExternalBackpressure
  adm_pending :: u64
  adm_metrics :: RuntimeMetrics

definition new_admission ::
  "u16 \<Rightarrow> u64 \<Rightarrow> ExternalBackpressure \<Rightarrow> RuntimeMetrics \<Rightarrow> AdmissionController" where
  "new_admission st cap bp m = \<lparr>adm_packed_status = st, adm_capacity = cap, adm_backpressure = bp,
     adm_pending = 0, adm_metrics = m\<rparr>"

text \<open>Metrics are touched only when they are not \<open>Off\<close>.\<close>

definition adm_count :: "thread_context \<Rightarrow> counter \<Rightarrow> AdmissionController \<Rightarrow> AdmissionController" where
  "adm_count ctx c a =
     (if level (adm_metrics a) \<noteq> Off then a\<lparr>adm_metrics := count_event ctx c (adm_metrics a)\<rparr> else a)"

definition shard_add :: "counter \<Rightarrow> u64 \<Rightarrow> WorkerShard \<Rightarrow> WorkerShard" where
  "shard_add c n s = s\<lparr>counters := (counters s)(c := saturating_add (counters s c) n)\<rparr>"

definition adm_accepted :: "thread_context \<Rightarrow> u64 \<Rightarrow> AdmissionController \<Rightarrow> AdmissionController" where
  "adm_accepted ctx n a =
     (if level (adm_metrics a) \<noteq> Off
      then let m1 = on_current_shard ctx (shard_add N_accepted_task_identities n) (adm_metrics a)
           in a\<lparr>adm_metrics := m1\<lparr>ready_tasks := ready_tasks m1 + n\<rparr>\<rparr>
      else a)"

section \<open>Operations\<close>

text \<open>
  The pass: \<open>Some d\<close> when it decides, \<open>None\<close> when the caller has to wait for a slot.
\<close>

definition admission_attempt ::
  "thread_context \<Rightarrow> u64 \<Rightarrow> bool \<Rightarrow> bool \<Rightarrow> AdmissionController \<Rightarrow>
     AdmissionDecision option \<times> AdmissionController" where
  "admission_attempt ctx n block is_internal a =
     (let st = unpack (adm_packed_status a)
      in if state st = Stopped then (Some Stopped_decision, adm_count ctx N_rejected_lifecycle a)
         else if state st = Stopping then
           (if is_internal \<and> shutdown_mode st = Graceful
            then (Some Success, adm_accepted ctx n a)
            else (Some Stopping_decision, adm_count ctx N_rejected_lifecycle a))
         else if is_internal then (Some Success, adm_accepted ctx n a)
         else if adm_capacity a < n then (Some CapacityExhausted, adm_count ctx N_rejected_capacity a)
         else if adm_pending a + n \<le> adm_capacity a then
           (Some Success, adm_accepted ctx n (a\<lparr>adm_pending := adm_pending a + n\<rparr>))
         else if \<not> block \<or> adm_backpressure a \<noteq> Block then
           (Some CapacityExhausted, adm_count ctx N_rejected_capacity a)
         else (None, adm_count ctx N_blocking_submit_waits a))"

text \<open>The early exit for an empty request, which takes neither the lock nor a slot.\<close>

definition acquire_none ::
  "thread_context \<Rightarrow> bool \<Rightarrow> AdmissionController \<Rightarrow> AdmissionDecision \<times> AdmissionController" where
  "acquire_none ctx is_internal a =
     (let st = unpack (adm_packed_status a)
      in if state st = Stopped then (Stopped_decision, adm_count ctx N_rejected_lifecycle a)
         else if state st = Stopping \<and> (\<not> is_internal \<or> shutdown_mode st \<noteq> Graceful)
         then (Stopping_decision, adm_count ctx N_rejected_lifecycle a)
         else (Success, adm_accepted ctx 0 a))"

definition release :: "u64 \<Rightarrow> AdmissionController \<Rightarrow> AdmissionController" where
  "release n a =
     (if n = 0 then a
      else a\<lparr>adm_pending := (if n \<le> adm_pending a then adm_pending a - n else 0)\<rparr>)"

definition wait_predicate :: "u64 \<Rightarrow> AdmissionController \<Rightarrow> bool" where
  "wait_predicate n a \<longleftrightarrow>
     state (unpack (adm_packed_status a)) \<noteq> SchedulerState.Running \<or>
     adm_pending a + n \<le> adm_capacity a"

definition after_wait :: "thread_context \<Rightarrow> time \<Rightarrow> time \<Rightarrow> AdmissionController \<Rightarrow> AdmissionController" where
  "after_wait ctx t_start t_end a =
     (if level (adm_metrics a) \<noteq> Off then
        (let m1 = count_event ctx N_blocking_submit_wakeups (adm_metrics a);
             m2 = (if level m1 = Detailed \<and> t_start \<le> t_end
                   then record_duration ctx H_blocking_admission_wait (word_of_int (t_end - t_start)) m1
                   else m1)
         in a\<lparr>adm_metrics := m2\<rparr>)
      else a)"

text \<open>What other threads do to the controller while a caller sleeps on the condition variable.\<close>

datatype env_step =
    Env_status u16
  | Env_release u64
  | Env_acquire thread_context u64 bool

fun env_apply :: "env_step \<Rightarrow> AdmissionController \<Rightarrow> AdmissionController" where
  "env_apply (Env_status s) a = a\<lparr>adm_packed_status := s\<rparr>"
| "env_apply (Env_release n) a = release n a"
| "env_apply (Env_acquire ctx n is_internal) a = snd (admission_attempt ctx n False is_internal a)"

text \<open>
  \<open>None\<close> is a caller that is still asleep when the environment steps run out.
\<close>

fun acquire_wait ::
  "thread_context \<Rightarrow> u64 \<Rightarrow> bool \<Rightarrow> bool \<Rightarrow> time \<Rightarrow> (time \<times> env_step) list \<Rightarrow> AdmissionController \<Rightarrow>
     (AdmissionDecision \<times> AdmissionController) option" where
  "acquire_wait ctx n block is_internal t0 [] a = None"
| "acquire_wait ctx n block is_internal t0 ((now, e) # es) a =
     (let a1 = env_apply e a
      in if wait_predicate n a1 then
           (case admission_attempt ctx n block is_internal (after_wait ctx t0 now a1) of
              (Some d, a2) \<Rightarrow> Some (d, a2)
            | (None, a2) \<Rightarrow> acquire_wait ctx n block is_internal now es a2)
         else acquire_wait ctx n block is_internal t0 es a1)"

definition acquire ::
  "thread_context \<Rightarrow> u64 \<Rightarrow> bool \<Rightarrow> bool \<Rightarrow> time \<Rightarrow> (time \<times> env_step) list \<Rightarrow> AdmissionController \<Rightarrow>
     (AdmissionDecision \<times> AdmissionController) option" where
  "acquire ctx n block is_internal t0 es a =
     (if n = 0 then Some (acquire_none ctx is_internal a)
      else case admission_attempt ctx n block is_internal a of
             (Some d, a') \<Rightarrow> Some (d, a')
           | (None, a') \<Rightarrow> acquire_wait ctx n block is_internal t0 es a')"

section \<open>Frame\<close>

lemma adm_count_frame [simp]:
  "adm_packed_status (adm_count ctx c a) = adm_packed_status a"
  "adm_capacity (adm_count ctx c a) = adm_capacity a"
  "adm_backpressure (adm_count ctx c a) = adm_backpressure a"
  "adm_pending (adm_count ctx c a) = adm_pending a"
  by (simp_all add: adm_count_def)

lemma adm_accepted_frame [simp]:
  "adm_packed_status (adm_accepted ctx n a) = adm_packed_status a"
  "adm_capacity (adm_accepted ctx n a) = adm_capacity a"
  "adm_backpressure (adm_accepted ctx n a) = adm_backpressure a"
  "adm_pending (adm_accepted ctx n a) = adm_pending a"
  by (simp_all add: adm_accepted_def Let_def)

lemma after_wait_frame [simp]:
  "adm_packed_status (after_wait ctx t t' a) = adm_packed_status a"
  "adm_capacity (after_wait ctx t t' a) = adm_capacity a"
  "adm_backpressure (after_wait ctx t t' a) = adm_backpressure a"
  "adm_pending (after_wait ctx t t' a) = adm_pending a"
  by (simp_all add: after_wait_def Let_def)

lemma release_frame [simp]:
  "adm_packed_status (release n a) = adm_packed_status a"
  "adm_capacity (release n a) = adm_capacity a"
  "adm_backpressure (release n a) = adm_backpressure a"
  by (simp_all add: release_def)

lemma attempt_frame [simp]:
  "adm_packed_status (snd (admission_attempt ctx n b i a)) = adm_packed_status a"
  "adm_capacity (snd (admission_attempt ctx n b i a)) = adm_capacity a"
  "adm_backpressure (snd (admission_attempt ctx n b i a)) = adm_backpressure a"
  by (simp_all add: admission_attempt_def Let_def)

lemma env_apply_frame [simp]:
  "adm_capacity (env_apply e a) = adm_capacity a"
  "adm_backpressure (env_apply e a) = adm_backpressure a"
  by (cases e; simp)+

text \<open>The bound on the pool is an invariant of every step.\<close>

definition adm_bounded :: "AdmissionController \<Rightarrow> bool" where
  "adm_bounded a \<longleftrightarrow> adm_pending a \<le> adm_capacity a"

lemma adm_bounded_release: "adm_bounded a \<Longrightarrow> adm_bounded (release n a)"
proof (cases "n = 0 \<or> \<not> n \<le> adm_pending a")
  case False
  then have "unat (adm_pending a - n) \<le> unat (adm_pending a)"
    by (simp add: unat_sub)
  moreover assume "adm_bounded a"
  ultimately show ?thesis
    using False by (simp add: adm_bounded_def release_def word_le_nat_alt)
qed (auto simp: adm_bounded_def release_def)

lemma adm_bounded_attempt: "adm_bounded a \<Longrightarrow> adm_bounded (snd (admission_attempt ctx n b i a))"
  by (simp add: admission_attempt_def adm_bounded_def Let_def)

lemma adm_bounded_env: "adm_bounded a \<Longrightarrow> adm_bounded (env_apply e a)"
  by (cases e) (auto simp: adm_bounded_release adm_bounded_attempt, simp add: adm_bounded_def)

lemma adm_bounded_cong:
  "adm_pending a' = adm_pending a \<Longrightarrow> adm_capacity a' = adm_capacity a \<Longrightarrow> adm_bounded a' = adm_bounded a"
  by (simp add: adm_bounded_def)

section \<open>Histories\<close>

definition env_run :: "env_step list \<Rightarrow> AdmissionController \<Rightarrow> AdmissionController" where
  "env_run es a = fold env_apply es a"

text \<open>The external slots a step grants.\<close>

fun granted :: "env_step \<Rightarrow> AdmissionController \<Rightarrow> nat" where
  "granted (Env_acquire ctx n is_internal) a =
     (if \<not> is_internal \<and> fst (admission_attempt ctx n False is_internal a) = Some Success
      then unat n else 0)"
| "granted _ _ = 0"

fun returned :: "env_step \<Rightarrow> nat" where
  "returned (Env_release n) = unat n"
| "returned _ = 0"

fun total_granted :: "env_step list \<Rightarrow> AdmissionController \<Rightarrow> nat" where
  "total_granted [] a = 0"
| "total_granted (e # es) a = granted e a + total_granted es (env_apply e a)"

text \<open>No caller returns slots it does not hold.\<close>

fun honest :: "env_step list \<Rightarrow> AdmissionController \<Rightarrow> bool" where
  "honest [] a \<longleftrightarrow> True"
| "honest (e # es) a \<longleftrightarrow> returned e \<le> unat (adm_pending a) \<and> honest es (env_apply e a)"

lemma attempt_pending:
  assumes "adm_bounded a" and "unat (adm_capacity a) < 2 ^ 63"
  shows "unat (adm_pending (env_apply (Env_acquire ctx n i) a)) =
    unat (adm_pending a) + granted (Env_acquire ctx n i) a"
proof -
  have "unat (adm_pending a + n) = unat (adm_pending a) + unat n" if "n \<le> adm_capacity a"
  proof -
    have "unat (adm_pending a) + unat n < 2 ^ 64"
      using that assms by (simp add: adm_bounded_def word_le_nat_alt)
    then show ?thesis by (simp add: unat_word_ariths)
  qed
  then show ?thesis
    by (simp add: admission_attempt_def Let_def not_less)
qed

lemma env_step_balance:
  assumes "adm_bounded a" and "unat (adm_capacity a) < 2 ^ 63" and "returned e \<le> unat (adm_pending a)"
  shows "unat (adm_pending (env_apply e a)) + returned e = unat (adm_pending a) + granted e a"
proof (cases e)
  case (Env_acquire ctx n i)
  then show ?thesis
    using attempt_pending [OF assms(1,2), of ctx n i] by simp
next
  case (Env_release n)
  with assms(3) have "n \<le> adm_pending a" by (simp add: word_le_nat_alt)
  then have "unat (adm_pending a - n) = unat (adm_pending a) - unat n" "unat n \<le> unat (adm_pending a)"
    by (simp_all add: unat_sub word_le_nat_alt)
  then show ?thesis
    using Env_release \<open>n \<le> adm_pending a\<close> by (simp add: release_def)
qed simp

lemma env_run_balance:
  assumes "adm_bounded a" and "unat (adm_capacity a) < 2 ^ 63" and "honest es a"
  shows "unat (adm_pending (env_run es a)) + (\<Sum>e\<leftarrow>es. returned e) =
    unat (adm_pending a) + total_granted es a \<and> adm_bounded (env_run es a)"
  using assms
proof (induction es arbitrary: a)
  case Nil
  then show ?case by (simp add: env_run_def)
next
  case (Cons e es)
  from Cons.prems have b: "unat (adm_pending (env_apply e a)) + returned e = unat (adm_pending a) + granted e a"
    using env_step_balance by simp
  have "adm_bounded (env_apply e a)" "unat (adm_capacity (env_apply e a)) < 2 ^ 63" "honest es (env_apply e a)"
    using Cons.prems adm_bounded_env by simp_all
  from Cons.IH [OF this] b show ?case
    by (simp add: env_run_def)
qed

lemma acquire_wait_bounded:
  "adm_bounded a \<Longrightarrow> acquire_wait ctx n b i t0 es a = Some (d, a') \<Longrightarrow> adm_bounded a'"
proof (induction ctx n b i t0 es a rule: acquire_wait.induct)
  case (2 ctx n b i t0 now e es a)
  let ?a1 = "env_apply e a"
  let ?aw = "after_wait ctx t0 now ?a1"
  have a1: "adm_bounded ?a1" using 2 adm_bounded_env by blast
  then have aw: "adm_bounded ?aw" using adm_bounded_cong [of ?aw ?a1] by simp
  obtain r a2 where at: "admission_attempt ctx n b i ?aw = (r, a2)"
    by (cases "admission_attempt ctx n b i ?aw")
  have a2: "adm_bounded a2" using adm_bounded_attempt [OF aw, of ctx n b i] at by simp
  show ?case
    using 2 a1 a2 at by (auto simp: Let_def split: if_splits option.splits)
qed simp

section \<open>Properties\<close>



text \<open>
  A submission is decided by the lifecycle first and by capacity second: a stopped runtime rejects
  everything, a stopping one accepts only internal work of a graceful shutdown, a running one accepts
  internal work unconditionally and external work exactly when it fits; only an external request that
  could fit, with blocking asked for and configured, waits; and rejected or waiting requests hold no
  slot.
\<close>

theorem admission_decision_table:
  assumes "legal_status (unpack (adm_packed_status a))"
  shows "admission_attempt ctx n block is_internal a = (r, a') \<Longrightarrow>
    r = (case state (unpack (adm_packed_status a)) of
           Stopped \<Rightarrow> Some Stopped_decision
         | Stopping \<Rightarrow>
             (if is_internal \<and> shutdown_mode (unpack (adm_packed_status a)) = Graceful
              then Some Success else Some Stopping_decision)
         | _ \<Rightarrow>
             (if is_internal \<or> (n \<le> adm_capacity a \<and> adm_pending a + n \<le> adm_capacity a) then Some Success
              else if n \<le> adm_capacity a \<and> block \<and> adm_backpressure a = Block then None
              else Some CapacityExhausted)) \<and>
    adm_pending a' =
      (if r = Some Success \<and> \<not> is_internal then adm_pending a + n else adm_pending a)"
  using assms
  by (auto simp: admission_attempt_def Let_def legal_status_def not_less not_le
      split: if_splits)

theorem admission_decision_table_witness:
  "fst (admission_attempt foreign_thread 4 True False
     (new_admission (pack SchedulerState.Running No_shutdown) 3 Block (metrics_init Off 1 no_runtime))) =
     Some CapacityExhausted"
proof -
  let ?a = "new_admission (pack SchedulerState.Running No_shutdown) 3 Block (metrics_init Off 1 no_runtime)"
  have st: "unpack (adm_packed_status ?a) = \<lparr>state = SchedulerState.Running, shutdown_mode = No_shutdown\<rparr>"
    by (simp add: new_admission_def unpack_pack named_state_def named_mode_def)
  then have "legal_status (unpack (adm_packed_status ?a))" by (simp add: legal_status_def)
  from admission_decision_table [OF this, of foreign_thread 4 True False] st show ?thesis
    by (cases "admission_attempt foreign_thread 4 True False ?a") (simp add: new_admission_def)
qed

text \<open>Only status, pending count and capacity steer the waiting; the metrics do not.\<close>

definition same_pool :: "AdmissionController \<Rightarrow> AdmissionController \<Rightarrow> bool" where
  "same_pool b c \<longleftrightarrow> adm_packed_status b = adm_packed_status c \<and> adm_pending b = adm_pending c \<and>
     adm_capacity b = adm_capacity c"

lemma env_apply_same_pool: "same_pool b c \<Longrightarrow> same_pool (env_apply e b) (env_apply e c)"
  by (cases e) (auto simp: same_pool_def release_def admission_attempt_def Let_def)

lemma env_run_same_pool: "same_pool b c \<Longrightarrow> same_pool (env_run es b) (env_run es c)"
proof (induction es arbitrary: b c)
  case (Cons e es)
  from Cons.IH [OF env_apply_same_pool [OF Cons.prems]] show ?case by (simp add: env_run_def)
qed (simp add: env_run_def)

lemma all_le_Suc_iff: "(\<forall>k \<le> n. P k) \<longleftrightarrow> P 0 \<and> (\<forall>k < n. P (Suc k))"
proof
  assume r: "P 0 \<and> (\<forall>k < n. P (Suc k))"
  have "P k" if "k \<le> n" for k
    using that r by (cases k) auto
  then show "\<forall>k \<le> n. P k" by blast
qed auto

lemma acquire_wait_decides:
  assumes "adm_backpressure a = Block" and "n \<le> adm_capacity a"
    and "\<forall>(_, e) \<in> set es. \<forall>s. e = Env_status s \<longrightarrow> legal_status (unpack s)"
    and "legal_status (unpack (adm_packed_status a))"
  shows "(case acquire_wait ctx n True False t0 es a of
            Some (d, _) \<Rightarrow> d \<in> {Success, Stopping_decision, Stopped_decision}
          | None \<Rightarrow> True) \<and>
    (acquire_wait ctx n True False t0 es a = None \<longleftrightarrow>
       (\<forall>k < length es. \<not> wait_predicate n (env_run (map snd (take (Suc k) es)) a)))"
  using assms
proof (induction es arbitrary: a t0)
  case Nil
  then show ?case by simp
next
  case (Cons x es)
  obtain now e where x: "x = (now, e)" by (cases x)
  let ?a1 = "env_apply e a"
  have legal: "legal_status (unpack (adm_packed_status ?a1))"
    using Cons.prems x by (cases e) auto
  have split: "(\<forall>k < length (x # es). \<not> wait_predicate n (env_run (map snd (take (Suc k) (x # es))) a)) \<longleftrightarrow>
      \<not> wait_predicate n ?a1 \<and>
      (\<forall>k < length es. \<not> wait_predicate n (env_run (map snd (take (Suc k) es)) ?a1))"
    by (simp add: x env_run_def All_less_Suc2)
  show ?case
  proof (cases "wait_predicate n ?a1")
    case True
    let ?aw = "after_wait ctx t0 now ?a1"
    obtain r a2 where at: "admission_attempt ctx n True False ?aw = (r, a2)"
      by (cases "admission_attempt ctx n True False ?aw")
    have "r \<in> {Some Success, Some Stopping_decision, Some Stopped_decision}"
      using at True legal Cons.prems(1,2)
      by (auto simp: admission_attempt_def Let_def wait_predicate_def legal_status_def not_less
          split: if_splits)
    then obtain d where "r = Some d" "d \<in> {Success, Stopping_decision, Stopped_decision}" by auto
    then show ?thesis
      using True at unfolding split by (simp add: x Let_def)
  next
    case False
    have "\<forall>(_, e) \<in> set es. \<forall>s. e = Env_status s \<longrightarrow> legal_status (unpack s)"
      using Cons.prems(3) by simp
    from Cons.IH [OF _ _ this legal, of t0] Cons.prems(1,2) False show ?thesis
      unfolding split by (simp add: x Let_def)
  qed
qed

text \<open>
  A blocking external submission that can fit is never turned away for capacity: whatever other
  threads do, it returns with a slot or with the shutdown that interrupted it, it returns as soon as
  one of their steps makes room or stops the runtime, and it is still waiting exactly when no step did.
\<close>

theorem blocking_submission_waits_for_room:
  assumes "n \<noteq> 0" and "adm_backpressure a = Block" and "n \<le> adm_capacity a"
    and "unpack (adm_packed_status a) = \<lparr>state = SchedulerState.Running, shutdown_mode = No_shutdown\<rparr>"
    and "\<forall>(_, e) \<in> set es. \<forall>s. e = Env_status s \<longrightarrow> legal_status (unpack s)"
  shows "(\<forall>d a'. acquire ctx n True False t0 es a = Some (d, a') \<longrightarrow>
       d \<in> {Success, Stopping_decision, Stopped_decision}) \<and>
    (acquire ctx n True False t0 es a = None \<longleftrightarrow>
       (\<forall>k \<le> length es. \<not> wait_predicate n (env_run (map snd (take k es)) a)))"
proof (cases "adm_pending a + n \<le> adm_capacity a")
  case True
  then show ?thesis
    using assms by (auto simp: acquire_def admission_attempt_def wait_predicate_def env_run_def
        intro: exI [of _ 0])
next
  case False
  let ?a = "adm_count ctx N_blocking_submit_waits a"
  have w: "acquire ctx n True False t0 es a = acquire_wait ctx n True False t0 es ?a"
    using assms False by (auto simp: acquire_def admission_attempt_def Let_def)
  have same: "wait_predicate n (env_run es' ?a) = wait_predicate n (env_run es' a)" for es'
    using env_run_same_pool [of ?a a es'] by (simp add: wait_predicate_def same_pool_def)
  have now: "\<not> wait_predicate n (env_run [] a)"
    using assms(4) False by (simp add: env_run_def wait_predicate_def)
  have "(\<forall>k \<le> length es. \<not> wait_predicate n (env_run (map snd (take k es)) a)) \<longleftrightarrow>
      (\<forall>k < length es. \<not> wait_predicate n (env_run (map snd (take (Suc k) es)) a))"
    using now unfolding all_le_Suc_iff by simp
  moreover have "legal_status (unpack (adm_packed_status ?a))"
    using assms(4) by (simp add: legal_status_def)
  note acquire_wait_decides [OF _ _ assms(5) this, of n ctx t0]
  ultimately show ?thesis
    using assms(2,3) unfolding w by (auto simp: same split: option.splits)
qed

theorem blocking_submission_waits_for_room_witness:
  "acquire foreign_thread 2 True False 0 [(5, Env_release 1)]
      (new_admission (pack SchedulerState.Running No_shutdown) 3 Block (metrics_init Off 1 no_runtime)
        \<lparr>adm_pending := 2\<rparr>) \<noteq> None"
proof -
  let ?a = "new_admission (pack SchedulerState.Running No_shutdown) 3 Block (metrics_init Off 1 no_runtime)
    \<lparr>adm_pending := 2\<rparr>"
  have st: "unpack (adm_packed_status ?a) = \<lparr>state = SchedulerState.Running, shutdown_mode = No_shutdown\<rparr>"
    by (simp add: new_admission_def unpack_pack named_state_def named_mode_def)
  have "wait_predicate 2 (env_run (map snd (take 1 [(5::time, Env_release 1)])) ?a)"
    by (simp add: env_run_def wait_predicate_def release_def new_admission_def)
  then show ?thesis
    using blocking_submission_waits_for_room [of 2 ?a "[(5, Env_release 1)]" foreign_thread 0] st
    by (auto simp: new_admission_def)
qed

end
