(* ===== verification/Heap_Vector.thy ===== *)
theory Heap_Vector
  imports Prelude
begin

text \<open>
  Binary heaps stored in a vector, as the timer queue keeps them: the sift loops over a comparator,
  and, in the locale \<open>heap_order\<close>, what any strict weak order gives: the loops permute the vector
  and restore the heap property after an insertion, a removal of the root and a removal in the
  middle, and the root of a heap is a minimum.
\<close>

section \<open>The sift loops\<close>

definition parent :: "nat \<Rightarrow> nat" where
  "parent i = (i - 1) div 2"

lemma parent_less [simp]: "0 < i \<Longrightarrow> parent i < i"
  by (simp add: parent_def)

lemma parent_0 [simp]: "parent 0 = 0"
  by (simp add: parent_def)

lemma parent_iff: "0 < i \<Longrightarrow> parent i = k \<longleftrightarrow> i = 2 * k + 1 \<or> i = 2 * k + 2"
  unfolding parent_def by presburger

lemma parent_less_length: "i < length xs \<Longrightarrow> parent i < length xs"
  unfolding parent_def by linarith

function sift_up :: "('a \<Rightarrow> 'a \<Rightarrow> bool) \<Rightarrow> nat \<Rightarrow> 'a list \<Rightarrow> 'a list" where
  "sift_up lt i xs =
     (if 0 < i \<and> lt (xs ! i) (xs ! parent i) then sift_up lt (parent i) (swap_at xs i (parent i))
      else xs)"
  by pat_completeness auto
termination
  by (relation "measure (\<lambda>(lt, i, xs). i)") auto

declare sift_up.simps [simp del]

definition smallest_child :: "('a \<Rightarrow> 'a \<Rightarrow> bool) \<Rightarrow> nat \<Rightarrow> 'a list \<Rightarrow> nat" where
  "smallest_child lt i xs =
     (let n = length xs; l = 2 * i + 1; r = 2 * i + 2;
          s1 = (if l < n \<and> lt (xs ! l) (xs ! i) then l else i)
      in if r < n \<and> lt (xs ! r) (xs ! s1) then r else s1)"

lemma smallest_child_cases:
  "smallest_child lt i xs = i \<or>
   (smallest_child lt i xs = 2 * i + 1 \<and> 2 * i + 1 < length xs) \<or>
   (smallest_child lt i xs = 2 * i + 2 \<and> 2 * i + 2 < length xs)"
  by (auto simp: smallest_child_def Let_def)

function sift_down :: "('a \<Rightarrow> 'a \<Rightarrow> bool) \<Rightarrow> nat \<Rightarrow> 'a list \<Rightarrow> 'a list" where
  "sift_down lt i xs =
     (let s = smallest_child lt i xs
      in if s \<noteq> i then sift_down lt s (swap_at xs i s) else xs)"
  by pat_completeness auto
termination
  by (relation "measure (\<lambda>(lt, i, xs). length xs - i)")
    (use smallest_child_cases in \<open>fastforce+\<close>)

declare sift_down.simps [simp del]

lemma length_sift_up [simp]: "length (sift_up lt i xs) = length xs"
  by (induction lt i xs rule: sift_up.induct) (subst sift_up.simps, simp)

lemma length_sift_down [simp]: "length (sift_down lt i xs) = length xs"
  by (induction lt i xs rule: sift_down.induct) (subst sift_down.simps, simp add: Let_def)

lemma mset_sift_up [simp]: "i < length xs \<Longrightarrow> mset (sift_up lt i xs) = mset xs"
proof (induction lt i xs rule: sift_up.induct)
  case (1 lt i xs)
  have "parent i < length xs" using 1(2) by (rule parent_less_length)
  with 1 show ?case by (subst sift_up.simps) simp
qed

lemma mset_sift_down [simp]: "i < length xs \<Longrightarrow> mset (sift_down lt i xs) = mset xs"
proof (induction lt i xs rule: sift_down.induct)
  case (1 lt i xs)
  have "smallest_child lt i xs < length xs"
    using smallest_child_cases [of lt i xs] 1(2) by auto
  with 1 show ?case by (subst sift_down.simps) (simp add: Let_def)
qed

lemma set_sift_up [simp]: "i < length xs \<Longrightarrow> set (sift_up lt i xs) = set xs"
  by (metis mset_sift_up set_mset_mset)

lemma set_sift_down [simp]: "i < length xs \<Longrightarrow> set (sift_down lt i xs) = set xs"
  by (metis mset_sift_down set_mset_mset)

section \<open>The heap property\<close>

definition heap_at :: "('a \<Rightarrow> 'a \<Rightarrow> bool) \<Rightarrow> 'a list \<Rightarrow> nat \<Rightarrow> bool" where
  "heap_at lt xs i \<longleftrightarrow> \<not> lt (xs ! i) (xs ! parent i)"

definition is_heap :: "('a \<Rightarrow> 'a \<Rightarrow> bool) \<Rightarrow> 'a list \<Rightarrow> bool" where
  "is_heap lt xs \<longleftrightarrow> (\<forall>i. 0 < i \<and> i < length xs \<longrightarrow> heap_at lt xs i)"

text \<open>A heap except that position \<open>k\<close> may be below its parent, above its children, or both.\<close>

definition skips :: "('a \<Rightarrow> 'a \<Rightarrow> bool) \<Rightarrow> 'a list \<Rightarrow> nat \<Rightarrow> bool" where
  "skips lt xs k \<longleftrightarrow>
     (\<forall>i. 0 < i \<and> i < length xs \<and> 0 < k \<and> parent i = k \<longrightarrow> \<not> lt (xs ! i) (xs ! parent k))"

definition up_heap :: "('a \<Rightarrow> 'a \<Rightarrow> bool) \<Rightarrow> 'a list \<Rightarrow> nat \<Rightarrow> bool" where
  "up_heap lt xs k \<longleftrightarrow> (\<forall>i. 0 < i \<and> i < length xs \<and> i \<noteq> k \<longrightarrow> heap_at lt xs i) \<and> skips lt xs k"

definition down_heap :: "('a \<Rightarrow> 'a \<Rightarrow> bool) \<Rightarrow> 'a list \<Rightarrow> nat \<Rightarrow> bool" where
  "down_heap lt xs k \<longleftrightarrow>
     (\<forall>i. 0 < i \<and> i < length xs \<and> parent i \<noteq> k \<longrightarrow> heap_at lt xs i) \<and> skips lt xs k"

definition hole_heap :: "('a \<Rightarrow> 'a \<Rightarrow> bool) \<Rightarrow> 'a list \<Rightarrow> nat \<Rightarrow> bool" where
  "hole_heap lt xs k \<longleftrightarrow>
     (\<forall>i. 0 < i \<and> i < length xs \<and> i \<noteq> k \<and> parent i \<noteq> k \<longrightarrow> heap_at lt xs i) \<and> skips lt xs k"

lemmas heap_defs = heap_at_def is_heap_def skips_def up_heap_def down_heap_def hole_heap_def

locale heap_order =
  fixes lt :: "'a \<Rightarrow> 'a \<Rightarrow> bool"
  assumes asym: "lt x y \<Longrightarrow> \<not> lt y x"
    and neg_trans: "lt x z \<Longrightarrow> lt x y \<or> lt y z"
begin

lemma irrefl: "\<not> lt x x"
  using asym by blast

lemma le_trans: "\<not> lt y x \<Longrightarrow> \<not> lt z y \<Longrightarrow> \<not> lt z x"
  using neg_trans by blast

lemma sift_up_heap:
  "up_heap lt xs k \<Longrightarrow> k < length xs \<Longrightarrow> is_heap lt (sift_up lt k xs)"
proof (induction k arbitrary: xs rule: less_induct)
  case (less k)
  show ?case
  proof (cases "0 < k \<and> lt (xs ! k) (xs ! parent k)")
    case False
    then have "is_heap lt xs"
      using less.prems by (auto simp: heap_defs)
    with False show ?thesis by (subst sift_up.simps) auto
  next
    case True
    let ?p = "parent k"
    let ?ys = "swap_at xs k ?p"
    have k: "0 < k" "k < length xs" and p: "?p < k" "?p < length xs"
      using True less.prems(2) parent_less_length by auto
    have nth: "?ys ! i = (if i = k then xs ! ?p else if i = ?p then xs ! k else xs ! i)"
      if "i < length xs" for i
      using swap_at_nth [OF k(2) p(2) that] .
    have at: "heap_at lt ?ys i" if i: "0 < i" "i < length xs" "i \<noteq> ?p" for i
    proof (cases "i = k")
      case True
      then show ?thesis
        using \<open>0 < k \<and> lt (xs ! k) (xs ! ?p)\<close> asym k p by (simp add: heap_at_def nth)
    next
      case False
      have pl: "parent i < length xs" "parent i < i" using i parent_less_length by auto
      consider "parent i = k" | "parent i = ?p" | "parent i \<noteq> k" "parent i \<noteq> ?p" by blast
      then show ?thesis
      proof cases
        case 1
        then show ?thesis
          using i False pl less.prems(1) k p by (simp add: heap_at_def nth up_heap_def skips_def)
      next
        case 2
        then have "\<not> lt (xs ! i) (xs ! ?p)"
          using i False less.prems(1) by (auto simp: up_heap_def heap_at_def)
        moreover have "\<not> lt (xs ! ?p) (xs ! k)" using True asym by blast
        ultimately have "\<not> lt (xs ! i) (xs ! k)" using le_trans by blast
        then show ?thesis using i False 2 pl p k by (simp add: heap_at_def nth)
      next
        case 3
        then show ?thesis
          using i False pl less.prems(1) by (auto simp: heap_at_def nth up_heap_def)
      qed
    qed
    have "skips lt ?ys ?p"
      unfolding skips_def
    proof (intro allI impI)
      fix i
      assume i: "0 < i \<and> i < length ?ys \<and> 0 < ?p \<and> parent i = ?p"
      then have "parent ?p < ?p" by simp
      then have pl: "parent ?p < length xs" "parent ?p \<noteq> k" "parent ?p \<noteq> ?p" using p by linarith+
      have pp: "?ys ! parent ?p = xs ! parent ?p"
        unfolding nth [OF pl(1)] using pl by simp
      have up: "\<not> lt (xs ! ?p) (xs ! parent ?p)"
        using less.prems(1) p i by (auto simp: up_heap_def heap_at_def)
      show "\<not> lt (?ys ! i) (?ys ! parent ?p)"
      proof (cases "i = k")
        case True
        then show ?thesis using up pp i by (simp add: nth)
      next
        case False
        then have "\<not> lt (xs ! i) (xs ! ?p)"
          using i less.prems(1) by (auto simp: up_heap_def heap_at_def)
        then have "\<not> lt (xs ! i) (xs ! parent ?p)" using le_trans up by blast
        moreover have "i \<noteq> ?p" using i pl(3) by metis
        then have "?ys ! i = xs ! i" using False i by (simp add: nth)
        ultimately show ?thesis using pp by simp
      qed
    qed
    with at have "up_heap lt ?ys ?p"
      by (simp add: up_heap_def)
    from less.IH [OF p(1) this] p True show ?thesis
      by (subst sift_up.simps) simp
  qed
qed

text \<open>The child the loop picks is a minimum of the position and its children.\<close>

lemma smallest_child_min:
  assumes "k < length xs"
  shows "\<not> lt (xs ! k) (xs ! smallest_child lt k xs)"
    and "2 * k + 1 < length xs \<Longrightarrow> \<not> lt (xs ! (2 * k + 1)) (xs ! smallest_child lt k xs)"
    and "2 * k + 2 < length xs \<Longrightarrow> \<not> lt (xs ! (2 * k + 2)) (xs ! smallest_child lt k xs)"
    and "smallest_child lt k xs \<noteq> k \<Longrightarrow> lt (xs ! smallest_child lt k xs) (xs ! k)"
proof -
  let ?n = "length xs" and ?l = "2 * k + 1" and ?r = "2 * k + 2" and ?s = "smallest_child lt k xs"
  define m where "m = (if ?l < ?n \<and> lt (xs ! ?l) (xs ! k) then ?l else k)"
  have s: "?s = (if ?r < ?n \<and> lt (xs ! ?r) (xs ! m) then ?r else m)"
    by (simp add: smallest_child_def Let_def m_def)
  have mk: "\<not> lt (xs ! k) (xs ! m)" and ml: "?l < ?n \<Longrightarrow> \<not> lt (xs ! ?l) (xs ! m)"
    and mlt: "m \<noteq> k \<Longrightarrow> lt (xs ! m) (xs ! k)"
    using asym irrefl by (simp_all add: m_def split: if_splits)
  have sm: "\<not> lt (xs ! m) (xs ! ?s)" and r: "?r < ?n \<Longrightarrow> \<not> lt (xs ! ?r) (xs ! ?s)"
    using asym irrefl by (auto simp: s)
  show "\<not> lt (xs ! k) (xs ! ?s)" using le_trans [OF sm mk] .
  show "\<not> lt (xs ! ?l) (xs ! ?s)" if "?l < ?n" using le_trans [OF sm ml [OF that]] .
  show "\<not> lt (xs ! ?r) (xs ! ?s)" if "?r < ?n" using r [OF that] .
  show "lt (xs ! ?s) (xs ! k)" if "?s \<noteq> k"
  proof (cases "?s = m")
    case True
    then show ?thesis using mlt that by simp
  next
    case False
    then have "lt (xs ! ?s) (xs ! m)" by (simp add: s split: if_splits)
    then show ?thesis using neg_trans mk by blast
  qed
qed

lemma sift_down_heap:
  "down_heap lt xs k \<Longrightarrow> k < length xs \<Longrightarrow> is_heap lt (sift_down lt k xs)"
proof (induction "length xs - k" arbitrary: k xs rule: less_induct)
  case less
  let ?s = "smallest_child lt k xs"
  note min = smallest_child_min [OF less.prems(2)]
  have child_ge: "\<not> lt (xs ! i) (xs ! ?s)" if "0 < i" "i < length xs" "parent i = k" for i
  proof -
    have "i = 2 * k + 1 \<or> i = 2 * k + 2" using that parent_iff by simp
    then show ?thesis using that(2) min(2,3) by blast
  qed
  show ?case
  proof (cases "?s = k")
    case True
    have "heap_at lt xs i" if i: "0 < i" "i < length xs" for i
    proof (cases "parent i = k")
      case True
      then show ?thesis using child_ge [OF i] \<open>?s = k\<close> by (simp add: heap_at_def)
    next
      case False
      then show ?thesis using less.prems(1) i by (simp add: down_heap_def)
    qed
    then show ?thesis
      using True by (subst sift_down.simps) (simp add: is_heap_def)
  next
    case False
    let ?ys = "swap_at xs k ?s"
    have s: "k < ?s" "?s < length xs" "parent ?s = k" "0 < ?s"
      using False smallest_child_cases [of lt k xs] parent_iff [of ?s k] by auto
    have lt: "lt (xs ! ?s) (xs ! k)" using min(4) False .
    have nth: "?ys ! i = (if i = k then xs ! ?s else if i = ?s then xs ! k else xs ! i)"
      if "i < length xs" for i
      using swap_at_nth [OF less.prems(2) s(2) that] .
    have at: "heap_at lt ?ys i" if i: "0 < i" "i < length xs" "parent i \<noteq> ?s" for i
    proof -
      have pl: "parent i < length xs" "parent i < i" using i parent_less_length by auto
      consider "parent i = k" | "i = k" | "parent i \<noteq> k" "i \<noteq> k" by blast
      then show ?thesis
      proof cases
        case 1
        then have "i \<noteq> k" using pl(2) by simp
        then show ?thesis
          using child_ge [OF i(1,2) 1] asym lt 1 i less.prems(2) by (auto simp: heap_at_def nth)
      next
        case 2
        then have "\<not> lt (xs ! ?s) (xs ! parent k)"
          using less.prems(1) s i by (simp add: down_heap_def skips_def)
        moreover have "parent k \<noteq> k" using 2 pl(2) by auto
        ultimately show ?thesis using 2 pl(1) i less.prems(2) by (simp add: heap_at_def nth)
      next
        case 3
        then have "i \<noteq> ?s" using s by auto
        moreover have "heap_at lt xs i" using less.prems(1) 3 i by (simp add: down_heap_def)
        ultimately show ?thesis using 3 i nth [OF i(2)] nth [OF pl(1)] by (simp add: heap_at_def)
      qed
    qed
    have "skips lt ?ys ?s"
      unfolding skips_def
    proof (intro allI impI)
      fix i
      assume i: "0 < i \<and> i < length ?ys \<and> 0 < ?s \<and> parent i = ?s"
      then have "?s < i" using parent_less [of i] by simp
      then have "?ys ! i = xs ! i" "?ys ! parent ?s = xs ! ?s" using i s by (simp_all add: nth)
      moreover have "\<not> lt (xs ! i) (xs ! ?s)"
        using less.prems(1) i s by (auto simp: down_heap_def heap_at_def)
      ultimately show "\<not> lt (?ys ! i) (?ys ! parent ?s)" by simp
    qed
    with at have "down_heap lt ?ys ?s" by (simp add: down_heap_def)
    moreover have "length ?ys - ?s < length xs - k" using s less.prems(2) by simp
    ultimately have "is_heap lt (sift_down lt ?s ?ys)" using less.hyps s(2) by simp
    then show ?thesis
      using False by (subst sift_down.simps) (simp add: Let_def)
  qed
qed

text \<open>Appending, then sifting the last position up.\<close>

lemma push_heap:
  assumes "is_heap lt xs"
  shows "is_heap lt (sift_up lt (length xs) (xs @ [x]))"
proof (rule sift_up_heap)
  show "up_heap lt (xs @ [x]) (length xs)"
    unfolding up_heap_def
  proof (intro conjI allI impI)
    fix i
    assume i: "0 < i \<and> i < length (xs @ [x]) \<and> i \<noteq> length xs"
    then have "i < length xs" "parent i < length xs" using parent_less_length [of i xs] by auto
    then show "heap_at lt (xs @ [x]) i"
      using assms i by (simp add: heap_at_def is_heap_def nth_append)
  next
    show "skips lt (xs @ [x]) (length xs)"
      unfolding skips_def using parent_less by (metis length_append_singleton less_Suc_eq not_less_iff_gr_or_eq)
  qed
qed simp

text \<open>Filling position \<open>k\<close> with the last element leaves a heap with a hole at \<open>k\<close>.\<close>

lemma replace_hole:
  assumes "is_heap lt xs" and "k < length xs - 1"
  shows "hole_heap lt ((butlast xs)[k := last xs]) k"
proof -
  let ?ys = "(butlast xs)[k := last xs]"
  have nth: "?ys ! i = xs ! i" if "i < length xs - 1" "i \<noteq> k" for i
    using that by (simp add: nth_butlast)
  have old: "\<not> lt (xs ! i) (xs ! parent i)" if "0 < i" "i < length xs" for i
    using assms(1) that by (simp add: is_heap_def heap_at_def)
  have "\<not> lt (xs ! i) (xs ! parent k)"
    if "0 < i" "i < length xs" "0 < k" "parent i = k" for i
  proof -
    have "\<not> lt (xs ! i) (xs ! k)" "\<not> lt (xs ! k) (xs ! parent k)"
      using old [OF that(1,2)] old [of k] that assms(2) by auto
    then show ?thesis using le_trans by blast
  qed
  then have gap: "\<not> lt (xs ! i) (xs ! parent k)"
    if "0 < i" "i < length xs" "0 < k" "parent i = k" for i
    using that by blast
  have "skips lt ?ys k"
    unfolding skips_def
  proof (intro allI impI)
    fix i
    assume i: "0 < i \<and> i < length ?ys \<and> 0 < k \<and> parent i = k"
    then have "k < i" "parent k < k" using parent_less [of i] parent_less [of k] by metis+
    then have "k < i" "parent k \<noteq> k" "parent k < length xs - 1" using assms(2) by linarith+
    then have "?ys ! i = xs ! i" "?ys ! parent k = xs ! parent k"
      using i assms(2) by (simp_all add: nth_butlast)
    moreover have "i < length xs" using i unfolding length_list_update length_butlast by linarith
    ultimately show "\<not> lt (?ys ! i) (?ys ! parent k)" using gap [of i] i by simp
  qed
  moreover have "heap_at lt ?ys i" if "0 < i" "i < length ?ys" "i \<noteq> k" "parent i \<noteq> k" for i
  proof -
    have "parent i < length xs - 1" using that parent_less_length [of i ?ys] by simp
    then show ?thesis using that old [of i] nth by (simp add: heap_at_def)
  qed
  ultimately show ?thesis by (simp add: hole_heap_def)
qed

text \<open>Sifting a hole down and then up restores the heap: one of the two does nothing.\<close>

lemma sift_hole:
  assumes "hole_heap lt xs k" and "k < length xs"
  shows "is_heap lt (sift_up lt k (sift_down lt k xs))"
proof (cases "0 < k \<and> lt (xs ! k) (xs ! parent k)")
  case True
  have child: "\<not> lt (xs ! i) (xs ! k)" if i: "0 < i" "i < length xs" "parent i = k" for i
  proof -
    have "\<not> lt (xs ! i) (xs ! parent k)"
      using assms(1) i True by (simp add: hole_heap_def skips_def)
    moreover have "\<not> lt (xs ! parent k) (xs ! k)" using True asym by blast
    ultimately show ?thesis using le_trans by blast
  qed
  have "smallest_child lt k xs = k"
    using child [of "2 * k + 1"] child [of "2 * k + 2"] parent_iff [of "2 * k + 1" k]
      parent_iff [of "2 * k + 2" k]
    by (auto simp: smallest_child_def Let_def)
  then have same: "sift_down lt k xs = xs" by (subst sift_down.simps) simp
  have "up_heap lt xs k"
    using assms(1) child by (auto simp: hole_heap_def up_heap_def heap_at_def)
  from sift_up_heap [OF this assms(2)] show ?thesis by (simp add: same)
next
  case False
  then have "down_heap lt xs k"
    using assms(1) by (auto simp: hole_heap_def down_heap_def heap_at_def)
  from sift_down_heap [OF this assms(2)] have h: "is_heap lt (sift_down lt k xs)" .
  have "up_heap lt (sift_down lt k xs) k"
    unfolding up_heap_def skips_def
  proof (intro conjI allI impI)
    fix i
    assume i: "0 < i \<and> i < length (sift_down lt k xs) \<and> 0 < k \<and> parent i = k"
    have "\<not> lt (sift_down lt k xs ! i) (sift_down lt k xs ! k)"
      "\<not> lt (sift_down lt k xs ! k) (sift_down lt k xs ! parent k)"
      using h i assms(2) by (auto simp: is_heap_def heap_at_def)
    then show "\<not> lt (sift_down lt k xs ! i) (sift_down lt k xs ! parent k)" using le_trans by blast
  qed (use h in \<open>simp add: is_heap_def\<close>)
  then show ?thesis using sift_up_heap assms(2) by simp
qed

text \<open>Removing the root.\<close>

lemma pop_heap:
  assumes "is_heap lt xs" and "1 < length xs"
  shows "is_heap lt (sift_down lt 0 ((butlast xs)[0 := last xs]))"
proof (rule sift_down_heap)
  have "hole_heap lt ((butlast xs)[0 := last xs]) 0"
    using replace_hole [OF assms(1), of 0] assms(2) by simp
  then show "down_heap lt ((butlast xs)[0 := last xs]) 0"
    by (auto simp: hole_heap_def down_heap_def)
qed (use assms(2) in simp)

lemma heap_root_min:
  assumes "is_heap lt xs" and "i < length xs"
  shows "\<not> lt (xs ! i) (xs ! 0)"
  using assms(2)
proof (induction i rule: less_induct)
  case (less i)
  show ?case
  proof (cases "i = 0")
    case True
    then show ?thesis by (simp add: irrefl)
  next
    case False
    then have "\<not> lt (xs ! i) (xs ! parent i)"
      using assms(1) less.prems by (simp add: is_heap_def heap_at_def)
    moreover have "\<not> lt (xs ! parent i) (xs ! 0)"
      using less False parent_less [of i] parent_less_length by simp
    ultimately show ?thesis using le_trans by blast
  qed
qed

lemma heap_root_least: "is_heap lt xs \<Longrightarrow> x \<in> set xs \<Longrightarrow> \<not> lt x (hd xs)"
  using heap_root_min by (metis hd_conv_nth in_set_conv_nth length_greater_0_conv length_pos_if_in_set)

lemma is_heap_small: "length xs \<le> 1 \<Longrightarrow> is_heap lt xs"
  by (auto simp: is_heap_def)

end

end
