(* ===== verification/Timer_Queue.thy ===== *)
theory Timer_Queue
  imports Metrics Heap_Vector
begin

text \<open>
  The timer queue of \<open>src/runtime/timer_queue.cpp\<close>: entries shared between a heap ordered by
  (wake time, sequence), which keeps in each entry its own position, and a map from timer
  identities.  Entries live in a store, and the shared pointer to the entry of timer \<open>t\<close> is \<open>t\<close>.
\<close>

section \<open>State\<close>

record TimerEntry =
  te_timer_id :: u64
  te_wake_time :: time
  te_sequence :: u64
  te_handshake :: "nat option"
  te_resume_action :: "nat option"
  te_heap_index :: nat

record TimerQueue =
  tq_metrics :: RuntimeMetrics
  next_timer_id :: u64
  next_timer_sequence :: u64
  tq_store :: "u64 \<Rightarrow> TimerEntry"
  tq_heap :: "u64 list"
  tq_map :: "u64 \<rightharpoonup> u64"

record DueItem =
  due_handshake :: "nat option"
  due_resume_action :: "nat option"
  due_wake_time :: time

definition blank_timer :: TimerEntry where
  "blank_timer = \<lparr>te_timer_id = 0, te_wake_time = 0, te_sequence = 0, te_handshake = None,
     te_resume_action = None, te_heap_index = 0\<rparr>"

definition new_timer_queue :: "RuntimeMetrics \<Rightarrow> TimerQueue" where
  "new_timer_queue m = \<lparr>tq_metrics = m, next_timer_id = 1, next_timer_sequence = 1,
     tq_store = (\<lambda>_. blank_timer), tq_heap = [], tq_map = Map.empty\<rparr>"

definition compare_timer_entry :: "TimerEntry \<Rightarrow> TimerEntry \<Rightarrow> bool" where
  "compare_timer_entry a b =
     (if te_wake_time a \<noteq> te_wake_time b then te_wake_time a < te_wake_time b
      else te_sequence a < te_sequence b)"

definition timer_before :: "(u64 \<Rightarrow> TimerEntry) \<Rightarrow> u64 \<Rightarrow> u64 \<Rightarrow> bool" where
  "timer_before st p q = compare_timer_entry (st p) (st q)"

interpretation timer_heap: heap_order "timer_before st" for st
  by unfold_locales (auto simp: timer_before_def compare_timer_entry_def split: if_splits)

section \<open>Operations\<close>

definition set_index :: "u64 \<Rightarrow> nat \<Rightarrow> (u64 \<Rightarrow> TimerEntry) \<Rightarrow> u64 \<Rightarrow> TimerEntry" where
  "set_index p i st = st(p := (st p)\<lparr>te_heap_index := i\<rparr>)"

text \<open>\<open>std::swap\<close> of two heap positions and the two index updates that follow it.\<close>

definition tq_swap :: "nat \<Rightarrow> nat \<Rightarrow> TimerQueue \<Rightarrow> TimerQueue" where
  "tq_swap i j q =
     (let h = swap_at (tq_heap q) i j
      in q\<lparr>tq_heap := h, tq_store := set_index (h ! j) j (set_index (h ! i) i (tq_store q))\<rparr>)"

function bubble_up :: "nat \<Rightarrow> TimerQueue \<Rightarrow> TimerQueue" where
  "bubble_up idx q =
     (if 0 < idx then
        (if compare_timer_entry (tq_store q (tq_heap q ! idx)) (tq_store q (tq_heap q ! parent idx))
         then bubble_up (parent idx) (tq_swap idx (parent idx) q) else q)
      else q)"
  by pat_completeness auto
termination
  by (relation "measure fst") auto

declare bubble_up.simps [simp del]

function bubble_down :: "nat \<Rightarrow> TimerQueue \<Rightarrow> TimerQueue" where
  "bubble_down idx q =
     (let smallest = smallest_child (timer_before (tq_store q)) idx (tq_heap q)
      in if smallest \<noteq> idx then bubble_down smallest (tq_swap idx smallest q) else q)"
  by pat_completeness auto
termination
proof (relation "measure (\<lambda>(idx, q). length (tq_heap q) - idx)")
  fix idx smallest and q :: TimerQueue
  assume "smallest = smallest_child (timer_before (tq_store q)) idx (tq_heap q)" "smallest \<noteq> idx"
  then have "idx < smallest" "smallest < length (tq_heap q)"
    using smallest_child_cases [of "timer_before (tq_store q)" idx "tq_heap q"] by auto
  then show "((smallest, tq_swap idx smallest q), idx, q) \<in> measure (\<lambda>(idx, q). length (tq_heap q) - idx)"
    by (simp add: tq_swap_def Let_def)
qed simp

declare bubble_down.simps [simp del]

definition tq_count :: "thread_context \<Rightarrow> counter \<Rightarrow> u64 \<Rightarrow> TimerQueue \<Rightarrow> TimerQueue" where
  "tq_count ctx c n q =
     (if level (tq_metrics q) \<noteq> Off
      then q\<lparr>tq_metrics := on_current_shard ctx
              (\<lambda>s. s\<lparr>counters := (counters s)(c := saturating_add (counters s c) n)\<rparr>) (tq_metrics q)\<rparr>
      else q)"

definition tq_inc :: "thread_context \<Rightarrow> counter \<Rightarrow> TimerQueue \<Rightarrow> TimerQueue" where
  "tq_inc ctx c q =
     (if level (tq_metrics q) \<noteq> Off then q\<lparr>tq_metrics := count_event ctx c (tq_metrics q)\<rparr> else q)"

text \<open>The timer's identity, and whether it is now the earliest.\<close>

definition timer_add ::
  "thread_context \<Rightarrow> time \<Rightarrow> nat option \<Rightarrow> nat option \<Rightarrow> TimerQueue \<Rightarrow> u64 \<times> bool \<times> TimerQueue" where
  "timer_add ctx wake hs act q =
     (let tid = next_timer_id q; sq = next_timer_sequence q;
          q1 = tq_inc ctx N_timer_registrations
                 (q\<lparr>next_timer_id := tid + 1, next_timer_sequence := sq + 1\<rparr>);
          idx = length (tq_heap q1);
          entry = \<lparr>te_timer_id = tid, te_wake_time = wake, te_sequence = sq, te_handshake = hs,
                   te_resume_action = act, te_heap_index = idx\<rparr>;
          q2 = q1\<lparr>tq_store := (tq_store q1)(tid := entry), tq_heap := tq_heap q1 @ [tid],
                  tq_map := (tq_map q1)(tid \<mapsto> tid)\<rparr>;
          q3 = bubble_up idx q2
      in (tid, te_timer_id (tq_store q3 (hd (tq_heap q3))) = tid, q3))"

definition timer_cancel :: "thread_context \<Rightarrow> u64 \<Rightarrow> TimerQueue \<Rightarrow> TimerQueue" where
  "timer_cancel ctx tid q =
     (case tq_map q tid of
        None \<Rightarrow> q
      | Some entry \<Rightarrow>
          (let q1 = tq_inc ctx N_timer_cancellations (q\<lparr>tq_map := (tq_map q)(tid := None)\<rparr>);
               idx = te_heap_index (tq_store q1 entry);
               last_idx = length (tq_heap q1) - 1
           in if idx = last_idx then q1\<lparr>tq_heap := butlast (tq_heap q1)\<rparr>
              else
                (let h = (butlast (tq_heap q1))[idx := last (tq_heap q1)];
                     q2 = q1\<lparr>tq_heap := h, tq_store := set_index (h ! idx) idx (tq_store q1)\<rparr>
                 in bubble_up idx (bubble_down idx q2))))"

text \<open>Taking the root out of heap and map: the body of the loops of \<open>collect_due\<close> and \<open>cancel_all\<close>.\<close>

definition pop_root :: "TimerQueue \<Rightarrow> u64 \<times> TimerQueue" where
  "pop_root q =
     (let entry = hd (tq_heap q);
          q1 = q\<lparr>tq_map := (tq_map q)(te_timer_id (tq_store q entry) := None)\<rparr>
      in (entry,
          if length (tq_heap q) = 1 then q1\<lparr>tq_heap := butlast (tq_heap q1)\<rparr>
          else
            (let h = (butlast (tq_heap q1))[0 := last (tq_heap q1)]
             in bubble_down 0 (q1\<lparr>tq_heap := h, tq_store := set_index (h ! 0) 0 (tq_store q1)\<rparr>))))"

lemma length_heap_tq_swap [simp]: "length (tq_heap (tq_swap i j q)) = length (tq_heap q)"
  by (simp add: tq_swap_def Let_def)

lemma length_heap_bubble_down [simp]: "length (tq_heap (bubble_down i q)) = length (tq_heap q)"
  by (induction i q rule: bubble_down.induct) (subst bubble_down.simps, simp add: Let_def)

lemma length_heap_pop_root: "tq_heap q \<noteq> [] \<Longrightarrow> length (tq_heap (snd (pop_root q))) < length (tq_heap q)"
  by (simp add: pop_root_def Let_def)

function drain_while :: "(TimerEntry \<Rightarrow> bool) \<Rightarrow> TimerQueue \<Rightarrow> u64 list \<times> TimerQueue" where
  "drain_while P q =
     (if tq_heap q \<noteq> [] \<and> P (tq_store q (hd (tq_heap q))) then
        (case drain_while P (snd (pop_root q)) of (ps, q') \<Rightarrow> (fst (pop_root q) # ps, q'))
      else ([], q))"
  by pat_completeness auto
termination
  by (relation "measure (\<lambda>(P, q). length (tq_heap q))") (auto simp: length_heap_pop_root)

declare drain_while.simps [simp del]

definition due_item :: "TimerEntry \<Rightarrow> DueItem" where
  "due_item e = \<lparr>due_handshake = te_handshake e, due_resume_action = te_resume_action e,
     due_wake_time = te_wake_time e\<rparr>"

definition record_lateness :: "thread_context \<Rightarrow> time \<Rightarrow> DueItem \<Rightarrow> TimerQueue \<Rightarrow> TimerQueue" where
  "record_lateness ctx now i q =
     (if due_wake_time i \<le> now
      then q\<lparr>tq_metrics := record_duration ctx H_timer_wake_lateness
              (word_of_int (now - due_wake_time i)) (tq_metrics q)\<rparr>
      else q)"

definition collect_due :: "thread_context \<Rightarrow> time \<Rightarrow> TimerQueue \<Rightarrow> DueItem list \<times> TimerQueue" where
  "collect_due ctx now q =
     (case drain_while (\<lambda>e. te_wake_time e \<le> now) q of (ps, q1) \<Rightarrow>
        (let items = map (\<lambda>p. due_item (tq_store q1 p)) ps
         in (items,
             if items \<noteq> [] then
               (let q2 = tq_count ctx N_timer_fires (of_nat (length items)) q1
                in if level (tq_metrics q2) = Detailed then fold (record_lateness ctx now) items q2
                   else q2)
             else q1)))"

definition timer_cancel_all :: "thread_context \<Rightarrow> TimerQueue \<Rightarrow> DueItem list \<times> TimerQueue" where
  "timer_cancel_all ctx q =
     (case drain_while (\<lambda>e. True) q of (ps, q1) \<Rightarrow>
        (let items = map (\<lambda>p. due_item (tq_store q1 p)) ps
         in (items,
             if items \<noteq> [] then tq_count ctx N_timer_cancellations (of_nat (length items)) q1 else q1)))"

definition earliest_wake_time :: "TimerQueue \<Rightarrow> time option" where
  "earliest_wake_time q =
     (if tq_heap q = [] then None else Some (te_wake_time (tq_store q (hd (tq_heap q)))))"

definition timers_empty :: "TimerQueue \<Rightarrow> bool" where
  "timers_empty q \<longleftrightarrow> tq_heap q = []"

definition timers_size :: "TimerQueue \<Rightarrow> nat" where
  "timers_size q = length (tq_heap q)"

section \<open>The loops refine the generic ones\<close>

definition erase :: "(u64 \<Rightarrow> TimerEntry) \<Rightarrow> u64 \<Rightarrow> TimerEntry" where
  "erase st = (\<lambda>p. (st p)\<lparr>te_heap_index := 0\<rparr>)"

lemma erase_set_index [simp]: "erase (set_index p i st) = erase st"
  by (auto simp: erase_def set_index_def fun_eq_iff)

lemma erase_eqD:
  assumes "erase st' = erase st"
  shows "te_timer_id (st' p) = te_timer_id (st p)" "te_wake_time (st' p) = te_wake_time (st p)"
    "te_sequence (st' p) = te_sequence (st p)" "te_handshake (st' p) = te_handshake (st p)"
    "te_resume_action (st' p) = te_resume_action (st p)"
proof -
  have e: "(st' p)\<lparr>te_heap_index := 0\<rparr> = (st p)\<lparr>te_heap_index := 0\<rparr>"
    using fun_cong [OF assms, of p] by (simp add: erase_def)
  show "te_timer_id (st' p) = te_timer_id (st p)" using arg_cong [OF e, of te_timer_id] by simp
  show "te_wake_time (st' p) = te_wake_time (st p)" using arg_cong [OF e, of te_wake_time] by simp
  show "te_sequence (st' p) = te_sequence (st p)" using arg_cong [OF e, of te_sequence] by simp
  show "te_handshake (st' p) = te_handshake (st p)" using arg_cong [OF e, of te_handshake] by simp
  show "te_resume_action (st' p) = te_resume_action (st p)"
    using arg_cong [OF e, of te_resume_action] by simp
qed

lemma timer_before_erase: "erase st' = erase st \<Longrightarrow> timer_before st' = timer_before st"
  unfolding timer_before_def compare_timer_entry_def
  by (simp only: erase_eqD(2,3) [of st' st])

text \<open>What the sift loops leave alone.\<close>

definition same_timers :: "TimerQueue \<Rightarrow> TimerQueue \<Rightarrow> bool" where
  "same_timers q q' \<longleftrightarrow> erase (tq_store q') = erase (tq_store q) \<and> tq_map q' = tq_map q \<and>
     next_timer_id q' = next_timer_id q \<and> next_timer_sequence q' = next_timer_sequence q \<and>
     tq_metrics q' = tq_metrics q"

lemma same_timers_trans: "same_timers a b \<Longrightarrow> same_timers b c \<Longrightarrow> same_timers a c"
  by (simp add: same_timers_def)

lemma same_timers_swap: "same_timers q (tq_swap i j q)"
  by (simp add: same_timers_def tq_swap_def Let_def)

lemma tq_heap_swap [simp]: "tq_heap (tq_swap i j q) = swap_at (tq_heap q) i j"
  by (simp add: tq_swap_def Let_def)

lemma bubble_up_refines:
  "same_timers q (bubble_up i q) \<and>
   tq_heap (bubble_up i q) = sift_up (timer_before (tq_store q)) i (tq_heap q)"
proof (induction i q rule: bubble_up.induct)
  case (1 i q)
  show ?case
  proof (cases "0 < i \<and> timer_before (tq_store q) (tq_heap q ! i) (tq_heap q ! parent i)")
    case True
    let ?q = "tq_swap i (parent i) q"
    have eq: "bubble_up i q = bubble_up (parent i) ?q"
      using True by (subst bubble_up.simps) (simp add: timer_before_def)
    have "timer_before (tq_store ?q) = timer_before (tq_store q)"
      using same_timers_swap [of q i "parent i"] unfolding same_timers_def by (blast intro: timer_before_erase)
    moreover have IH: "same_timers ?q (bubble_up (parent i) ?q) \<and>
        tq_heap (bubble_up (parent i) ?q) = sift_up (timer_before (tq_store ?q)) (parent i) (tq_heap ?q)"
      using 1 True by (simp only: timer_before_def [of _ _ "tq_heap q ! parent i"] simp_thms)
    moreover have "sift_up (timer_before (tq_store q)) i (tq_heap q) =
        sift_up (timer_before (tq_store q)) (parent i) (swap_at (tq_heap q) i (parent i))"
      using True by (subst sift_up.simps) simp
    moreover have "same_timers q (bubble_up (parent i) ?q)"
      using same_timers_trans [OF same_timers_swap] IH by blast
    ultimately show ?thesis by (simp only: eq tq_heap_swap)
  next
    case False
    then have "bubble_up i q = q" by (subst bubble_up.simps) (auto simp: timer_before_def)
    moreover have "sift_up (timer_before (tq_store q)) i (tq_heap q) = tq_heap q"
      using False by (subst sift_up.simps) auto
    ultimately show ?thesis by (simp add: same_timers_def)
  qed
qed

lemma bubble_down_refines:
  "same_timers q (bubble_down i q) \<and>
   tq_heap (bubble_down i q) = sift_down (timer_before (tq_store q)) i (tq_heap q)"
proof (induction i q rule: bubble_down.induct)
  case (1 i q)
  let ?s = "smallest_child (timer_before (tq_store q)) i (tq_heap q)"
  show ?case
  proof (cases "?s = i")
    case False
    let ?q = "tq_swap i ?s q"
    have eq: "bubble_down i q = bubble_down ?s ?q"
      using False by (subst bubble_down.simps) (simp add: Let_def)
    have "timer_before (tq_store ?q) = timer_before (tq_store q)"
      using same_timers_swap [of q i ?s] unfolding same_timers_def by (blast intro: timer_before_erase)
    moreover have IH: "same_timers ?q (bubble_down ?s ?q) \<and>
        tq_heap (bubble_down ?s ?q) = sift_down (timer_before (tq_store ?q)) ?s (tq_heap ?q)"
      using 1 False by simp
    moreover have "sift_down (timer_before (tq_store q)) i (tq_heap q) =
        sift_down (timer_before (tq_store q)) ?s (swap_at (tq_heap q) i ?s)"
      using False by (subst sift_down.simps) (simp add: Let_def)
    moreover have "same_timers q (bubble_down ?s ?q)"
      using same_timers_trans [OF same_timers_swap] IH by blast
    ultimately show ?thesis by (simp only: eq tq_heap_swap)
  next
    case True
    then have "bubble_down i q = q" by (subst bubble_down.simps) simp
    moreover have "sift_down (timer_before (tq_store q)) i (tq_heap q) = tq_heap q"
      using True by (subst sift_down.simps) simp
    ultimately show ?thesis by (simp add: same_timers_def)
  qed
qed

text \<open>The positions the entries record.\<close>

definition indices_ok :: "TimerQueue \<Rightarrow> bool" where
  "indices_ok q \<longleftrightarrow> distinct (tq_heap q) \<and>
     (\<forall>i < length (tq_heap q). te_heap_index (tq_store q (tq_heap q ! i)) = i)"

lemma indices_ok_swap:
  assumes "indices_ok q" and "i < length (tq_heap q)" and "j < length (tq_heap q)"
  shows "indices_ok (tq_swap i j q)"
proof -
  let ?h = "swap_at (tq_heap q) i j"
  have d: "distinct ?h" using assms by (simp add: indices_ok_def)
  have "te_heap_index (set_index (?h ! j) j (set_index (?h ! i) i (tq_store q)) (?h ! k)) = k"
    if k: "k < length ?h" for k
  proof (cases "k = i \<or> k = j")
    case True
    then show ?thesis using d k assms by (auto simp: set_index_def nth_eq_iff_index_eq)
  next
    case False
    then have "?h ! k \<noteq> ?h ! i" "?h ! k \<noteq> ?h ! j"
      using d k assms by (simp_all add: nth_eq_iff_index_eq)
    then show ?thesis
      using False k assms by (simp add: set_index_def swap_at_nth indices_ok_def)
  qed
  with d show ?thesis by (simp add: indices_ok_def tq_swap_def Let_def)
qed

lemma indices_ok_bubble_up:
  "indices_ok q \<Longrightarrow> i < length (tq_heap q) \<Longrightarrow> indices_ok (bubble_up i q)"
proof (induction i q rule: bubble_up.induct)
  case (1 i q)
  show ?case
    using 1 indices_ok_swap [of q i "parent i"] parent_less_length [of i "tq_heap q"]
    by (subst bubble_up.simps) simp
qed

lemma indices_ok_bubble_down:
  "indices_ok q \<Longrightarrow> i < length (tq_heap q) \<Longrightarrow> indices_ok (bubble_down i q)"
proof (induction i q rule: bubble_down.induct)
  case (1 i q)
  let ?s = "smallest_child (timer_before (tq_store q)) i (tq_heap q)"
  have "?s < length (tq_heap q)"
    using smallest_child_cases [of "timer_before (tq_store q)" i "tq_heap q"] 1(3) by auto
  then show ?case
    using 1 indices_ok_swap [of q i ?s] by (subst bubble_down.simps) (simp add: Let_def)
qed

section \<open>The invariant and the operations under it\<close>

definition tq_inv :: "TimerQueue \<Rightarrow> bool" where
  "tq_inv q \<longleftrightarrow>
     indices_ok q \<and>
     is_heap (timer_before (tq_store q)) (tq_heap q) \<and>
     (\<forall>p. tq_map q p = (if p \<in> set (tq_heap q) then Some p else None)) \<and>
     (\<forall>p \<in> set (tq_heap q). te_timer_id (tq_store q p) = p \<and>
        unat p < unat (next_timer_id q) \<and>
        unat (te_sequence (tq_store q p)) < unat (next_timer_sequence q))"

text \<open>The abstract queue: what each pending timer is.\<close>

definition timers_of :: "TimerQueue \<Rightarrow> u64 \<rightharpoonup> (time \<times> u64 \<times> nat option \<times> nat option)" where
  "timers_of q p =
     (if p \<in> set (tq_heap q)
      then Some (te_wake_time (tq_store q p), te_sequence (tq_store q p), te_handshake (tq_store q p),
                 te_resume_action (tq_store q p))
      else None)"

lemma timers_of_cong:
  "erase (tq_store q') = erase (tq_store q) \<Longrightarrow> set (tq_heap q') = set (tq_heap q) \<Longrightarrow>
   timers_of q' = timers_of q"
  by (rule ext) (simp add: timers_of_def erase_eqD [of "tq_store q'" "tq_store q"])

text \<open>Everything the invariant says of entries, for a queue with the same timers.\<close>

lemma tq_inv_same:
  assumes "same_timers q q'" and "set (tq_heap q') = set (tq_heap q)"
    and "indices_ok q'" and "is_heap (timer_before (tq_store q)) (tq_heap q')"
    and "\<forall>p. tq_map q p = (if p \<in> set (tq_heap q) then Some p else None)"
    and "\<forall>p \<in> set (tq_heap q). te_timer_id (tq_store q p) = p \<and> unat p < unat (next_timer_id q) \<and>
        unat (te_sequence (tq_store q p)) < unat (next_timer_sequence q)"
  shows "tq_inv q' \<and> timers_of q' = timers_of q"
proof -
  have e: "erase (tq_store q') = erase (tq_store q)" using assms(1) by (simp add: same_timers_def)
  show ?thesis
    using assms timers_of_cong [OF e assms(2)]
    by (simp add: tq_inv_def same_timers_def timer_before_erase [OF e] erase_eqD [OF e])
qed

lemma tq_inc_frame [simp]:
  "tq_heap (tq_inc ctx c q) = tq_heap q" "tq_store (tq_inc ctx c q) = tq_store q"
  "tq_map (tq_inc ctx c q) = tq_map q" "next_timer_id (tq_inc ctx c q) = next_timer_id q"
  "next_timer_sequence (tq_inc ctx c q) = next_timer_sequence q"
  by (simp_all add: tq_inc_def)

lemma tq_count_frame [simp]:
  "tq_heap (tq_count ctx c n q) = tq_heap q" "tq_store (tq_count ctx c n q) = tq_store q"
  "tq_map (tq_count ctx c n q) = tq_map q" "next_timer_id (tq_count ctx c n q) = next_timer_id q"
  "next_timer_sequence (tq_count ctx c n q) = next_timer_sequence q"
  by (simp_all add: tq_count_def)

lemma tq_inv_new: "tq_inv (new_timer_queue m)"
  by (simp add: tq_inv_def new_timer_queue_def indices_ok_def is_heap_def)

lemma timer_add_inv:
  assumes inv: "tq_inv q" and fresh: "next_timer_id q \<noteq> u64_max" "next_timer_sequence q \<noteq> u64_max"
    and add: "timer_add ctx wake hs act q = (tid, earliest, q')"
  shows "tq_inv q' \<and> tid = next_timer_id q \<and> timers_of q tid = None \<and>
    timers_of q' = (timers_of q)(tid \<mapsto> (wake, next_timer_sequence q, hs, act)) \<and>
    (earliest \<longleftrightarrow> (\<forall>w s h a p. timers_of q p = Some (w, s, h, a) \<longrightarrow> wake < w))"
proof -
  let ?tid = "next_timer_id q" and ?sq = "next_timer_sequence q"
  let ?entry = "\<lparr>te_timer_id = ?tid, te_wake_time = wake, te_sequence = ?sq, te_handshake = hs,
                   te_resume_action = act, te_heap_index = length (tq_heap q)\<rparr>"
  define q1 where "q1 = tq_inc ctx N_timer_registrations
                 (q\<lparr>next_timer_id := ?tid + 1, next_timer_sequence := ?sq + 1\<rparr>)"
  define q2 where "q2 = q1\<lparr>tq_store := (tq_store q1)(?tid := ?entry), tq_heap := tq_heap q1 @ [?tid],
                  tq_map := (tq_map q1)(?tid \<mapsto> ?tid)\<rparr>"
  let ?st = "tq_store q2" and ?n = "length (tq_heap q)"
  have q': "q' = bubble_up ?n q2" and tid: "tid = ?tid"
    and early: "earliest \<longleftrightarrow> te_timer_id (tq_store q' (hd (tq_heap q'))) = ?tid"
    using add by (auto simp: timer_add_def Let_def q1_def q2_def)
  have ids: "unat p < unat ?tid" if "p \<in> set (tq_heap q)" for p
    using inv that by (simp add: tq_inv_def)
  have new: "?tid \<notin> set (tq_heap q)" using ids by blast
  have old: "?st p = tq_store q p" if "p \<in> set (tq_heap q)" for p
    using that new by (auto simp: q2_def q1_def)
  have st: "?st ?tid = ?entry" by (simp add: q2_def)
  have h2: "tq_heap q2 = tq_heap q @ [?tid]" by (simp add: q2_def q1_def)
  have idx: "indices_ok q2"
    using inv new old st unfolding indices_ok_def h2 tq_inv_def
    by (auto simp: nth_append less_Suc_eq)
  have "is_heap (timer_before ?st) (tq_heap q)"
  proof -
    have "timer_before ?st a b = timer_before (tq_store q) a b"
      if "a \<in> set (tq_heap q)" "b \<in> set (tq_heap q)" for a b
      using that old by (simp add: timer_before_def)
    then show ?thesis
      using inv parent_less_length [of _ "tq_heap q"] by (auto simp: tq_inv_def is_heap_def heap_at_def)
  qed
  from timer_heap.push_heap [OF this, of ?tid]
  have heap: "is_heap (timer_before ?st) (tq_heap q')"
    using bubble_up_refines [of q2 ?n] by (simp add: q' h2)
  have same: "same_timers q2 q'" and set': "set (tq_heap q') = set (tq_heap q2)"
    using bubble_up_refines [of q2 ?n] by (auto simp: q' h2)
  have entries: "te_timer_id (?st p) = p \<and> unat p < unat (next_timer_id q2) \<and>
        unat (te_sequence (?st p)) < unat (next_timer_sequence q2)" if "p \<in> set (tq_heap q2)" for p
  proof (cases "p = ?tid")
    case True
    then show ?thesis using fresh st by (simp add: q2_def q1_def unat_inc)
  next
    case False
    then have "p \<in> set (tq_heap q)" using that h2 by simp
    then show ?thesis
      using inv fresh old by (auto simp: tq_inv_def q2_def q1_def unat_inc less_Suc_eq)
  qed
  have map2: "\<forall>p. tq_map q2 p = (if p \<in> set (tq_heap q2) then Some p else None)"
    using inv by (auto simp: tq_inv_def q2_def q1_def)
  have res: "tq_inv q' \<and> timers_of q' = timers_of q2"
    using tq_inv_same [OF same set' _ heap map2] indices_ok_bubble_up [OF idx, of ?n] entries
    by (simp add: q' h2)
  have abs: "timers_of q2 = (timers_of q)(?tid \<mapsto> (wake, ?sq, hs, act))"
    using old st h2 by (auto simp: timers_of_def fun_eq_iff)
  have ne: "tq_heap q' \<noteq> []" using set' h2 by auto
  have hd_id: "te_timer_id (tq_store q' p) = p" if "p \<in> set (tq_heap q')" for p
    using res that by (simp add: tq_inv_def)
  have "earliest \<longleftrightarrow> hd (tq_heap q') = ?tid"
    using early hd_id hd_in_set [OF ne] by simp
  also have "\<dots> \<longleftrightarrow> (\<forall>p \<in> set (tq_heap q). wake < te_wake_time (tq_store q p))"
  proof
    assume hd: "hd (tq_heap q') = ?tid"
    show "\<forall>p \<in> set (tq_heap q). wake < te_wake_time (tq_store q p)"
    proof
      fix p
      assume p: "p \<in> set (tq_heap q)"
      then have "\<not> timer_before ?st p ?tid"
        using timer_heap.heap_root_least [OF heap, of p] hd set' h2 by simp
      moreover have "unat (te_sequence (tq_store q p)) < unat ?sq"
        using inv p by (simp add: tq_inv_def)
      ultimately show "wake < te_wake_time (tq_store q p)"
        using old [OF p] st by (auto simp: timer_before_def compare_timer_entry_def word_less_nat_alt
            split: if_splits)
    qed
  next
    assume all: "\<forall>p \<in> set (tq_heap q). wake < te_wake_time (tq_store q p)"
    show "hd (tq_heap q') = ?tid"
    proof (rule ccontr)
      assume "hd (tq_heap q') \<noteq> ?tid"
      then have p: "hd (tq_heap q') \<in> set (tq_heap q)"
        using hd_in_set [OF ne] set' h2 by auto
      have "\<not> timer_before ?st ?tid (hd (tq_heap q'))"
        using timer_heap.heap_root_least [OF heap, of ?tid] set' h2 by simp
      then show False
        using all p old [OF p] st by (auto simp: timer_before_def compare_timer_entry_def split: if_splits)
    qed
  qed
  also have "\<dots> \<longleftrightarrow> (\<forall>w s h a p. timers_of q p = Some (w, s, h, a) \<longrightarrow> wake < w)"
    by (fastforce simp: timers_of_def split: if_splits)
  finally show ?thesis
    using res abs tid new by (simp add: timers_of_def)
qed

text \<open>Removing one position: the vector without it, and the entries after the move.\<close>

definition drop_timer :: "u64 \<Rightarrow> TimerQueue \<Rightarrow> TimerQueue \<Rightarrow> bool" where
  "drop_timer p q q' \<longleftrightarrow>
     erase (tq_store q') = erase (tq_store q) \<and> tq_map q' = (tq_map q)(p := None) \<and>
     next_timer_id q' = next_timer_id q \<and> next_timer_sequence q' = next_timer_sequence q \<and>
     set (tq_heap q') = set (tq_heap q) - {p} \<and> indices_ok q' \<and>
     is_heap (timer_before (tq_store q)) (tq_heap q')"

lemma drop_timer_inv:
  assumes "tq_inv q" and "drop_timer p q q'"
  shows "tq_inv q' \<and> timers_of q' = (timers_of q)(p := None)"
proof -
  have e: "erase (tq_store q') = erase (tq_store q)" using assms(2) by (simp add: drop_timer_def)
  show ?thesis
    using assms by (auto simp: tq_inv_def drop_timer_def timers_of_def fun_eq_iff
        timer_before_erase [OF e] erase_eqD [OF e])
qed

lemma set_butlast_distinct:
  "distinct xs \<Longrightarrow> xs \<noteq> [] \<Longrightarrow> set (butlast xs) = set xs - {last xs}"
  by (induction xs rule: rev_induct) auto

lemma set_replace_distinct:
  assumes "distinct xs" and "k < length xs - 1"
  shows "set ((butlast xs)[k := last xs]) = set xs - {xs ! k} \<and> distinct ((butlast xs)[k := last xs])"
proof -
  have ms: "mset ((butlast xs)[k := last xs]) = mset xs - {# xs ! k #}"
    using mset_list_update_last [OF assms(2)] .
  have "mset ((butlast xs)[k := last xs]) = mset (remove1 (xs ! k) xs)"
    using ms by simp
  then show ?thesis
    using assms by (metis distinct_remove1 mset_eq_imp_distinct_iff mset_eq_setD set_remove1_eq)
qed

lemma drop_last:
  assumes "tq_inv q" and "tq_heap q \<noteq> []" and "p = last (tq_heap q)"
    and "tq_store q1 = tq_store q" and "tq_heap q1 = tq_heap q"
    and "tq_map q1 = (tq_map q)(p := None)"
    and "next_timer_id q1 = next_timer_id q" and "next_timer_sequence q1 = next_timer_sequence q"
  shows "drop_timer p q (q1\<lparr>tq_heap := butlast (tq_heap q1)\<rparr>)"
proof -
  have "distinct (tq_heap q)" using assms(1) by (simp add: tq_inv_def indices_ok_def)
  moreover have "is_heap (timer_before (tq_store q)) (butlast (tq_heap q))"
    using assms(1) parent_less_length [of _ "butlast (tq_heap q)"]
    by (auto simp: tq_inv_def is_heap_def heap_at_def nth_butlast)
  ultimately show ?thesis
    using assms set_butlast_distinct [of "tq_heap q"]
    by (auto simp: drop_timer_def tq_inv_def indices_ok_def distinct_butlast nth_butlast)
qed

definition moved_last :: "nat \<Rightarrow> TimerQueue \<Rightarrow> TimerQueue" where
  "moved_last idx q1 =
     (let h = (butlast (tq_heap q1))[idx := last (tq_heap q1)]
      in q1\<lparr>tq_heap := h, tq_store := set_index (h ! idx) idx (tq_store q1)\<rparr>)"

lemma moved_last_ok:
  assumes "indices_ok q" and "idx < length (tq_heap q) - 1"
  shows "indices_ok (moved_last idx q) \<and> erase (tq_store (moved_last idx q)) = erase (tq_store q) \<and>
    tq_heap (moved_last idx q) = (butlast (tq_heap q))[idx := last (tq_heap q)] \<and>
    set (tq_heap (moved_last idx q)) = set (tq_heap q) - {tq_heap q ! idx}"
proof -
  let ?h = "(butlast (tq_heap q))[idx := last (tq_heap q)]"
  have d: "distinct ?h" and set': "set ?h = set (tq_heap q) - {tq_heap q ! idx}"
    using set_replace_distinct [OF _ assms(2)] assms(1) by (auto simp: indices_ok_def)
  have "te_heap_index (set_index (?h ! idx) idx (tq_store q) (?h ! k)) = k" if k: "k < length ?h" for k
  proof (cases "k = idx")
    case True
    then show ?thesis by (simp add: set_index_def)
  next
    case False
    then have "?h ! k \<noteq> ?h ! idx"
      using nth_eq_iff_index_eq [OF d k, of idx] assms(2) by (metis length_list_update length_butlast)
    moreover have "?h ! k = tq_heap q ! k" using False k by (simp add: nth_butlast)
    ultimately show ?thesis
      using assms(1) k by (simp add: set_index_def indices_ok_def del: nth_list_update_eq nth_list_update_neq)
  qed
  with d set' show ?thesis by (simp add: moved_last_def Let_def indices_ok_def)
qed

lemma timer_cancel_drop:
  assumes "tq_inv q" and "p \<in> set (tq_heap q)"
  shows "drop_timer p q (timer_cancel ctx p q)"
proof -
  let ?h = "tq_heap q"
  let ?idx = "te_heap_index (tq_store q p)"
  define q1 where "q1 = tq_inc ctx N_timer_cancellations (q\<lparr>tq_map := (tq_map q)(p := None)\<rparr>)"
  have ok: "indices_ok q" and mp: "tq_map q p = Some p"
    and hp: "is_heap (timer_before (tq_store q)) ?h"
    using assms by (auto simp: tq_inv_def)
  then obtain k where k: "k < length ?h" "?h ! k = p" "?idx = k"
    using assms(2) by (auto simp: in_set_conv_nth indices_ok_def)
  have q1: "tq_store q1 = tq_store q" "tq_heap q1 = ?h" "tq_map q1 = (tq_map q)(p := None)"
    "next_timer_id q1 = next_timer_id q" "next_timer_sequence q1 = next_timer_sequence q"
    by (simp_all add: q1_def)
  show ?thesis
  proof (cases "k = length ?h - 1")
    case True
    have ne: "?h \<noteq> []" using k by auto
    then have "p = last ?h" using k True by (simp add: last_conv_nth)
    moreover note ne
    moreover have "timer_cancel ctx p q = q1\<lparr>tq_heap := butlast (tq_heap q1)\<rparr>"
      using mp k True by (simp add: timer_cancel_def q1_def)
    ultimately show ?thesis using drop_last [OF assms(1) _ _ q1] by simp
  next
    case False
    then have lt: "k < length ?h - 1" using k by simp
    let ?q2 = "moved_last k q1" and ?q3 = "bubble_down k (moved_last k q1)"
    have res: "timer_cancel ctx p q = bubble_up k ?q3"
      using mp k False by (simp add: timer_cancel_def q1_def moved_last_def Let_def)
    have ok1: "indices_ok q1" using ok by (simp add: indices_ok_def q1)
    note m = moved_last_ok [OF ok1, unfolded q1, OF lt]
    have b2: "timer_before (tq_store ?q2) = timer_before (tq_store q)"
      by (rule timer_before_erase) (use m in blast)
    have s3: "same_timers ?q2 ?q3" and h3: "tq_heap ?q3 = sift_down (timer_before (tq_store q)) k (tq_heap ?q2)"
      using bubble_down_refines [of ?q2 k] b2 by simp_all
    have b3: "timer_before (tq_store ?q3) = timer_before (tq_store q)"
      using timer_before_erase [of "tq_store ?q3" "tq_store ?q2"] s3 b2 by (simp add: same_timers_def)
    have s4: "same_timers ?q3 (bubble_up k ?q3)"
      and h4: "tq_heap (bubble_up k ?q3) = sift_up (timer_before (tq_store q)) k (tq_heap ?q3)"
      using bubble_up_refines [of ?q3 k] b3 by simp_all
    have len: "k < length (tq_heap ?q2)" using m lt by simp
    have "hole_heap (timer_before (tq_store q)) (tq_heap ?q2) k"
      using timer_heap.replace_hole [OF hp lt] m by simp
    from timer_heap.sift_hole [OF this len]
    have heap: "is_heap (timer_before (tq_store q)) (tq_heap (bubble_up k ?q3))"
      by (simp add: h3 h4)
    have "indices_ok (bubble_up k ?q3)"
      using indices_ok_bubble_up indices_ok_bubble_down m len by simp
    moreover have "set (tq_heap ?q2) = set ?h - {p}"
      using m [THEN conjunct2, THEN conjunct2, THEN conjunct2] unfolding k(2) .
    then have "set (tq_heap (bubble_up k ?q3)) = set ?h - {p}"
      using len by (simp only: h3 h4 set_sift_down set_sift_up length_sift_down)
    moreover have "same_timers ?q2 (bubble_up k ?q3)" using same_timers_trans [OF s3 s4] .
    moreover have "tq_map ?q2 = tq_map q1" "next_timer_id ?q2 = next_timer_id q1"
      "next_timer_sequence ?q2 = next_timer_sequence q1"
      by (simp_all add: moved_last_def Let_def)
    ultimately show ?thesis
      using heap m q1 by (simp add: drop_timer_def same_timers_def res)
  qed
qed

lemma timer_cancel_unknown: "tq_inv q \<Longrightarrow> p \<notin> set (tq_heap q) \<Longrightarrow> timer_cancel ctx p q = q"
  by (simp add: timer_cancel_def tq_inv_def)

lemma pop_root_drop:
  assumes "tq_inv q" and "tq_heap q \<noteq> []"
  shows "drop_timer (hd (tq_heap q)) q (snd (pop_root q)) \<and> fst (pop_root q) = hd (tq_heap q)"
proof -
  let ?h = "tq_heap q" and ?p = "hd (tq_heap q)"
  define q1 where "q1 = q\<lparr>tq_map := (tq_map q)(?p := None)\<rparr>"
  have id: "te_timer_id (tq_store q ?p) = ?p" using assms by (simp add: tq_inv_def)
  have fp: "fst (pop_root q) = ?p" by (simp add: pop_root_def Let_def)
  have q1: "tq_store q1 = tq_store q" "tq_heap q1 = ?h" "tq_map q1 = (tq_map q)(?p := None)"
    "next_timer_id q1 = next_timer_id q" "next_timer_sequence q1 = next_timer_sequence q"
    by (simp_all add: q1_def)
  show ?thesis
  proof (cases "length ?h = 1")
    case True
    then have "?p = last ?h" using assms(2) by (cases ?h) auto
    moreover have "snd (pop_root q) = q1\<lparr>tq_heap := butlast (tq_heap q1)\<rparr>"
      using True id by (simp add: pop_root_def Let_def q1_def)
    ultimately show ?thesis
      using drop_last [OF assms(1,2) _ q1] fp by simp
  next
    case False
    then have lt: "0 < length ?h - 1" using assms(2) by (cases ?h) auto
    let ?q2 = "moved_last 0 q1"
    have res: "snd (pop_root q) = bubble_down 0 ?q2"
      using False id by (simp add: pop_root_def Let_def q1_def moved_last_def)
    have hp: "is_heap (timer_before (tq_store q)) ?h" and "indices_ok q"
      using assms(1) by (auto simp: tq_inv_def)
    then have ok1: "indices_ok q1" by (simp add: indices_ok_def q1)
    note m = moved_last_ok [OF ok1, unfolded q1, OF lt]
    have b2: "timer_before (tq_store ?q2) = timer_before (tq_store q)"
      by (rule timer_before_erase) (use m in blast)
    have s3: "same_timers ?q2 (bubble_down 0 ?q2)"
      and h3: "tq_heap (bubble_down 0 ?q2) = sift_down (timer_before (tq_store q)) 0 (tq_heap ?q2)"
      using bubble_down_refines [of ?q2 0] b2 by simp_all
    have len: "0 < length (tq_heap ?q2)" using m lt by simp
    have "is_heap (timer_before (tq_store q)) (tq_heap (bubble_down 0 ?q2))"
      using timer_heap.pop_heap [OF hp] lt m h3 by simp
    moreover have "indices_ok (bubble_down 0 ?q2)" using indices_ok_bubble_down m len by simp
    moreover have "set (tq_heap ?q2) = set ?h - {?p}"
      using m [THEN conjunct2, THEN conjunct2, THEN conjunct2] by (metis assms(2) hd_conv_nth)
    then have "set (tq_heap (bubble_down 0 ?q2)) = set ?h - {?p}"
      using len by (simp only: h3 set_sift_down)
    moreover have "tq_map ?q2 = tq_map q1" "next_timer_id ?q2 = next_timer_id q1"
      "next_timer_sequence ?q2 = next_timer_sequence q1"
      by (simp_all add: moved_last_def Let_def)
    ultimately show ?thesis
      using s3 m q1 fp by (simp add: drop_timer_def same_timers_def res)
  qed
qed

section \<open>Draining\<close>

definition timer_due_order :: "TimerQueue \<Rightarrow> u64 list \<Rightarrow> bool" where
  "timer_due_order q ps \<longleftrightarrow> sorted_wrt (\<lambda>a b. \<not> timer_before (tq_store q) b a) ps"

text \<open>
  \<open>P\<close> is a test that holds of an entry when it holds of a later one, such as being due.
\<close>

lemma drain_while_spec:
  assumes "tq_inv q"
    and mono: "\<And>a b. \<not> compare_timer_entry a b \<Longrightarrow> P a \<Longrightarrow> P b"
    and erased: "\<And>a b. te_wake_time a = te_wake_time b \<Longrightarrow> P a = P b"
    and "drain_while P q = (ps, q')"
  shows "tq_inv q' \<and> erase (tq_store q') = erase (tq_store q) \<and> distinct ps \<and>
    timer_due_order q ps \<and>
    set ps = {p \<in> set (tq_heap q). P (tq_store q p)} \<and>
    timers_of q' = (\<lambda>p. if p \<in> set ps then None else timers_of q p) \<and>
    next_timer_id q' = next_timer_id q \<and> next_timer_sequence q' = next_timer_sequence q"
  using assms(1,4)
proof (induction "length (tq_heap q)" arbitrary: q ps rule: less_induct)
  case less
  let ?p = "hd (tq_heap q)"
  show ?case
  proof (cases "tq_heap q \<noteq> [] \<and> P (tq_store q ?p)")
    case False
    then have "drain_while P q = ([], q)" by (subst drain_while.simps) auto
    with less.prems(2) have r: "ps = []" "q' = q" by simp_all
    have "\<not> P (tq_store q x)" if x: "x \<in> set (tq_heap q)" for x
    proof
      assume "P (tq_store q x)"
      moreover have "\<not> timer_before (tq_store q) x ?p"
        using timer_heap.heap_root_least x less.prems(1) by (simp add: tq_inv_def)
      ultimately have "P (tq_store q ?p)" using mono by (simp add: timer_before_def)
      then show False using False x by auto
    qed
    then show ?thesis using r less.prems(1) by (auto simp: timer_due_order_def fun_eq_iff)
  next
    case True
    let ?q1 = "snd (pop_root q)"
    obtain ps1 where d1: "drain_while P ?q1 = (ps1, q')" and ps: "ps = ?p # ps1"
      using less.prems(2) True pop_root_drop [OF less.prems(1)]
      by (subst (asm) drain_while.simps) (auto split: prod.splits)
    from pop_root_drop [OF less.prems(1)] True have dr: "drop_timer ?p q ?q1" by blast
    from drop_timer_inv [OF less.prems(1) dr]
    have inv1: "tq_inv ?q1" and abs1: "timers_of ?q1 = (timers_of q)(?p := None)" by blast+
    have lt: "length (tq_heap ?q1) < length (tq_heap q)" using length_heap_pop_root True by blast
    have e: "erase (tq_store ?q1) = erase (tq_store q)"
      and set1: "set (tq_heap ?q1) = set (tq_heap q) - {?p}"
      and nx: "next_timer_id ?q1 = next_timer_id q" "next_timer_sequence ?q1 = next_timer_sequence q"
      using dr by (simp_all add: drop_timer_def)
    have sameP: "P (tq_store ?q1 x) = P (tq_store q x)" for x
      by (rule erased) (rule erase_eqD [OF e])
    from less.hyps [OF lt inv1 d1] have IH: "tq_inv q'" "erase (tq_store q') = erase (tq_store q)"
      "distinct ps1" "timer_due_order q ps1"
      "set ps1 = {p \<in> set (tq_heap q) - {?p}. P (tq_store q p)}"
      "timers_of q' = (\<lambda>p. if p \<in> set ps1 then None else timers_of ?q1 p)"
      "next_timer_id q' = next_timer_id q" "next_timer_sequence q' = next_timer_sequence q"
      by (simp_all add: e nx set1 sameP timer_due_order_def timer_before_erase [OF e])
    have hd_least: "\<not> timer_before (tq_store q) x ?p" if "x \<in> set (tq_heap q)" for x
      using timer_heap.heap_root_least that less.prems(1) by (simp add: tq_inv_def)
    have pin: "?p \<in> set (tq_heap q)" and Pp: "P (tq_store q ?p)" using True by simp_all
    have sets: "set ps = {p \<in> set (tq_heap q). P (tq_store q p)}"
    proof -
      have "set ps = insert ?p (set ps1)" by (simp add: ps)
      also have "\<dots> = {p \<in> set (tq_heap q). P (tq_store q p)}" unfolding IH(5) using pin Pp by blast
      finally show ?thesis .
    qed
    have "?p \<notin> set ps1" unfolding IH(5) by blast
    then have dist: "distinct ps" using IH(3) by (simp add: ps)
    have "\<not> timer_before (tq_store q) x ?p" if "x \<in> set ps1" for x
      by (rule hd_least) (use that in \<open>simp add: IH(5)\<close>)
    then have ord: "timer_due_order q ps"
      using IH(4) by (simp add: ps timer_due_order_def)
    have abs: "timers_of q' = (\<lambda>p. if p \<in> set ps then None else timers_of q p)"
      unfolding IH(6) abs1 by (rule ext) (simp add: ps)
    show ?thesis
      using IH(1,2,7,8) dist ord sets abs by blast
  qed
qed

lemma record_lateness_frame [simp]:
  "tq_heap (fold (record_lateness ctx now) is q) = tq_heap q"
  "tq_store (fold (record_lateness ctx now) is q) = tq_store q"
  "tq_map (fold (record_lateness ctx now) is q) = tq_map q"
  "next_timer_id (fold (record_lateness ctx now) is q) = next_timer_id q"
  "next_timer_sequence (fold (record_lateness ctx now) is q) = next_timer_sequence q"
  by (induction "is" arbitrary: q) (simp_all add: record_lateness_def)

lemma tq_inv_metrics:
  assumes "tq_heap q' = tq_heap q" "tq_store q' = tq_store q" "tq_map q' = tq_map q"
    "next_timer_id q' = next_timer_id q" "next_timer_sequence q' = next_timer_sequence q"
  shows "tq_inv q' = tq_inv q" "timers_of q' = timers_of q"
proof -
  show "tq_inv q' = tq_inv q" using assms by (simp add: tq_inv_def indices_ok_def)
  show "timers_of q' = timers_of q" by (rule ext) (simp add: timers_of_def assms)
qed

lemma collect_due_frame:
  assumes "drain_while (\<lambda>e. te_wake_time e \<le> now) q = (ps, q1)" and "collect_due ctx now q = (items, q')"
  shows "items = map (\<lambda>p. due_item (tq_store q1 p)) ps \<and> tq_heap q' = tq_heap q1 \<and>
    tq_store q' = tq_store q1 \<and> tq_map q' = tq_map q1 \<and> next_timer_id q' = next_timer_id q1 \<and>
    next_timer_sequence q' = next_timer_sequence q1"
  using assms by (auto simp: collect_due_def Let_def split: if_splits)

section \<open>Refinement of a map of pending timers\<close>

datatype timer_op =
    T_add thread_context time "nat option" "nat option"
  | T_cancel thread_context u64
  | T_collect thread_context time
  | T_cancel_all thread_context

fun timer_step :: "timer_op \<Rightarrow> TimerQueue \<Rightarrow> TimerQueue" where
  "timer_step (T_add ctx wake hs act) q = snd (snd (timer_add ctx wake hs act q))"
| "timer_step (T_cancel ctx tid) q = timer_cancel ctx tid q"
| "timer_step (T_collect ctx now) q = snd (collect_due ctx now q)"
| "timer_step (T_cancel_all ctx) q = snd (timer_cancel_all ctx q)"

type_synonym pending_timers = "u64 \<rightharpoonup> (time \<times> u64 \<times> nat option \<times> nat option)"

text \<open>The specification: the next identity, and what is pending under which identity.\<close>

fun spec_step :: "timer_op \<Rightarrow> u64 \<times> pending_timers \<Rightarrow> u64 \<times> pending_timers" where
  "spec_step (T_add ctx wake hs act) (n, m) = (n + 1, m(n \<mapsto> (wake, n, hs, act)))"
| "spec_step (T_cancel ctx tid) (n, m) = (n, m(tid := None))"
| "spec_step (T_collect ctx now) (n, m) =
     (n, \<lambda>p. case m p of None \<Rightarrow> None | Some (w, x) \<Rightarrow> if w \<le> now then None else Some (w, x))"
| "spec_step (T_cancel_all ctx) (n, m) = (n, Map.empty)"

lemma timer_cancel_inv:
  assumes "tq_inv q"
  shows "tq_inv (timer_cancel ctx p q) \<and> timers_of (timer_cancel ctx p q) = (timers_of q)(p := None)"
proof (cases "p \<in> set (tq_heap q)")
  case True
  then show ?thesis using drop_timer_inv [OF assms timer_cancel_drop [OF assms]] by blast
next
  case False
  then show ?thesis using timer_cancel_unknown [OF assms] assms by (auto simp: timers_of_def fun_eq_iff)
qed

lemma timer_cancel_counters [simp]:
  assumes "tq_inv q"
  shows "next_timer_id (timer_cancel ctx p q) = next_timer_id q"
    and "next_timer_sequence (timer_cancel ctx p q) = next_timer_sequence q"
  using timer_cancel_drop [OF assms, of p ctx] timer_cancel_unknown [OF assms, of p ctx]
  by (cases "p \<in> set (tq_heap q)"; simp add: drop_timer_def)+

lemma due_monotone: "\<not> compare_timer_entry a b \<Longrightarrow> te_wake_time a \<le> now \<Longrightarrow> te_wake_time b \<le> now"
  by (auto simp: compare_timer_entry_def split: if_splits)

lemma collect_due_inv:
  assumes "tq_inv q" and "collect_due ctx now q = (items, q')"
  shows "tq_inv q' \<and>
    timers_of q' = (\<lambda>p. case timers_of q p of None \<Rightarrow> None
                        | Some (w, x) \<Rightarrow> if w \<le> now then None else Some (w, x)) \<and>
    next_timer_id q' = next_timer_id q \<and> next_timer_sequence q' = next_timer_sequence q \<and>
    (\<exists>ps. distinct ps \<and> set ps = {p \<in> set (tq_heap q). te_wake_time (tq_store q p) \<le> now} \<and>
       timer_due_order q ps \<and> items = map (\<lambda>p. due_item (tq_store q p)) ps)"
proof -
  obtain ps q1 where d: "drain_while (\<lambda>e. te_wake_time e \<le> now) q = (ps, q1)"
    by (cases "drain_while (\<lambda>e. te_wake_time e \<le> now) q")
  have s0: "tq_inv q1 \<and> erase (tq_store q1) = erase (tq_store q) \<and> distinct ps \<and>
    timer_due_order q ps \<and> set ps = {p \<in> set (tq_heap q). te_wake_time (tq_store q p) \<le> now} \<and>
    timers_of q1 = (\<lambda>p. if p \<in> set ps then None else timers_of q p) \<and>
    next_timer_id q1 = next_timer_id q \<and> next_timer_sequence q1 = next_timer_sequence q"
  proof (rule drain_while_spec [OF assms(1) _ _ d])
    fix a b
    show "te_wake_time b \<le> now" if "\<not> compare_timer_entry a b" "te_wake_time a \<le> now"
      using due_monotone [OF that] .
    show "(te_wake_time a \<le> now) = (te_wake_time b \<le> now)" if "te_wake_time a = te_wake_time b"
      using that by simp
  qed
  have sp: "tq_inv q1" "erase (tq_store q1) = erase (tq_store q)" "distinct ps" "timer_due_order q ps"
    "set ps = {p \<in> set (tq_heap q). te_wake_time (tq_store q p) \<le> now}"
    "timers_of q1 = (\<lambda>p. if p \<in> set ps then None else timers_of q p)"
    "next_timer_id q1 = next_timer_id q" "next_timer_sequence q1 = next_timer_sequence q"
    using s0 by blast+
  note fr = collect_due_frame [OF d assms(2)]
  have inv: "tq_inv q' = tq_inv q1" and abs: "timers_of q' = timers_of q1"
    using fr tq_inv_metrics [of q' q1] by blast+
  note e = sp(2)
  have "items = map (\<lambda>p. due_item (tq_store q p)) ps"
    using fr by (simp add: due_item_def erase_eqD [OF e])
  moreover have "timers_of q1 = (\<lambda>p. case timers_of q p of None \<Rightarrow> None
                        | Some (w, x) \<Rightarrow> if w \<le> now then None else Some (w, x))"
    unfolding sp(6) by (rule ext) (simp add: sp(5) timers_of_def)
  ultimately show ?thesis
    using sp fr inv abs by metis
qed

lemma cancel_all_inv:
  assumes "tq_inv q" and "timer_cancel_all ctx q = (items, q')"
  shows "tq_inv q' \<and> timers_of q' = Map.empty \<and>
    next_timer_id q' = next_timer_id q \<and> next_timer_sequence q' = next_timer_sequence q"
proof -
  obtain ps q1 where d: "drain_while (\<lambda>e. True) q = (ps, q1)"
    by (cases "drain_while (\<lambda>e. True) q")
  have sp: "tq_inv q1" "set ps = set (tq_heap q)"
    "timers_of q1 = (\<lambda>p. if p \<in> set ps then None else timers_of q p)"
    "next_timer_id q1 = next_timer_id q" "next_timer_sequence q1 = next_timer_sequence q"
    using drain_while_spec [OF assms(1) _ _ d] by simp_all
  have fr: "tq_heap q' = tq_heap q1" "tq_store q' = tq_store q1" "tq_map q' = tq_map q1"
    "next_timer_id q' = next_timer_id q1" "next_timer_sequence q' = next_timer_sequence q1"
    using assms(2) d by (auto simp: timer_cancel_all_def Let_def split: if_splits)
  have "timers_of q1 = Map.empty"
    unfolding sp(3) by (rule ext) (simp add: sp(2) timers_of_def)
  then show ?thesis
    using tq_inv_metrics [OF fr] sp fr by simp
qed

lemma timer_step_refines:
  assumes "tq_inv q" and "next_timer_sequence q = next_timer_id q" and "next_timer_id q \<noteq> u64_max"
  shows "tq_inv (timer_step op q) \<and> next_timer_sequence (timer_step op q) = next_timer_id (timer_step op q) \<and>
    (next_timer_id (timer_step op q), timers_of (timer_step op q)) =
      spec_step op (next_timer_id q, timers_of q)"
proof (cases op)
  case (T_add ctx wake hs act)
  obtain tid e q' where a: "timer_add ctx wake hs act q = (tid, e, q')"
    by (cases "timer_add ctx wake hs act q")
  have "next_timer_id q' = next_timer_id q + 1 \<and> next_timer_sequence q' = next_timer_sequence q + 1"
    using a bubble_up_refines by (auto simp: timer_add_def Let_def same_timers_def)
  then show ?thesis
    using timer_add_inv [OF assms(1) _ _ a] assms T_add a by simp
next
  case (T_cancel ctx tid)
  then show ?thesis using timer_cancel_inv assms by simp
next
  case (T_collect ctx now)
  obtain items q' where c: "collect_due ctx now q = (items, q')" by (cases "collect_due ctx now q")
  show ?thesis using collect_due_inv [OF assms(1) c] assms T_collect c by simp
next
  case (T_cancel_all ctx)
  obtain items q' where c: "timer_cancel_all ctx q = (items, q')" by (cases "timer_cancel_all ctx q")
  show ?thesis using cancel_all_inv [OF assms(1) c] assms T_cancel_all c by simp
qed

text \<open>
  C11: The timer queue implements a map of pending timers: after any history of additions,
  cancellations, collections of due timers and wholesale cancellations, its heap, its map and the
  positions stored in the entries agree, and what is pending is exactly what the specification has
  pending, under the same identities.
\<close>

theorem timer_queue_refines_map:
  assumes "length ops < 2 ^ 64 - 1"
  shows "tq_inv (fold timer_step ops (new_timer_queue m)) \<and>
    timers_of (fold timer_step ops (new_timer_queue m)) = snd (fold spec_step ops (1, Map.empty))"
proof -
  have "tq_inv (fold timer_step ops (new_timer_queue m)) \<and>
    next_timer_sequence (fold timer_step ops (new_timer_queue m)) =
      next_timer_id (fold timer_step ops (new_timer_queue m)) \<and>
    unat (next_timer_id (fold timer_step ops (new_timer_queue m))) \<le> Suc (length ops) \<and>
    (next_timer_id (fold timer_step ops (new_timer_queue m)),
     timers_of (fold timer_step ops (new_timer_queue m))) = fold spec_step ops (1, Map.empty)"
    using assms
  proof (induction ops rule: rev_induct)
    case Nil
    show ?case
      using tq_inv_new [of m] by (simp add: new_timer_queue_def timers_of_def fun_eq_iff)
  next
    case (snoc op ops)
    let ?q = "fold timer_step ops (new_timer_queue m)"
    from snoc have IH: "tq_inv ?q" "next_timer_sequence ?q = next_timer_id ?q"
      "unat (next_timer_id ?q) \<le> Suc (length ops)"
      "(next_timer_id ?q, timers_of ?q) = fold spec_step ops (1, Map.empty)"
      by simp_all
    have "unat (next_timer_id ?q) < 2 ^ 64 - 1" using IH(3) snoc.prems by simp
    then have nm: "next_timer_id ?q \<noteq> u64_max" using unat_u64_max by (metis less_irrefl)
    note st = timer_step_refines [OF IH(1,2) nm, of op]
    have "fst (spec_step op (n, mp)) = n \<or> fst (spec_step op (n, mp)) = n + 1" for n mp
      by (cases op) simp_all
    then have "unat (next_timer_id (timer_step op ?q)) \<le> Suc (unat (next_timer_id ?q))"
      using st unat_inc [OF nm] by (metis fst_conv le_SucI order_refl)
    then show ?case using st IH(3,4) by simp
  qed
  then show ?thesis by (metis snd_conv)
qed

theorem timer_queue_refines_map_witness:
  "timers_of (fold timer_step [T_add foreign_thread 9 None None, T_add foreign_thread 4 None None,
      T_collect foreign_thread 5] (new_timer_queue (metrics_init Off 1 no_runtime))) =
     [1 \<mapsto> (9, 1, None, None)]"
  using timer_queue_refines_map [of "[T_add foreign_thread 9 None None,
      T_add foreign_thread 4 None None, T_collect foreign_thread 5]" "metrics_init Off 1 no_runtime"]
  by (simp add: fun_eq_iff)

text \<open>
  Collecting due timers is exact and ordered: the items returned are those of the timers whose
  wake time has come, each once, by increasing wake time and, for equal wake times, in the order they
  were added, and precisely the others stay pending.
\<close>

theorem collect_due_exact:
  assumes "tq_inv q" and "collect_due ctx now q = (items, q')"
  shows "tq_inv q' \<and>
    (\<exists>ps. distinct ps \<and> set ps = {p. \<exists>w x. timers_of q p = Some (w, x) \<and> w \<le> now} \<and>
       items = map (\<lambda>p. due_item (tq_store q p)) ps \<and>
       sorted_wrt (\<lambda>a b. te_wake_time (tq_store q a) < te_wake_time (tq_store q b) \<or>
          te_wake_time (tq_store q a) = te_wake_time (tq_store q b) \<and>
          te_sequence (tq_store q a) \<le> te_sequence (tq_store q b)) ps) \<and>
    timers_of q' = (\<lambda>p. case timers_of q p of None \<Rightarrow> None
                        | Some (w, x) \<Rightarrow> if w \<le> now then None else Some (w, x))"
proof -
  from collect_due_inv [OF assms] obtain ps where ps: "distinct ps"
    "set ps = {p \<in> set (tq_heap q). te_wake_time (tq_store q p) \<le> now}"
    "timer_due_order q ps" "items = map (\<lambda>p. due_item (tq_store q p)) ps"
    by blast
  have "set ps = {p. \<exists>w x. timers_of q p = Some (w, x) \<and> w \<le> now}"
    unfolding ps(2) by (auto simp: timers_of_def split: if_splits)
  moreover have "sorted_wrt (\<lambda>a b. te_wake_time (tq_store q a) < te_wake_time (tq_store q b) \<or>
          te_wake_time (tq_store q a) = te_wake_time (tq_store q b) \<and>
          te_sequence (tq_store q a) \<le> te_sequence (tq_store q b)) ps"
    using ps(3) unfolding timer_due_order_def
    by (rule sorted_wrt_mono_rel [rotated]) (auto simp: timer_before_def compare_timer_entry_def
        split: if_splits)
  ultimately show ?thesis
    using ps(1,4) collect_due_inv [OF assms] by blast
qed

theorem collect_due_exact_witness:
  "\<exists>items q'. collect_due foreign_thread 7
      (snd (snd (timer_add foreign_thread 4 (Some 1) (Some 2) (new_timer_queue (metrics_init Off 1 no_runtime))))) =
      (items, q') \<and> tq_inv q'"
proof -
  let ?q0 = "new_timer_queue (metrics_init Off 1 no_runtime)"
  obtain tid e q1 where a: "timer_add foreign_thread 4 (Some 1) (Some 2) ?q0 = (tid, e, q1)"
    by (cases "timer_add foreign_thread 4 (Some 1) (Some 2) ?q0")
  have "tq_inv q1"
    using timer_add_inv [OF tq_inv_new _ _ a] by (simp add: new_timer_queue_def)
  moreover obtain items q' where c: "collect_due foreign_thread 7 q1 = (items, q')"
    by (cases "collect_due foreign_thread 7 q1")
  ultimately show ?thesis using collect_due_exact a by fastforce
qed

text \<open>
  A new timer gets an unused identity, joins the pending timers unchanged, and is reported as the
  earliest exactly when it wakes strictly before all that were pending: only then are the workers'
  sleeps shortened.
\<close>

theorem timer_add_earliest:
  assumes "tq_inv q" and "next_timer_id q \<noteq> u64_max" and "next_timer_sequence q \<noteq> u64_max"
    and "timer_add ctx wake hs act q = (tid, earliest, q')"
  shows "tq_inv q' \<and> timers_of q tid = None \<and>
    timers_of q' = (timers_of q)(tid \<mapsto> (wake, next_timer_sequence q, hs, act)) \<and>
    (earliest \<longleftrightarrow> (\<forall>w s h a p. timers_of q p = Some (w, s, h, a) \<longrightarrow> wake < w))"
  using timer_add_inv [OF assms] by blast

theorem timer_add_earliest_witness:
  "\<exists>tid q'. timer_add foreign_thread 4 None None (new_timer_queue (metrics_init Off 1 no_runtime)) =
     (tid, True, q') \<and> tq_inv q'"
proof -
  let ?q0 = "new_timer_queue (metrics_init Off 1 no_runtime)"
  obtain tid e q1 where a: "timer_add foreign_thread 4 None None ?q0 = (tid, e, q1)"
    by (cases "timer_add foreign_thread 4 None None ?q0")
  have "tq_inv q1 \<and> e"
    using timer_add_earliest [OF tq_inv_new _ _ a] by (simp add: new_timer_queue_def timers_of_def)
  then show ?thesis using a by auto
qed

end
