(* ===== verification/Intrusive_Fifo.thy ===== *)
theory Intrusive_Fifo
  imports Status
begin

text \<open>
  Scheduling references and the intrusive queue over them: \<open>src/task/ready_linked_invoker.hpp\<close> and
  \<open>IntrusiveFifo\<close> of \<open>src/runtime/ready_queues.cpp\<close>.  The queue is a chain of nodes in a store,
  linked by the \<open>ready_next\<close> pointers inside the invokers; an address stands for a raw pointer, and
  adopting an invoker takes an address that no node of the queue has.  The locale \<open>fifo_queue\<close>
  states what its client relies on.
\<close>

section \<open>Invokers\<close>

text \<open>
  What the queues ask an invoker through its virtual functions, with the task it stands for.  A task
  wrapped for publication forwards every call; the wrapper is never built around a null pointer.
\<close>

record task_facts =
  tf_task :: nat
  tf_priority :: Priority
  tf_deadline :: "TaskDeadline option"
  tf_resume :: bool
  tf_coroutine_node :: bool

datatype TaskInvoker =
    Linked task_facts
  | Envelope task_facts
  | Adapter TaskInvoker

fun facts_of :: "TaskInvoker \<Rightarrow> task_facts" where
  "facts_of (Linked f) = f"
| "facts_of (Envelope f) = f"
| "facts_of (Adapter i) = facts_of i"

definition iv_priority :: "TaskInvoker \<Rightarrow> Priority" where
  "iv_priority i = tf_priority (facts_of i)"

definition iv_deadline :: "TaskInvoker \<Rightarrow> TaskDeadline option" where
  "iv_deadline i = tf_deadline (facts_of i)"

definition is_resume_segment :: "TaskInvoker \<Rightarrow> bool" where
  "is_resume_segment i = tf_resume (facts_of i)"

definition adopt_ready_linked :: "TaskInvoker \<Rightarrow> TaskInvoker" where
  "adopt_ready_linked i =
     (case i of Linked _ \<Rightarrow> i | Adapter _ \<Rightarrow> i | Envelope _ \<Rightarrow> Adapter i)"

lemma facts_of_adopt [simp]: "facts_of (adopt_ready_linked i) = facts_of i"
  by (cases i) (simp_all add: adopt_ready_linked_def)

lemma adopt_forwards [simp]:
  "iv_priority (adopt_ready_linked i) = iv_priority i"
  "iv_deadline (adopt_ready_linked i) = iv_deadline i"
  "is_resume_segment (adopt_ready_linked i) = is_resume_segment i"
  by (simp_all add: iv_priority_def iv_deadline_def is_resume_segment_def)

record QueuedTask =
  qt_invoker :: TaskInvoker
  qt_external :: bool

abbreviation qt_facts :: "QueuedTask \<Rightarrow> task_facts" where
  "qt_facts t \<equiv> facts_of (qt_invoker t)"

abbreviation qt_priority :: "QueuedTask \<Rightarrow> Priority" where
  "qt_priority t \<equiv> iv_priority (qt_invoker t)"

section \<open>The queue\<close>

record fifo_node =
  fn_invoker :: TaskInvoker
  ready_next :: "nat option"
  ready_is_external :: bool

record IntrusiveFifo =
  ff_head :: "nat option"
  ff_tail :: "nat option"
  ff_count :: nat
  ff_store :: "nat \<rightharpoonup> fifo_node"
  ff_fresh :: nat

definition empty_fifo :: IntrusiveFifo where
  "empty_fifo = \<lparr>ff_head = None, ff_tail = None, ff_count = 0, ff_store = Map.empty, ff_fresh = 0\<rparr>"

definition fifo_push_back :: "TaskInvoker \<Rightarrow> bool \<Rightarrow> IntrusiveFifo \<Rightarrow> IntrusiveFifo" where
  "fifo_push_back i ext q =
     (let raw = ff_fresh q;
          st = (ff_store q)(raw \<mapsto>
            \<lparr>fn_invoker = adopt_ready_linked i, ready_next = None, ready_is_external = ext\<rparr>);
          q1 = q\<lparr>ff_store := st, ff_fresh := raw + 1\<rparr>;
          q2 = (case ff_tail q of
                  None \<Rightarrow> q1\<lparr>ff_head := Some raw, ff_tail := Some raw\<rparr>
                | Some t \<Rightarrow> q1\<lparr>ff_store := st(t := map_option (ready_next_update (\<lambda>_. Some raw)) (st t)),
                              ff_tail := Some raw\<rparr>)
      in q2\<lparr>ff_count := ff_count q + 1\<rparr>)"

text \<open>The claimed node leaves the queue with its links cleared; the caller owns it.\<close>

definition fifo_pop_front :: "IntrusiveFifo \<Rightarrow> QueuedTask option \<times> IntrusiveFifo" where
  "fifo_pop_front q =
     (case ff_head q of
        None \<Rightarrow> (None, q)
      | Some raw \<Rightarrow>
          (case ff_store q raw of
             None \<Rightarrow> (None, q)
           | Some nd \<Rightarrow>
               (Some \<lparr>qt_invoker = fn_invoker nd, qt_external = ready_is_external nd\<rparr>,
                q\<lparr>ff_head := ready_next nd,
                  ff_tail := (if ready_next nd = None then None else ff_tail q),
                  ff_store := (ff_store q)(raw := None),
                  ff_count := ff_count q - 1\<rparr>)))"

definition fifo_empty :: "IntrusiveFifo \<Rightarrow> bool" where
  "fifo_empty q \<longleftrightarrow> ff_head q = None"

definition fifo_size :: "IntrusiveFifo \<Rightarrow> nat" where
  "fifo_size q = ff_count q"

text \<open>
  Following the links from a pointer: the loop runs until the null pointer, and the queue's own count
  bounds it (\<open>walk_contents\<close> shows it is never cut short).
\<close>

fun walk :: "nat \<Rightarrow> nat option \<Rightarrow> (nat \<rightharpoonup> fifo_node) \<Rightarrow> fifo_node list" where
  "walk (Suc n) (Some a) st =
     (case st a of None \<Rightarrow> [] | Some nd \<Rightarrow> nd # walk n (ready_next nd) st)"
| "walk _ _ _ = []"

definition fifo_any_resume :: "IntrusiveFifo \<Rightarrow> bool" where
  "fifo_any_resume q \<longleftrightarrow>
     list_ex (\<lambda>nd. is_resume_segment (fn_invoker nd)) (walk (ff_count q) (ff_head q) (ff_store q))"

text \<open>\<open>clear\<close>: the invokers it deletes, and the empty queue.\<close>

definition fifo_clear :: "IntrusiveFifo \<Rightarrow> TaskInvoker list \<times> IntrusiveFifo" where
  "fifo_clear q =
     (map fn_invoker (walk (ff_count q) (ff_head q) (ff_store q)),
      q\<lparr>ff_head := None, ff_tail := None, ff_count := 0, ff_store := Map.empty\<rparr>)"

definition fifo_move_assign ::
  "IntrusiveFifo \<Rightarrow> IntrusiveFifo \<Rightarrow> TaskInvoker list \<times> IntrusiveFifo \<times> IntrusiveFifo" where
  "fifo_move_assign this other =
     (case fifo_clear this of (deleted, _) \<Rightarrow>
        (deleted, other,
         other\<lparr>ff_head := None, ff_tail := None, ff_count := 0, ff_store := Map.empty\<rparr>))"

section \<open>The contract of a queue\<close>

fun drain_with :: "('q \<Rightarrow> 'a option \<times> 'q) \<Rightarrow> nat \<Rightarrow> 'q \<Rightarrow> 'a list \<times> 'q" where
  "drain_with pop 0 q = ([], q)"
| "drain_with pop (Suc n) q =
     (case pop q of
        (None, q') \<Rightarrow> ([], q')
      | (Some x, q') \<Rightarrow> (case drain_with pop n q' of (xs, q'') \<Rightarrow> (x # xs, q'')))"

locale fifo_queue =
  fixes inv :: "'q \<Rightarrow> bool"
    and contents :: "'q \<Rightarrow> 'a list"
    and push :: "'a \<Rightarrow> 'q \<Rightarrow> 'q"
    and pop :: "'q \<Rightarrow> 'a option \<times> 'q"
    and norm :: "'a \<Rightarrow> 'a"
  assumes push_law: "inv q \<Longrightarrow> inv (push x q) \<and> contents (push x q) = contents q @ [norm x]"
    and pop_law: "inv q \<Longrightarrow> pop q = (r, q') \<Longrightarrow> inv q' \<and>
      (case contents q of [] \<Rightarrow> r = None \<and> q' = q | x # xs \<Rightarrow> r = Some x \<and> contents q' = xs)"
begin

lemma drain_contents:
  assumes "inv q" and "length (contents q) \<le> n" and "drain_with pop n q = (xs, q')"
  shows "xs = contents q \<and> inv q' \<and> contents q' = []"
  using assms
proof (induction n arbitrary: q xs)
  case (Suc n)
  obtain r q1 where p: "pop q = (r, q1)" by (cases "pop q")
  note law = pop_law [OF Suc.prems(1) p]
  show ?case
  proof (cases "contents q")
    case Nil
    then show ?thesis using law Suc.prems p by auto
  next
    case (Cons x ys)
    then have r: "r = Some x" "contents q1 = ys" "inv q1" using law by auto
    obtain zs q2 where d: "drain_with pop n q1 = (zs, q2)" by (cases "drain_with pop n q1")
    then have "xs = x # zs" "q' = q2" using Suc.prems(3) p r by auto
    moreover have "zs = contents q1 \<and> inv q2 \<and> contents q2 = []"
      using Suc.IH [of q1 zs] r(2,3) d Suc.prems(2) Cons \<open>q' = q2\<close> by simp
    ultimately show ?thesis using Cons r by simp
  qed
qed simp

lemma push_all:
  "inv q \<Longrightarrow> inv (fold push xs q) \<and> contents (fold push xs q) = contents q @ map norm xs"
  by (induction xs arbitrary: q) (simp_all add: push_law)

end

section \<open>The chain of nodes\<close>

fun chain :: "nat list \<Rightarrow> nat option \<Rightarrow> (nat \<rightharpoonup> fifo_node) \<Rightarrow> bool" where
  "chain [] p st \<longleftrightarrow> p = None"
| "chain (a # as) p st \<longleftrightarrow> p = Some a \<and> (\<exists>nd. st a = Some nd \<and> chain as (ready_next nd) st)"

definition fifo_links :: "nat list \<Rightarrow> IntrusiveFifo \<Rightarrow> bool" where
  "fifo_links as q \<longleftrightarrow> chain as (ff_head q) (ff_store q) \<and> distinct as \<and>
     ff_tail q = (if as = [] then None else Some (last as)) \<and> ff_count q = length as \<and>
     dom (ff_store q) = set as \<and> (\<forall>a \<in> set as. a < ff_fresh q)"

definition fifo_inv :: "IntrusiveFifo \<Rightarrow> bool" where
  "fifo_inv q \<longleftrightarrow> (\<exists>as. fifo_links as q)"

definition node_task :: "fifo_node \<Rightarrow> QueuedTask" where
  "node_task nd = \<lparr>qt_invoker = fn_invoker nd, qt_external = ready_is_external nd\<rparr>"

definition fifo_contents :: "IntrusiveFifo \<Rightarrow> QueuedTask list" where
  "fifo_contents q = map node_task (walk (ff_count q) (ff_head q) (ff_store q))"

lemma chain_nodes: "chain as p st \<Longrightarrow> set as \<subseteq> dom st"
  by (induction as arbitrary: p) auto

text \<open>Fuel beyond the count changes nothing: the walk stops at the null pointer.\<close>

lemma walk_contents:
  assumes "chain as p st" and "length as \<le> n"
  shows "walk n p st = map (\<lambda>a. the (st a)) as"
  using assms
proof (induction as arbitrary: p n)
  case Nil
  then show ?case by (cases n) auto
next
  case (Cons a as)
  then obtain m where "n = Suc m" by (cases n) auto
  then show ?case using Cons by auto
qed

lemma contents_links:
  "fifo_links as q \<Longrightarrow> fifo_contents q = map (\<lambda>a. node_task (the (ff_store q a))) as"
  using walk_contents [of as "ff_head q" "ff_store q" "length as"]
  by (simp add: fifo_links_def fifo_contents_def)

lemma chain_cong: "(\<And>a. a \<in> set as \<Longrightarrow> st a = st' a) \<Longrightarrow> chain as p st = chain as p st'"
  by (induction as arbitrary: p) auto

lemma chain_snoc:
  assumes "chain as p st" and "distinct as" and "raw \<notin> set as" and "as \<noteq> []"
    and "ready_next nd = None"
  shows "chain (as @ [raw]) p
     ((st(raw \<mapsto> nd))(last as := map_option (ready_next_update (\<lambda>_. Some raw)) ((st(raw \<mapsto> nd)) (last as))))"
  using assms
proof (induction as arbitrary: p)
  case (Cons a as)
  show ?case
  proof (cases "as = []")
    case True
    then show ?thesis using Cons.prems by auto
  next
    case False
    obtain n0 where n0: "p = Some a" "st a = Some n0" "chain as (ready_next n0) st"
      using Cons.prems(1) by auto
    have ne: "last as \<noteq> a" "a \<noteq> raw"
      using Cons.prems(2,3) False by (auto dest: last_in_set)
    have "raw \<notin> set as" "distinct as" using Cons.prems by auto
    note IH = Cons.IH [OF n0(3) this(2,1) False Cons.prems(5)]
    show ?thesis using IH n0 ne False by simp
  qed
qed simp

lemma empty_fifo_inv [simp]: "fifo_inv empty_fifo" and empty_fifo_contents [simp]: "fifo_contents empty_fifo = []"
  by (auto simp: fifo_inv_def fifo_links_def empty_fifo_def fifo_contents_def intro!: exI [of _ "[]"])

lemma fifo_push_links:
  assumes "fifo_links as q"
  shows "fifo_links (as @ [ff_fresh q]) (fifo_push_back i ext q)"
proof (cases "as = []")
  case True
  then have "ff_head q = None" "ff_tail q = None" "ff_count q = 0" "dom (ff_store q) = {}"
    using assms by (simp_all add: fifo_links_def)
  with True show ?thesis by (simp add: fifo_links_def fifo_push_back_def Let_def)
next
  case False
  let ?raw = "ff_fresh q"
  let ?nd = "\<lparr>fn_invoker = adopt_ready_linked i, ready_next = None, ready_is_external = ext\<rparr>"
  have new: "?raw \<notin> set as" using assms by (auto simp: fifo_links_def)
  have ch: "chain as (ff_head q) (ff_store q)" and d: "distinct as"
    and dm: "dom (ff_store q) = set as" and t: "ff_tail q = Some (last as)"
    and cnt: "ff_count q = length as" and lt: "\<forall>a \<in> set as. a < ?raw"
    using assms False by (simp_all add: fifo_links_def)
  note sn = chain_snoc [OF ch d new False, of ?nd]
  have ls: "last as \<in> dom (ff_store q)" "last as \<noteq> ?raw" using dm new last_in_set [OF False] by metis+
  then obtain nl where nl: "ff_store q (last as) = Some nl" by auto
  have "dom ((ff_store q)(?raw \<mapsto> ?nd, last as \<mapsto> nl\<lparr>ready_next := Some ?raw\<rparr>)) = insert ?raw (set as)"
    using dm ls by auto
  moreover have "\<forall>a \<in> set as. a < Suc ?raw" using lt by auto
  ultimately show ?thesis
    using sn False d new cnt t ls(2) nl by (simp add: fifo_links_def fifo_push_back_def Let_def)
qed

lemma fifo_push_contents:
  assumes "fifo_links as q"
  shows "fifo_contents (fifo_push_back i ext q) =
     fifo_contents q @ [\<lparr>qt_invoker = adopt_ready_linked i, qt_external = ext\<rparr>]"
proof -
  let ?raw = "ff_fresh q"
  let ?q = "fifo_push_back i ext q"
  have new: "?raw \<notin> set as" using assms by (auto simp: fifo_links_def)
  have tail: "ff_tail q \<noteq> Some ?raw"
    using assms new last_in_set [of as] unfolding fifo_links_def by (metis option.distinct(1) option.inject)
  have raw: "node_task (the (ff_store ?q ?raw)) = \<lparr>qt_invoker = adopt_ready_linked i, qt_external = ext\<rparr>"
    using tail by (auto simp: fifo_push_back_def Let_def node_task_def split: option.split)
  have "node_task (the (ff_store ?q a)) = node_task (the (ff_store q a))" if "a \<in> set as" for a
  proof -
    have "a \<noteq> ?raw" "a \<in> dom (ff_store q)" using that new assms by (auto simp: fifo_links_def)
    then show ?thesis
      by (auto simp: fifo_push_back_def Let_def node_task_def split: option.split)
  qed
  then show ?thesis
    unfolding contents_links [OF assms] contents_links [OF fifo_push_links [OF assms]] using raw by simp
qed

lemma fifo_pop_links:
  assumes "fifo_links (a # as) q"
  shows "\<exists>q'. fifo_pop_front q = (Some (hd (fifo_contents q)), q') \<and> fifo_links as q' \<and>
    fifo_contents q' = tl (fifo_contents q)"
proof -
  obtain nd where nd: "ff_head q = Some a" "ff_store q a = Some nd" "chain as (ready_next nd) (ff_store q)"
    and notin: "a \<notin> set as" and lks: "distinct as" "ff_tail q = Some (last (a # as))"
      "ff_count q = Suc (length as)" "dom (ff_store q) = insert a (set as)" "\<forall>b \<in> set as. b < ff_fresh q"
    using assms by (auto simp: fifo_links_def)
  let ?q = "snd (fifo_pop_front q)"
  have pop: "fifo_pop_front q = (Some (node_task nd), ?q)"
    using nd by (simp add: fifo_pop_front_def node_task_def)
  have st: "ff_store ?q = (ff_store q)(a := None)" "ff_head ?q = ready_next nd"
    "ff_count ?q = length as" "ff_fresh ?q = ff_fresh q"
    "ff_tail ?q = (if ready_next nd = None then None else ff_tail q)"
    using nd lks by (simp_all add: fifo_pop_front_def)
  have ch: "chain as (ready_next nd) ((ff_store q)(a := None))"
    using nd(3) notin by (subst chain_cong [where st' = "ff_store q"]) auto
  have e: "ready_next nd = None \<longleftrightarrow> as = []" using nd(3) by (cases as) auto
  have links: "fifo_links as ?q"
    unfolding fifo_links_def st using ch lks e notin by auto
  have "fifo_contents ?q = map (\<lambda>b. node_task (the (ff_store q b))) as"
    unfolding contents_links [OF links] st using notin by auto
  then show ?thesis
    using pop links nd(2) unfolding contents_links [OF assms] by auto
qed

abbreviation fifo_push :: "QueuedTask \<Rightarrow> IntrusiveFifo \<Rightarrow> IntrusiveFifo" where
  "fifo_push t \<equiv> fifo_push_back (qt_invoker t) (qt_external t)"

definition adopt_task :: "QueuedTask \<Rightarrow> QueuedTask" where
  "adopt_task t = t\<lparr>qt_invoker := adopt_ready_linked (qt_invoker t)\<rparr>"

interpretation fifo: fifo_queue fifo_inv fifo_contents fifo_push fifo_pop_front adopt_task
proof
  fix q and t :: QueuedTask assume "fifo_inv q"
  then show "fifo_inv (fifo_push t q) \<and> fifo_contents (fifo_push t q) = fifo_contents q @ [adopt_task t]"
    using fifo_push_links fifo_push_contents unfolding fifo_inv_def adopt_task_def by (metis QueuedTask.surjective QueuedTask.update_convs(1) old.unit.exhaust)
next
  fix q r q' assume i: "fifo_inv q" and p: "fifo_pop_front q = (r, q')"
  then obtain as where l: "fifo_links as q" by (auto simp: fifo_inv_def)
  show "fifo_inv q' \<and> (case fifo_contents q of [] \<Rightarrow> r = None \<and> q' = q
      | x # xs \<Rightarrow> r = Some x \<and> fifo_contents q' = xs)"
  proof (cases as)
    case Nil
    then have "ff_head q = None" "fifo_contents q = []"
      using l contents_links [OF l] by (simp_all add: fifo_links_def)
    then show ?thesis using p i by (simp add: fifo_pop_front_def)
  next
    case (Cons a bs)
    then have "fifo_contents q \<noteq> []" using contents_links [OF l] by simp
    then show ?thesis
      using fifo_pop_links [of a bs q] l Cons p by (auto simp: fifo_inv_def neq_Nil_conv)
  qed
qed

lemma fifo_empty_iff: "fifo_inv q \<Longrightarrow> fifo_empty q \<longleftrightarrow> fifo_contents q = []"
proof -
  assume "fifo_inv q"
  then obtain as where l: "fifo_links as q" by (auto simp: fifo_inv_def)
  show ?thesis
    using l contents_links [OF l] by (cases as) (auto simp: fifo_links_def fifo_empty_def)
qed

lemma fifo_size_contents: "fifo_inv q \<Longrightarrow> fifo_size q = length (fifo_contents q)"
  using contents_links by (auto simp: fifo_inv_def fifo_size_def fifo_links_def)

lemma fifo_any_resume_iff:
  "fifo_any_resume q \<longleftrightarrow> (\<exists>t \<in> set (fifo_contents q). is_resume_segment (qt_invoker t))"
  by (simp add: fifo_any_resume_def fifo_contents_def node_task_def list_ex_iff)

lemma adopt_task_simps [simp]:
  "qt_facts (adopt_task t) = qt_facts t" "qt_external (adopt_task t) = qt_external t"
  "qt_priority (adopt_task t) = qt_priority t"
  "is_resume_segment (qt_invoker (adopt_task t)) = is_resume_segment (qt_invoker t)"
  by (simp_all add: adopt_task_def)

end
