(* ===== verification/Deque.thy ===== *)
theory Deque
  imports Prelude
begin

text \<open>
  The contract of a work-stealing deque as its clients use it: the owner pushes and pops at the
  bottom, thieves steal at the top, and the contents are a list from top to bottom.  The locale
  \<open>deque_backend\<close> states what a provider promises; inside it, any run of operations is shown to
  behave like the list, so that two providers cannot be told apart by their results.
\<close>

datatype 'a deque_result = Success 'a | Empty | Retry

datatype 'a deque_op = Push 'a | Pop | Steal

datatype 'a deque_answer = Pushed bool | Got "'a deque_result"

fun list_step :: "'a deque_op \<Rightarrow> 'a list \<Rightarrow> 'a deque_answer \<times> 'a list" where
  "list_step (Push x) xs = (Pushed True, xs @ [x])"
| "list_step Pop xs = (if xs = [] then (Got Empty, xs) else (Got (Success (last xs)), butlast xs))"
| "list_step Steal xs = (if xs = [] then (Got Empty, xs) else (Got (Success (hd xs)), tl xs))"

definition step_with ::
  "('a \<Rightarrow> 'd \<Rightarrow> bool \<times> 'd) \<Rightarrow> ('d \<Rightarrow> 'a deque_result \<times> 'd) \<Rightarrow> ('d \<Rightarrow> 'a deque_result \<times> 'd) \<Rightarrow>
     'a deque_op \<Rightarrow> 'd \<Rightarrow> 'a deque_answer \<times> 'd" where
  "step_with push pop steal op d =
     (case op of
        Push x \<Rightarrow> (case push x d of (b, d') \<Rightarrow> (Pushed b, d'))
      | Pop \<Rightarrow> (case pop d of (r, d') \<Rightarrow> (Got r, d'))
      | Steal \<Rightarrow> (case steal d of (r, d') \<Rightarrow> (Got r, d')))"

fun run_with :: "('o \<Rightarrow> 'd \<Rightarrow> 'r \<times> 'd) \<Rightarrow> 'o list \<Rightarrow> 'd \<Rightarrow> 'r list \<times> 'd" where
  "run_with step [] d = ([], d)"
| "run_with step (x # xs) d =
     (case step x d of (r, d1) \<Rightarrow> case run_with step xs d1 of (rs, d2) \<Rightarrow> (r # rs, d2))"

locale deque_backend =
  fixes inv :: "'d \<Rightarrow> bool"
    and contents :: "'d \<Rightarrow> 'a list"
    and push :: "'a \<Rightarrow> 'd \<Rightarrow> bool \<times> 'd"
    and pop :: "'d \<Rightarrow> 'a deque_result \<times> 'd"
    and steal :: "'d \<Rightarrow> 'a deque_result \<times> 'd"
  assumes push_law: "inv d \<Longrightarrow> push x d = (b, d') \<Longrightarrow>
      inv d' \<and> contents d' = (if b then contents d @ [x] else contents d)"
    and pop_law: "inv d \<Longrightarrow> pop d = (r, d') \<Longrightarrow>
      inv d' \<and> (if contents d = [] then r = Empty \<and> contents d' = []
                else r = Success (last (contents d)) \<and> contents d' = butlast (contents d))"
    and steal_law: "inv d \<Longrightarrow> steal d = (r, d') \<Longrightarrow>
      inv d' \<and> (if r = Retry then contents d' = contents d
                else if contents d = [] then r = Empty \<and> contents d' = []
                else r = Success (hd (contents d)) \<and> contents d' = tl (contents d))"
begin

lemma step_list:
  assumes "inv d" and "step_with push pop steal op d = (a, d')"
    and "a \<noteq> Pushed False" and "a \<noteq> Got Retry"
  shows "inv d' \<and> list_step op (contents d) = (a, contents d')"
proof (cases op)
  case (Push x)
  then show ?thesis
    using assms push_law [OF assms(1)] by (auto simp: step_with_def split: prod.splits)
next
  case Pop
  then show ?thesis
    using assms pop_law [OF assms(1)] by (auto simp: step_with_def split: prod.splits if_splits)
next
  case Steal
  then show ?thesis
    using assms steal_law [OF assms(1)] by (auto simp: step_with_def split: prod.splits if_splits)
qed

lemma run_list:
  assumes "inv d" and "run_with (step_with push pop steal) ops d = (as, d')"
    and "Pushed False \<notin> set as" and "Got Retry \<notin> set as"
  shows "inv d' \<and> run_with list_step ops (contents d) = (as, contents d')"
  using assms
proof (induction ops arbitrary: d as)
  case Nil
  then show ?case by simp
next
  case (Cons op ops)
  obtain a d1 where s: "step_with push pop steal op d = (a, d1)"
    by (cases "step_with push pop steal op d")
  obtain bs where r: "run_with (step_with push pop steal) ops d1 = (bs, d')" and as: "as = a # bs"
    using Cons.prems(2) s by (auto split: prod.splits)
  have st: "inv d1" "list_step op (contents d) = (a, contents d1)"
    using step_list [OF Cons.prems(1) s] Cons.prems(3,4) as by auto
  show ?case
    using Cons.IH [OF st(1) r] Cons.prems(3,4) st(2) as by auto
qed

text \<open>Nothing is lost or duplicated: what was taken out and what is left is what went in.\<close>

lemma push_mset:
  "inv d \<Longrightarrow> push x d = (b, d') \<Longrightarrow>
   mset (contents d') = mset (contents d) + (if b then {#x#} else {#})"
  using push_law by auto

lemma pop_mset:
  assumes "inv d" and "pop d = (r, d')"
  shows "mset (contents d) = mset (contents d') + (case r of Success x \<Rightarrow> {#x#} | _ \<Rightarrow> {#})"
proof (cases "contents d = []")
  case True
  then show ?thesis using pop_law [OF assms] by simp
next
  case False
  then have "mset (contents d) = add_mset (last (contents d)) (mset (butlast (contents d)))"
    using mset_butlast_last [of "contents d"] by (simp add: last_in_set)
  then show ?thesis using pop_law [OF assms] False by simp
qed

lemma steal_mset:
  assumes "inv d" and "steal d = (r, d')"
  shows "mset (contents d) = mset (contents d') + (case r of Success x \<Rightarrow> {#x#} | _ \<Rightarrow> {#})"
proof (cases "contents d")
  case Nil
  then show ?thesis using steal_law [OF assms] by (auto split: if_splits)
next
  case (Cons y ys)
  then show ?thesis using steal_law [OF assms] by (auto split: if_splits)
qed

end

end
