(* ===== verification/Chase_Lev.thy ===== *)
theory Chase_Lev
  imports Deque
begin

text \<open>
  The Chase-Lev deques of \<open>src/scheduling/chase_lev_deque.hpp\<close> as the owner and a thief run them one
  operation at a time: the production deque on 64-bit indices into a power-of-two ring, with growth,
  the one cell it keeps free and the rebase of its indices, and the sequentially consistent
  reference.  A buffer is the list of its cells; \<open>null_item\<close> is the value-initialised cell.
\<close>

section \<open>The ring\<close>

definition ring_index :: "u64 \<Rightarrow> nat \<Rightarrow> nat" where
  "ring_index i cap = unat (i AND (of_nat cap - 1))"

definition store_cell :: "u64 \<Rightarrow> 'a \<Rightarrow> 'a list \<Rightarrow> 'a list" where
  "store_cell i x cells = cells[ring_index i (length cells) := x]"

definition load_cell :: "u64 \<Rightarrow> 'a list \<Rightarrow> 'a" where
  "load_cell i cells = cells ! ring_index i (length cells)"

lemma ring_index_mod:
  assumes "cap = 2 ^ k" and "k < 64"
  shows "ring_index i cap = unat i mod cap"
proof -
  have "(of_nat cap :: u64) - 1 = mask k"
    using assms by (simp add: mask_eq_exp_minus_1)
  then have "ring_index i cap = unat (take_bit k i)"
    by (simp only: ring_index_def take_bit_eq_mask)
  also have "\<dots> = take_bit k (unat i)"
    by (simp only: unsigned_take_bit_eq)
  finally show ?thesis
    by (simp only: take_bit_eq_mod assms(1))
qed

section \<open>The production deque\<close>

record 'a chase_lev =
  cl_top :: u64
  cl_bottom :: u64
  cl_cells :: "'a list"
  cl_history :: nat
  null_item :: 'a
  inject_growth_failure :: bool
  inject_rebase_failure :: bool
  maintenance :: bool

definition new_chase_lev :: "nat \<Rightarrow> 'a \<Rightarrow> 'a chase_lev" where
  "new_chase_lev cap z = \<lparr>cl_top = 0, cl_bottom = 0, cl_cells = replicate cap z, cl_history = 1,
     null_item = z, inject_growth_failure = False, inject_rebase_failure = False, maintenance = False\<rparr>"

definition high_watermark :: u64 where
  "high_watermark = push_bit 58 1"

text \<open>The copy loops \<open>for (i = t; i < b; ++i)\<close> of growth and of the rebase snapshot.\<close>

definition copy_range :: "u64 \<Rightarrow> u64 \<Rightarrow> 'a list \<Rightarrow> 'a list \<Rightarrow> 'a list" where
  "copy_range t b old new =
     fold (\<lambda>i. store_cell (of_nat i) (load_cell (of_nat i) old)) [unat t..<unat b] new"

text \<open>
  \<open>alloc\<close> is whether the allocations of the call succeed; the code turns \<open>bad_alloc\<close> into a null
  buffer or a failed rebase.
\<close>

definition grow :: "bool \<Rightarrow> 'a chase_lev \<Rightarrow> bool \<times> 'a chase_lev" where
  "grow alloc d =
     (let cap = of_nat (length (cl_cells d)) :: u64
      in if inject_growth_failure d then (False, d)
         else if u64_max div 2 < cap \<or> push_bit 62 1 \<le> cap then (False, d)
         else if \<not> alloc then (False, d)
         else (True, d\<lparr>cl_cells := copy_range (cl_top d) (cl_bottom d) (cl_cells d)
                                  (replicate (length (cl_cells d) * 2) (null_item d)),
                       cl_history := cl_history d + 1\<rparr>))"

definition maybe_quiescent_rebase :: "bool \<Rightarrow> u64 \<Rightarrow> 'a chase_lev \<Rightarrow> bool \<times> 'a chase_lev" where
  "maybe_quiescent_rebase alloc watermark d =
     (let b = cl_bottom d; t = cl_top d
      in if b < watermark \<and> t < watermark then (False, d)
         else if inject_rebase_failure d then (False, d)
         else if b < t then (False, d\<lparr>maintenance := False\<rparr>)
         else
           (let live = b - t
            in if 0 < live \<and> \<not> alloc then (False, d\<lparr>maintenance := False\<rparr>)
               else
                 (let snapshot = map (\<lambda>i. load_cell (t + of_nat i) (cl_cells d)) [0..<unat live];
                      cells = fold (\<lambda>i. store_cell (of_nat i) (snapshot ! i)) [0..<unat live] (cl_cells d)
                  in (True, d\<lparr>cl_cells := cells, cl_top := 0, cl_bottom := live, maintenance := False\<rparr>))))"

definition push_cell :: "'a \<Rightarrow> 'a chase_lev \<Rightarrow> 'a chase_lev" where
  "push_cell x d =
     d\<lparr>cl_cells := store_cell (cl_bottom d) x (cl_cells d), cl_bottom := cl_bottom d + 1\<rparr>"

definition cl_push :: "bool \<Rightarrow> 'a \<Rightarrow> 'a chase_lev \<Rightarrow> bool \<times> 'a chase_lev" where
  "cl_push alloc x d =
     (let (ok, d1) =
        (if high_watermark \<le> cl_bottom d \<or> high_watermark \<le> cl_top d
         then maybe_quiescent_rebase alloc high_watermark d else (True, d))
      in if \<not> ok then (False, d1)
         else if cl_bottom d1 < cl_top d1 then (False, d1)
         else if of_nat (length (cl_cells d1)) - 1 \<le> cl_bottom d1 - cl_top d1 then
           (case grow alloc d1 of
              (False, d2) \<Rightarrow> (False, d2)
            | (True, d2) \<Rightarrow> (True, push_cell x d2))
         else (True, push_cell x d1))"

definition cl_pop :: "bool \<Rightarrow> 'a chase_lev \<Rightarrow> 'a deque_result \<times> 'a chase_lev" where
  "cl_pop alloc d =
     (if cl_bottom d = 0 then (Empty, snd (maybe_quiescent_rebase alloc high_watermark d))
      else
        (let b = cl_bottom d - 1; d1 = d\<lparr>cl_bottom := b\<rparr>; t = cl_top d1
         in if t \<le> b then
              (let item = load_cell b (cl_cells d1)
               in if t = b then (Success item, d1\<lparr>cl_top := t + 1, cl_bottom := b + 1\<rparr>)
                  else (Success item, d1))
            else (Empty, snd (maybe_quiescent_rebase alloc high_watermark (d1\<lparr>cl_bottom := b + 1\<rparr>)))))"

text \<open>A thief that runs alone: its compare-exchange on \<open>top\<close> succeeds.\<close>

definition cl_steal :: "'a chase_lev \<Rightarrow> 'a deque_result \<times> 'a chase_lev" where
  "cl_steal d =
     (if maintenance d then (Retry, d)
      else if cl_top d < cl_bottom d
      then (Success (load_cell (cl_top d) (cl_cells d)), d\<lparr>cl_top := cl_top d + 1\<rparr>)
      else (Empty, d))"

definition cl_empty :: "'a chase_lev \<Rightarrow> bool" where
  "cl_empty d \<longleftrightarrow> cl_bottom d \<le> cl_top d"

definition cl_size :: "'a chase_lev \<Rightarrow> nat" where
  "cl_size d = (if cl_top d < cl_bottom d then unat (cl_bottom d - cl_top d) else 0)"

section \<open>Contents and invariant\<close>

definition cl_contents :: "'a chase_lev \<Rightarrow> 'a list" where
  "cl_contents d = map (\<lambda>i. cl_cells d ! (i mod length (cl_cells d))) [unat (cl_top d)..<unat (cl_bottom d)]"

definition cl_inv :: "'a chase_lev \<Rightarrow> bool" where
  "cl_inv d \<longleftrightarrow>
     (\<exists>k. 1 \<le> k \<and> k \<le> 62 \<and> length (cl_cells d) = 2 ^ k) \<and>
     cl_top d \<le> cl_bottom d \<and>
     unat (cl_bottom d) - unat (cl_top d) < length (cl_cells d) \<and>
     unat (cl_bottom d) \<le> 2 ^ 62"

lemma cl_inv_new: "1 \<le> k \<Longrightarrow> k \<le> 62 \<Longrightarrow> cl_inv (new_chase_lev (2 ^ k) z)"
  by (auto simp: cl_inv_def new_chase_lev_def)

lemma cl_contents_new: "cl_contents (new_chase_lev cap z) = []"
  by (simp add: cl_contents_def new_chase_lev_def)

lemma unat_of_nat_u64: "n < 2 ^ 64 \<Longrightarrow> unat (of_nat n :: u64) = n"
  by (simp add: unat_of_nat take_bit_nat_eq_self)

lemma ring_index_inv:
  assumes "length cells = 2 ^ k" and "k \<le> 62"
  shows "ring_index i (length cells) = unat i mod length cells"
  using ring_index_mod [of "length cells" k i] assms by simp

lemma mod_eq_window:
  fixes a b n :: nat
  assumes "a mod n = b mod n" and "a \<le> b" and "b < a + n"
  shows "a = b"
proof -
  have "(b - a) mod n = 0"
    using assms(1,2) by (metis mod_eq_dvd_iff_nat mod_0_imp_dvd dvd_imp_mod_0)
  moreover have "b - a < n" using assms by linarith
  ultimately show ?thesis using assms(2) by simp
qed

text \<open>Copying a window of fewer than \<open>n\<close> positions into another ring moves every element.\<close>

lemma copy_window:
  fixes f :: "nat \<Rightarrow> 'a"
  assumes "length xs = n" and "b \<le> a + n" and "0 < n"
    and "ys = fold (\<lambda>i zs. zs[i mod n := f i]) [a..<b] xs"
  shows "length ys = n \<and> (\<forall>i. a \<le> i \<and> i < b \<longrightarrow> ys ! (i mod n) = f i)"
  using assms(2,4)
proof (induction b arbitrary: ys)
  case 0
  then show ?case using assms(1) by simp
next
  case (Suc b)
  show ?case
  proof (cases "a \<le> b")
    case False
    then show ?thesis using Suc.prems assms(1) by auto
  next
    case True
    let ?zs = "fold (\<lambda>i zs. zs[i mod n := f i]) [a..<b] xs"
    have IH: "length ?zs = n \<and> (\<forall>i. a \<le> i \<and> i < b \<longrightarrow> ?zs ! (i mod n) = f i)"
      using Suc by simp
    have ys: "ys = ?zs[b mod n := f b]" using Suc.prems True by simp
    have "ys ! (i mod n) = f i" if i: "a \<le> i" "i < Suc b" for i
    proof (cases "i = b")
      case True
      then show ?thesis using IH assms(3) by (simp add: ys)
    next
      case False
      then have "b mod n \<noteq> i mod n"
        using mod_eq_window [of i n b] i Suc.prems(1) by auto
      then show ?thesis using False i IH by (simp add: ys)
    qed
    then show ?thesis using IH by (simp add: ys)
  qed
qed

section \<open>Operations on the contents\<close>

lemma store_cell_inv:
  "length cells = 2 ^ k \<Longrightarrow> k \<le> 62 \<Longrightarrow> store_cell i x cells = cells[unat i mod length cells := x]"
  unfolding store_cell_def by (subst ring_index_inv) auto

lemma load_cell_inv:
  "length cells = 2 ^ k \<Longrightarrow> k \<le> 62 \<Longrightarrow> load_cell i cells = cells ! (unat i mod length cells)"
  unfolding load_cell_def by (subst ring_index_inv) auto

lemma length_store_cell [simp]: "length (store_cell i x cells) = length cells"
  by (simp add: store_cell_def)

lemma length_fold_store [simp]: "length (fold (\<lambda>i. store_cell (g i) (f i)) is cells) = length cells"
  by (induction "is" arbitrary: cells) simp_all

lemma fold_store_cell:
  assumes "length cells = 2 ^ k" and "k \<le> 62" and "b \<le> 2 ^ 62"
  shows "fold (\<lambda>i. store_cell (of_nat i) (f i)) [a..<b] cells =
    fold (\<lambda>i zs. zs[i mod 2 ^ k := f i]) [a..<b] cells"
  using assms(3)
proof (induction b)
  case (Suc b)
  show ?case
  proof (cases "a \<le> b")
    case True
    have len: "length (fold (\<lambda>i zs. zs[i mod 2 ^ k := f i]) [a..<b] cells) = 2 ^ k"
      using assms(1) by (induction b) auto
    moreover have "unat (of_nat b :: u64) = b" using Suc.prems by (intro unat_of_nat_u64) simp
    ultimately show ?thesis
      using Suc True store_cell_inv [OF len assms(2)] by simp
  qed simp
qed simp

lemma grow_contents:
  assumes inv: "cl_inv d" and g: "grow alloc d = (True, d')"
  shows "cl_inv d' \<and> cl_contents d' = cl_contents d \<and> cl_top d' = cl_top d \<and> cl_bottom d' = cl_bottom d \<and>
    length (cl_cells d') = 2 * length (cl_cells d) \<and> maintenance d' = maintenance d"
proof -
  obtain k where k: "1 \<le> k" "k \<le> 62" "length (cl_cells d) = 2 ^ k" using inv by (auto simp: cl_inv_def)
  let ?n = "2 * 2 ^ k :: nat" and ?t = "unat (cl_top d)" and ?b = "unat (cl_bottom d)"
  have lim: "?b \<le> 2 ^ 62" "?b - ?t < 2 ^ k" "?t \<le> ?b"
    using inv k by (auto simp: cl_inv_def word_le_nat_alt)
  have "\<not> push_bit 62 1 \<le> (of_nat (2 ^ k) :: u64)"
    using g k by (auto simp: grow_def Let_def split: if_splits)
  moreover have "unat (of_nat (2 ^ k) :: u64) = 2 ^ k"
  proof (rule unat_of_nat_u64)
    have "(2::nat) ^ k \<le> 2 ^ 62" using k(2) by (intro power_increasing) auto
    then show "(2::nat) ^ k < 2 ^ 64" by simp
  qed
  ultimately have "(2::nat) ^ k < 2 ^ 62"
    by (simp add: word_le_nat_alt not_le push_bit_eq_mult)
  then have k62: "k < 62" by (metis power_strict_increasing_iff one_less_numeral_iff semiring_norm(76))
  define new where "new = replicate ?n (null_item d)"
  have d': "d' = d\<lparr>cl_cells := copy_range (cl_top d) (cl_bottom d) (cl_cells d) new, cl_history := cl_history d + 1\<rparr>"
    using g k by (auto simp: grow_def Let_def new_def mult.commute split: if_splits)
  let ?f = "\<lambda>i. load_cell (of_nat i) (cl_cells d)"
  have ln: "length new = 2 ^ Suc k" by (simp add: new_def)
  have cells: "cl_cells d' = fold (\<lambda>i zs. zs[i mod 2 ^ Suc k := ?f i]) [?t..<?b] new"
    using fold_store_cell [OF ln _ lim(1), of ?f ?t] k62 by (simp add: d' copy_range_def)
  have win: "length (cl_cells d') = 2 ^ Suc k \<and> (\<forall>i. ?t \<le> i \<and> i < ?b \<longrightarrow> cl_cells d' ! (i mod 2 ^ Suc k) = ?f i)"
    using copy_window [OF ln _ _ cells] lim by simp
  have f: "?f i = cl_cells d ! (i mod 2 ^ k)" if "i < ?b" for i
  proof -
    have "unat (of_nat i :: u64) = i" using that lim by (intro unat_of_nat_u64) simp
    then show ?thesis using load_cell_inv [OF k(3,2), of "of_nat i"] k by simp
  qed
  have "cl_contents d' = cl_contents d"
    using win f k by (auto simp: cl_contents_def d')
  moreover have "cl_inv d'"
    unfolding cl_inv_def
  proof (intro conjI exI)
    show "1 \<le> Suc k" "Suc k \<le> 62" "length (cl_cells d') = 2 ^ Suc k" using k62 win by simp_all
    show "cl_top d' \<le> cl_bottom d'" "unat (cl_bottom d') - unat (cl_top d') < length (cl_cells d')"
      "unat (cl_bottom d') \<le> 2 ^ 62"
      using inv lim win by (simp_all add: d' cl_inv_def)
  qed
  ultimately show ?thesis using win k by (simp add: d')
qed

lemma grow_fails: "grow alloc d = (False, d') \<Longrightarrow> d' = d"
  by (auto simp: grow_def Let_def split: if_splits)

lemma rebase_contents:
  assumes inv: "cl_inv d" and r: "maybe_quiescent_rebase alloc w d = (b, d')"
  shows "cl_inv d' \<and> cl_contents d' = cl_contents d \<and>
    (b \<longrightarrow> cl_top d' = 0 \<and> cl_bottom d' = cl_bottom d - cl_top d) \<and>
    (maintenance d' \<longrightarrow> maintenance d) \<and> length (cl_cells d') = length (cl_cells d) \<and>
    (\<not> b \<longrightarrow> cl_top d' = cl_top d \<and> cl_bottom d' = cl_bottom d)"
proof (cases b)
  case False
  then show ?thesis
    using r inv by (auto simp: maybe_quiescent_rebase_def Let_def cl_inv_def cl_contents_def split: if_splits)
next
  case True
  obtain k where k: "1 \<le> k" "k \<le> 62" "length (cl_cells d) = 2 ^ k" using inv by (auto simp: cl_inv_def)
  let ?t = "unat (cl_top d)" and ?b = "unat (cl_bottom d)"
  have lim: "?b \<le> 2 ^ 62" "?b - ?t < 2 ^ k" "?t \<le> ?b"
    using inv k by (auto simp: cl_inv_def word_le_nat_alt)
  have live: "unat (cl_bottom d - cl_top d) = ?b - ?t"
    using inv by (simp add: cl_inv_def unat_sub)
  let ?n = "?b - ?t"
  let ?snap = "map (\<lambda>i. load_cell (cl_top d + of_nat i) (cl_cells d)) [0..<?n]"
  have d': "d' = d\<lparr>cl_cells := fold (\<lambda>i. store_cell (of_nat i) (?snap ! i)) [0..<?n] (cl_cells d),
      cl_top := 0, cl_bottom := cl_bottom d - cl_top d, maintenance := False\<rparr>"
    using r True by (auto simp: maybe_quiescent_rebase_def Let_def live split: if_splits)
  have cells: "cl_cells d' = fold (\<lambda>i zs. zs[i mod 2 ^ k := ?snap ! i]) [0..<?n] (cl_cells d)"
    using fold_store_cell [OF k(3,2), of ?n "\<lambda>i. ?snap ! i" 0] lim by (simp add: d')
  have win: "length (cl_cells d') = 2 ^ k \<and> (\<forall>i. 0 \<le> i \<and> i < ?n \<longrightarrow> cl_cells d' ! (i mod 2 ^ k) = ?snap ! i)"
    using copy_window [OF k(3) _ _ cells] lim by simp
  have snap: "?snap ! i = cl_cells d ! ((?t + i) mod 2 ^ k)" if "i < ?n" for i
  proof -
    have i: "unat (of_nat i :: u64) = i" using that lim by (intro unat_of_nat_u64) simp
    then have "unat (cl_top d + of_nat i) = ?t + i"
      using that lim by (simp add: unat_word_ariths)
    then show ?thesis using that load_cell_inv [OF k(3,2), of "cl_top d + of_nat i"] k by simp
  qed
  have "cl_contents d' = map (\<lambda>i. cl_cells d' ! (i mod 2 ^ k)) [0..<?n]"
    using win live by (simp add: cl_contents_def d')
  also have "\<dots> = map (\<lambda>i. cl_cells d ! ((?t + i) mod 2 ^ k)) [0..<?n]"
    using win snap by simp
  also have "\<dots> = cl_contents d"
    by (rule nth_equalityI) (simp_all add: cl_contents_def k)
  finally have "cl_contents d' = cl_contents d" .
  moreover have "cl_inv d'"
    unfolding cl_inv_def
  proof (intro conjI exI)
    show "1 \<le> k" "k \<le> 62" "length (cl_cells d') = 2 ^ k" using k win by simp_all
    show "cl_top d' \<le> cl_bottom d'" "unat (cl_bottom d') - unat (cl_top d') < length (cl_cells d')"
      "unat (cl_bottom d') \<le> 2 ^ 62"
      using lim win live by (simp_all add: d')
  qed
  ultimately show ?thesis using True win k by (simp add: d')
qed

lemma contents_Nil_iff: "cl_inv d \<Longrightarrow> cl_contents d = [] \<longleftrightarrow> cl_bottom d = cl_top d"
  by (auto simp: cl_inv_def cl_contents_def word_le_nat_alt word_unat_eq_iff)

lemma push_cell_contents:
  assumes inv: "cl_inv d" and room: "unat (cl_bottom d) - unat (cl_top d) < length (cl_cells d) - 1"
    and lim: "unat (cl_bottom d) < 2 ^ 62"
  shows "cl_inv (push_cell x d) \<and> cl_contents (push_cell x d) = cl_contents d @ [x]"
proof -
  obtain k where k: "1 \<le> k" "k \<le> 62" "length (cl_cells d) = 2 ^ k" using inv by (auto simp: cl_inv_def)
  let ?t = "unat (cl_top d)" and ?b = "unat (cl_bottom d)" and ?n = "2 ^ k :: nat"
  have le: "?t \<le> ?b" using inv by (simp add: cl_inv_def word_le_nat_alt)
  have b1: "unat (cl_bottom d + 1) = Suc ?b"
    using lim by (simp add: unat_word_ariths)
  have cells: "cl_cells (push_cell x d) = (cl_cells d)[?b mod ?n := x]"
    using store_cell_inv [OF k(3,2)] k by (simp add: push_cell_def)
  have old: "(cl_cells d)[?b mod ?n := x] ! (i mod ?n) = cl_cells d ! (i mod ?n)" if "?t \<le> i" "i < ?b" for i
  proof -
    have "?b < i + ?n" using that room k by linarith
    then have "?b mod ?n \<noteq> i mod ?n" using mod_eq_window [of i ?n ?b] that by auto
    then show ?thesis by simp
  qed
  have "cl_top (push_cell x d) = cl_top d" "cl_bottom (push_cell x d) = cl_bottom d + 1"
    by (simp_all add: push_cell_def)
  then have "cl_contents (push_cell x d) = cl_contents d @ [x]"
    using old le k by (simp add: cl_contents_def cells b1)
  moreover have "cl_inv (push_cell x d)"
    unfolding cl_inv_def
  proof (intro conjI exI)
    show "1 \<le> k" "k \<le> 62" "length (cl_cells (push_cell x d)) = 2 ^ k" using k cells by simp_all
    show "cl_top (push_cell x d) \<le> cl_bottom (push_cell x d)"
      using le b1 by (simp add: push_cell_def word_le_nat_alt)
    show "unat (cl_bottom (push_cell x d)) - unat (cl_top (push_cell x d)) < length (cl_cells (push_cell x d))"
      using room le b1 k cells by (simp add: push_cell_def)
    show "unat (cl_bottom (push_cell x d)) \<le> 2 ^ 62"
      using b1 lim by (simp add: push_cell_def)
  qed
  ultimately show ?thesis by blast
qed

section \<open>The laws\<close>

lemma cl_push_law:
  assumes inv: "cl_inv d" and p: "cl_push alloc x d = (ok, d')"
  shows "cl_inv d' \<and> cl_contents d' = (if ok then cl_contents d @ [x] else cl_contents d)"
proof -
  define first where "first =
     (if high_watermark \<le> cl_bottom d \<or> high_watermark \<le> cl_top d
      then maybe_quiescent_rebase alloc high_watermark d else (True, d))"
  obtain ok1 d1 where f: "first = (ok1, d1)" by (cases first)
  have d1: "cl_inv d1" "cl_contents d1 = cl_contents d"
    using f inv rebase_contents [OF inv] by (auto simp: first_def split: if_splits)
  have push: "cl_push alloc x d =
      (if \<not> ok1 then (False, d1)
       else if cl_bottom d1 < cl_top d1 then (False, d1)
       else if of_nat (length (cl_cells d1)) - 1 \<le> cl_bottom d1 - cl_top d1 then
         (case grow alloc d1 of (False, d2) \<Rightarrow> (False, d2) | (True, d2) \<Rightarrow> (True, push_cell x d2))
       else (True, push_cell x d1))"
    using f by (simp add: cl_push_def first_def Let_def)
  have ord: "\<not> cl_bottom d1 < cl_top d1" using d1(1) by (simp add: cl_inv_def not_less)
  obtain k where k: "1 \<le> k" "k \<le> 62" "length (cl_cells d1) = 2 ^ k" using d1(1) by (auto simp: cl_inv_def)
  have k62: "(2::nat) ^ k \<le> 2 ^ 62" using k(2) by (intro power_increasing) auto
  then have cap: "unat (of_nat (2 ^ k) - 1 :: u64) = 2 ^ k - 1"
  proof -
    have n: "unat (of_nat (2 ^ k) :: u64) = 2 ^ k" using k62 by (intro unat_of_nat_u64) simp
    then have "(of_nat (2 ^ k) :: u64) \<noteq> 0" by (metis power_not_zero unat_0 zero_neq_numeral)
    from unat_dec [OF this] n show ?thesis by simp
  qed
  have live: "unat (cl_bottom d1 - cl_top d1) = unat (cl_bottom d1) - unat (cl_top d1)"
    using d1(1) by (simp add: cl_inv_def unat_sub)
  have room_iff: "of_nat (length (cl_cells d1)) - 1 \<le> cl_bottom d1 - cl_top d1 \<longleftrightarrow>
      2 ^ k - 1 \<le> unat (cl_bottom d1) - unat (cl_top d1)"
    unfolding k(3) word_le_nat_alt cap live ..
  have small: "unat (cl_bottom d1) < 2 ^ 62" if ok1
  proof (cases "high_watermark \<le> cl_bottom d \<or> high_watermark \<le> cl_top d")
    case True
    then have "maybe_quiescent_rebase alloc high_watermark d = (True, d1)"
      using f that by (simp add: first_def)
    from rebase_contents [OF inv this] have "cl_top d1 = 0" by simp
    then show ?thesis using d1(1) k k62 by (simp add: cl_inv_def)
  next
    case False
    then have "d1 = d" "cl_bottom d < high_watermark" using f by (auto simp: first_def)
    then show ?thesis by (simp add: high_watermark_def word_less_nat_alt push_bit_eq_mult)
  qed
  show ?thesis
  proof (cases "ok1 \<and> 2 ^ k - 1 \<le> unat (cl_bottom d1) - unat (cl_top d1)")
    case True
    obtain g d2 where g: "grow alloc d1 = (g, d2)" by (cases "grow alloc d1")
    show ?thesis
    proof (cases g)
      case True
      with g have gr: "grow alloc d1 = (True, d2)" by simp
      note gc = grow_contents [OF d1(1) gr]
      have "unat (cl_bottom d2) - unat (cl_top d2) < length (cl_cells d2) - 1"
      proof -
        have "unat (cl_bottom d2) - unat (cl_top d2) < 2 ^ k" "length (cl_cells d2) = 2 * 2 ^ k"
          using gc d1(1) k by (simp_all add: cl_inv_def)
        moreover have "(1::nat) \<le> 2 ^ k" by simp
        ultimately show ?thesis by linarith
      qed
      moreover have "unat (cl_bottom d2) < 2 ^ 62"
        using gc small \<open>ok1 \<and> _\<close> by simp
      ultimately have "cl_inv (push_cell x d2) \<and> cl_contents (push_cell x d2) = cl_contents d2 @ [x]"
        using push_cell_contents [of d2 x] gc by blast
      then show ?thesis
        using p gr gc d1(2) unfolding push room_iff using \<open>ok1 \<and> _\<close> ord by simp
    next
      case False
      then have "d2 = d1" using g grow_fails [of alloc d1 d2] by simp
      then show ?thesis using p g False d1 unfolding push room_iff using \<open>ok1 \<and> _\<close> ord by simp
    qed
  next
    case False
    show ?thesis
    proof (cases ok1)
      case True
      then have "unat (cl_bottom d1) - unat (cl_top d1) < length (cl_cells d1) - 1"
        using False k by simp
      note pc = push_cell_contents [OF d1(1) this small [OF True], of x]
      have "ok" "d' = push_cell x d1"
        using p unfolding push room_iff using True False ord by simp_all
      then show ?thesis using pc d1(2) by simp
    next
      case False
      then show ?thesis using p push d1 by simp
    qed
  qed
qed

lemma cl_contents_last:
  assumes inv: "cl_inv d" and lt: "cl_top d < cl_bottom d"
  shows "cl_contents d = cl_contents (d\<lparr>cl_bottom := cl_bottom d - 1\<rparr>) @ [load_cell (cl_bottom d - 1) (cl_cells d)] \<and>
    cl_contents d = load_cell (cl_top d) (cl_cells d) # cl_contents (d\<lparr>cl_top := cl_top d + 1\<rparr>)"
proof -
  obtain k where k: "1 \<le> k" "k \<le> 62" "length (cl_cells d) = 2 ^ k" using inv by (auto simp: cl_inv_def)
  let ?t = "unat (cl_top d)" and ?b = "unat (cl_bottom d)"
  have lt': "?t < ?b" using lt by (simp add: word_less_nat_alt)
  then have "cl_bottom d \<noteq> 0" by auto
  then have b1: "unat (cl_bottom d - 1) = ?b - 1" by (rule unat_dec)
  have "cl_top d \<noteq> u64_max" using lt by (metis word_order.extremum_strict)
  then have t1: "unat (cl_top d + 1) = Suc ?t" by (rule unat_inc)
  have "[?t..<?b] = [?t..<?b - 1] @ [?b - 1]" using lt'
    by (metis Suc_diff_1 less_Suc_eq_le less_nat_zero_code not_gr_zero upt_Suc_append)
  then have "cl_contents d = cl_contents (d\<lparr>cl_bottom := cl_bottom d - 1\<rparr>) @ [load_cell (cl_bottom d - 1) (cl_cells d)]"
    using load_cell_inv [OF k(3,2)] b1 by (simp add: cl_contents_def)
  moreover have "[?t..<?b] = ?t # [Suc ?t..<?b]" using lt' by (rule upt_conv_Cons)
  then have "cl_contents d = load_cell (cl_top d) (cl_cells d) # cl_contents (d\<lparr>cl_top := cl_top d + 1\<rparr>)"
    using load_cell_inv [OF k(3,2)] t1 by (simp add: cl_contents_def)
  ultimately show ?thesis by blast
qed

lemma cl_pop_law:
  assumes inv: "cl_inv d" and p: "cl_pop alloc d = (r, d')"
  shows "cl_inv d' \<and> (if cl_contents d = [] then r = Empty \<and> cl_contents d' = []
                else r = Success (last (cl_contents d)) \<and> cl_contents d' = butlast (cl_contents d))"
proof (cases "cl_bottom d = cl_top d")
  case True
  then have nil: "cl_contents d = []" using contents_Nil_iff [OF inv] by simp
  have same: "d\<lparr>cl_bottom := cl_top d\<rparr> = d" using True by simp
  have gt: "\<not> cl_top d \<le> cl_bottom d - 1" if "cl_bottom d \<noteq> 0"
    using True unat_dec [OF that] that by (simp add: word_le_nat_alt unat_gt_0 not_le)
  have "(r, d') = (Empty, snd (maybe_quiescent_rebase alloc high_watermark d))"
    using p gt True by (cases "cl_bottom d = 0") (auto simp: cl_pop_def Let_def same)
  moreover obtain b d1 where rb: "maybe_quiescent_rebase alloc high_watermark d = (b, d1)"
    by (cases "maybe_quiescent_rebase alloc high_watermark d")
  ultimately have "r = Empty" "d' = d1" by simp_all
  with rebase_contents [OF inv rb] nil show ?thesis by simp
next
  case False
  then have lt: "cl_top d < cl_bottom d" using inv by (auto simp: cl_inv_def less_le)
  then have nz: "cl_bottom d \<noteq> 0" by auto
  have b1: "unat (cl_bottom d - 1) = unat (cl_bottom d) - 1" using unat_dec [OF nz] .
  have le: "cl_top d \<le> cl_bottom d - 1" using lt by (simp add: word_le_nat_alt word_less_nat_alt b1)
  let ?d1 = "d\<lparr>cl_bottom := cl_bottom d - 1\<rparr>"
  note last = cl_contents_last [OF inv lt, THEN conjunct1]
  have inv1: "cl_inv ?d1" using inv le b1 by (auto simp: cl_inv_def)
  show ?thesis
  proof (cases "cl_top d = cl_bottom d - 1")
    case True
    let ?d2 = "d\<lparr>cl_top := cl_top d + 1\<rparr>"
    have "d\<lparr>cl_bottom := cl_bottom d, cl_top := cl_top d + 1\<rparr> = ?d2" by simp
    then have "r = Success (load_cell (cl_bottom d - 1) (cl_cells d))" "d' = ?d2"
      using p nz le True by (simp_all add: cl_pop_def Let_def)
    moreover have "cl_bottom ?d2 = cl_top ?d2" using True by simp
    moreover have "cl_inv ?d2" using inv True by (auto simp: cl_inv_def)
    moreover have "cl_contents ?d1 = []" using contents_Nil_iff [OF inv1] True by simp
    ultimately show ?thesis
      using last contents_Nil_iff [of ?d2] by simp
  next
    case False
    then have "r = Success (load_cell (cl_bottom d - 1) (cl_cells d))" "d' = ?d1"
      using p nz le by (auto simp: cl_pop_def Let_def)
    then show ?thesis using last inv1 by simp
  qed
qed

lemma cl_steal_law:
  assumes inv: "cl_inv d" and p: "cl_steal d = (r, d')"
  shows "cl_inv d' \<and> (if r = Retry then cl_contents d' = cl_contents d
                else if cl_contents d = [] then r = Empty \<and> cl_contents d' = []
                else r = Success (hd (cl_contents d)) \<and> cl_contents d' = tl (cl_contents d))"
proof (cases "maintenance d \<or> \<not> cl_top d < cl_bottom d")
  case True
  then show ?thesis
    using p inv contents_Nil_iff [OF inv] by (auto simp: cl_steal_def cl_inv_def split: if_splits)
next
  case False
  then have lt: "cl_top d < cl_bottom d" by simp
  have "cl_top d \<noteq> u64_max" using lt by (metis word_order.extremum_strict)
  then have t1: "unat (cl_top d + 1) = Suc (unat (cl_top d))" by (rule unat_inc)
  have "cl_inv (d\<lparr>cl_top := cl_top d + 1\<rparr>)"
    using inv lt t1 by (auto simp: cl_inv_def word_le_nat_alt word_less_nat_alt)
  then show ?thesis
    using p False cl_contents_last [OF inv lt, THEN conjunct2] by (auto simp: cl_steal_def)
qed

interpretation chase_lev: deque_backend cl_inv cl_contents "cl_push alloc" "cl_pop alloc" cl_steal for alloc
  by unfold_locales (rule cl_push_law cl_pop_law cl_steal_law; assumption)+

section \<open>The sequentially consistent reference\<close>

text \<open>Its indices are signed; a run too short to overflow them is assumed, as in the tests.\<close>

record 'a reference_deque =
  or_top :: int
  or_bottom :: int
  or_cells :: "'a list"
  or_null :: 'a

definition new_oracle :: "nat \<Rightarrow> 'a \<Rightarrow> 'a reference_deque" where
  "new_oracle cap z = \<lparr>or_top = 0, or_bottom = 0, or_cells = replicate cap z, or_null = z\<rparr>"

definition oracle_index :: "int \<Rightarrow> nat \<Rightarrow> nat" where
  "oracle_index i cap = nat (i AND (int cap - 1))"

definition oracle_grow :: "'a reference_deque \<Rightarrow> 'a reference_deque" where
  "oracle_grow d =
     (let old = or_cells d; n = length old
      in d\<lparr>or_cells := fold
          (\<lambda>i cells. cells[oracle_index (int i) (n * 2) := old ! oracle_index (int i) n])
          [nat (or_top d)..<nat (or_bottom d)] (replicate (n * 2) (or_null d))\<rparr>)"

definition oracle_push :: "'a \<Rightarrow> 'a reference_deque \<Rightarrow> bool \<times> 'a reference_deque" where
  "oracle_push x d =
     (let d1 = (if int (length (or_cells d)) \<le> or_bottom d - or_top d then oracle_grow d else d)
      in (True, d1\<lparr>or_cells := (or_cells d1)[oracle_index (or_bottom d1) (length (or_cells d1)) := x],
                  or_bottom := or_bottom d1 + 1\<rparr>))"

definition oracle_pop :: "'a reference_deque \<Rightarrow> 'a deque_result \<times> 'a reference_deque" where
  "oracle_pop d =
     (let b = or_bottom d - 1; d1 = d\<lparr>or_bottom := b\<rparr>; t = or_top d1
      in if t \<le> b then
           (let item = or_cells d1 ! oracle_index b (length (or_cells d1))
            in if t = b then (Success item, d1\<lparr>or_top := t + 1, or_bottom := b + 1\<rparr>)
               else (Success item, d1))
         else (Empty, d1\<lparr>or_bottom := b + 1\<rparr>))"

definition oracle_steal :: "'a reference_deque \<Rightarrow> 'a deque_result \<times> 'a reference_deque" where
  "oracle_steal d =
     (if or_top d < or_bottom d
      then (Success (or_cells d ! oracle_index (or_top d) (length (or_cells d))), d\<lparr>or_top := or_top d + 1\<rparr>)
      else (Empty, d))"

definition oracle_empty :: "'a reference_deque \<Rightarrow> bool" where
  "oracle_empty d \<longleftrightarrow> or_bottom d \<le> or_top d"

definition oracle_size :: "'a reference_deque \<Rightarrow> nat" where
  "oracle_size d = (if or_top d < or_bottom d then nat (or_bottom d - or_top d) else 0)"

definition oracle_inv :: "'a reference_deque \<Rightarrow> bool" where
  "oracle_inv d \<longleftrightarrow> (\<exists>k. length (or_cells d) = 2 ^ k) \<and> 0 \<le> or_top d \<and> or_top d \<le> or_bottom d \<and>
     nat (or_bottom d) \<le> nat (or_top d) + length (or_cells d)"

definition oracle_contents :: "'a reference_deque \<Rightarrow> 'a list" where
  "oracle_contents d =
     map (\<lambda>i. or_cells d ! (i mod length (or_cells d))) [nat (or_top d)..<nat (or_bottom d)]"

lemma oracle_index_mod: "cap = 2 ^ k \<Longrightarrow> oracle_index (int i) cap = i mod cap"
proof -
  assume "cap = 2 ^ k"
  then have "int cap - 1 = mask k" by (simp add: mask_eq_exp_minus_1)
  then have "oracle_index (int i) cap = nat (take_bit k (int i))"
    by (simp only: oracle_index_def take_bit_eq_mask)
  also have "take_bit k (int i) = int (i mod 2 ^ k)"
    by (simp add: take_bit_eq_mod zmod_int)
  finally show ?thesis using \<open>cap = 2 ^ k\<close> by simp
qed

lemma oracle_inv_new: "oracle_inv (new_oracle (2 ^ k) z)"
  by (auto simp: oracle_inv_def new_oracle_def)

lemma oracle_contents_new: "oracle_contents (new_oracle cap z) = []"
  by (simp add: oracle_contents_def new_oracle_def)

lemma oracle_grow_contents:
  assumes inv: "oracle_inv d"
  shows "oracle_inv (oracle_grow d) \<and> oracle_contents (oracle_grow d) = oracle_contents d \<and>
    or_top (oracle_grow d) = or_top d \<and> or_bottom (oracle_grow d) = or_bottom d \<and>
    length (or_cells (oracle_grow d)) = 2 * length (or_cells d)"
proof -
  obtain k where k: "length (or_cells d) = 2 ^ k" using inv by (auto simp: oracle_inv_def)
  let ?t = "nat (or_top d)" and ?b = "nat (or_bottom d)" and ?n = "2 ^ Suc k :: nat"
  have lim: "?b \<le> ?t + 2 ^ k" using inv k by (auto simp: oracle_inv_def)
  have i2: "oracle_index (int i) (2 ^ k * 2) = i mod ?n" and i1: "oracle_index (int i) (2 ^ k) = i mod 2 ^ k" for i
    using oracle_index_mod [of "2 ^ k * 2" "Suc k" i] oracle_index_mod [of "2 ^ k" k i] by (simp_all add: mult.commute)
  have cells: "or_cells (oracle_grow d) = fold (\<lambda>i cells. cells[i mod ?n := or_cells d ! (i mod 2 ^ k)])
      [?t..<?b] (replicate ?n (or_null d))"
    unfolding oracle_grow_def Let_def k i1 i2 by (simp add: mult.commute)
  have "?b \<le> ?t + ?n" using lim by simp
  from copy_window [OF _ this _ cells]
  have win: "length (or_cells (oracle_grow d)) = ?n"
    "\<forall>i. ?t \<le> i \<and> i < ?b \<longrightarrow> or_cells (oracle_grow d) ! (i mod ?n) = or_cells d ! (i mod 2 ^ k)"
    by simp_all
  have fr: "or_top (oracle_grow d) = or_top d" "or_bottom (oracle_grow d) = or_bottom d"
    by (simp_all add: oracle_grow_def Let_def)
  have "oracle_contents (oracle_grow d) = oracle_contents d"
    using win k by (simp add: oracle_contents_def fr)
  moreover have "oracle_inv (oracle_grow d)"
    using inv win lim by (auto simp: oracle_inv_def fr intro: exI [of _ "Suc k"])
  ultimately show ?thesis using win k fr by simp
qed

lemma oracle_push_law:
  assumes inv: "oracle_inv d" and p: "oracle_push x d = (ok, d')"
  shows "oracle_inv d' \<and> oracle_contents d' = (if ok then oracle_contents d @ [x] else oracle_contents d)"
proof -
  define d1 where "d1 = (if int (length (or_cells d)) \<le> or_bottom d - or_top d then oracle_grow d else d)"
  have d1: "oracle_inv d1" "oracle_contents d1 = oracle_contents d"
    using oracle_grow_contents [OF inv] inv by (auto simp: d1_def)
  obtain k where k: "length (or_cells d1) = 2 ^ k" using d1(1) by (auto simp: oracle_inv_def)
  let ?t = "nat (or_top d1)" and ?b = "nat (or_bottom d1)"
  have room: "?b < ?t + 2 ^ k"
  proof (cases "int (length (or_cells d)) \<le> or_bottom d - or_top d")
    case True
    then have "d1 = oracle_grow d" by (simp add: d1_def)
    with oracle_grow_contents [OF inv] inv k show ?thesis
      by (auto simp: oracle_inv_def) (metis add_lessD1 le_less_trans less_add_same_cancel1 mult_2 nat_add_left_cancel_less zero_less_numeral zero_less_power)
  next
    case False
    then have "d1 = d" by (simp add: d1_def)
    moreover have "0 \<le> or_top d" "or_top d \<le> or_bottom d" using inv by (auto simp: oracle_inv_def)
    then have "nat (or_bottom d) < nat (or_top d) + length (or_cells d)" using False by linarith
    ultimately show ?thesis using k by simp
  qed
  have pos: "0 \<le> or_bottom d1" "0 \<le> or_top d1" "?t \<le> ?b" using d1(1) by (auto simp: oracle_inv_def)
  have idx: "oracle_index (or_bottom d1) (length (or_cells d1)) = ?b mod 2 ^ k"
    using oracle_index_mod [of "length (or_cells d1)" k ?b] pos k by simp
  have d': "ok" "d' = d1\<lparr>or_cells := (or_cells d1)[?b mod 2 ^ k := x], or_bottom := or_bottom d1 + 1\<rparr>"
    using p idx by (auto simp: oracle_push_def Let_def d1_def [symmetric])
  have b1: "nat (or_bottom d1 + 1) = Suc ?b" using pos by simp
  have old: "(or_cells d1)[?b mod 2 ^ k := x] ! (i mod 2 ^ k) = or_cells d1 ! (i mod 2 ^ k)"
    if "?t \<le> i" "i < ?b" for i
  proof -
    have "?b < i + 2 ^ k" using that room by linarith
    then have "?b mod 2 ^ k \<noteq> i mod 2 ^ k" using mod_eq_window [of i "2 ^ k" ?b] that by auto
    then show ?thesis by simp
  qed
  have "oracle_contents d' = oracle_contents d1 @ [x]"
    using old pos k b1 by (simp add: oracle_contents_def d'(2))
  moreover have "oracle_inv d'"
    using d1(1) room k b1 by (auto simp: oracle_inv_def d'(2))
  ultimately show ?thesis using d'(1) d1 by simp
qed

lemma oracle_contents_ends:
  assumes inv: "oracle_inv d" and lt: "or_top d < or_bottom d"
  shows "oracle_contents d = oracle_contents (d\<lparr>or_bottom := or_bottom d - 1\<rparr>) @
      [or_cells d ! oracle_index (or_bottom d - 1) (length (or_cells d))] \<and>
    oracle_contents d = (or_cells d ! oracle_index (or_top d) (length (or_cells d))) #
      oracle_contents (d\<lparr>or_top := or_top d + 1\<rparr>)"
proof -
  obtain k where k: "length (or_cells d) = 2 ^ k" using inv by (auto simp: oracle_inv_def)
  let ?t = "nat (or_top d)" and ?b = "nat (or_bottom d)"
  have pos: "0 \<le> or_top d" "?t < ?b" using inv lt by (auto simp: oracle_inv_def)
  have ib: "oracle_index (or_bottom d - 1) (length (or_cells d)) = (?b - 1) mod 2 ^ k"
    using oracle_index_mod [of "length (or_cells d)" k "?b - 1"] pos k by (simp add: nat_diff_distrib of_nat_diff)
  have it: "oracle_index (or_top d) (length (or_cells d)) = ?t mod 2 ^ k"
    using oracle_index_mod [of "length (or_cells d)" k ?t] pos k by simp
  have b1: "nat (or_bottom d - 1) = ?b - 1" and t1: "nat (or_top d + 1) = Suc ?t" using pos by simp_all
  have "[?t..<?b] = [?t..<?b - 1] @ [?b - 1]" using pos
    by (metis Suc_diff_1 less_Suc_eq_le less_nat_zero_code not_gr_zero upt_Suc_append)
  then have "oracle_contents d = oracle_contents (d\<lparr>or_bottom := or_bottom d - 1\<rparr>) @
      [or_cells d ! oracle_index (or_bottom d - 1) (length (or_cells d))]"
    by (simp add: oracle_contents_def b1 ib k [symmetric])
  moreover have "[?t..<?b] = ?t # [Suc ?t..<?b]" using pos by (intro upt_conv_Cons) simp
  then have "oracle_contents d = (or_cells d ! oracle_index (or_top d) (length (or_cells d))) #
      oracle_contents (d\<lparr>or_top := or_top d + 1\<rparr>)"
    by (simp add: oracle_contents_def t1 it k [symmetric])
  ultimately show ?thesis by blast
qed

lemma oracle_Nil_iff: "oracle_inv d \<Longrightarrow> oracle_contents d = [] \<longleftrightarrow> \<not> or_top d < or_bottom d"
  by (auto simp: oracle_inv_def oracle_contents_def)

lemma oracle_pop_law:
  assumes inv: "oracle_inv d" and p: "oracle_pop d = (r, d')"
  shows "oracle_inv d' \<and> (if oracle_contents d = [] then r = Empty \<and> oracle_contents d' = []
      else r = Success (last (oracle_contents d)) \<and> oracle_contents d' = butlast (oracle_contents d))"
proof (cases "or_top d < or_bottom d")
  case False
  moreover have "d\<lparr>or_bottom := or_bottom d\<rparr> = d" by simp
  ultimately have "r = Empty" "d' = d" using p by (auto simp: oracle_pop_def Let_def)
  then show ?thesis using False inv oracle_Nil_iff [OF inv] by simp
next
  case True
  let ?d1 = "d\<lparr>or_bottom := or_bottom d - 1\<rparr>"
  note ends = oracle_contents_ends [OF inv True, THEN conjunct1]
  have inv1: "oracle_inv ?d1" using inv True by (auto simp: oracle_inv_def)
  show ?thesis
  proof (cases "or_top d = or_bottom d - 1")
    case eq: True
    let ?d2 = "d\<lparr>or_top := or_top d + 1\<rparr>"
    have "d\<lparr>or_bottom := or_bottom d, or_top := or_top d + 1\<rparr> = ?d2" by simp
    then have r: "r = Success (or_cells d ! oracle_index (or_bottom d - 1) (length (or_cells d)))" "d' = ?d2"
      using p True eq by (simp_all add: oracle_pop_def Let_def)
    have "oracle_inv ?d2" using inv eq by (auto simp: oracle_inv_def)
    moreover have "oracle_contents ?d1 = []" "oracle_contents ?d2 = []"
      using eq by (simp_all add: oracle_contents_def)
    ultimately show ?thesis using r ends by simp
  next
    case False
    then have "r = Success (or_cells d ! oracle_index (or_bottom d - 1) (length (or_cells d)))" "d' = ?d1"
      using p True by (simp_all add: oracle_pop_def Let_def)
    then show ?thesis using ends inv1 by simp
  qed
qed

lemma oracle_steal_law:
  assumes inv: "oracle_inv d" and p: "oracle_steal d = (r, d')"
  shows "oracle_inv d' \<and> (if r = Retry then oracle_contents d' = oracle_contents d
      else if oracle_contents d = [] then r = Empty \<and> oracle_contents d' = []
      else r = Success (hd (oracle_contents d)) \<and> oracle_contents d' = tl (oracle_contents d))"
proof (cases "or_top d < or_bottom d")
  case False
  then show ?thesis using p inv oracle_Nil_iff [OF inv] by (simp add: oracle_steal_def)
next
  case True
  then have "r = Success (or_cells d ! oracle_index (or_top d) (length (or_cells d)))"
    "d' = d\<lparr>or_top := or_top d + 1\<rparr>"
    using p by (simp_all add: oracle_steal_def)
  moreover have "oracle_inv (d\<lparr>or_top := or_top d + 1\<rparr>)"
    using inv True by (auto simp: oracle_inv_def)
  ultimately show ?thesis using oracle_contents_ends [OF inv True, THEN conjunct2] by simp
qed

interpretation reference: deque_backend oracle_inv oracle_contents oracle_push oracle_pop oracle_steal
  by unfold_locales (rule oracle_push_law oracle_pop_law oracle_steal_law; assumption)+

section \<open>Properties\<close>

abbreviation cl_step where
  "cl_step alloc \<equiv> step_with (cl_push alloc) (cl_pop alloc) cl_steal"

abbreviation oracle_step where
  "oracle_step \<equiv> step_with oracle_push oracle_pop oracle_steal"

lemma rebase_maintenance: "\<not> maintenance d \<Longrightarrow> \<not> maintenance (snd (maybe_quiescent_rebase alloc w d))"
  by (simp add: maybe_quiescent_rebase_def Let_def)

lemma cl_push_split:
  "cl_push alloc x d =
     (case (if high_watermark \<le> cl_bottom d \<or> high_watermark \<le> cl_top d
            then maybe_quiescent_rebase alloc high_watermark d else (True, d)) of
        (False, d1) \<Rightarrow> (False, d1)
      | (True, d1) \<Rightarrow>
          if cl_bottom d1 < cl_top d1 then (False, d1)
          else if of_nat (length (cl_cells d1)) - 1 \<le> cl_bottom d1 - cl_top d1
          then (fst (grow alloc d1), if fst (grow alloc d1) then push_cell x (snd (grow alloc d1))
                                     else snd (grow alloc d1))
          else (True, push_cell x d1))"
  unfolding cl_push_def Let_def by (rule prod.case_cong) (auto simp: split_beta split: bool.split)

lemma grow_maintenance: "maintenance (snd (grow alloc d)) = maintenance d"
  by (simp add: grow_def Let_def)

lemma rebase_shape:
  "inject_growth_failure (snd (maybe_quiescent_rebase alloc w d)) = inject_growth_failure d"
  "length (cl_cells (snd (maybe_quiescent_rebase alloc w d))) = length (cl_cells d)"
  "w \<le> cl_bottom d \<or> w \<le> cl_top d \<Longrightarrow> cl_top d \<le> cl_bottom d \<Longrightarrow> alloc \<Longrightarrow> \<not> inject_rebase_failure d \<Longrightarrow>
   fst (maybe_quiescent_rebase alloc w d)"
  by (auto simp: maybe_quiescent_rebase_def Let_def)

lemma push_maintenance:
  assumes "\<not> maintenance d"
  shows "\<not> maintenance (snd (cl_push alloc x d))"
proof -
  have p: "maintenance (push_cell x d1) = maintenance d1" for d1
    by (simp add: push_cell_def)
  obtain ok d1 where f: "(if high_watermark \<le> cl_bottom d \<or> high_watermark \<le> cl_top d
      then maybe_quiescent_rebase alloc high_watermark d else (True, d)) = (ok, d1)"
    by (rule prod.exhaust)
  have "\<not> maintenance d1"
    using f assms rebase_maintenance [OF assms, of alloc high_watermark]
    by (cases "high_watermark \<le> cl_bottom d \<or> high_watermark \<le> cl_top d") auto
  then show ?thesis
    by (cases ok) (simp_all add: cl_push_split f p grow_maintenance)
qed

lemma pop_maintenance:
  assumes "\<not> maintenance d"
  shows "\<not> maintenance (snd (cl_pop alloc d))"
proof -
  have "\<not> maintenance (snd (maybe_quiescent_rebase alloc high_watermark (d\<lparr>cl_bottom := b\<rparr>)))" for b
    by (rule rebase_maintenance) (simp add: assms)
  then show ?thesis
    using assms rebase_maintenance [OF assms] by (simp add: cl_pop_def Let_def)
qed

lemma cl_run_no_retry:
  "\<not> maintenance d \<Longrightarrow> run_with (cl_step alloc) ops d = (as, d') \<Longrightarrow> Got Retry \<notin> set as"
proof (induction ops arbitrary: d as)
  case (Cons op ops)
  obtain a d1 where s: "cl_step alloc op d = (a, d1)" by (cases "cl_step alloc op d")
  obtain bs where r: "run_with (cl_step alloc) ops d1 = (bs, d')" and as: "as = a # bs"
    using Cons.prems(2) s by (auto split: prod.splits)
  have "\<not> maintenance d1"
    using s push_maintenance [OF Cons.prems(1), of alloc] pop_maintenance [OF Cons.prems(1), of alloc] Cons.prems(1)
    by (cases op) (auto simp: step_with_def cl_steal_def split: prod.splits if_splits, (metis snd_conv)+)
  moreover have "a \<noteq> Got Retry"
    using s Cons.prems(1)
    by (cases op) (auto simp: step_with_def cl_steal_def cl_pop_def Let_def split: prod.splits if_splits)
  ultimately show ?case using Cons.IH [OF _ r] as by auto
qed simp

lemma oracle_run_total:
  "run_with oracle_step ops d = (as, d') \<Longrightarrow> Pushed False \<notin> set as \<and> Got Retry \<notin> set as"
proof (induction ops arbitrary: d as)
  case (Cons op ops)
  obtain a d1 where s: "oracle_step op d = (a, d1)" by (cases "oracle_step op d")
  obtain bs where r: "run_with oracle_step ops d1 = (bs, d')" and as: "as = a # bs"
    using Cons.prems s by (auto split: prod.splits)
  have "a \<noteq> Pushed False \<and> a \<noteq> Got Retry"
    using s by (cases op) (auto simp: step_with_def oracle_push_def oracle_pop_def oracle_steal_def Let_def
        split: prod.splits if_splits)
  then show ?case using Cons.IH [OF r] as by auto
qed simp

text \<open>
  C10: The production deque and the sequentially consistent reference cannot be told apart: whatever
  sequence of pushes, pops and steals is run on both, however often the rings grow and wrap, they
  give the same answers and hold the same tasks in the same order, as long as the production deque
  accepts the pushes.
\<close>

theorem chase_lev_matches_reference:
  fixes ops :: "'a deque_op list"
  assumes "run_with (cl_step alloc) ops (new_chase_lev 64 z) = (as, d')" and "Pushed False \<notin> set as"
  shows "\<exists>o'. run_with oracle_step ops (new_oracle 64 z) = (as, o') \<and>
    oracle_contents o' = cl_contents d' \<and> run_with list_step ops [] = (as, cl_contents d')"
proof -
  have "(64::nat) = 2 ^ 6" by simp
  then have ci: "cl_inv (new_chase_lev 64 z)" and oi: "oracle_inv (new_oracle 64 z)"
    using cl_inv_new [of 6 z] oracle_inv_new [of 6 z] by simp_all
  have nr: "Got Retry \<notin> set as"
    using cl_run_no_retry [OF _ assms(1)] by (simp add: new_chase_lev_def)
  from chase_lev.run_list [OF ci assms nr]
  have l: "run_with list_step ops [] = (as, cl_contents d')" by (simp add: cl_contents_new)
  obtain bs o' where r: "run_with oracle_step ops (new_oracle 64 z) = (bs, o')"
    by (cases "run_with oracle_step ops (new_oracle 64 z)")
  from reference.run_list [OF oi r] oracle_run_total [OF r]
  have "run_with list_step ops [] = (bs, oracle_contents o')" by (simp add: oracle_contents_new)
  with l r show ?thesis by simp
qed

theorem chase_lev_matches_reference_witness:
  "\<exists>as d'. run_with (cl_step True) [Push (1::nat), Push 2, Steal, Pop, Pop] (new_chase_lev 64 0) = (as, d') \<and>
     fst (run_with oracle_step [Push (1::nat), Push 2, Steal, Pop, Pop] (new_oracle 64 0)) = as"
proof -
  let ?ops = "[Push (1::nat), Push 2, Steal, Pop, Pop]"
  obtain as d' where r: "run_with (cl_step True) ?ops (new_chase_lev 64 0) = (as, d')"
    by (cases "run_with (cl_step True) ?ops (new_chase_lev 64 0)")
  have "cl_push True x d = (True, push_cell x d)" if "cl_top d = 0" "cl_bottom d \<le> 1" "length (cl_cells d) = 64"
    for x and d :: "nat chase_lev"
  proof -
    have "cl_bottom d < 63" using that(2) by (simp add: word_less_nat_alt word_le_nat_alt)
    then show ?thesis
      using that by (simp add: cl_push_def Let_def high_watermark_def word_le_nat_alt push_bit_eq_mult not_le
          word_less_nat_alt)
  qed
  then have "Pushed False \<notin> set as"
    using r by (auto simp: step_with_def new_chase_lev_def push_cell_def split: prod.splits)
  from chase_lev_matches_reference [OF r this] r show ?thesis by force
qed

text \<open>
  A push that is refused changes nothing and has a reason: an allocation failed, a failure was
  injected, or the ring is at its limit of \<open>2^62\<close> cells; so the caller that falls back to the global
  queue publishes the task exactly once.  Indices stay below the point where they could wrap.
\<close>

theorem chase_lev_push_refused:
  assumes "cl_inv d" and "cl_push alloc x d = (ok, d')"
  shows "cl_inv d' \<and> unat (cl_bottom d') \<le> 2 ^ 62 \<and>
    (if ok then cl_contents d' = cl_contents d @ [x]
     else cl_contents d' = cl_contents d \<and>
       (\<not> alloc \<or> inject_growth_failure d \<or> inject_rebase_failure d \<or> 2 ^ 62 \<le> length (cl_cells d)))"
proof -
  note law = cl_push_law [OF assms]
  have "\<not> alloc \<or> inject_growth_failure d \<or> inject_rebase_failure d \<or> 2 ^ 62 \<le> length (cl_cells d)"
    if "\<not> ok"
  proof (rule ccontr)
    assume n: "\<not> ?thesis"
    then have small: "length (cl_cells d) < 2 ^ 62" by simp
    obtain ok1 d1 where f: "(if high_watermark \<le> cl_bottom d \<or> high_watermark \<le> cl_top d
        then maybe_quiescent_rebase alloc high_watermark d else (True, d)) = (ok1, d1)"
      by (cases "(if high_watermark \<le> cl_bottom d \<or> high_watermark \<le> cl_top d
        then maybe_quiescent_rebase alloc high_watermark d else (True, d))")
    have "ok1 \<and> inject_growth_failure d1 = inject_growth_failure d \<and>
        length (cl_cells d1) = length (cl_cells d) \<and> cl_inv d1"
    proof (cases "high_watermark \<le> cl_bottom d \<or> high_watermark \<le> cl_top d")
      case True
      have ord: "cl_top d \<le> cl_bottom d" using assms(1) unfolding cl_inv_def by blast
      have "maybe_quiescent_rebase alloc high_watermark d = (ok1, d1)" using f True by presburger
      moreover have "fst (maybe_quiescent_rebase alloc high_watermark d)"
        by (rule rebase_shape(3) [OF True ord]) (use n in blast)+
      ultimately show ?thesis
        using rebase_shape(1,2) [of alloc high_watermark d] rebase_contents [OF assms(1), of alloc high_watermark]
        by (metis fst_conv snd_conv)
    next
      case False
      then have "ok1" "d1 = d" using f by (metis prod.inject)+
      then show ?thesis using assms(1) by blast
    qed
    then have ok1: ok1 "inject_growth_failure d1 = inject_growth_failure d"
      "length (cl_cells d1) = length (cl_cells d)" "cl_inv d1" by blast+
    have ord: "\<not> cl_bottom d1 < cl_top d1" using ok1(4) by (simp add: cl_inv_def not_less)
    have len: "unat (of_nat (length (cl_cells d1)) :: u64) = length (cl_cells d1)"
      using small ok1(3) by (intro unat_of_nat_u64) simp
    have half: "unat (u64_max div 2 :: u64) = 2 ^ 63 - 1" by (simp add: unat_div)
    have lim: "unat (push_bit 62 1 :: u64) = 2 ^ 62" by (simp add: push_bit_eq_mult)
    have "\<not> u64_max div 2 < (of_nat (length (cl_cells d1)) :: u64)"
      using small ok1(3) unfolding word_less_nat_alt half len by simp
    moreover have "\<not> (push_bit 62 1 :: u64) \<le> of_nat (length (cl_cells d1))"
      using small ok1(3) unfolding word_le_nat_alt lim len by simp
    ultimately have "fst (grow alloc d1)"
      using n ok1(2) by (simp add: grow_def Let_def)
    then have "fst (cl_push alloc x d)"
      using ok1(1) ord by (simp add: cl_push_split f)
    then show False using assms(2) that by simp
  qed
  with law show ?thesis by (auto simp: cl_inv_def)
qed

theorem chase_lev_push_refused_witness:
  "cl_contents (snd (cl_push True (7::nat) (new_chase_lev 64 0))) = [7] \<or>
   cl_contents (snd (cl_push True (7::nat) (new_chase_lev 64 0))) = []"
proof -
  obtain ok d' where p: "cl_push True (7::nat) (new_chase_lev 64 0) = (ok, d')"
    by (cases "cl_push True (7::nat) (new_chase_lev 64 0)")
  have "cl_inv (new_chase_lev 64 (0::nat))" using cl_inv_new [of 6 "0::nat"] by simp
  from chase_lev_push_refused [OF this p] p show ?thesis
    by (auto simp: cl_contents_new split: if_splits)
qed

end
