(* ===== verification/Local_Queues.thy ===== *)
theory Local_Queues
  imports Intrusive_Fifo Chase_Lev
begin

text \<open>
  The priority calendar and the per-worker queues of \<open>src/runtime/ready_queues.cpp\<close>.  One worker has
  four bands, one per priority, kept either as locked deques or as Chase-Lev deques of raw pointers;
  a claim looks at the band the calendar names and falls back to the highest band with work.

  The choice of a band occurs three times in the code (\<open>choose_local_band\<close>, \<open>claim_chase_lev\<close> and
  \<open>claim_global\<close>), each time around a different \<open>claim\<close> closure.  The locale \<open>calendar_bands\<close> states
  the contract of that closure and proves once what the choice guarantees.
\<close>

section \<open>The calendar\<close>

definition kPriorityCalendar :: "Priority list" where
  "kPriorityCalendar =
     [Critical, High, Critical, Normal, Critical, High, Critical, Low, Critical, High, Critical,
      Normal, Critical, High, Critical]"

definition kFallbackPriorityOrder :: "Priority list" where
  "kFallbackPriorityOrder = [Critical, High, Normal, Low]"

definition calendar_target :: "nat \<Rightarrow> Priority" where
  "calendar_target ci = kPriorityCalendar ! (ci mod 15)"

definition next_slot :: "nat \<Rightarrow> nat" where
  "next_slot ci = (ci + 1) mod 15"

text \<open>
  Trying bands in turn.  A thief gives up as soon as a band answers \<open>Retry\<close>; the owner, and the
  locked queues, which never answer \<open>Retry\<close>, go on.
\<close>

fun try_bands ::
  "bool \<Rightarrow> (Priority \<Rightarrow> 's \<Rightarrow> 'r deque_result \<times> 's) \<Rightarrow> Priority list \<Rightarrow> 's \<Rightarrow> 'r option \<times> 's" where
  "try_bands thief claim [] s = (None, s)"
| "try_bands thief claim (p # ps) s =
     (case claim p s of
        (deque_result.Success x, s') \<Rightarrow> (Some x, s')
      | (Retry, s') \<Rightarrow> if thief then (None, s') else try_bands thief claim ps s'
      | (Empty, s') \<Rightarrow> try_bands thief claim ps s')"

definition claim_by_calendar ::
  "bool \<Rightarrow> (Priority \<Rightarrow> 's \<Rightarrow> 'r deque_result \<times> 's) \<Rightarrow> nat \<Rightarrow> 's \<Rightarrow> 'r option \<times> nat \<times> 's" where
  "claim_by_calendar thief claim ci s =
     (let target = calendar_target ci
      in case try_bands thief claim (target # filter (\<lambda>p. p \<noteq> target) kFallbackPriorityOrder) s of
           (Some x, s') \<Rightarrow> (Some x, next_slot ci, s')
         | (None, s') \<Rightarrow> (None, ci, s'))"

definition named_priorities :: "Priority list" where
  "named_priorities = [Low, Normal, High, Critical]"

definition calendar_share :: "Priority \<Rightarrow> nat" where
  "calendar_share p = length (filter (\<lambda>q. q = p) kPriorityCalendar)"

lemma calendar_shares [simp]:
  "calendar_share Critical = 8" "calendar_share High = 4" "calendar_share Normal = 2"
  "calendar_share Low = 1"
  by (simp_all add: calendar_share_def kPriorityCalendar_def)

lemma calendar_target_named: "calendar_target ci \<in> set kFallbackPriorityOrder"
proof -
  have "ci mod 15 < length kPriorityCalendar" by (simp add: kPriorityCalendar_def)
  then have "calendar_target ci \<in> set kPriorityCalendar" by (simp add: calendar_target_def)
  then show ?thesis by (auto simp: kPriorityCalendar_def kFallbackPriorityOrder_def)
qed

lemma mset_rotate: "mset (rotate n xs) = mset xs"
proof -
  let ?k = "n mod length xs"
  have "mset (take ?k xs) + mset (drop ?k xs) = mset xs"
    unfolding mset_append [symmetric] append_take_drop_id ..
  then show ?thesis unfolding rotate_drop_take by (simp add: union_commute)
qed

lemma next_slot_iterate: "(next_slot ^^ k) ci mod 15 = (ci + k) mod 15"
proof (induction k)
  case (Suc k)
  have "(next_slot ^^ Suc k) ci mod 15 = ((next_slot ^^ k) ci mod 15 + 1) mod 15"
    by (simp add: next_slot_def mod_simps)
  then show ?case unfolding Suc by (simp add: mod_simps)
qed simp

text \<open>The calendar's bands over \<open>n\<close> successful claims, and the claims on a sequence of states.\<close>

fun targets :: "nat \<Rightarrow> nat \<Rightarrow> Priority list" where
  "targets 0 ci = []"
| "targets (Suc n) ci = calendar_target ci # targets n (next_slot ci)"

fun claims_in_turn ::
  "bool \<Rightarrow> (Priority \<Rightarrow> 's \<Rightarrow> 'r deque_result \<times> 's) \<Rightarrow> nat \<Rightarrow> 's list \<Rightarrow> 'r option list" where
  "claims_in_turn thief claim ci [] = []"
| "claims_in_turn thief claim ci (s # ss) =
     (case claim_by_calendar thief claim ci s of
        (r, ci', _) \<Rightarrow> r # claims_in_turn thief claim ci' ss)"

lemma targets_conv: "targets n ci = map (\<lambda>k. calendar_target ((next_slot ^^ k) ci)) [0..<n]"
proof (induction n arbitrary: ci)
  case (Suc n)
  have "[0..<Suc n] = 0 # map Suc [0..<n]" by (simp only: upt_conv_Cons zero_less_Suc map_Suc_upt)
  moreover have "(next_slot ^^ k) (next_slot ci) = (next_slot ^^ Suc k) ci" for k
    by (simp add: funpow_swap1)
  ultimately show ?case by (simp add: Suc.IH comp_def del: upt_Suc funpow.simps)
qed simp

text \<open>Any fifteen consecutive slots are the whole calendar.\<close>

lemma calendar_window:
  "mset (map (\<lambda>k. calendar_target ((next_slot ^^ k) ci)) [0..<15]) = mset kPriorityCalendar"
proof -
  have "map (\<lambda>k. calendar_target ((next_slot ^^ k) ci)) [0..<15] =
      map (\<lambda>k. kPriorityCalendar ! ((ci + k) mod 15)) [0..<15]"
    by (simp add: calendar_target_def next_slot_iterate)
  also have "\<dots> = rotate ci kPriorityCalendar"
    by (rule nth_equalityI) (simp_all add: kPriorityCalendar_def nth_rotate add.commute)
  finally show ?thesis by (simp only: mset_rotate)
qed

lemma targets_window: "length (filter (\<lambda>t. t = p) (targets 15 ci)) = calendar_share p"
  using calendar_window [of ci] unfolding calendar_share_def targets_conv
  by (metis mset_filter size_mset)

text \<open>An element leaves one band and the others stay.\<close>

definition takes_from ::
  "('a \<Rightarrow> 'b \<Rightarrow> 'b \<Rightarrow> bool) \<Rightarrow> Priority \<Rightarrow> 'a \<Rightarrow> (Priority \<Rightarrow> 'b) \<Rightarrow> (Priority \<Rightarrow> 'b) \<Rightarrow> bool" where
  "takes_from took p x b b' \<longleftrightarrow> took x (b p) (b' p) \<and> (\<forall>q. q \<noteq> p \<longrightarrow> b q = b' q)"

locale calendar_bands =
  fixes inv :: "'s \<Rightarrow> bool"
    and bands :: "'s \<Rightarrow> Priority \<Rightarrow> 'b"
    and tasks :: "'b \<Rightarrow> 'a multiset"
    and took :: "'a \<Rightarrow> 'b \<Rightarrow> 'b \<Rightarrow> bool"
    and thief :: bool
    and claim :: "Priority \<Rightarrow> 's \<Rightarrow> 'a deque_result \<times> 's"
  assumes took_law: "took x b b' \<Longrightarrow> tasks b = add_mset x (tasks b')"
    and claim_law: "inv s \<Longrightarrow> p \<in> set kFallbackPriorityOrder \<Longrightarrow> claim p s = (r, s') \<Longrightarrow> inv s' \<and>
      (case r of
         deque_result.Success x \<Rightarrow> takes_from took p x (bands s) (bands s')
       | Empty \<Rightarrow> bands s' = bands s \<and> tasks (bands s p) = {#}
       | Retry \<Rightarrow> bands s' = bands s \<and> thief)"
begin

lemma try_bands_law:
  assumes "inv s" and "set ps \<subseteq> set kFallbackPriorityOrder" and "try_bands thief claim ps s = (r, s')"
  shows "inv s' \<and>
    (case r of
       None \<Rightarrow> bands s' = bands s \<and> (thief \<or> (\<forall>p \<in> set ps. tasks (bands s p) = {#}))
     | Some x \<Rightarrow> (\<exists>qs p rs. ps = qs @ p # rs \<and> (\<forall>q \<in> set qs. tasks (bands s q) = {#}) \<and>
         takes_from took p x (bands s) (bands s')))"
  using assms
proof (induction ps arbitrary: s)
  case Nil
  then show ?case by simp
next
  case (Cons p ps)
  obtain a s1 where c: "claim p s = (a, s1)" by (cases "claim p s")
  have p: "p \<in> set kFallbackPriorityOrder" and ps: "set ps \<subseteq> set kFallbackPriorityOrder"
    using Cons.prems(2) by auto
  note law = claim_law [OF Cons.prems(1) p c]
  show ?case
  proof (cases a)
    case (Success x)
    then have "r = Some x" "s' = s1" using Cons.prems(3) c by auto
    then show ?thesis using law Success by (auto intro!: exI [of _ "[]"])
  next
    case Empty
    then have t: "try_bands thief claim ps s1 = (r, s')" using Cons.prems(3) c by simp
    have b: "inv s1" "bands s1 = bands s" "tasks (bands s p) = {#}" using law Empty by auto
    note IH = Cons.IH [OF b(1) ps t]
    show ?thesis
    proof (cases r)
      case None
      then show ?thesis using IH b by simp
    next
      case (Some x)
      then obtain qs q rs where q: "ps = qs @ q # rs" "\<forall>q \<in> set qs. tasks (bands s q) = {#}"
        "takes_from took q x (bands s) (bands s')" and i: "inv s'"
        using IH b by auto
      have "p # ps = (p # qs) @ q # rs" using q(1) by simp
      moreover have "\<forall>q \<in> set (p # qs). tasks (bands s q) = {#}" using q(2) b(3) by simp
      ultimately show ?thesis unfolding Some option.simps using i q(3) by blast
    qed
  next
    case Retry
    then have "thief" "bands s1 = bands s" "inv s1" using law by auto
    then show ?thesis using Cons.prems(3) c Retry by simp
  qed
qed

text \<open>
  A claim serves the calendar's band if it has work and the highest band with work otherwise; it
  comes back empty-handed only when there is no work (or a thief lost a race).
\<close>

lemma claim_by_calendar_law:
  assumes "inv s" and "claim_by_calendar thief claim ci s = (r, ci', s')"
  shows "inv s' \<and>
    (case r of
       None \<Rightarrow> ci' = ci \<and> bands s' = bands s \<and>
         (thief \<or> (\<forall>p \<in> set kFallbackPriorityOrder. tasks (bands s p) = {#}))
     | Some x \<Rightarrow> ci' = next_slot ci \<and>
         (\<exists>p \<in> set kFallbackPriorityOrder. takes_from took p x (bands s) (bands s') \<and>
            (tasks (bands s (calendar_target ci)) \<noteq> {#} \<longrightarrow> p = calendar_target ci) \<and>
            (p \<noteq> calendar_target ci \<longrightarrow>
               (\<forall>q \<in> set (takeWhile (\<lambda>q. q \<noteq> p) kFallbackPriorityOrder). tasks (bands s q) = {#}))))"
proof -
  let ?t = "calendar_target ci"
  let ?ps = "?t # filter (\<lambda>p. p \<noteq> ?t) kFallbackPriorityOrder"
  obtain a s1 where t: "try_bands thief claim ?ps s = (a, s1)"
    by (cases "try_bands thief claim ?ps s")
  have sub: "set ?ps = set kFallbackPriorityOrder" using calendar_target_named [of ci] by auto
  note law = try_bands_law [OF assms(1) _ t]
  show ?thesis
  proof (cases a)
    case None
    then have "r = None" "ci' = ci" "s' = s1"
      using assms(2) t by (simp_all add: claim_by_calendar_def)
    then show ?thesis using law None sub by auto
  next
    case (Some x)
    then have r: "r = Some x" "ci' = next_slot ci" "s' = s1"
      using assms(2) t by (simp_all add: claim_by_calendar_def)
    obtain qs p rs where q: "?ps = qs @ p # rs" "\<forall>q \<in> set qs. tasks (bands s q) = {#}"
      "takes_from took p x (bands s) (bands s')" and i: "inv s'"
      using law [unfolded sub, OF order_refl] unfolding r(3) Some option.simps by blast
    have p: "p \<in> set kFallbackPriorityOrder"
      using q(1) sub by (metis in_set_conv_decomp)
    have tgt: "tasks (bands s ?t) \<noteq> {#} \<longrightarrow> p = ?t"
      using q(1,2) by (metis append_Cons append_Nil list.sel(1) list.set_intros(1) neq_Nil_conv)
    have "q \<in> set qs" if np: "p \<noteq> ?t" and qin: "q \<in> set (takeWhile (\<lambda>q. q \<noteq> p) kFallbackPriorityOrder)" for q
    proof (cases "q = ?t")
      case True
      then show ?thesis using np q(1) by (cases qs) auto
    next
      case False
      obtain qs' where qs': "qs = ?t # qs'" "filter (\<lambda>p. p \<noteq> ?t) kFallbackPriorityOrder = qs' @ p # rs"
        using q(1) np by (cases qs) auto
      have "distinct (filter (\<lambda>p. p \<noteq> ?t) kFallbackPriorityOrder)"
        by (simp add: kFallbackPriorityOrder_def)
      then have "p \<notin> set qs'" unfolding qs'(2) by simp
      then have tw: "takeWhile (\<lambda>q. q \<noteq> p) (qs' @ p # rs) = qs'"
        by (induction qs') auto
      have "q \<in> set (takeWhile (\<lambda>q. q \<noteq> p) (filter (\<lambda>p. p \<noteq> ?t) kFallbackPriorityOrder))"
        using qin False np by (auto simp: kFallbackPriorityOrder_def split: if_splits)
      then show ?thesis using tw qs' by simp
    qed
    then show ?thesis using i q(2,3) p tgt unfolding r option.simps by blast
  qed
qed

lemma claim_by_calendar_served:
  assumes "inv s" and "claim_by_calendar thief claim ci s = (Some x, ci', s')"
  shows "inv s'" and "ci' = next_slot ci"
    and "\<exists>p \<in> set kFallbackPriorityOrder. takes_from took p x (bands s) (bands s') \<and>
      (tasks (bands s (calendar_target ci)) \<noteq> {#} \<longrightarrow> p = calendar_target ci)"
  using claim_by_calendar_law [OF assms] unfolding option.simps by blast+

lemma claim_by_calendar_none:
  assumes "inv s" and "claim_by_calendar thief claim ci s = (None, ci', s')"
  shows "inv s'" and "ci' = ci" and "bands s' = bands s"
    and "thief \<or> (\<forall>p \<in> set kFallbackPriorityOrder. tasks (bands s p) = {#})"
  using claim_by_calendar_law [OF assms] unfolding option.simps by blast+

text \<open>
  Fairness.  Over fifteen successful claims that thread one calendar index, whatever happens to the
  bands in between, a band that is never found empty is served its share of the calendar.
\<close>

lemma claims_in_turn_share:
  assumes "claims_in_turn thief claim ci ss = map Some xs"
    and "\<And>s. s \<in> set ss \<Longrightarrow> inv s \<and> tasks (bands s p) \<noteq> {#}"
    and "\<And>s q y. s \<in> set ss \<Longrightarrow> y \<in># tasks (bands s q) \<Longrightarrow> prio y = q"
  shows "length (filter (\<lambda>t. t = p) (targets (length ss) ci)) \<le> length (filter (\<lambda>x. prio x = p) xs)"
  using assms
proof (induction ss arbitrary: ci xs)
  case Nil
  then show ?case by simp
next
  case (Cons s ss)
  obtain r ci' s' where c: "claim_by_calendar thief claim ci s = (r, ci', s')"
    by (cases "claim_by_calendar thief claim ci s")
  then obtain x ys where r: "r = Some x" and xs: "xs = x # ys"
    and rest: "claims_in_turn thief claim ci' ss = map Some ys"
    using Cons.prems(1) by auto
  have i: "inv s" "tasks (bands s p) \<noteq> {#}" using Cons.prems(2) by simp_all
  have "ci' = next_slot ci \<and> (\<exists>q. takes_from took q x (bands s) (bands s') \<and>
      (tasks (bands s (calendar_target ci)) \<noteq> {#} \<longrightarrow> q = calendar_target ci))"
    using claim_by_calendar_law [OF i(1) c] unfolding r option.simps by blast
  then obtain q where q: "ci' = next_slot ci" "takes_from took q x (bands s) (bands s')"
    "tasks (bands s (calendar_target ci)) \<noteq> {#} \<longrightarrow> q = calendar_target ci"
    by blast
  have "x \<in># tasks (bands s q)" using q(2) took_law unfolding takes_from_def by force
  then have prio: "prio x = q" by (rule Cons.prems(3) [OF list.set_intros(1)])
  have IH: "length (filter (\<lambda>t. t = p) (targets (length ss) ci')) \<le> length (filter (\<lambda>x. prio x = p) ys)"
  proof (rule Cons.IH [OF rest])
    show "inv t \<and> tasks (bands t p) \<noteq> {#}" if "t \<in> set ss" for t
      using Cons.prems(2) that by simp
    show "prio y = q" if "t \<in> set ss" "y \<in># tasks (bands t q)" for t q y
      using that by (intro Cons.prems(3) [of t]) simp_all
  qed
  show ?case using IH prio q(1,3) i(2) xs by auto
qed

theorem fair_share:
  assumes "length ss = 15" and "claims_in_turn thief claim ci ss = map Some xs"
    and "\<And>s. s \<in> set ss \<Longrightarrow> inv s \<and> tasks (bands s p) \<noteq> {#}"
    and "\<And>s q y. s \<in> set ss \<Longrightarrow> y \<in># tasks (bands s q) \<Longrightarrow> prio y = q"
  shows "calendar_share p \<le> length (filter (\<lambda>x. prio x = p) xs)"
  using claims_in_turn_share [OF assms(2-4)] targets_window [of p ci] assms(1) by simp

end

section \<open>One worker's queues\<close>

datatype LocalDequeBackend = Locked | ChaseLevLockFree

text \<open>A cell of a lock-free band is a pointer; the value it points to is the invoker with its flag.\<close>

record LocalQueues =
  lq_backend :: LocalDequeBackend
  locked_bands :: "Priority \<Rightarrow> QueuedTask list"
  chase_lev_bands :: "Priority \<Rightarrow> QueuedTask option chase_lev"

definition new_local_queues :: "LocalDequeBackend \<Rightarrow> LocalQueues" where
  "new_local_queues be =
     \<lparr>lq_backend = be, locked_bands = (\<lambda>_. []), chase_lev_bands = (\<lambda>_. new_chase_lev 64 None)\<rparr>"

definition uses_chase_lev :: "LocalQueues \<Rightarrow> bool" where
  "uses_chase_lev l \<longleftrightarrow> lq_backend l = ChaseLevLockFree"

text \<open>Allocation may fail in the lock-free push; the task then stays with the caller.\<close>

definition lq_push :: "bool \<Rightarrow> QueuedTask \<Rightarrow> Priority \<Rightarrow> LocalQueues \<Rightarrow> bool \<times> LocalQueues" where
  "lq_push alloc t p l =
     (if \<not> uses_chase_lev l
      then (True, l\<lparr>locked_bands := (locked_bands l)(p := locked_bands l p @ [t])\<rparr>)
      else case cl_push alloc (Some (adopt_task t)) (chase_lev_bands l p) of
             (ok, d) \<Rightarrow> (ok, l\<lparr>chase_lev_bands := (chase_lev_bands l)(p := d)\<rparr>))"

definition locked_claim ::
  "bool \<Rightarrow> Priority \<Rightarrow> (Priority \<Rightarrow> QueuedTask list) \<Rightarrow>
     QueuedTask deque_result \<times> (Priority \<Rightarrow> QueuedTask list)" where
  "locked_claim from_back p bs =
     (if bs p = [] then (Empty, bs)
      else if from_back then (deque_result.Success (last (bs p)), bs(p := butlast (bs p)))
      else (deque_result.Success (hd (bs p)), bs(p := tl (bs p))))"

definition choose_local_band ::
  "bool \<Rightarrow> nat \<Rightarrow> (Priority \<Rightarrow> QueuedTask list) \<Rightarrow>
     QueuedTask option \<times> nat \<times> (Priority \<Rightarrow> QueuedTask list)" where
  "choose_local_band from_back = claim_by_calendar False (locked_claim from_back)"

fun steal_retries :: "nat \<Rightarrow> 'a chase_lev \<Rightarrow> 'a deque_result \<times> 'a chase_lev" where
  "steal_retries 0 d = (Empty, d)"
| "steal_retries (Suc n) d =
     (case cl_steal d of
        (Retry, d') \<Rightarrow> if n = 0 then (Retry, d') else steal_retries n d'
      | (r, d') \<Rightarrow> (r, d'))"

definition chase_lev_claim ::
  "bool \<Rightarrow> bool \<Rightarrow> Priority \<Rightarrow> (Priority \<Rightarrow> QueuedTask option chase_lev) \<Rightarrow>
     QueuedTask deque_result \<times> (Priority \<Rightarrow> QueuedTask option chase_lev)" where
  "chase_lev_claim alloc owner p bs =
     (case (if owner then cl_pop alloc (bs p) else steal_retries 3 (bs p)) of
        (deque_result.Success (Some t), d) \<Rightarrow> (deque_result.Success t, bs(p := d))
      | (deque_result.Success None, d) \<Rightarrow> (Empty, bs(p := d))
      | (Empty, d) \<Rightarrow> (Empty, bs(p := d))
      | (Retry, d) \<Rightarrow> (Retry, bs(p := d)))"

definition claim_chase_lev ::
  "bool \<Rightarrow> bool \<Rightarrow> nat \<Rightarrow> (Priority \<Rightarrow> QueuedTask option chase_lev) \<Rightarrow>
     QueuedTask option \<times> nat \<times> (Priority \<Rightarrow> QueuedTask option chase_lev)" where
  "claim_chase_lev alloc owner = claim_by_calendar (\<not> owner) (chase_lev_claim alloc owner)"

definition claim_back :: "bool \<Rightarrow> nat \<Rightarrow> LocalQueues \<Rightarrow> QueuedTask option \<times> nat \<times> LocalQueues" where
  "claim_back alloc ci l =
     (if uses_chase_lev l
      then case claim_chase_lev alloc True ci (chase_lev_bands l) of
             (r, ci', bs) \<Rightarrow> (r, ci', l\<lparr>chase_lev_bands := bs\<rparr>)
      else case choose_local_band True ci (locked_bands l) of
             (r, ci', bs) \<Rightarrow> (r, ci', l\<lparr>locked_bands := bs\<rparr>))"

definition steal_front :: "nat \<Rightarrow> LocalQueues \<Rightarrow> QueuedTask option \<times> nat \<times> LocalQueues" where
  "steal_front ci l =
     (if uses_chase_lev l
      then case claim_chase_lev True False ci (chase_lev_bands l) of
             (r, ci', bs) \<Rightarrow> (r, ci', l\<lparr>chase_lev_bands := bs\<rparr>)
      else case choose_local_band False ci (locked_bands l) of
             (r, ci', bs) \<Rightarrow> (r, ci', l\<lparr>locked_bands := bs\<rparr>))"

definition lq_empty :: "LocalQueues \<Rightarrow> bool" where
  "lq_empty l \<longleftrightarrow>
     (if uses_chase_lev l then \<forall>p \<in> set named_priorities. cl_empty (chase_lev_bands l p)
      else \<forall>p \<in> set named_priorities. locked_bands l p = [])"

text \<open>
  Immediate cleanup of one lock-free band: steal until it is empty.  The retry loop spins while the
  band is under maintenance; the fuel is the number of tasks it holds, and \<open>cancel_band_all\<close> shows
  that it is enough.  The results are the tasks kept and the invokers cancelled.
\<close>

fun cancel_band ::
  "nat \<Rightarrow> QueuedTask option chase_lev \<Rightarrow> QueuedTask list \<times> TaskInvoker list \<times> QueuedTask option chase_lev" where
  "cancel_band 0 d = ([], [], d)"
| "cancel_band (Suc n) d =
     (case cl_steal d of
        (deque_result.Success (Some t), d') \<Rightarrow>
          (case cancel_band n d' of
             (rs, cs, d2) \<Rightarrow>
               if is_resume_segment (qt_invoker t) then (t # rs, cs, d2)
               else (rs, qt_invoker t # cs, d2))
      | (Retry, d') \<Rightarrow> cancel_band n d'
      | (_, d') \<Rightarrow> ([], [], d'))"

definition split_resumes :: "QueuedTask list \<Rightarrow> QueuedTask list \<times> TaskInvoker list" where
  "split_resumes ts =
     (filter (\<lambda>t. is_resume_segment (qt_invoker t)) ts,
      map qt_invoker (filter (\<lambda>t. \<not> is_resume_segment (qt_invoker t)) ts))"

text \<open>
  The resume segments to republish, the invokers whose \<open>cancel_pre_start\<close> ran, and the queues.  The
  locked bands keep their resume segments in place.
\<close>

fun cancel_bands ::
  "Priority list \<Rightarrow> LocalQueues \<Rightarrow> QueuedTask list \<times> TaskInvoker list \<times> LocalQueues" where
  "cancel_bands [] l = ([], [], l)"
| "cancel_bands (p # ps) l =
     (if uses_chase_lev l then
        (case cancel_band (Suc (cl_size (chase_lev_bands l p))) (chase_lev_bands l p) of
           (rs, cs, d) \<Rightarrow>
             (case cancel_bands ps (l\<lparr>chase_lev_bands := (chase_lev_bands l)(p := d)\<rparr>) of
                (rs', cs', l') \<Rightarrow> (rs @ rs', cs @ cs', l')))
      else
        (case split_resumes (locked_bands l p) of
           (rs, cs) \<Rightarrow>
             (case cancel_bands ps (l\<lparr>locked_bands := (locked_bands l)(p := rs)\<rparr>) of
                (rs', cs', l') \<Rightarrow> (rs', cs @ cs', l'))))"

definition lq_cancel_unstarted :: "LocalQueues \<Rightarrow> QueuedTask list \<times> TaskInvoker list \<times> LocalQueues" where
  "lq_cancel_unstarted = cancel_bands named_priorities"

section \<open>What the queues hold\<close>

definition chase_inv :: "(Priority \<Rightarrow> QueuedTask option chase_lev) \<Rightarrow> bool" where
  "chase_inv bs \<longleftrightarrow> (\<forall>p. cl_inv (bs p) \<and> None \<notin> set (cl_contents (bs p)))"

definition chase_tasks :: "QueuedTask option chase_lev \<Rightarrow> QueuedTask list" where
  "chase_tasks d = map the (cl_contents d)"

definition from_back :: "'a \<Rightarrow> 'a list \<Rightarrow> 'a list \<Rightarrow> bool" where
  "from_back x b b' \<longleftrightarrow> b = b' @ [x]"

definition from_front :: "'a \<Rightarrow> 'a list \<Rightarrow> 'a list \<Rightarrow> bool" where
  "from_front x b b' \<longleftrightarrow> b = x # b'"

definition from_end :: "bool \<Rightarrow> 'a \<Rightarrow> 'a list \<Rightarrow> 'a list \<Rightarrow> bool" where
  "from_end bk = (if bk then from_back else from_front)"

lemma from_end_mset: "from_end bk x b b' \<Longrightarrow> mset b = add_mset x (mset b')"
  by (auto simp: from_end_def from_back_def from_front_def split: if_splits)

lemma takes_from_subset: "takes_from (from_end bk) q x b b' \<Longrightarrow> set (b' p) \<subseteq> set (b p)"
  by (cases "p = q") (auto simp: takes_from_def from_end_def from_back_def from_front_def split: if_splits)

lemma locked_claim_law:
  assumes "locked_claim bk p bs = (r, bs')"
  shows "case r of
      deque_result.Success x \<Rightarrow> takes_from (from_end bk) p x bs bs'
    | Empty \<Rightarrow> bs' = bs \<and> bs p = []
    | Retry \<Rightarrow> False"
proof (cases "bs p")
  case Nil
  then show ?thesis using assms by (auto simp: locked_claim_def)
next
  case (Cons x xs)
  then have ne: "bs p \<noteq> []" by simp
  show ?thesis
  proof (cases bk)
    case True
    then have "r = deque_result.Success (last (bs p))" "bs' = bs(p := butlast (bs p))"
      using assms ne by (auto simp: locked_claim_def)
    then show ?thesis
      using True append_butlast_last_id [OF ne]
      by (simp add: takes_from_def from_end_def from_back_def)
  next
    case False
    then have "r = deque_result.Success x" "bs' = bs(p := xs)"
      using assms Cons by (auto simp: locked_claim_def)
    then show ?thesis
      using False Cons by (simp add: takes_from_def from_end_def from_front_def)
  qed
qed

interpretation locked: calendar_bands "\<lambda>_. True" "\<lambda>bs. bs" mset "from_end bk" False "locked_claim bk" for bk
proof
  fix x :: QueuedTask and b b' assume "from_end bk x b b'"
  then show "mset b = add_mset x (mset b')" by (rule from_end_mset)
next
  fix s :: "Priority \<Rightarrow> QueuedTask list" and p r s'
  assume "locked_claim bk p s = (r, s')"
  from locked_claim_law [OF this]
  show "True \<and> (case r of deque_result.Success x \<Rightarrow> takes_from (from_end bk) p x s s'
      | Empty \<Rightarrow> s' = s \<and> mset (s p) = {#} | Retry \<Rightarrow> s' = s \<and> False)"
    by (simp split: deque_result.splits)
qed

lemma steal_retries_law:
  assumes "cl_inv d" and "0 < n" and "steal_retries n d = (r, d')"
  shows "cl_inv d' \<and> (if r = Retry then cl_contents d' = cl_contents d
      else if cl_contents d = [] then r = Empty \<and> cl_contents d' = []
      else r = deque_result.Success (hd (cl_contents d)) \<and> cl_contents d' = tl (cl_contents d))"
  using assms
proof (induction n arbitrary: d)
  case (Suc n)
  obtain a d1 where st: "cl_steal d = (a, d1)" by (cases "cl_steal d")
  note law = cl_steal_law [OF Suc.prems(1) st]
  show ?case
  proof (cases "a = Retry \<and> n \<noteq> 0")
    case True
    then have e: "cl_inv d1" "cl_contents d = cl_contents d1" "steal_retries n d1 = (r, d')"
      using law st Suc.prems(3) by simp_all
    then show ?thesis using Suc.IH [of d1] True unfolding e(2) by blast
  next
    case False
    then have "r = a" "d' = d1" using st Suc.prems(3) by (cases a; simp)+
    then show ?thesis using law by simp
  qed
qed simp

lemma chase_lev_claim_law:
  assumes inv: "chase_inv bs" and c: "chase_lev_claim alloc owner p bs = (r, bs')"
  shows "chase_inv bs' \<and> (case r of
      deque_result.Success x \<Rightarrow> takes_from (from_end owner) p x (chase_tasks \<circ> bs) (chase_tasks \<circ> bs')
    | Empty \<Rightarrow> chase_tasks \<circ> bs' = chase_tasks \<circ> bs \<and> chase_tasks (bs p) = []
    | Retry \<Rightarrow> chase_tasks \<circ> bs' = chase_tasks \<circ> bs \<and> \<not> owner)"
proof -
  have i: "cl_inv (bs p)" "None \<notin> set (cl_contents (bs p))" using inv by (auto simp: chase_inv_def)
  obtain a d where s: "(if owner then cl_pop alloc (bs p) else steal_retries 3 (bs p)) = (a, d)"
    by (cases "(if owner then cl_pop alloc (bs p) else steal_retries 3 (bs p))")
  have law: "cl_inv d \<and> (if a = Retry then cl_contents d = cl_contents (bs p) \<and> \<not> owner
      else if cl_contents (bs p) = [] then a = Empty \<and> cl_contents d = []
      else \<exists>x. a = deque_result.Success x \<and> from_end owner x (cl_contents (bs p)) (cl_contents d))"
  proof (cases owner)
    case True
    then have "cl_pop alloc (bs p) = (a, d)" using s by simp
    from cl_pop_law [OF i(1) this] show ?thesis
      using True by (auto simp: from_end_def from_back_def split: if_splits)
  next
    case False
    then have "steal_retries 3 (bs p) = (a, d)" using s by simp
    from steal_retries_law [OF i(1) _ this] show ?thesis
      using False by (auto simp: from_end_def from_front_def split: if_splits)
  qed
  have keep: "chase_tasks \<circ> bs(p := d) = chase_tasks \<circ> bs" if "cl_contents d = cl_contents (bs p)"
    using that by (auto simp: chase_tasks_def)
  have ci: "chase_inv (bs(p := d))" if "set (cl_contents d) \<subseteq> set (cl_contents (bs p))"
    using that inv law by (auto simp: chase_inv_def)
  show ?thesis
  proof (cases a)
    case (Success y)
    then have fe: "from_end owner y (cl_contents (bs p)) (cl_contents d)"
      using law by (auto split: if_splits)
    then have sub: "set (cl_contents d) \<subseteq> set (cl_contents (bs p))" "y \<in> set (cl_contents (bs p))"
      by (auto simp: from_end_def from_back_def from_front_def split: if_splits)
    then obtain x where x: "y = Some x" using i(2) by (cases y) auto
    then have "r = deque_result.Success x" "bs' = bs(p := d)"
      using c s Success by (simp_all add: chase_lev_claim_def)
    moreover have "takes_from (from_end owner) p x (chase_tasks \<circ> bs) (chase_tasks \<circ> bs(p := d))"
      using fe x by (auto simp: takes_from_def chase_tasks_def from_end_def from_back_def from_front_def)
    ultimately show ?thesis using ci [OF sub(1)] by simp
  next
    case Empty
    then have e: "cl_contents (bs p) = []" "cl_contents d = []" using law by (auto split: if_splits)
    have "r = Empty" "bs' = bs(p := d)" using c s Empty by (simp_all add: chase_lev_claim_def)
    then show ?thesis using keep ci e by (simp add: chase_tasks_def)
  next
    case Retry
    then have e: "cl_contents d = cl_contents (bs p)" "\<not> owner" using law by auto
    have "r = Retry" "bs' = bs(p := d)" using c s Retry by (simp_all add: chase_lev_claim_def)
    then show ?thesis using keep ci e by simp
  qed
qed

interpretation lock_free: calendar_bands chase_inv "\<lambda>bs. chase_tasks \<circ> bs" mset "from_end owner" "\<not> owner"
  "chase_lev_claim alloc owner" for alloc owner
proof
  fix x :: QueuedTask and b b' assume "from_end owner x b b'"
  then show "mset b = add_mset x (mset b')" by (rule from_end_mset)
next
  fix s p r s' assume "chase_inv s" "chase_lev_claim alloc owner p s = (r, s')"
  from chase_lev_claim_law [OF this]
  show "chase_inv s' \<and> (case r of
      deque_result.Success x \<Rightarrow> takes_from (from_end owner) p x (chase_tasks \<circ> s) (chase_tasks \<circ> s')
    | Empty \<Rightarrow> chase_tasks \<circ> s' = chase_tasks \<circ> s \<and> mset ((chase_tasks \<circ> s) p) = {#}
    | Retry \<Rightarrow> chase_tasks \<circ> s' = chase_tasks \<circ> s \<and> \<not> owner)"
    by (simp split: deque_result.splits)
qed

text \<open>The four lists of a worker, oldest task first, whichever backend keeps them.\<close>

definition lq_tasks :: "LocalQueues \<Rightarrow> Priority \<Rightarrow> QueuedTask list" where
  "lq_tasks l = (if uses_chase_lev l then chase_tasks \<circ> chase_lev_bands l else locked_bands l)"

definition lq_inv :: "LocalQueues \<Rightarrow> bool" where
  "lq_inv l \<longleftrightarrow> (uses_chase_lev l \<longrightarrow> chase_inv (chase_lev_bands l)) \<and>
     (\<forall>p. \<forall>t \<in> set (lq_tasks l p). qt_priority t = p \<and> p \<in> set named_priorities)"

definition queued_form :: "LocalQueues \<Rightarrow> QueuedTask \<Rightarrow> QueuedTask" where
  "queued_form l t = (if uses_chase_lev l then adopt_task t else t)"

lemma queued_form_simps [simp]:
  "qt_facts (queued_form l t) = qt_facts t" "qt_external (queued_form l t) = qt_external t"
  "qt_priority (queued_form l t) = qt_priority t"
  by (simp_all add: queued_form_def)

lemma named_fallback: "set named_priorities = set kFallbackPriorityOrder"
  by (auto simp: named_priorities_def kFallbackPriorityOrder_def)

lemma lq_new: "lq_inv (new_local_queues be)" "lq_tasks (new_local_queues be) p = []"
  using cl_inv_new [of 6 "None :: QueuedTask option"]
  by (auto simp: lq_inv_def lq_tasks_def new_local_queues_def chase_inv_def chase_tasks_def cl_contents_new
      uses_chase_lev_def)

lemma lq_push_law:
  assumes inv: "lq_inv l" and p: "p = qt_priority t" "p \<in> set named_priorities"
    and push: "lq_push alloc t p l = (ok, l')"
  shows "lq_inv l' \<and> lq_tasks l' = (if ok then (lq_tasks l)(p := lq_tasks l p @ [queued_form l t]) else lq_tasks l)"
proof (cases "uses_chase_lev l")
  case False
  then have "ok" and l': "l' = l\<lparr>locked_bands := (locked_bands l)(p := locked_bands l p @ [t])\<rparr>"
    using push by (auto simp: lq_push_def)
  then show ?thesis
    using inv p False by (auto simp: lq_inv_def lq_tasks_def uses_chase_lev_def queued_form_def)
next
  case True
  obtain b d where d: "cl_push alloc (Some (adopt_task t)) (chase_lev_bands l p) = (b, d)"
    by (cases "cl_push alloc (Some (adopt_task t)) (chase_lev_bands l p)")
  have r: "ok = b" "l' = l\<lparr>chase_lev_bands := (chase_lev_bands l)(p := d)\<rparr>"
    using push True d by (auto simp: lq_push_def)
  have ch: "chase_inv (chase_lev_bands l)" using inv True by (simp add: lq_inv_def)
  then have law: "cl_inv d" "cl_contents d = (if b then cl_contents (chase_lev_bands l p) @ [Some (adopt_task t)]
      else cl_contents (chase_lev_bands l p))"
    using cl_push_law [OF _ d] by (auto simp: chase_inv_def)
  have u: "uses_chase_lev l'" using True r by (simp add: uses_chase_lev_def)
  have t: "lq_tasks l' = (if ok then (lq_tasks l)(p := lq_tasks l p @ [queued_form l t]) else lq_tasks l)"
    using u True r law by (auto simp: lq_tasks_def chase_tasks_def queued_form_def)
  have "chase_inv (chase_lev_bands l')"
    using ch law r by (auto simp: chase_inv_def split: if_splits)
  moreover have "\<forall>q. \<forall>x \<in> set (lq_tasks l' q). qt_priority x = q \<and> q \<in> set named_priorities"
    using inv p unfolding t by (auto simp: lq_inv_def)
  ultimately show ?thesis using t by (simp add: lq_inv_def)
qed

text \<open>
  Both claims: the result comes off the end of the band the calendar chose, the calendar moves on
  only with a success, and the owner comes back empty-handed only when there is nothing.
\<close>

definition local_claim_spec ::
  "bool \<Rightarrow> nat \<Rightarrow> (Priority \<Rightarrow> QueuedTask list) \<Rightarrow> QueuedTask option \<Rightarrow> nat \<Rightarrow>
     (Priority \<Rightarrow> QueuedTask list) \<Rightarrow> bool" where
  "local_claim_spec bk ci ts r ci' ts' \<longleftrightarrow>
     (case r of
        None \<Rightarrow> ci' = ci \<and> ts' = ts \<and> (bk \<longrightarrow> (\<forall>p \<in> set named_priorities. ts p = []))
      | Some x \<Rightarrow> ci' = next_slot ci \<and>
          (\<exists>p \<in> set named_priorities. takes_from (from_end bk) p x ts ts' \<and>
             (ts (calendar_target ci) \<noteq> [] \<longrightarrow> p = calendar_target ci)))"

lemma claim_local_law:
  assumes inv: "lq_inv l"
    and c: "(if bk then claim_back alloc ci l else steal_front ci l) = (r, ci', l')"
  shows "lq_inv l' \<and> local_claim_spec bk ci (lq_tasks l) r ci' (lq_tasks l')"
proof -
  have spec: "local_claim_spec bk ci (lq_tasks l) r ci' (lq_tasks l') \<and>
      uses_chase_lev l' = uses_chase_lev l \<and> (uses_chase_lev l \<longrightarrow> chase_inv (chase_lev_bands l'))"
  proof (cases "uses_chase_lev l")
    case True
    define al where "al = (if bk then alloc else True)"
    obtain a j bs where cl: "claim_by_calendar (\<not> bk) (chase_lev_claim al bk) ci (chase_lev_bands l) = (a, j, bs)"
      by (cases "claim_by_calendar (\<not> bk) (chase_lev_claim al bk) ci (chase_lev_bands l)")
    have r: "r = a" "ci' = j" "l' = l\<lparr>chase_lev_bands := bs\<rparr>"
      using c True cl by (auto simp: claim_back_def steal_front_def claim_chase_lev_def al_def split: if_splits)
    have ch: "chase_inv (chase_lev_bands l)" using inv True by (simp add: lq_inv_def)
    have u: "uses_chase_lev l'" using True r by (simp add: uses_chase_lev_def)
    have ts: "lq_tasks l = chase_tasks \<circ> chase_lev_bands l" "lq_tasks l' = chase_tasks \<circ> bs"
      using True u r by (simp_all add: lq_tasks_def)
    show ?thesis
    proof (cases a)
      case None
      note n = lock_free.claim_by_calendar_none [OF ch cl [unfolded None]]
      show ?thesis using n True u unfolding local_claim_spec_def ts(1) ts(2) named_fallback
        by (simp add: r None)
    next
      case (Some x)
      note n = lock_free.claim_by_calendar_served [OF ch cl [unfolded Some]]
      show ?thesis using n True u unfolding local_claim_spec_def ts(1) ts(2) named_fallback
        by (simp add: r Some)
    qed
  next
    case False
    obtain a j bs where cl: "claim_by_calendar False (locked_claim bk) ci (locked_bands l) = (a, j, bs)"
      by (cases "claim_by_calendar False (locked_claim bk) ci (locked_bands l)")
    have r: "r = a" "ci' = j" "l' = l\<lparr>locked_bands := bs\<rparr>"
      using c False cl by (auto simp: claim_back_def steal_front_def choose_local_band_def split: if_splits)
    have u: "\<not> uses_chase_lev l'" using False r by (simp add: uses_chase_lev_def)
    have ts: "lq_tasks l = locked_bands l" "lq_tasks l' = bs"
      using False u r by (simp_all add: lq_tasks_def)
    show ?thesis
    proof (cases a)
      case None
      note n = locked.claim_by_calendar_none [OF TrueI cl [unfolded None]]
      show ?thesis using n False u unfolding local_claim_spec_def ts(1) ts(2) named_fallback
        by (simp add: r None)
    next
      case (Some x)
      note n = locked.claim_by_calendar_served [OF TrueI cl [unfolded Some]]
      show ?thesis using n False u unfolding local_claim_spec_def ts(1) ts(2) named_fallback
        by (simp add: r Some)
    qed
  qed
  have "set (lq_tasks l' p) \<subseteq> set (lq_tasks l p)" for p
  proof (cases r)
    case None
    then show ?thesis using spec by (simp add: local_claim_spec_def)
  next
    case (Some x)
    then obtain q where "takes_from (from_end bk) q x (lq_tasks l) (lq_tasks l')"
      using spec unfolding local_claim_spec_def by auto
    then show ?thesis by (rule takes_from_subset)
  qed
  then show ?thesis using spec inv unfolding lq_inv_def by blast
qed

section \<open>Immediate cleanup\<close>

lemma cl_size_contents: "cl_inv d \<Longrightarrow> cl_size d = length (cl_contents d)"
  by (auto simp: cl_size_def cl_contents_def cl_inv_def word_less_nat_alt word_le_nat_alt unat_sub)

lemma cl_empty_contents: "cl_inv d \<Longrightarrow> cl_empty d \<longleftrightarrow> cl_contents d = []"
  by (auto simp: cl_empty_def cl_contents_def word_le_nat_alt)

lemma steal_keeps_maintenance: "maintenance (snd (cl_steal d)) = maintenance d"
  by (simp add: cl_steal_def)

lemma cancel_band_all:
  assumes "cl_inv d" and "None \<notin> set (cl_contents d)" and "\<not> maintenance d"
    and "length (cl_contents d) < n"
  shows "\<exists>d'. cancel_band n d = (fst (split_resumes (chase_tasks d)), snd (split_resumes (chase_tasks d)), d') \<and>
    cl_inv d' \<and> cl_contents d' = [] \<and> \<not> maintenance d'"
  using assms
proof (induction n arbitrary: d)
  case (Suc n)
  obtain a d1 where st: "cl_steal d = (a, d1)" by (cases "cl_steal d")
  have m: "\<not> maintenance d1" using steal_keeps_maintenance [of d] st Suc.prems(3) by simp
  have nr: "a \<noteq> Retry" using st Suc.prems(3) by (auto simp: cl_steal_def split: if_splits)
  note law = cl_steal_law [OF Suc.prems(1) st]
  show ?case
  proof (cases "cl_contents d")
    case Nil
    then have "a = Empty" "cl_inv d1" "cl_contents d1 = []" using law nr by simp_all
    then show ?thesis using st m Nil by (simp add: chase_tasks_def split_resumes_def)
  next
    case (Cons y ys)
    then obtain t where t: "y = Some t" using Suc.prems(2) by (cases y) auto
    have a: "a = deque_result.Success (Some t)" "cl_inv d1" "cl_contents d1 = ys"
      using law nr Cons t by simp_all
    obtain d2 where d2: "cancel_band n d1 =
        (fst (split_resumes (chase_tasks d1)), snd (split_resumes (chase_tasks d1)), d2)"
      "cl_inv d2" "cl_contents d2 = []" "\<not> maintenance d2"
      using Suc.IH [OF a(2) _ m] a(3) Cons Suc.prems(2,4) by auto
    show ?thesis
      using st a d2 Cons t by (simp add: chase_tasks_def split_resumes_def)
  qed
qed simp

definition lq_quiet :: "LocalQueues \<Rightarrow> bool" where
  "lq_quiet l \<longleftrightarrow> (\<forall>p. \<not> maintenance (chase_lev_bands l p))"

definition resumes_of :: "QueuedTask list \<Rightarrow> QueuedTask list" where
  "resumes_of = filter (\<lambda>t. is_resume_segment (qt_invoker t))"

definition unstarted_of :: "QueuedTask list \<Rightarrow> QueuedTask list" where
  "unstarted_of = filter (\<lambda>t. \<not> is_resume_segment (qt_invoker t))"

lemma split_resumes_conv: "split_resumes ts = (resumes_of ts, map qt_invoker (unstarted_of ts))"
  by (simp add: split_resumes_def resumes_of_def unstarted_of_def)

lemma cancel_bands_law:
  assumes "lq_inv l" and "lq_quiet l" and "distinct ps" and "cancel_bands ps l = (rs, cs, l')"
  shows "lq_inv l' \<and> lq_quiet l' \<and> uses_chase_lev l' = uses_chase_lev l \<and>
    cs = concat (map (\<lambda>p. map qt_invoker (unstarted_of (lq_tasks l p))) ps) \<and>
    rs = (if uses_chase_lev l then concat (map (\<lambda>p. resumes_of (lq_tasks l p)) ps) else []) \<and>
    (\<forall>p. lq_tasks l' p = (if p \<notin> set ps then lq_tasks l p
                          else if uses_chase_lev l then [] else resumes_of (lq_tasks l p)))"
  using assms
proof (induction ps arbitrary: l rs cs)
  case Nil
  then show ?case by simp
next
  case (Cons p ps)
  have d: "distinct ps" "p \<notin> set ps" using Cons.prems(3) by auto
  show ?case
  proof (cases "uses_chase_lev l")
    case True
    let ?d = "chase_lev_bands l p"
    have ch: "chase_inv (chase_lev_bands l)" using Cons.prems(1) True by (simp add: lq_inv_def)
    then have i: "cl_inv ?d" "None \<notin> set (cl_contents ?d)" by (auto simp: chase_inv_def)
    have q: "\<not> maintenance ?d" using Cons.prems(2) by (simp add: lq_quiet_def)
    obtain d2 where d2: "cancel_band (Suc (cl_size ?d)) ?d =
        (resumes_of (chase_tasks ?d), map qt_invoker (unstarted_of (chase_tasks ?d)), d2)"
      "cl_inv d2" "cl_contents d2 = []" "\<not> maintenance d2"
      using cancel_band_all [OF i q, of "Suc (cl_size ?d)"] cl_size_contents [OF i(1)]
      by (auto simp: split_resumes_conv)
    let ?l = "l\<lparr>chase_lev_bands := (chase_lev_bands l)(p := d2)\<rparr>"
    obtain rs' cs' l2 where c: "cancel_bands ps ?l = (rs', cs', l2)" by (cases "cancel_bands ps ?l")
    have r: "rs = resumes_of (lq_tasks l p) @ rs'" "cs = map qt_invoker (unstarted_of (lq_tasks l p)) @ cs'"
      "l' = l2"
      using Cons.prems(4) True d2(1) c by (simp_all add: lq_tasks_def)
    have u: "uses_chase_lev ?l" using True by (simp add: uses_chase_lev_def)
    have ts: "lq_tasks ?l = (lq_tasks l)(p := [])"
      using True u d2(3) by (auto simp: lq_tasks_def chase_tasks_def)
    have li: "lq_inv ?l"
      using Cons.prems(1) u ch d2 unfolding lq_inv_def ts by (auto simp: chase_inv_def)
    have lq: "lq_quiet ?l" using Cons.prems(2) d2(4) by (simp add: lq_quiet_def)
    have eq: "map (\<lambda>q. map qt_invoker (unstarted_of (lq_tasks ?l q))) ps =
        map (\<lambda>q. map qt_invoker (unstarted_of (lq_tasks l q))) ps"
      "map (\<lambda>q. resumes_of (lq_tasks ?l q)) ps = map (\<lambda>q. resumes_of (lq_tasks l q)) ps"
      using d(2) unfolding ts by (auto intro!: map_cong)
    note IH = Cons.IH [OF li lq d(1) c [folded r(3)], unfolded eq]
    then show ?thesis using True u r d ts by (auto simp: resumes_of_def)
  next
    case False
    let ?l = "l\<lparr>locked_bands := (locked_bands l)(p := resumes_of (locked_bands l p))\<rparr>"
    obtain rs' cs' l2 where c: "cancel_bands ps ?l = (rs', cs', l2)" by (cases "cancel_bands ps ?l")
    have r: "rs = rs'" "cs = map qt_invoker (unstarted_of (lq_tasks l p)) @ cs'" "l' = l2"
      using Cons.prems(4) False c by (simp_all add: lq_tasks_def split_resumes_conv)
    have u: "\<not> uses_chase_lev ?l" using False by (simp add: uses_chase_lev_def)
    have ts: "lq_tasks ?l = (lq_tasks l)(p := resumes_of (lq_tasks l p))"
      using False u by (auto simp: lq_tasks_def)
    have li: "lq_inv ?l"
      using Cons.prems(1) u False unfolding lq_inv_def ts by (auto simp: resumes_of_def)
    have lq: "lq_quiet ?l" using Cons.prems(2) by (simp add: lq_quiet_def)
    have eq: "map (\<lambda>q. map qt_invoker (unstarted_of (lq_tasks ?l q))) ps =
        map (\<lambda>q. map qt_invoker (unstarted_of (lq_tasks l q))) ps"
      "map (\<lambda>q. resumes_of (lq_tasks ?l q)) ps = map (\<lambda>q. resumes_of (lq_tasks l q)) ps"
      using d(2) unfolding ts by (auto intro!: map_cong)
    note IH = Cons.IH [OF li lq d(1) c [folded r(3)], unfolded eq]
    then show ?thesis using False u r d ts by auto
  qed
qed

lemma lq_empty_iff: "lq_inv l \<Longrightarrow> lq_empty l \<longleftrightarrow> (\<forall>p. lq_tasks l p = [])"
proof -
  assume inv: "lq_inv l"
  have out: "lq_tasks l p = []" if "p \<notin> set named_priorities" for p
    using inv that unfolding lq_inv_def by (metis equals0I set_empty)
  have "lq_empty l \<longleftrightarrow> (\<forall>p \<in> set named_priorities. lq_tasks l p = [])"
  proof (cases "uses_chase_lev l")
    case True
    then have "chase_inv (chase_lev_bands l)" using inv by (simp add: lq_inv_def)
    then show ?thesis
      using True by (simp add: lq_empty_def lq_tasks_def chase_tasks_def chase_inv_def cl_empty_contents)
  qed (simp add: lq_empty_def lq_tasks_def)
  then show ?thesis using out by blast
qed

lemma try_bands_keeps:
  assumes "\<And>p s. P s \<Longrightarrow> P (snd (claim p s))" and "P s"
  shows "P (snd (try_bands thief claim ps s))"
  using assms(2)
proof (induction ps arbitrary: s)
  case (Cons p ps)
  then show ?case
    using assms(1) [of s p] by (cases "claim p s"; cases "fst (claim p s)") auto
qed simp

lemma claim_by_calendar_keeps:
  assumes "\<And>p s. P s \<Longrightarrow> P (snd (claim p s))" and "P s"
  shows "P (snd (snd (claim_by_calendar thief claim ci s)))"
proof -
  let ?ps = "calendar_target ci # filter (\<lambda>p. p \<noteq> calendar_target ci) kFallbackPriorityOrder"
  have "P (snd (try_bands thief claim ?ps s))" by (rule try_bands_keeps [of P, OF assms])
  then show ?thesis
    unfolding claim_by_calendar_def Let_def by (cases "try_bands thief claim ?ps s"; cases "fst (try_bands thief claim ?ps s)") (simp_all del: try_bands.simps)
qed

lemma steal_retries_quiet: "\<not> maintenance d \<Longrightarrow> \<not> maintenance (snd (steal_retries n d))"
proof (induction n arbitrary: d)
  case (Suc n)
  have "\<not> maintenance (snd (cl_steal d))" using Suc.prems steal_keeps_maintenance [of d] by simp
  then show ?case
    using Suc.IH by (cases "cl_steal d"; cases "fst (cl_steal d)") auto
qed simp

lemma lq_push_quiet: "lq_quiet l \<Longrightarrow> lq_quiet (snd (lq_push alloc t p l))"
  using push_maintenance [of "chase_lev_bands l p" alloc "Some (adopt_task t)"]
  by (auto simp: lq_push_def lq_quiet_def split_beta)

lemma chase_lev_claim_quiet:
  assumes "\<forall>q. \<not> maintenance (bs q)"
  shows "\<forall>q. \<not> maintenance (snd (chase_lev_claim alloc owner p bs) q)"
proof -
  define x where "x = (if owner then cl_pop alloc (bs p) else steal_retries 3 (bs p))"
  have "\<not> maintenance (snd x)" unfolding x_def using assms by (cases owner) (simp_all add: pop_maintenance steal_retries_quiet)
  then have "\<forall>q. \<not> maintenance ((bs(p := snd x)) q)" using assms by simp
  moreover have "snd (chase_lev_claim alloc owner p bs) = bs(p := snd x)"
    by (simp add: chase_lev_claim_def flip: x_def split: prod.split deque_result.split option.split)
  ultimately show ?thesis by simp
qed

lemma lq_claim_quiet:
  assumes "lq_quiet l"
  shows "lq_quiet (snd (snd (claim_back alloc ci l)))" and "lq_quiet (snd (snd (steal_front ci l)))"
proof -
  have "\<forall>q. \<not> maintenance (snd (snd (claim_by_calendar th (chase_lev_claim al ow) ci (chase_lev_bands l))) q)"
    for th al ow
    by (rule claim_by_calendar_keeps [where P = "\<lambda>bs. \<forall>q. \<not> maintenance (bs q)"])
      (use assms chase_lev_claim_quiet in \<open>auto simp: lq_quiet_def\<close>)
  then show "lq_quiet (snd (snd (claim_back alloc ci l)))" "lq_quiet (snd (snd (steal_front ci l)))"
    using assms by (auto simp: claim_back_def steal_front_def claim_chase_lev_def lq_quiet_def split_beta)
qed

lemma lq_new_quiet: "lq_quiet (new_local_queues be)"
  by (simp add: lq_quiet_def new_local_queues_def new_chase_lev_def)

end
