(* ===== verification/Ready_Queues.thy ===== *)
theory Ready_Queues
  imports Local_Queues Heap_Vector Admission
begin

text \<open>
  The ready queues of \<open>src/runtime/ready_queues.cpp\<close>: per priority a global heap ordered by
  (deadline, admission sequence) and a global FIFO, and per worker its local queues.  Work enters by
  \<open>publish\<close>, leaves by one claim, or is cancelled by the immediate cleanup.  The metrics the code
  reaches through a reference are passed and returned, and so is the admission controller.
\<close>

section \<open>State\<close>

record EdfEntry =
  edf_deadline :: TaskDeadline
  edf_sequence :: u64
  edf_task :: QueuedTask

record ReadyQueues =
  global_admission_sequence :: u64
  global_edf_heaps :: "Priority \<Rightarrow> EdfEntry list"
  global_fifo_queues :: "Priority \<Rightarrow> IntrusiveFifo"
  local_queues :: "LocalQueues list"
  claimed :: nat

definition preferred_local_backend :: "bool \<Rightarrow> LocalDequeBackend" where
  "preferred_local_backend is_lock_free = (if is_lock_free then ChaseLevLockFree else Locked)"

definition new_ready_queues :: "nat \<Rightarrow> LocalDequeBackend \<Rightarrow> ReadyQueues" where
  "new_ready_queues workers be =
     \<lparr>global_admission_sequence = 0, global_edf_heaps = (\<lambda>_. []),
      global_fifo_queues = (\<lambda>_. empty_fifo),
      local_queues = replicate workers (new_local_queues be), claimed = 0\<rparr>"

definition edf_greater :: "EdfEntry \<Rightarrow> EdfEntry \<Rightarrow> bool" where
  "edf_greater a b =
     (if edf_deadline a \<noteq> edf_deadline b then time_point (edf_deadline b) < time_point (edf_deadline a)
      else edf_sequence b < edf_sequence a)"

definition edf_before :: "EdfEntry \<Rightarrow> EdfEntry \<Rightarrow> bool" where
  "edf_before a b = edf_greater b a"

lemma deadline_eq_iff: "d = d' \<longleftrightarrow> time_point d = time_point d'"
  by (cases d; cases d') simp

interpretation edf: heap_order edf_before
  by unfold_locales (auto simp: edf_before_def edf_greater_def deadline_eq_iff split: if_splits)

text \<open>
  The heap algorithms of the standard library over \<open>std::greater\<close>: the first element is the least.
\<close>

definition std_push_heap :: "('a \<Rightarrow> 'a \<Rightarrow> bool) \<Rightarrow> 'a list \<Rightarrow> 'a list" where
  "std_push_heap lt xs = sift_up lt (length xs - 1) xs"

text \<open>\<open>pop_heap\<close> moves the root to the back and restores the heap in front of it.\<close>

definition std_pop_heap :: "('a \<Rightarrow> 'a \<Rightarrow> bool) \<Rightarrow> 'a list \<Rightarrow> 'a list" where
  "std_pop_heap lt xs =
     (if length xs \<le> 1 then xs
      else sift_down lt 0 ((butlast xs)[0 := last xs]) @ [hd xs])"

definition std_make_heap :: "('a \<Rightarrow> 'a \<Rightarrow> bool) \<Rightarrow> 'a list \<Rightarrow> 'a list" where
  "std_make_heap lt xs = fold (\<lambda>i. sift_down lt i) (rev [0..<length xs div 2]) xs"

section \<open>Publication\<close>

definition admit_deadline :: "thread_context \<Rightarrow> RuntimeMetrics \<Rightarrow> RuntimeMetrics" where
  "admit_deadline ctx m = (if level m \<noteq> Off then count_event ctx N_deadline_admitted m else m)"

definition publish ::
  "thread_context \<Rightarrow> bool \<Rightarrow> TaskInvoker option \<Rightarrow> bool \<Rightarrow> bool \<Rightarrow> nat \<Rightarrow>
     RuntimeMetrics \<times> ReadyQueues \<Rightarrow> RuntimeMetrics \<times> ReadyQueues" where
  "publish ctx alloc task is_external use_local_queue worker_index = (\<lambda>(m, q).
     (case task of
        None \<Rightarrow> (m, q)
      | Some i \<Rightarrow>
          (let band = iv_priority i
           in case (if is_resume_segment i then None else iv_deadline i) of
                Some dl \<Rightarrow>
                  (let sq = global_admission_sequence q + 1;
                       entry = \<lparr>edf_deadline = dl, edf_sequence = sq,
                                edf_task = \<lparr>qt_invoker = i, qt_external = is_external\<rparr>\<rparr>;
                       heap = std_push_heap edf_before (global_edf_heaps q band @ [entry])
                   in (admit_deadline ctx m,
                       q\<lparr>global_admission_sequence := sq,
                         global_edf_heaps := (global_edf_heaps q)(band := heap)\<rparr>))
              | None \<Rightarrow>
                  (let to_global = (\<lambda>q. q\<lparr>global_fifo_queues := (global_fifo_queues q)(band :=
                                       fifo_push_back i is_external (global_fifo_queues q band))\<rparr>)
                   in if use_local_queue \<and> worker_index < length (local_queues q) then
                        (case lq_push alloc \<lparr>qt_invoker = i, qt_external = False\<rparr> band
                                (local_queues q ! worker_index) of
                           (True, l) \<Rightarrow> (m, q\<lparr>local_queues := (local_queues q)[worker_index := l]\<rparr>)
                         | (False, l) \<Rightarrow>
                             (m, to_global (q\<lparr>local_queues := (local_queues q)[worker_index := l]\<rparr>)))
                      else (m, to_global q)))))"

section \<open>Claims\<close>

definition kEdfDeadlineBurstLimit :: nat where
  "kEdfDeadlineBurstLimit = 8"

text \<open>One global band: its heap, its FIFO and the claiming worker's deadline burst.\<close>

definition pop_edf :: "EdfEntry list \<Rightarrow> QueuedTask \<times> EdfEntry list" where
  "pop_edf h = (let h' = std_pop_heap edf_before h in (edf_task (last h'), butlast h'))"

definition claim_global_band_locked ::
  "EdfEntry list \<times> IntrusiveFifo \<times> nat \<Rightarrow> QueuedTask option \<times> EdfEntry list \<times> IntrusiveFifo \<times> nat" where
  "claim_global_band_locked = (\<lambda>(heap, fifo, burst).
     (if heap = [] \<and> fifo_empty fifo then (None, heap, fifo, burst)
      else if heap \<noteq> [] \<and> \<not> fifo_empty fifo then
        (if burst < kEdfDeadlineBurstLimit
         then case pop_edf heap of (t, h) \<Rightarrow> (Some t, h, fifo, burst + 1)
         else case fifo_pop_front fifo of (t, f) \<Rightarrow> (t, heap, f, 0))
      else if heap \<noteq> [] then case pop_edf heap of (t, h) \<Rightarrow> (Some t, h, fifo, burst + 1)
      else case fifo_pop_front fifo of (t, f) \<Rightarrow> (t, heap, f, 0)))"

text \<open>The closure of \<open>claim_global\<close>: the queues and the worker's four bursts.\<close>

definition global_claim ::
  "Priority \<Rightarrow> ReadyQueues \<times> (Priority \<Rightarrow> nat) \<Rightarrow>
     QueuedTask deque_result \<times> ReadyQueues \<times> (Priority \<Rightarrow> nat)" where
  "global_claim p = (\<lambda>(q, bursts).
     (case claim_global_band_locked (global_edf_heaps q p, global_fifo_queues q p, bursts p) of
        (None, _) \<Rightarrow> (Empty, q, bursts)
      | (Some t, h, f, b) \<Rightarrow>
          (deque_result.Success t,
           q\<lparr>global_edf_heaps := (global_edf_heaps q)(p := h),
             global_fifo_queues := (global_fifo_queues q)(p := f)\<rparr>,
           bursts(p := b))))"

definition record_claim :: "thread_context \<Rightarrow> bool \<Rightarrow> RuntimeMetrics \<Rightarrow> RuntimeMetrics" where
  "record_claim ctx is_local m =
     (if level m = Off then m
      else count_event ctx (if is_local then N_local_claims else N_global_claims) m)"

definition claim_global ::
  "thread_context \<Rightarrow> nat \<Rightarrow> (Priority \<Rightarrow> nat) \<Rightarrow> RuntimeMetrics \<times> ReadyQueues \<Rightarrow>
     QueuedTask option \<times> nat \<times> (Priority \<Rightarrow> nat) \<times> RuntimeMetrics \<times> ReadyQueues" where
  "claim_global ctx ci bursts = (\<lambda>(m, q).
     (case claim_by_calendar False global_claim ci (q, bursts) of
        (Some t, ci', q', bursts') \<Rightarrow>
          (Some t, ci', bursts', record_claim ctx False m, q'\<lparr>claimed := claimed q' + 1\<rparr>)
      | (None, ci', q', bursts') \<Rightarrow> (None, ci', bursts', m, q')))"

definition claim_local ::
  "thread_context \<Rightarrow> bool \<Rightarrow> nat \<Rightarrow> nat \<Rightarrow> RuntimeMetrics \<times> ReadyQueues \<Rightarrow>
     QueuedTask option \<times> nat \<times> RuntimeMetrics \<times> ReadyQueues" where
  "claim_local ctx alloc worker_index ci = (\<lambda>(m, q).
     (if length (local_queues q) \<le> worker_index then (None, ci, m, q)
      else case claim_back alloc ci (local_queues q ! worker_index) of
             (None, ci', l) \<Rightarrow> (None, ci', m, q\<lparr>local_queues := (local_queues q)[worker_index := l]\<rparr>)
           | (Some t, ci', l) \<Rightarrow>
               (Some t, ci', record_claim ctx True m,
                q\<lparr>local_queues := (local_queues q)[worker_index := l], claimed := claimed q + 1\<rparr>)))"

definition steal_task ::
  "nat \<Rightarrow> nat \<Rightarrow> ReadyQueues \<Rightarrow> QueuedTask option \<times> nat \<times> ReadyQueues" where
  "steal_task victim_index ci q =
     (if length (local_queues q) \<le> victim_index then (None, ci, q)
      else case steal_front ci (local_queues q ! victim_index) of
             (None, ci', l) \<Rightarrow> (None, ci', q\<lparr>local_queues := (local_queues q)[victim_index := l]\<rparr>)
           | (Some t, ci', l) \<Rightarrow>
               (Some t, ci', q\<lparr>local_queues := (local_queues q)[victim_index := l],
                               claimed := claimed q + 1\<rparr>))"

definition complete_claim :: "ReadyQueues \<Rightarrow> ReadyQueues" where
  "complete_claim q = (if 0 < claimed q then q\<lparr>claimed := claimed q - 1\<rparr> else q)"

section \<open>Immediate cleanup\<close>

text \<open>
  Each loop returns the invokers whose \<open>cancel_pre_start\<close> it called, in order; an external task that
  is dropped gives its slot back.
\<close>

fun cancel_heap ::
  "EdfEntry list \<Rightarrow> AdmissionController \<Rightarrow> EdfEntry list \<times> TaskInvoker list \<times> AdmissionController" where
  "cancel_heap [] a = ([], [], a)"
| "cancel_heap (e # es) a =
     (if is_resume_segment (qt_invoker (edf_task e))
      then case cancel_heap es a of (rs, cs, a') \<Rightarrow> (e # rs, cs, a')
      else case cancel_heap es (if qt_external (edf_task e) then release 1 a else a) of
             (rs, cs, a') \<Rightarrow> (rs, qt_invoker (edf_task e) # cs, a'))"

fun cancel_fifo ::
  "nat \<Rightarrow> IntrusiveFifo \<Rightarrow> IntrusiveFifo \<Rightarrow> AdmissionController \<Rightarrow>
     IntrusiveFifo \<times> IntrusiveFifo \<times> TaskInvoker list \<times> AdmissionController" where
  "cancel_fifo 0 q retained a = (q, retained, [], a)"
| "cancel_fifo (Suc n) q retained a =
     (case fifo_pop_front q of
        (None, q') \<Rightarrow> (q', retained, [], a)
      | (Some t, q') \<Rightarrow>
          if is_resume_segment (qt_invoker t) then cancel_fifo n q' (fifo_push t retained) a
          else case cancel_fifo n q' retained (if qt_external t then release 1 a else a) of
                 (q2, r2, cs, a2) \<Rightarrow> (q2, r2, qt_invoker t # cs, a2))"

definition cancel_global_heap ::
  "Priority \<Rightarrow> TaskInvoker list \<times> AdmissionController \<times> ReadyQueues \<Rightarrow>
     TaskInvoker list \<times> AdmissionController \<times> ReadyQueues" where
  "cancel_global_heap p = (\<lambda>(cs, a, q).
     (case cancel_heap (global_edf_heaps q p) a of
        (rs, cs', a') \<Rightarrow>
          (cs @ cs', a',
           q\<lparr>global_edf_heaps := (global_edf_heaps q)(p := std_make_heap edf_before rs)\<rparr>)))"

definition cancel_global_fifo ::
  "Priority \<Rightarrow> TaskInvoker list \<times> AdmissionController \<times> ReadyQueues \<Rightarrow>
     TaskInvoker list \<times> AdmissionController \<times> ReadyQueues" where
  "cancel_global_fifo p = (\<lambda>(cs, a, q).
     (let fifo = global_fifo_queues q p
      in case cancel_fifo (fifo_size fifo) fifo empty_fifo a of
           (drained, retained, cs', a') \<Rightarrow>
             (cs @ cs', a',
              q\<lparr>global_fifo_queues :=
                  (global_fifo_queues q)(p := fst (snd (fifo_move_assign drained retained)))\<rparr>)))"

fun cancel_locals ::
  "LocalQueues list \<Rightarrow> QueuedTask list \<times> TaskInvoker list \<times> LocalQueues list" where
  "cancel_locals [] = ([], [], [])"
| "cancel_locals (l # ls) =
     (case lq_cancel_unstarted l of
        (rs, cs, l') \<Rightarrow> (case cancel_locals ls of (rs', cs', ls') \<Rightarrow> (rs @ rs', cs @ cs', l' # ls')))"

definition republish :: "QueuedTask \<Rightarrow> ReadyQueues \<Rightarrow> ReadyQueues" where
  "republish t q =
     q\<lparr>global_fifo_queues := (global_fifo_queues q)(qt_priority t :=
         fifo_push t (global_fifo_queues q (qt_priority t)))\<rparr>"

definition cancel_unstarted ::
  "AdmissionController \<Rightarrow> ReadyQueues \<Rightarrow> TaskInvoker list \<times> AdmissionController \<times> ReadyQueues" where
  "cancel_unstarted a q =
     (case fold cancel_global_fifo named_priorities
             (fold cancel_global_heap named_priorities ([], a, q)) of
        (cs, a1, q1) \<Rightarrow>
          (case cancel_locals (local_queues q1) of
             (rs, cs', ls) \<Rightarrow> (cs @ cs', a1, fold republish rs (q1\<lparr>local_queues := ls\<rparr>))))"

section \<open>Queries\<close>

definition global_empty :: "ReadyQueues \<Rightarrow> bool" where
  "global_empty q \<longleftrightarrow>
     (\<forall>p \<in> set named_priorities. global_edf_heaps q p = [] \<and> fifo_empty (global_fifo_queues q p))"

definition local_empty :: "nat \<Rightarrow> ReadyQueues \<Rightarrow> bool" where
  "local_empty w q \<longleftrightarrow> length (local_queues q) \<le> w \<or> lq_empty (local_queues q ! w)"

definition any_local_work :: "ReadyQueues \<Rightarrow> bool" where
  "any_local_work q \<longleftrightarrow> list_ex (\<lambda>l. \<not> lq_empty l) (local_queues q)"

definition any_queued_work :: "ReadyQueues \<Rightarrow> bool" where
  "any_queued_work q \<longleftrightarrow> \<not> global_empty q \<or> any_local_work q"

definition any_resume_work_after_immediate_cleanup :: "ReadyQueues \<Rightarrow> bool" where
  "any_resume_work_after_immediate_cleanup q \<longleftrightarrow>
     list_ex (\<lambda>p. fifo_any_resume (global_fifo_queues q p)) named_priorities \<or>
     list_ex (\<lambda>p. list_ex (\<lambda>e. is_resume_segment (qt_invoker (edf_task e))) (global_edf_heaps q p))
       named_priorities \<or>
     any_local_work q"

definition global_size :: "ReadyQueues \<Rightarrow> nat" where
  "global_size q =
     sum_list (map (\<lambda>p. length (global_edf_heaps q p) + fifo_size (global_fifo_queues q p))
       named_priorities)"

section \<open>What a band holds\<close>

type_synonym band = "EdfEntry multiset \<times> QueuedTask list \<times> nat"

definition band_tasks :: "band \<Rightarrow> QueuedTask multiset" where
  "band_tasks = (\<lambda>(es, fs, b). image_mset edf_task es + mset fs)"

text \<open>
  One claim from a band: the heap's least entry, unless the burst is used up and the FIFO has a task,
  in which case the FIFO's oldest.
\<close>

definition band_took :: "QueuedTask \<Rightarrow> band \<Rightarrow> band \<Rightarrow> bool" where
  "band_took t = (\<lambda>(es, fs, b) (es', fs', b').
     (\<exists>e. es = add_mset e es' \<and> edf_task e = t \<and> (\<forall>e' \<in># es. \<not> edf_before e' e) \<and>
          fs' = fs \<and> b' = b + 1 \<and> (fs = [] \<or> b < kEdfDeadlineBurstLimit)) \<or>
     (es' = es \<and> fs = t # fs' \<and> b' = 0 \<and> (es = {#} \<or> kEdfDeadlineBurstLimit \<le> b)))"

lemma band_took_tasks: "band_took t b b' \<Longrightarrow> band_tasks b = add_mset t (band_tasks b')"
  by (auto simp: band_took_def band_tasks_def split: prod.splits)

definition band_of :: "EdfEntry list \<Rightarrow> IntrusiveFifo \<Rightarrow> nat \<Rightarrow> band" where
  "band_of h f b = (mset h, fifo_contents f, b)"

definition band_inv :: "Priority \<Rightarrow> EdfEntry list \<Rightarrow> IntrusiveFifo \<Rightarrow> bool" where
  "band_inv p h f \<longleftrightarrow> is_heap edf_before h \<and> fifo_inv f \<and>
     (\<forall>e \<in> set h. qt_priority (edf_task e) = p \<and> \<not> is_resume_segment (qt_invoker (edf_task e)) \<and>
        p \<in> set named_priorities) \<and>
     (\<forall>t \<in> set (fifo_contents f). qt_priority t = p \<and> p \<in> set named_priorities)"

definition rq_bands :: "ReadyQueues \<times> (Priority \<Rightarrow> nat) \<Rightarrow> Priority \<Rightarrow> band" where
  "rq_bands = (\<lambda>(q, bursts) p. band_of (global_edf_heaps q p) (global_fifo_queues q p) (bursts p))"

definition global_inv :: "ReadyQueues \<Rightarrow> bool" where
  "global_inv q \<longleftrightarrow> (\<forall>p. band_inv p (global_edf_heaps q p) (global_fifo_queues q p))"

lemma std_push_heap_law:
  assumes "is_heap edf_before h"
  shows "is_heap edf_before (std_push_heap edf_before (h @ [e]))"
    and "mset (std_push_heap edf_before (h @ [e])) = add_mset e (mset h)"
    and "set (std_push_heap edf_before (h @ [e])) = insert e (set h)"
proof -
  show "is_heap edf_before (std_push_heap edf_before (h @ [e]))"
    using edf.push_heap [OF assms] by (simp add: std_push_heap_def)
  show m: "mset (std_push_heap edf_before (h @ [e])) = add_mset e (mset h)"
    by (simp add: std_push_heap_def)
  show "set (std_push_heap edf_before (h @ [e])) = insert e (set h)"
    using arg_cong [OF m, of set_mset] by simp
qed

lemma pop_edf_law:
  assumes "is_heap edf_before h" and "h \<noteq> []" and "pop_edf h = (t, h')"
  shows "t = edf_task (hd h)" and "is_heap edf_before h'" and "mset h = add_mset (hd h) (mset h')"
    and "\<forall>e \<in> set h. \<not> edf_before e (hd h)"
proof -
  show "\<forall>e \<in> set h. \<not> edf_before e (hd h)" using edf.heap_root_least [OF assms(1)] by blast
  show "t = edf_task (hd h)" and "is_heap edf_before h'" and "mset h = add_mset (hd h) (mset h')"
  proof (atomize (full), cases "length h \<le> 1")
    case True
    then obtain e where h: "h = [e]" using assms(2) by (cases h) auto
    show "t = edf_task (hd h) \<and> is_heap edf_before h' \<and> mset h = add_mset (hd h) (mset h')"
      using assms(3) h edf.is_heap_small [of "[]"] by (simp add: pop_edf_def std_pop_heap_def)
  next
    case False
    let ?b = "(butlast h)[0 := last h]"
    have len: "0 < length h - 1" using False by simp
    have h': "h' = sift_down edf_before 0 ?b" "t = edf_task (hd h)"
      using assms(3) False by (simp_all add: pop_edf_def std_pop_heap_def Let_def)
    have "mset h' = mset ?b" using h'(1) len by simp
    also have "\<dots> = mset h - {# h ! 0 #}" using mset_list_update_last [OF len] .
    finally have "mset h = add_mset (hd h) (mset h')"
      using assms(2) by (cases h) auto
    then show "t = edf_task (hd h) \<and> is_heap edf_before h' \<and> mset h = add_mset (hd h) (mset h')"
      using h' edf.pop_heap [OF assms(1)] False by simp
  qed
qed

lemma fifo_pop_law:
  assumes "fifo_inv f" and "fifo_contents f \<noteq> []" and "fifo_pop_front f = (r, f')"
  shows "r = Some (hd (fifo_contents f))" and "fifo_inv f'" and "fifo_contents f' = tl (fifo_contents f)"
  using fifo.pop_law [OF assms(1,3)] assms(2) by (auto split: list.splits)

lemma claim_band_law:
  assumes inv: "band_inv p h f" and c: "claim_global_band_locked (h, f, b) = (r, h', f', b')"
  shows "band_inv p h' f' \<and>
    (case r of None \<Rightarrow> h' = h \<and> f' = f \<and> b' = b \<and> h = [] \<and> fifo_contents f = []
     | Some t \<Rightarrow> band_took t (band_of h f b) (band_of h' f' b'))"
proof -
  have hp: "is_heap edf_before h" and fi: "fifo_inv f" using inv by (simp_all add: band_inv_def)
  have fe: "fifo_empty f \<longleftrightarrow> fifo_contents f = []" using fifo_empty_iff [OF fi] .
  obtain t1 h1 where pe: "pop_edf h = (t1, h1)" by (cases "pop_edf h")
  obtain t2 f2 where pf: "fifo_pop_front f = (t2, f2)" by (cases "fifo_pop_front f")
  consider (none) "h = []" "fifo_contents f = []"
    | (edf) "h \<noteq> []" "fifo_contents f = [] \<or> b < kEdfDeadlineBurstLimit"
    | (fifo) "fifo_contents f \<noteq> []" "h = [] \<or> \<not> b < kEdfDeadlineBurstLimit"
    by blast
  then show ?thesis
  proof cases
    case none
    then show ?thesis using c inv fe by (simp add: claim_global_band_locked_def)
  next
    case edf
    note law = pop_edf_law [OF hp edf(1) pe]
    have r: "r = Some t1" "h' = h1" "f' = f" "b' = b + 1"
      using c edf fe pe by (auto simp: claim_global_band_locked_def split: if_splits)
    have "set h1 \<subseteq> set h" using arg_cong [OF law(3), of set_mset] by auto
    then have "band_inv p h1 f" using inv law(2) by (auto simp: band_inv_def)
    moreover have "band_took t1 (band_of h f b) (band_of h1 f (b + 1))"
    proof -
      have "\<forall>e' \<in># mset h. \<not> edf_before e' (hd h)" using law(4) by simp
      then show ?thesis
        unfolding band_took_def band_of_def split using law(1,3) edf(2) by blast
    qed
    ultimately show ?thesis using r by simp
  next
    case fifo
    note law = fifo_pop_law [OF fi fifo(1) pf]
    have r: "r = t2" "h' = h" "f' = f2" "b' = 0"
      using c fifo fe pf by (auto simp: claim_global_band_locked_def split: if_splits)
    have "set (fifo_contents f2) \<subseteq> set (fifo_contents f)"
      unfolding law(3) using fifo(1) list.set_sel(2) by auto
    then have "band_inv p h f2" using inv law(2) by (auto simp: band_inv_def)
    moreover have "band_took (hd (fifo_contents f)) (band_of h f b) (band_of h f2 0)"
      unfolding band_took_def band_of_def using law(3) fifo by auto
    ultimately show ?thesis using r law(1) by simp
  qed
qed

lemma global_claim_law:
  assumes inv: "global_inv (fst s)" and c: "global_claim p s = (r, s')"
  shows "global_inv (fst s') \<and>
    (case r of
       deque_result.Success t \<Rightarrow> takes_from band_took p t (rq_bands s) (rq_bands s')
     | Empty \<Rightarrow> rq_bands s' = rq_bands s \<and> band_tasks (rq_bands s p) = {#}
     | Retry \<Rightarrow> False)"
proof -
  obtain q bursts where s: "s = (q, bursts)" by (cases s)
  obtain a h f b where cl: "claim_global_band_locked (global_edf_heaps q p, global_fifo_queues q p, bursts p)
      = (a, h, f, b)" by (metis prod_cases4)
  have bi: "band_inv p (global_edf_heaps q p) (global_fifo_queues q p)"
    using inv s by (simp add: global_inv_def)
  note law = claim_band_law [OF bi cl]
  show ?thesis
  proof (cases a)
    case None
    then have "r = Empty" "s' = s" using c s cl by (simp_all add: global_claim_def)
    then show ?thesis
      using law None inv s by (simp add: rq_bands_def band_of_def band_tasks_def)
  next
    case (Some t)
    then have r: "r = deque_result.Success t"
      "s' = (q\<lparr>global_edf_heaps := (global_edf_heaps q)(p := h),
               global_fifo_queues := (global_fifo_queues q)(p := f)\<rparr>, bursts(p := b))"
      using c s cl by (simp_all add: global_claim_def)
    have "global_inv (fst s')"
      using inv s law r(2) by (auto simp: global_inv_def)
    moreover have "takes_from band_took p t (rq_bands s) (rq_bands s')"
      using law Some s r(2) by (auto simp: takes_from_def rq_bands_def)
    ultimately show ?thesis using r(1) by simp
  qed
qed

interpretation global_bands: calendar_bands "\<lambda>s. global_inv (fst s)" rq_bands band_tasks band_took False global_claim
proof
  fix t b b' assume "band_took t b b'"
  then show "band_tasks b = add_mset t (band_tasks b')" by (rule band_took_tasks)
next
  fix s p r s' assume "global_inv (fst s)" "global_claim p s = (r, s')"
  from global_claim_law [OF this]
  show "global_inv (fst s') \<and> (case r of
       deque_result.Success t \<Rightarrow> takes_from band_took p t (rq_bands s) (rq_bands s')
     | Empty \<Rightarrow> rq_bands s' = rq_bands s \<and> band_tasks (rq_bands s p) = {#}
     | Retry \<Rightarrow> rq_bands s' = rq_bands s \<and> False)"
    by (simp split: deque_result.splits)
qed

section \<open>Conservation of work\<close>

definition local_tasks :: "LocalQueues \<Rightarrow> QueuedTask multiset" where
  "local_tasks l = (\<Sum>p \<in> set named_priorities. mset (lq_tasks l p))"

definition global_tasks :: "ReadyQueues \<Rightarrow> QueuedTask multiset" where
  "global_tasks q = (\<Sum>p \<in> set named_priorities. band_tasks (rq_bands (q, \<lambda>_. 0) p))"

definition rq_tasks :: "ReadyQueues \<Rightarrow> QueuedTask multiset" where
  "rq_tasks q = global_tasks q + sum_list (map local_tasks (local_queues q))"

definition rq_facts :: "ReadyQueues \<Rightarrow> task_facts multiset" where
  "rq_facts q = image_mset (\<lambda>t. qt_facts t) (rq_tasks q)"

definition rq_inv :: "ReadyQueues \<Rightarrow> bool" where
  "rq_inv q \<longleftrightarrow> global_inv q \<and> (\<forall>l \<in> set (local_queues q). lq_inv l \<and> lq_quiet l)"

lemma sum_bands:
  assumes "p \<in> set named_priorities" and "\<And>q. q \<noteq> p \<Longrightarrow> f q = g q" and "f p = x + g p"
  shows "(\<Sum>q \<in> set named_priorities. f q) = x + (\<Sum>q \<in> set named_priorities. g q :: 'a multiset)"
proof -
  have "(\<Sum>q \<in> set named_priorities - {p}. f q) = (\<Sum>q \<in> set named_priorities - {p}. g q)"
    using assms(2) by (intro sum.cong) auto
  then show ?thesis
    using sum.remove [OF finite_set assms(1), of f] sum.remove [OF finite_set assms(1), of g] assms(3)
    by (simp add: add.assoc)
qed

lemma sum_list_update_mset:
  assumes "i < length xs" and "h y = x + h (xs ! i)"
  shows "sum_list (map h (xs[i := y])) = x + sum_list (map h xs :: 'a multiset list)"
  using assms
proof (induction xs arbitrary: i)
  case (Cons a xs)
  then show ?case by (cases i) (auto simp: ac_simps)
qed simp

lemma global_tasks_upd [simp]:
  "global_tasks (q\<lparr>local_queues := ls\<rparr>) = global_tasks q"
  "global_tasks (q\<lparr>claimed := n\<rparr>) = global_tasks q"
  "global_tasks (q\<lparr>global_admission_sequence := sq\<rparr>) = global_tasks q"
  by (simp_all add: global_tasks_def rq_bands_def)

lemma global_inv_upd [simp]:
  "global_inv (q\<lparr>local_queues := ls\<rparr>) = global_inv q"
  "global_inv (q\<lparr>claimed := n\<rparr>) = global_inv q"
  "global_inv (q\<lparr>global_admission_sequence := sq\<rparr>) = global_inv q"
  by (simp_all add: global_inv_def)

lemma rq_inv_upd [simp]:
  "rq_inv (q\<lparr>claimed := n\<rparr>) = rq_inv q" "rq_inv (q\<lparr>global_admission_sequence := sq\<rparr>) = rq_inv q"
  "rq_tasks (q\<lparr>claimed := n\<rparr>) = rq_tasks q" "rq_tasks (q\<lparr>global_admission_sequence := sq\<rparr>) = rq_tasks q"
  by (simp_all add: rq_inv_def rq_tasks_def)

lemma named_valid: "is_valid_priority p \<Longrightarrow> wf_priority p \<Longrightarrow> p \<in> set named_priorities"
  using valid_priority_cases [of p] by (auto simp: named_priorities_def)

text \<open>A task goes to the FIFO of its band.\<close>

lemma fifo_band_law:
  assumes inv: "rq_inv q" and p: "p \<in> set named_priorities" "qt_priority t = p"
    and q': "q' = q\<lparr>global_fifo_queues := (global_fifo_queues q)(p := fifo_push t (global_fifo_queues q p))\<rparr>"
  shows "rq_inv q' \<and> rq_tasks q' = add_mset (adopt_task t) (rq_tasks q)"
proof -
  let ?f = "global_fifo_queues q p"
  have bi: "band_inv p (global_edf_heaps q p) ?f" using inv by (simp add: rq_inv_def global_inv_def)
  then have law: "fifo_inv (fifo_push t ?f)" "fifo_contents (fifo_push t ?f) = fifo_contents ?f @ [adopt_task t]"
    using fifo.push_law [of ?f t] by (simp_all add: band_inv_def)
  have "band_inv p (global_edf_heaps q p) (fifo_push t ?f)"
    using bi law p by (auto simp: band_inv_def)
  then have "rq_inv q'" using inv by (auto simp: rq_inv_def global_inv_def q')
  moreover have "global_tasks q' = {#adopt_task t#} + global_tasks q"
    unfolding global_tasks_def
    by (rule sum_bands [OF p(1)]) (simp_all add: rq_bands_def band_of_def band_tasks_def law(2) q')
  ultimately show ?thesis by (simp add: rq_tasks_def q')
qed

lemma edf_band_law:
  assumes inv: "rq_inv q" and p: "p \<in> set named_priorities" "qt_priority (edf_task e) = p"
    "\<not> is_resume_segment (qt_invoker (edf_task e))"
    and q': "q' = q\<lparr>global_edf_heaps := (global_edf_heaps q)(p := std_push_heap edf_before (global_edf_heaps q p @ [e]))\<rparr>"
  shows "rq_inv q' \<and> rq_tasks q' = add_mset (edf_task e) (rq_tasks q)"
proof -
  let ?h = "global_edf_heaps q p"
  have bi: "band_inv p ?h (global_fifo_queues q p)" using inv by (simp add: rq_inv_def global_inv_def)
  then have "is_heap edf_before ?h" by (simp add: band_inv_def)
  note law = std_push_heap_law [OF this, of e]
  have "band_inv p (std_push_heap edf_before (?h @ [e])) (global_fifo_queues q p)"
    using bi law(1) p unfolding band_inv_def law(3) by auto
  then have "rq_inv q'" using inv by (auto simp: rq_inv_def global_inv_def q')
  moreover have "global_tasks q' = {#edf_task e#} + global_tasks q"
    unfolding global_tasks_def
    by (rule sum_bands [OF p(1)]) (simp_all add: rq_bands_def band_of_def band_tasks_def law(2) q')
  ultimately show ?thesis by (simp add: rq_tasks_def q')
qed

lemma local_band_law:
  assumes inv: "rq_inv q" and w: "w < length (local_queues q)"
    and l: "lq_inv l" "lq_quiet l" "local_tasks l = x + local_tasks (local_queues q ! w)"
  shows "rq_inv (q\<lparr>local_queues := (local_queues q)[w := l]\<rparr>) \<and>
    rq_tasks (q\<lparr>local_queues := (local_queues q)[w := l]\<rparr>) = x + rq_tasks q"
proof -
  have "set ((local_queues q)[w := l]) \<subseteq> insert l (set (local_queues q))" by (rule set_update_subset_insert)
  then show ?thesis
    using inv l w sum_list_update_mset [of w "local_queues q" local_tasks l x]
    by (auto simp: rq_inv_def rq_tasks_def ac_simps)
qed

lemma publish_law:
  assumes inv: "rq_inv q" and p: "iv_priority i \<in> set named_priorities"
    and r: "publish ctx alloc (Some i) ext use_local w (m, q) = (m', q')"
  shows "rq_inv q' \<and> rq_facts q' = add_mset (facts_of i) (rq_facts q) \<and> claimed q' = claimed q"
proof (cases "if is_resume_segment i then None else iv_deadline i")
  case (Some dl)
  then have nr: "\<not> is_resume_segment i" by (auto split: if_splits)
  let ?e = "\<lparr>edf_deadline = dl, edf_sequence = global_admission_sequence q + 1,
      edf_task = \<lparr>qt_invoker = i, qt_external = ext\<rparr>\<rparr>"
  let ?q1 = "q\<lparr>global_admission_sequence := global_admission_sequence q + 1\<rparr>"
  have q': "q' = ?q1\<lparr>global_edf_heaps := (global_edf_heaps ?q1)(iv_priority i :=
      std_push_heap edf_before (global_edf_heaps ?q1 (iv_priority i) @ [?e]))\<rparr>"
    using r Some by (simp add: publish_def Let_def)
  have "rq_inv ?q1" using inv by simp
  then have "rq_inv q' \<and> rq_tasks q' = add_mset (edf_task ?e) (rq_tasks ?q1)"
    by (rule edf_band_law [OF _ p _ _ q']) (simp_all add: nr)
  then show ?thesis by (simp add: rq_facts_def q')
next
  case None
  let ?p = "iv_priority i"
  let ?t = "\<lparr>qt_invoker = i, qt_external = ext\<rparr>"
  let ?to = "\<lambda>q. q\<lparr>global_fifo_queues := (global_fifo_queues q)(?p := fifo_push_back i ext (global_fifo_queues q ?p))\<rparr>"
  have glob: "rq_inv (?to q1) \<and> rq_facts (?to q1) = add_mset (facts_of i) (rq_facts q1) \<and> claimed (?to q1) = claimed q1"
    if "rq_inv q1" for q1
  proof -
    have "rq_inv (?to q1) \<and> rq_tasks (?to q1) = add_mset (adopt_task ?t) (rq_tasks q1)"
      by (rule fifo_band_law [OF that p]) simp_all
    then show ?thesis by (simp add: rq_facts_def)
  qed
  show ?thesis
  proof (cases "use_local \<and> w < length (local_queues q)")
    case False
    then have "q' = ?to q" using r None by (auto simp: publish_def Let_def)
    then show ?thesis using glob [OF inv] by simp
  next
    case True
    let ?l = "local_queues q ! w"
    let ?lt = "\<lparr>qt_invoker = i, qt_external = False\<rparr>"
    obtain ok l where push: "lq_push alloc ?lt ?p ?l = (ok, l)" by (cases "lq_push alloc ?lt ?p ?l")
    have li: "lq_inv ?l" "lq_quiet ?l" using inv True by (auto simp: rq_inv_def)
    have law: "lq_inv l" "lq_tasks l = (if ok then (lq_tasks ?l)(?p := lq_tasks ?l ?p @ [queued_form ?l ?lt])
        else lq_tasks ?l)"
      using lq_push_law [OF li(1) _ p push] by simp_all
    have lq: "lq_quiet l" using lq_push_quiet [OF li(2), of alloc ?lt ?p] push by simp
    let ?x = "if ok then {#queued_form ?l ?lt#} else {#}"
    have lt: "local_tasks l = ?x + local_tasks ?l"
    proof (cases ok)
      case True
      then show ?thesis unfolding local_tasks_def law(2) by (intro sum_bands [OF p]) simp_all
    qed (simp add: local_tasks_def law(2))
    let ?q = "q\<lparr>local_queues := (local_queues q)[w := l]\<rparr>"
    have ll: "rq_inv ?q \<and> rq_tasks ?q = ?x + rq_tasks q"
      by (rule local_band_law [OF inv _ law(1) lq lt]) (use True in simp)
    show ?thesis
    proof (cases ok)
      case ok: True
      then have "q' = ?q" using r None True push by (simp add: publish_def Let_def)
      then show ?thesis using ll ok by (simp add: rq_facts_def)
    next
      case nok: False
      then have q': "q' = ?to ?q" using r None True push by (simp add: publish_def Let_def)
      have "rq_facts ?q = rq_facts q" using ll nok by (simp add: rq_facts_def)
      then show ?thesis using glob [of ?q] ll unfolding q' by simp
    qed
  qed
qed

lemma band_tasks_bursts: "band_tasks (rq_bands (q, b) p) = band_tasks (rq_bands (q, b') p)"
  by (simp add: rq_bands_def band_of_def band_tasks_def)

lemma band_member_priority:
  "global_inv q \<Longrightarrow> t \<in># band_tasks (rq_bands (q, b) p) \<Longrightarrow> qt_priority t = p"
  by (auto simp: global_inv_def band_inv_def rq_bands_def band_of_def band_tasks_def)

lemma claim_frame:
  "local_queues (fst (snd (snd (claim_by_calendar False global_claim ci (q, b))))) = local_queues q"
proof -
  let ?P = "\<lambda>s :: ReadyQueues \<times> (Priority \<Rightarrow> nat). local_queues (fst s) = local_queues q"
  have "?P (snd (global_claim p s))" if "?P s" for p s
    using that by (cases s) (auto simp: global_claim_def split: prod.split option.split)
  then have "?P (snd (snd (claim_by_calendar False global_claim ci (q, b))))"
    by (rule claim_by_calendar_keeps [where P = ?P]) simp_all
  then show ?thesis by simp
qed

lemma claim_global_law:
  assumes inv: "rq_inv q" and r: "claim_global ctx ci b (m, q) = (a, ci', b', m', q')"
  shows "rq_inv q' \<and> local_queues q' = local_queues q \<and>
    (case a of
       None \<Rightarrow> rq_tasks q' = rq_tasks q \<and> global_tasks q = {#} \<and> ci' = ci
     | Some t \<Rightarrow> rq_tasks q = add_mset t (rq_tasks q') \<and> ci' = next_slot ci \<and>
         (\<exists>p \<in> set named_priorities. takes_from band_took p t (rq_bands (q, b)) (rq_bands (q', b')) \<and>
            (band_tasks (rq_bands (q, b) (calendar_target ci)) \<noteq> {#} \<longrightarrow> p = calendar_target ci)))"
proof -
  obtain x j q1 b1 where c: "claim_by_calendar False global_claim ci (q, b) = (x, j, q1, b1)"
    by (metis prod_cases4)
  have gi: "global_inv (fst (q, b))" using inv by (simp add: rq_inv_def)
  have fr: "local_queues q1 = local_queues q" using claim_frame [of ci q b] c by simp
  show ?thesis
  proof (cases x)
    case None
    then have r': "a = None" "ci' = j" "q' = q1" using r c by (simp_all add: claim_global_def)
    note n = global_bands.claim_by_calendar_none [OF gi c [unfolded None]]
    have "global_tasks q1 = global_tasks q"
      unfolding global_tasks_def
    proof (rule sum.cong [OF refl])
      fix p
      show "band_tasks (rq_bands (q1, \<lambda>_. 0) p) = band_tasks (rq_bands (q, \<lambda>_. 0) p)"
        using band_tasks_bursts [of q1 "\<lambda>_. 0" p b1] band_tasks_bursts [of q "\<lambda>_. 0" p b] n(3) by metis
    qed
    moreover have "global_tasks q = {#}"
      unfolding global_tasks_def
    proof (rule sum.neutral, rule ballI)
      fix p assume "p \<in> set named_priorities"
      then show "band_tasks (rq_bands (q, \<lambda>_. 0) p) = {#}"
        using n(4) band_tasks_bursts [of q "\<lambda>_. 0" p b] unfolding named_fallback by metis
    qed
    ultimately show ?thesis
      using r' n(1,2) fr inv by (auto simp: rq_inv_def rq_tasks_def)
  next
    case (Some t)
    then have r': "a = Some t" "ci' = j" "q' = q1\<lparr>claimed := claimed q1 + 1\<rparr>" "b' = b1"
      using r c by (simp_all add: claim_global_def)
    note s = global_bands.claim_by_calendar_served [OF gi c [unfolded Some]]
    obtain p where p: "p \<in> set named_priorities" "takes_from band_took p t (rq_bands (q, b)) (rq_bands (q1, b1))"
      "band_tasks (rq_bands (q, b) (calendar_target ci)) \<noteq> {#} \<longrightarrow> p = calendar_target ci"
      using s(3) unfolding named_fallback by blast
    have "global_tasks q = {#t#} + global_tasks q1"
      unfolding global_tasks_def
    proof (rule sum_bands [OF p(1)])
      show "band_tasks (rq_bands (q, \<lambda>_. 0) r) = band_tasks (rq_bands (q1, \<lambda>_. 0) r)" if "r \<noteq> p" for r
        using p(2) that band_tasks_bursts [of q _ r b] band_tasks_bursts [of q1 _ r b1]
        unfolding takes_from_def by metis
      show "band_tasks (rq_bands (q, \<lambda>_. 0) p) = {#t#} + band_tasks (rq_bands (q1, \<lambda>_. 0) p)"
        using band_took_tasks [of t "rq_bands (q, b) p" "rq_bands (q1, b1) p"] p(2)
          band_tasks_bursts [of q _ p b] band_tasks_bursts [of q1 _ p b1]
        unfolding takes_from_def by (metis add_mset_add_single union_commute)
    qed
    moreover have "rq_bands (q', b') = rq_bands (q1, b1)" using r' by (simp add: rq_bands_def)
    ultimately show ?thesis
      using r' p fr s(1,2) inv by (auto simp: rq_inv_def rq_tasks_def)
  qed
qed

lemma local_tasks_take:
  assumes "takes_from (from_end bk) p x (lq_tasks l) (lq_tasks l')" and "p \<in> set named_priorities"
  shows "local_tasks l = {#x#} + local_tasks l'"
  unfolding local_tasks_def
proof (rule sum_bands [OF assms(2)])
  show "mset (lq_tasks l q) = mset (lq_tasks l' q)" if "q \<noteq> p" for q
    using assms(1) that by (simp add: takes_from_def)
  show "mset (lq_tasks l p) = {#x#} + mset (lq_tasks l' p)"
    using from_end_mset [of bk x "lq_tasks l p" "lq_tasks l' p"] assms(1) by (simp add: takes_from_def)
qed

text \<open>Both claims on a worker's queues, the owner's and the thief's.\<close>

definition local_claim ::
  "bool \<Rightarrow> bool \<Rightarrow> nat \<Rightarrow> nat \<Rightarrow> ReadyQueues \<Rightarrow> QueuedTask option \<times> nat \<times> ReadyQueues" where
  "local_claim owner alloc w ci q =
     (if owner then case claim_local foreign_thread alloc w ci (metrics_init Off 0 no_runtime, q) of
                      (r, ci', _, q') \<Rightarrow> (r, ci', q')
      else steal_task w ci q)"

lemma claim_local_queues:
  "claim_local ctx alloc w ci (m, q) = (r, ci', m', q') \<Longrightarrow> local_claim True alloc w ci q = (r, ci', q')"
  by (auto simp: local_claim_def claim_local_def split: prod.splits option.splits if_splits)

lemma local_claim_law:
  assumes inv: "rq_inv q" and r: "local_claim owner alloc w ci q = (a, ci', q')"
  shows "rq_inv q' \<and> global_tasks q' = global_tasks q \<and>
    (case a of
       None \<Rightarrow> rq_tasks q' = rq_tasks q \<and> ci' = ci
     | Some t \<Rightarrow> w < length (local_queues q) \<and> rq_tasks q = add_mset t (rq_tasks q') \<and>
         (\<exists>p \<in> set named_priorities. takes_from (from_end owner) p t
             (lq_tasks (local_queues q ! w)) (lq_tasks (local_queues q' ! w))))"
proof (cases "w < length (local_queues q)")
  case False
  then have "a = None" "ci' = ci" "q' = q"
    using r by (auto simp: local_claim_def claim_local_def steal_task_def split: if_splits)
  then show ?thesis using inv by simp
next
  case True
  let ?l = "local_queues q ! w"
  obtain x j l where c: "(if owner then claim_back alloc ci ?l else steal_front ci ?l) = (x, j, l)"
    by (cases "if owner then claim_back alloc ci ?l else steal_front ci ?l")
  have li: "lq_inv ?l" "lq_quiet ?l" using inv True by (auto simp: rq_inv_def)
  note law = claim_local_law [OF li(1) c]
  have lq: "lq_quiet l" using lq_claim_quiet [OF li(2)] c by (cases owner) (metis snd_conv)+
  let ?q = "q\<lparr>local_queues := (local_queues q)[w := l]\<rparr>"
  have q': "a = x" "ci' = j" "q' = (if x = None then ?q else ?q\<lparr>claimed := claimed q + 1\<rparr>)"
    using r c True by (auto simp: local_claim_def claim_local_def steal_task_def not_le
        split: if_splits prod.splits option.splits)
  show ?thesis
  proof (cases x)
    case None
    then have "lq_tasks l = lq_tasks ?l" "j = ci" using law by (simp_all add: local_claim_spec_def)
    then have "local_tasks l = {#} + local_tasks ?l" by (simp add: local_tasks_def)
    from local_band_law [OF inv True conjunct1 [OF law] lq this] show ?thesis
      using None q' \<open>j = ci\<close> by simp
  next
    case (Some t)
    then obtain p where p: "p \<in> set named_priorities" "takes_from (from_end owner) p t (lq_tasks ?l) (lq_tasks l)"
      using law unfolding local_claim_spec_def by auto
    have lt: "local_tasks ?l = {#t#} + local_tasks l" by (rule local_tasks_take [OF p(2,1)])
    have "sum_list (map local_tasks (local_queues q)) =
        {#t#} + sum_list (map local_tasks ((local_queues q)[w := l]))"
      using sum_list_update_mset [of w "(local_queues q)[w := l]" local_tasks ?l "{#t#}"] True lt
      by simp
    then have "rq_tasks q = add_mset t (rq_tasks ?q)" by (simp add: rq_tasks_def)
    moreover have "set ((local_queues q)[w := l]) \<subseteq> insert l (set (local_queues q))"
      by (rule set_update_subset_insert)
    then have "rq_inv ?q" using inv law lq by (auto simp: rq_inv_def)
    ultimately show ?thesis using Some q' p True by auto
  qed
qed

section \<open>What the immediate cleanup does\<close>

lemma fold_establishes:
  assumes "\<And>p s. p \<in> S \<Longrightarrow> I s \<Longrightarrow> I (step p s) \<and> post p (step p s)"
    and "\<And>p q s. q \<in> S \<Longrightarrow> I s \<Longrightarrow> post p s \<Longrightarrow> post p (step q s)"
    and "set ps \<subseteq> S" and "I s"
  shows "I (fold step ps s) \<and> (\<forall>p \<in> set ps. post p (fold step ps s))"
proof -
  have keep: "set qs \<subseteq> S \<Longrightarrow> I s \<Longrightarrow> post p s \<Longrightarrow> post p (fold step qs s)" for p qs s
    using assms(1,2) by (induction qs arbitrary: s) auto
  show ?thesis
    using assms(3,4)
  proof (induction ps arbitrary: s)
    case (Cons p ps)
    then show ?case using Cons.IH [of "step p s"] assms(1) [of p s] keep [of ps "step p s" p] by auto
  qed simp
qed

definition drop_external :: "QueuedTask \<Rightarrow> bool" where
  "drop_external t \<longleftrightarrow> qt_external t \<and> \<not> is_resume_segment (qt_invoker t)"

definition external_drops :: "QueuedTask multiset \<Rightarrow> nat" where
  "external_drops ts = size (filter_mset drop_external ts)"

lemma cancel_heap_law:
  "\<forall>e \<in> set h. \<not> is_resume_segment (qt_invoker (edf_task e)) \<Longrightarrow>
   cancel_heap h a = ([], map (qt_invoker \<circ> edf_task) h,
     (release 1 ^^ external_drops (image_mset edf_task (mset h))) a)"
  by (induction h arbitrary: a) (auto simp: external_drops_def drop_external_def funpow_swap1)

lemma cancel_fifo_law:
  assumes "fifo_inv f" and "fifo_inv g" and "length (fifo_contents f) \<le> n"
    and "cancel_fifo n f g a = (f', g', cs, a')"
  shows "fifo_inv g' \<and> fifo_contents g' = fifo_contents g @ map adopt_task (resumes_of (fifo_contents f)) \<and>
    cs = map qt_invoker (unstarted_of (fifo_contents f)) \<and>
    a' = (release 1 ^^ external_drops (mset (fifo_contents f))) a"
  using assms
proof (induction n arbitrary: f g cs a)
  case 0
  then show ?case by (simp add: resumes_of_def unstarted_of_def external_drops_def)
next
  case (Suc n)
  obtain r f1 where p: "fifo_pop_front f = (r, f1)" by (cases "fifo_pop_front f")
  show ?case
  proof (cases "fifo_contents f")
    case Nil
    then have "r = None" using fifo.pop_law [OF Suc.prems(1) p] by simp
    then show ?thesis
      using Suc.prems Nil p by (auto simp: resumes_of_def unstarted_of_def external_drops_def)
  next
    case (Cons t ts)
    then have ne: "fifo_contents f \<noteq> []" by simp
    note pop = fifo_pop_law [OF Suc.prems(1) ne p]
    have r: "r = Some t" "fifo_contents f1 = ts" "length (fifo_contents f1) \<le> n"
      using pop Cons Suc.prems(3) by simp_all
    show ?thesis
    proof (cases "is_resume_segment (qt_invoker t)")
      case True
      have g: "fifo_inv (fifo_push t g)" "fifo_contents (fifo_push t g) = fifo_contents g @ [adopt_task t]"
        using fifo.push_law [OF Suc.prems(2)] by simp_all
      have "cancel_fifo n f1 (fifo_push t g) a = (f', g', cs, a')"
        using Suc.prems(4) p r(1) True by simp
      from Suc.IH [OF pop(2) g(1) r(3) this] show ?thesis
        using Cons True r(2) g(2)
        by (simp add: resumes_of_def unstarted_of_def external_drops_def drop_external_def)
    next
      case False
      let ?a = "if qt_external t then release 1 a else a"
      obtain f2 g2 cs2 a2 where c: "cancel_fifo n f1 g ?a = (f2, g2, cs2, a2)"
        by (metis prod_cases4)
      have e: "f' = f2" "g' = g2" "cs = qt_invoker t # cs2" "a' = a2"
        using Suc.prems(4) p r(1) False c by auto
      from Suc.IH [OF pop(2) Suc.prems(2) r(3) c [folded e]] show ?thesis
        using Cons False r(2) e
        by (auto simp: resumes_of_def unstarted_of_def external_drops_def drop_external_def funpow_swap1)
    qed
  qed
qed

type_synonym cleanup = "TaskInvoker list \<times> AdmissionController \<times> ReadyQueues"

definition cleaned :: "AdmissionController \<Rightarrow> ReadyQueues \<Rightarrow> cleanup \<Rightarrow> bool" where
  "cleaned a0 q0 = (\<lambda>(cs, a, q). rq_inv q \<and> local_queues q = local_queues q0 \<and> claimed q = claimed q0 \<and>
     rq_facts q0 = mset (map facts_of cs) + rq_facts q \<and> (\<forall>i \<in> set cs. \<not> is_resume_segment i) \<and>
     (\<exists>k. a = (release 1 ^^ k) a0 \<and> k + external_drops (global_tasks q) = external_drops (global_tasks q0)))"

lemma external_drops_add [simp]: "external_drops (x + y) = external_drops x + external_drops y"
  by (simp add: external_drops_def)

lemma external_drops_adopt: "external_drops (image_mset adopt_task ts) = external_drops ts"
  by (induction ts) (auto simp: external_drops_def drop_external_def)

text \<open>One band's share replaced: what was dropped, and what stays, up to adoption.\<close>

lemma cleaned_step:
  assumes I: "cleaned a0 q0 (cs, a, q)" and p: "p \<in> set named_priorities"
    and q': "q' = q\<lparr>global_edf_heaps := (global_edf_heaps q)(p := h), global_fifo_queues := (global_fifo_queues q)(p := f)\<rparr>"
    and b: "band_inv p h f"
    and tasks: "band_tasks (band_of (global_edf_heaps q p) (global_fifo_queues q p) 0) = mset ds + ks"
    and facts: "image_mset (\<lambda>t. qt_facts t) (band_tasks (band_of h f 0)) = image_mset (\<lambda>t. qt_facts t) ks"
    and drops: "external_drops (band_tasks (band_of h f 0)) = external_drops ks"
    and ds: "\<forall>t \<in> set ds. \<not> is_resume_segment (qt_invoker t)" and a': "a' = (release 1 ^^ external_drops (mset ds)) a"
  shows "cleaned a0 q0 (cs @ map qt_invoker ds, a', q')"
proof -
  let ?rest = "\<Sum>r \<in> set named_priorities - {p}. band_tasks (rq_bands (q, \<lambda>_. 0) r)"
  have rest: "(\<Sum>r \<in> set named_priorities - {p}. band_tasks (rq_bands (q', \<lambda>_. 0) r)) = ?rest"
    by (rule sum.cong) (simp_all add: q' rq_bands_def)
  have g: "global_tasks q = mset ds + ks + ?rest"
    unfolding global_tasks_def sum.remove [OF finite_set p] using tasks by (simp add: rq_bands_def)
  have g': "global_tasks q' = band_tasks (band_of h f 0) + ?rest"
    unfolding global_tasks_def sum.remove [OF finite_set p] rest by (simp add: rq_bands_def q')
  have lq: "local_queues q' = local_queues q" "claimed q' = claimed q" by (simp_all add: q')
  have "rq_inv q'" using I b by (auto simp: cleaned_def rq_inv_def global_inv_def q')
  moreover have "rq_facts q = mset (map (\<lambda>t. qt_facts t) ds) + rq_facts q'"
    unfolding rq_facts_def rq_tasks_def g g' lq using facts by simp
  moreover obtain k where k: "a = (release 1 ^^ k) a0"
    "k + external_drops (global_tasks q) = external_drops (global_tasks q0)"
    using I by (auto simp: cleaned_def)
  have "\<exists>j. a' = (release 1 ^^ j) a0 \<and>
      j + external_drops (global_tasks q') = external_drops (global_tasks q0)"
  proof (intro exI conjI)
    show "a' = (release 1 ^^ (external_drops (mset ds) + k)) a0" unfolding a' k(1) funpow_add by simp
    show "external_drops (mset ds) + k + external_drops (global_tasks q') = external_drops (global_tasks q0)"
      using k(2) drops unfolding g g' by simp
  qed
  moreover have "mset (map facts_of (cs @ map qt_invoker ds)) =
      mset (map facts_of cs) + mset (map (\<lambda>t. qt_facts t) ds)"
    by (simp add: comp_def)
  moreover have "\<forall>i \<in> set (cs @ map qt_invoker ds). \<not> is_resume_segment i"
    using I ds by (auto simp: cleaned_def)
  moreover have "rq_facts q0 = mset (map facts_of cs) + rq_facts q" "local_queues q = local_queues q0"
    "claimed q = claimed q0"
    using I by (simp_all add: cleaned_def)
  ultimately show ?thesis
    using lq unfolding cleaned_def split by (simp add: add.assoc)
qed

lemma external_drops_mset: "external_drops (mset ts) = external_drops (mset (unstarted_of ts))"
  by (induction ts) (auto simp: external_drops_def drop_external_def unstarted_of_def)

definition heap_done :: "Priority \<Rightarrow> cleanup \<Rightarrow> bool" where
  "heap_done p = (\<lambda>(cs, a, q). global_edf_heaps q p = [])"

definition fifo_done :: "Priority \<Rightarrow> cleanup \<Rightarrow> bool" where
  "fifo_done p = (\<lambda>(cs, a, q). \<forall>t \<in> set (fifo_contents (global_fifo_queues q p)). is_resume_segment (qt_invoker t))"

lemma cancel_global_heap_step:
  assumes I: "cleaned a0 q0 s" and p: "p \<in> set named_priorities"
  shows "cleaned a0 q0 (cancel_global_heap p s) \<and> heap_done p (cancel_global_heap p s)"
proof -
  obtain cs a q where s: "s = (cs, a, q)" by (cases s)
  let ?h = "global_edf_heaps q p"
  let ?f = "global_fifo_queues q p"
  let ?ds = "map edf_task ?h"
  have bi: "band_inv p ?h ?f" using I s by (simp add: cleaned_def rq_inv_def global_inv_def)
  then have nr: "\<forall>e \<in> set ?h. \<not> is_resume_segment (qt_invoker (edf_task e))" by (simp add: band_inv_def)
  let ?q = "q\<lparr>global_edf_heaps := (global_edf_heaps q)(p := []), global_fifo_queues := (global_fifo_queues q)(p := ?f)\<rparr>"
  let ?a = "(release 1 ^^ external_drops (mset ?ds)) a"
  have r: "cancel_global_heap p s = (cs @ map qt_invoker ?ds, ?a, ?q)"
    using cancel_heap_law [OF nr, of a] by (simp add: cancel_global_heap_def s std_make_heap_def)
  have I': "cleaned a0 q0 (cs, a, q)" using I s by simp
  have "band_inv p [] ?f" using bi by (simp add: band_inv_def edf.is_heap_small)
  then have "cleaned a0 q0 (cs @ map qt_invoker ?ds, ?a, ?q)"
    by (rule cleaned_step [OF I' p refl, where ks = "mset (fifo_contents ?f)"])
      (use nr in \<open>auto simp: band_of_def band_tasks_def\<close>)
  then show ?thesis unfolding r by (simp add: heap_done_def)
qed

lemma cancel_global_fifo_step:
  assumes I: "cleaned a0 q0 s" and p: "p \<in> set named_priorities"
  shows "cleaned a0 q0 (cancel_global_fifo p s) \<and> fifo_done p (cancel_global_fifo p s)"
proof -
  obtain cs a q where s: "s = (cs, a, q)" by (cases s)
  let ?h = "global_edf_heaps q p"
  let ?f = "global_fifo_queues q p"
  have bi: "band_inv p ?h ?f" using I s by (simp add: cleaned_def rq_inv_def global_inv_def)
  then have fi: "fifo_inv ?f" by (simp add: band_inv_def)
  obtain d g cs' a' where c: "cancel_fifo (fifo_size ?f) ?f empty_fifo a = (d, g, cs', a')"
    by (metis prod_cases4)
  have "length (fifo_contents ?f) \<le> fifo_size ?f" using fifo_size_contents [OF fi] by simp
  note law = cancel_fifo_law [OF fi empty_fifo_inv this c]
  let ?q = "q\<lparr>global_edf_heaps := (global_edf_heaps q)(p := ?h), global_fifo_queues := (global_fifo_queues q)(p := g)\<rparr>"
  let ?ds = "unstarted_of (fifo_contents ?f)"
  have r: "cancel_global_fifo p s = (cs @ map qt_invoker ?ds, a', ?q)"
    using law c by (simp add: cancel_global_fifo_def s Let_def fifo_move_assign_def fifo_clear_def)
  have "band_inv p ?h g"
    using bi law by (auto simp: band_inv_def resumes_of_def)
  then have "cleaned a0 q0 (cs @ map qt_invoker ?ds, a', ?q)"
  proof (rule cleaned_step [OF I [unfolded s] p refl, where
        ks = "image_mset edf_task (mset ?h) + mset (resumes_of (fifo_contents ?f))"], goal_cases)
    case 1
    show ?case
      using multiset_partition [of "mset (fifo_contents ?f)" "\<lambda>t. is_resume_segment (qt_invoker t)"]
      by (simp add: band_of_def band_tasks_def resumes_of_def unstarted_of_def mset_filter ac_simps)
  next
    case 2
    show ?case using law by (simp add: band_of_def band_tasks_def comp_def image_mset.compositionality)
  next
    case 3
    show ?case using law external_drops_adopt [of "mset (resumes_of (fifo_contents ?f))"]
      by (simp add: band_of_def band_tasks_def mset_map)
  next
    case 4
    show ?case by (simp add: unstarted_of_def)
  next
    case 5
    show ?case using law external_drops_mset by simp
  qed
  then show ?thesis unfolding r using law by (auto simp: fifo_done_def resumes_of_def)
qed

lemma heap_done_heap_step: "cleaned a0 q0 s \<Longrightarrow> heap_done p s \<Longrightarrow> heap_done p (cancel_global_heap r s)"
  by (auto simp: heap_done_def cancel_global_heap_def std_make_heap_def split: prod.splits)

lemma heap_done_fifo_step: "heap_done p s \<Longrightarrow> heap_done p (cancel_global_fifo r s)"
  by (auto simp: heap_done_def cancel_global_fifo_def Let_def split: prod.splits)

lemma fifo_done_fifo_step:
  assumes "cleaned a0 q0 s" and "r \<in> set named_priorities" and "fifo_done p s"
  shows "fifo_done p (cancel_global_fifo r s)"
proof (cases "p = r")
  case True
  then show ?thesis using cancel_global_fifo_step [OF assms(1,2)] by simp
next
  case False
  then show ?thesis
    using assms(3) by (auto simp: fifo_done_def cancel_global_fifo_def Let_def split: prod.splits)
qed

lemma cleaned_start: "rq_inv q \<Longrightarrow> cleaned a q ([], a, q)"
  by (auto simp: cleaned_def intro!: exI [of _ 0])

lemma clean_global:
  assumes "rq_inv q0"
    and "fold cancel_global_fifo named_priorities (fold cancel_global_heap named_priorities ([], a0, q0)) = s"
  shows "cleaned a0 q0 s \<and> (\<forall>p \<in> set named_priorities. heap_done p s \<and> fifo_done p s)"
proof -
  let ?s1 = "fold cancel_global_heap named_priorities ([], a0, q0)"
  have h: "cleaned a0 q0 ?s1 \<and> (\<forall>p \<in> set named_priorities. heap_done p ?s1)"
    by (rule fold_establishes [where S = "set named_priorities"])
      (use cancel_global_heap_step heap_done_heap_step cleaned_start [OF assms(1)] in auto)
  have hd: "heap_done p (fold cancel_global_fifo ps s)" if "heap_done p s" for p ps s
    using that heap_done_fifo_step by (induction ps arbitrary: s) auto
  have "cleaned a0 q0 s \<and> (\<forall>p \<in> set named_priorities. fifo_done p s)"
    unfolding assms(2) [symmetric]
    by (rule fold_establishes [where S = "set named_priorities"])
      (use cancel_global_fifo_step fifo_done_fifo_step h in auto)
  moreover have "\<forall>p \<in> set named_priorities. heap_done p s"
    unfolding assms(2) [symmetric] using h hd by blast
  ultimately show ?thesis by blast
qed

lemma local_tasks_split:
  "local_tasks l = (\<Sum>p \<in> set named_priorities. mset (resumes_of (lq_tasks l p))) +
     (\<Sum>p \<in> set named_priorities. mset (unstarted_of (lq_tasks l p)))"
  unfolding local_tasks_def sum.distrib [symmetric]
  by (rule sum.cong [OF refl])
    (simp add: resumes_of_def unstarted_of_def mset_filter flip: multiset_partition)

lemma concat_named: "mset (concat (map f named_priorities)) = (\<Sum>p \<in> set named_priorities. mset (f p))"
  by (simp add: named_priorities_def)

lemma in_sum_list_mset: "t \<in># sum_list ms \<longleftrightarrow> (\<exists>m \<in> set ms. t \<in># m)"
  by (induction ms) auto

lemma cancel_locals_law:
  assumes "\<forall>l \<in> set ls. lq_inv l \<and> lq_quiet l" and "cancel_locals ls = (rs, cs, ls')"
  shows "(\<forall>l \<in> set ls'. lq_inv l \<and> lq_quiet l) \<and> (\<forall>i \<in> set cs. \<not> is_resume_segment i) \<and>
    (\<forall>t \<in> set rs. is_resume_segment (qt_invoker t) \<and> qt_priority t \<in> set named_priorities) \<and>
    (\<forall>l \<in> set ls'. \<forall>t \<in># local_tasks l. is_resume_segment (qt_invoker t)) \<and>
    image_mset (\<lambda>t. qt_facts t) (sum_list (map local_tasks ls)) = mset (map facts_of cs) +
      image_mset (\<lambda>t. qt_facts t) (mset rs + sum_list (map local_tasks ls'))"
  using assms
proof (induction ls arbitrary: rs cs ls')
  case Nil
  then show ?case by simp
next
  case (Cons l ls)
  obtain r1 c1 l1 where c: "cancel_bands named_priorities l = (r1, c1, l1)"
    by (cases "cancel_bands named_priorities l")
  obtain r2 c2 l2 where d: "cancel_locals ls = (r2, c2, l2)" by (cases "cancel_locals ls")
  have res: "rs = r1 @ r2" "cs = c1 @ c2" "ls' = l1 # l2"
    using Cons.prems(2) c d by (simp_all add: lq_cancel_unstarted_def)
  have "distinct named_priorities" by (simp add: named_priorities_def)
  note law = cancel_bands_law [OF _ _ this c]
  have li: "lq_inv l" "lq_quiet l" using Cons.prems(1) by simp_all
  note law = law [OF li]
  let ?un = "\<Sum>p \<in> set named_priorities. mset (unstarted_of (lq_tasks l p))"
  let ?re = "\<Sum>p \<in> set named_priorities. mset (resumes_of (lq_tasks l p))"
  have c1: "mset (map facts_of c1) = image_mset (\<lambda>t. qt_facts t) ?un"
  proof -
    have "c1 = map qt_invoker (concat (map (\<lambda>p. unstarted_of (lq_tasks l p)) named_priorities))"
      using law by (simp add: map_concat comp_def)
    then show ?thesis
      unfolding concat_named [symmetric] by (simp add: image_mset.compositionality comp_def)
  qed
  have l1: "mset r1 + local_tasks l1 = ?re"
  proof (cases "uses_chase_lev l")
    case True
    then have "r1 = concat (map (\<lambda>p. resumes_of (lq_tasks l p)) named_priorities)"
      "\<forall>p \<in> set named_priorities. lq_tasks l1 p = []" using law by auto
    then show ?thesis using concat_named [of "\<lambda>p. resumes_of (lq_tasks l p)"]
      by (simp add: local_tasks_def)
  next
    case False
    then have "r1 = []" "\<forall>p \<in> set named_priorities. lq_tasks l1 p = resumes_of (lq_tasks l p)"
      using law by auto
    then show ?thesis by (simp add: local_tasks_def)
  qed
  have mem: "\<forall>t \<in># mset r1 + local_tasks l1. is_resume_segment (qt_invoker t) \<and> qt_priority t \<in> set named_priorities"
    unfolding l1 using li(1) by (auto simp: resumes_of_def lq_inv_def named_priorities_def)
  have nc: "\<forall>i \<in> set c1. \<not> is_resume_segment i" using law by (auto simp: unstarted_of_def)
  have "image_mset (\<lambda>t. qt_facts t) (local_tasks l) =
      mset (map facts_of c1) + image_mset (\<lambda>t. qt_facts t) (mset r1 + local_tasks l1)"
    unfolding c1 l1 local_tasks_split [of l] by (simp add: union_commute)
  moreover have "\<forall>l \<in> set ls. lq_inv l \<and> lq_quiet l" using Cons.prems(1) by simp
  note IH = Cons.IH [OF this d]
  ultimately show ?case
    using law IH mem nc unfolding res by (auto simp: ac_simps)
qed

lemma republish_all:
  assumes "rq_inv q" and "\<forall>t \<in> set ts. qt_priority t \<in> set named_priorities"
  shows "rq_inv (fold republish ts q) \<and> local_queues (fold republish ts q) = local_queues q \<and>
    claimed (fold republish ts q) = claimed q \<and>
    rq_tasks (fold republish ts q) = image_mset adopt_task (mset ts) + rq_tasks q"
  using assms
proof (induction ts arbitrary: q)
  case (Cons t ts)
  have "rq_inv (republish t q) \<and> rq_tasks (republish t q) = add_mset (adopt_task t) (rq_tasks q)"
    by (rule fifo_band_law [OF Cons.prems(1)]) (use Cons.prems(2) in \<open>simp_all add: republish_def\<close>)
  moreover have "local_queues (republish t q) = local_queues q" "claimed (republish t q) = claimed q"
    by (simp_all add: republish_def)
  ultimately show ?case using Cons.IH [of "republish t q"] Cons.prems(2) by simp
qed simp

lemma cancel_unstarted_law:
  assumes inv: "rq_inv q" and c: "cancel_unstarted a q = (cs, a', q')"
  shows "rq_inv q' \<and> claimed q' = claimed q \<and> rq_facts q = mset (map facts_of cs) + rq_facts q' \<and>
    (\<forall>i \<in> set cs. \<not> is_resume_segment i) \<and> (\<forall>t \<in># rq_tasks q'. is_resume_segment (qt_invoker t)) \<and>
    a' = (release 1 ^^ external_drops (global_tasks q)) a"
proof -
  obtain cs1 a1 q1 where s: "fold cancel_global_fifo named_priorities
      (fold cancel_global_heap named_priorities ([], a, q)) = (cs1, a1, q1)"
    by (metis prod_cases3)
  obtain rs cs2 ls where l: "cancel_locals (local_queues q1) = (rs, cs2, ls)"
    by (cases "cancel_locals (local_queues q1)")
  note g = clean_global [OF inv s]
  have I: "rq_inv q1" "claimed q1 = claimed q" "rq_facts q = mset (map facts_of cs1) + rq_facts q1"
    "\<forall>i \<in> set cs1. \<not> is_resume_segment i" using g by (simp_all add: cleaned_def)
  have done_: "\<forall>p \<in> set named_priorities. global_edf_heaps q1 p = [] \<and>
      (\<forall>t \<in> set (fifo_contents (global_fifo_queues q1 p)). is_resume_segment (qt_invoker t))"
    using g by (simp add: heap_done_def fifo_done_def)
  have gr: "\<forall>t \<in># global_tasks q1. is_resume_segment (qt_invoker t)"
    using done_ by (auto simp: global_tasks_def rq_bands_def band_of_def band_tasks_def named_priorities_def)
  then have z: "external_drops (global_tasks q1) = 0"
    by (simp add: external_drops_def drop_external_def)
  obtain k where "a1 = (release 1 ^^ k) a" "k + external_drops (global_tasks q1) = external_drops (global_tasks q)"
    using g by (auto simp: cleaned_def)
  then have a1: "a1 = (release 1 ^^ external_drops (global_tasks q)) a" using z by simp
  have "\<forall>l \<in> set (local_queues q1). lq_inv l \<and> lq_quiet l" using I(1) by (simp add: rq_inv_def)
  note lo = cancel_locals_law [OF this l]
  let ?q2 = "q1\<lparr>local_queues := ls\<rparr>"
  have i2: "rq_inv ?q2" using I(1) lo by (simp add: rq_inv_def)
  have "\<forall>t \<in> set rs. qt_priority t \<in> set named_priorities" using lo by simp
  note re = republish_all [OF i2 this]
  have r: "cs = cs1 @ cs2" "a' = a1" "q' = fold republish rs ?q2"
    using c s l by (simp_all add: cancel_unstarted_def)
  have t2: "rq_tasks ?q2 = global_tasks q1 + sum_list (map local_tasks ls)" by (simp add: rq_tasks_def)
  have "rq_facts q1 = mset (map facts_of cs2) + rq_facts q'"
    using lo re unfolding r rq_facts_def t2 rq_tasks_def [of q1]
    by (simp add: image_mset.compositionality comp_def ac_simps)
  moreover have "\<forall>t \<in># rq_tasks q'. is_resume_segment (qt_invoker t)"
    using lo re gr unfolding r t2 by (auto simp: in_sum_list_mset)
  ultimately show ?thesis
    using I re lo a1 unfolding r by (auto simp: ac_simps)
qed

end
