(* ===== verification/Ready_Runs.thy ===== *)
theory Ready_Runs
  imports Ready_Queues
begin

text \<open>
  Runs of the ready queues: any sequence of publications, claims, thefts and cleanups, by any worker,
  with any calendar position.  The properties are conservation of work, what a claim returns, the
  fair shares of the priorities, and what the immediate cleanup leaves behind.
\<close>

section \<open>Runs\<close>

datatype rq_op =
    Publish thread_context bool TaskInvoker bool bool nat
  | Claim_global thread_context nat "Priority \<Rightarrow> nat"
  | Claim_local thread_context bool nat nat
  | Steal_from nat nat
  | Complete
  | Cancel_unstarted

type_synonym rq_state = "RuntimeMetrics \<times> AdmissionController \<times> ReadyQueues"

text \<open>The tasks an operation hands to a worker, and those whose \<open>cancel_pre_start\<close> it calls.\<close>

fun rq_step :: "rq_op \<Rightarrow> rq_state \<Rightarrow> task_facts list \<times> task_facts list \<times> rq_state" where
  "rq_step (Publish ctx alloc i ext use_local w) (m, a, q) =
     (case publish ctx alloc (Some i) ext use_local w (m, q) of (m', q') \<Rightarrow> ([], [], m', a, q'))"
| "rq_step (Claim_global ctx ci bursts) (m, a, q) =
     (case claim_global ctx ci bursts (m, q) of
        (r, _, _, m', q') \<Rightarrow> (map (\<lambda>t. qt_facts t) (case r of None \<Rightarrow> [] | Some t \<Rightarrow> [t]), [], m', a, q'))"
| "rq_step (Claim_local ctx alloc w ci) (m, a, q) =
     (case claim_local ctx alloc w ci (m, q) of
        (r, _, m', q') \<Rightarrow> (map (\<lambda>t. qt_facts t) (case r of None \<Rightarrow> [] | Some t \<Rightarrow> [t]), [], m', a, q'))"
| "rq_step (Steal_from v ci) (m, a, q) =
     (case steal_task v ci q of
        (r, _, q') \<Rightarrow> (map (\<lambda>t. qt_facts t) (case r of None \<Rightarrow> [] | Some t \<Rightarrow> [t]), [], m, a, q'))"
| "rq_step Complete (m, a, q) = ([], [], m, a, complete_claim q)"
| "rq_step Cancel_unstarted (m, a, q) =
     (case cancel_unstarted a q of (cs, a', q') \<Rightarrow> ([], map facts_of cs, m, a', q'))"

fun rq_run :: "rq_op list \<Rightarrow> rq_state \<Rightarrow> task_facts list \<times> task_facts list \<times> rq_state" where
  "rq_run [] s = ([], [], s)"
| "rq_run (x # xs) s =
     (case rq_step x s of (cl, ca, s1) \<Rightarrow>
      case rq_run xs s1 of (cl', ca', s2) \<Rightarrow> (cl @ cl', ca @ ca', s2))"

fun published :: "rq_op list \<Rightarrow> task_facts list" where
  "published (Publish _ _ i _ _ _ # xs) = facts_of i # published xs"
| "published (_ # xs) = published xs"
| "published [] = []"

lemma published_Cons: "published (x # xs) = published [x] @ published xs"
  by (cases x) simp_all

lemma complete_claim_inv: "rq_inv (complete_claim q) = rq_inv q" "rq_facts (complete_claim q) = rq_facts q"
  by (simp_all add: complete_claim_def rq_facts_def)

lemma rq_step_law:
  assumes inv: "rq_inv q" and p: "\<forall>f \<in> set (published [x]). tf_priority f \<in> set named_priorities"
    and s: "rq_step x (m, a, q) = (cl, ca, m', a', q')"
  shows "rq_inv q' \<and> mset (published [x]) + rq_facts q = mset cl + mset ca + rq_facts q'"
proof (cases x)
  case (Publish ctx alloc i ext use_local w)
  obtain m1 q1 where r: "publish ctx alloc (Some i) ext use_local w (m, q) = (m1, q1)"
    by (cases "publish ctx alloc (Some i) ext use_local w (m, q)")
  have "iv_priority i \<in> set named_priorities" using p Publish by (simp add: iv_priority_def)
  from publish_law [OF inv this r] show ?thesis using s r Publish by simp
next
  case (Claim_global ctx ci bursts)
  obtain r ci' b m1 q1 where c: "claim_global ctx ci bursts (m, q) = (r, ci', b, m1, q1)"
    by (metis prod_cases5)
  from claim_global_law [OF inv c] show ?thesis
    using s c Claim_global by (cases r) (simp_all add: rq_facts_def)
next
  case (Claim_local ctx alloc w ci)
  obtain r ci' m1 q1 where c: "claim_local ctx alloc w ci (m, q) = (r, ci', m1, q1)"
    by (metis prod_cases4)
  from local_claim_law [OF inv claim_local_queues [OF c]] show ?thesis
    using s c Claim_local by (cases r) (simp_all add: rq_facts_def)
next
  case (Steal_from v ci)
  obtain r ci' q1 where c: "steal_task v ci q = (r, ci', q1)" by (metis prod_cases3)
  then have "local_claim False True v ci q = (r, ci', q1)" by (simp add: local_claim_def)
  from local_claim_law [OF inv this] show ?thesis
    using s c Steal_from by (cases r) (simp_all add: rq_facts_def)
next
  case Complete
  then show ?thesis using s inv by (auto simp: complete_claim_inv)
next
  case Cancel_unstarted
  obtain cs a1 q1 where c: "cancel_unstarted a q = (cs, a1, q1)" by (metis prod_cases3)
  from cancel_unstarted_law [OF inv c] show ?thesis using s c Cancel_unstarted by auto
qed

lemma rq_new: "rq_inv (new_ready_queues n be)" "rq_facts (new_ready_queues n be) = {#}"
proof -
  have b: "band_inv p [] empty_fifo" for p
    by (simp add: band_inv_def edf.is_heap_small)
  show "rq_inv (new_ready_queues n be)"
    using b lq_new(1) lq_new_quiet by (auto simp: rq_inv_def global_inv_def new_ready_queues_def)
  have "local_tasks (new_local_queues be) = {#}" by (simp add: local_tasks_def lq_new(2))
  moreover have "sum_list (replicate n {#}) = ({#} :: QueuedTask multiset)" by (induction n) simp_all
  ultimately show "rq_facts (new_ready_queues n be) = {#}"
    by (simp add: rq_facts_def rq_tasks_def global_tasks_def rq_bands_def band_of_def band_tasks_def
        new_ready_queues_def)
qed

lemma rq_run_law:
  assumes "rq_inv q" and "\<forall>f \<in> set (published xs). tf_priority f \<in> set named_priorities"
    and "rq_run xs (m, a, q) = (cl, ca, m', a', q')"
  shows "rq_inv q' \<and> mset (published xs) + rq_facts q = mset cl + mset ca + rq_facts q'"
  using assms
proof (induction xs arbitrary: m a q cl ca)
  case Nil
  then show ?case by simp
next
  case (Cons x xs)
  obtain c1 d1 m1 a1 q1 where s: "rq_step x (m, a, q) = (c1, d1, m1, a1, q1)" by (metis prod_cases5)
  obtain c2 d2 s2 where r: "rq_run xs (m1, a1, q1) = (c2, d2, s2)" by (metis prod_cases3)
  have res: "cl = c1 @ c2" "ca = d1 @ d2" "s2 = (m', a', q')" using Cons.prems(3) s r by auto
  have pr: "\<forall>f \<in> set (published [x]). tf_priority f \<in> set named_priorities"
    "\<forall>f \<in> set (published xs). tf_priority f \<in> set named_priorities"
    using Cons.prems(2) published_Cons [of x xs] by auto
  note law = rq_step_law [OF Cons.prems(1) pr(1) s]
  have "rq_inv q1" using law by simp
  note IH = Cons.IH [OF this pr(2) r [unfolded res(3)]]
  have "mset (published (x # xs)) + rq_facts q = mset (published [x]) + rq_facts q + mset (published xs)"
    unfolding published_Cons [of x xs] mset_append by (simp only: ac_simps)
  also have "\<dots> = mset c1 + mset d1 + (mset (published xs) + rq_facts q1)"
    unfolding conjunct2 [OF law] by (simp only: ac_simps)
  also have "\<dots> = mset cl + mset ca + rq_facts q'"
    unfolding conjunct2 [OF IH] res(1,2) mset_append by (simp only: ac_simps)
  finally show ?case using IH by blast
qed

section \<open>Properties\<close>

text \<open>
  C4: Ready work is neither lost nor duplicated.  Whatever sequence of publications, global and local
  claims, thefts, completions and immediate cleanups runs on fresh queues, with either local backend
  and with allocations failing at any push, the tasks published are exactly the tasks claimed, the
  tasks cancelled and the tasks still queued, each counted once.
\<close>

theorem ready_work_conserved:
  assumes "\<forall>f \<in> set (published xs). tf_priority f \<in> set named_priorities"
    and "rq_run xs (m, a, new_ready_queues n be) = (cl, ca, m', a', q')"
  shows "mset (published xs) = mset cl + mset ca + rq_facts q'"
  using rq_run_law [OF rq_new(1) assms] rq_new(2) [of n be] by simp

definition plain_task :: "nat \<Rightarrow> Priority \<Rightarrow> TaskInvoker" where
  "plain_task k p = Envelope \<lparr>tf_task = k, tf_priority = p, tf_deadline = None, tf_resume = False,
     tf_coroutine_node = False\<rparr>"

definition idle_metrics :: RuntimeMetrics where
  "idle_metrics = metrics_init Off 0 no_runtime"

definition idle_admission :: AdmissionController where
  "idle_admission = new_admission 0 4 Reject idle_metrics"

theorem ready_work_conserved_witness:
  "case rq_run [Publish foreign_thread True (plain_task 1 High) True False 0, Claim_global foreign_thread 0 (\<lambda>_. 0)]
     (idle_metrics, idle_admission, new_ready_queues 1 Locked) of
     (cl, ca, m', a', q') \<Rightarrow> {#facts_of (plain_task 1 High)#} = mset cl + mset ca + rq_facts q'"
proof -
  let ?xs = "[Publish foreign_thread True (plain_task 1 High) True False 0, Claim_global foreign_thread 0 (\<lambda>_. 0)]"
  obtain cl ca m' a' q' where r: "rq_run ?xs (idle_metrics, idle_admission, new_ready_queues 1 Locked) =
      (cl, ca, m', a', q')" by (metis prod_cases5)
  have "\<forall>f \<in> set (published ?xs). tf_priority f \<in> set named_priorities"
    by (simp add: plain_task_def named_priorities_def)
  from ready_work_conserved [OF this r] r show ?thesis by simp
qed

text \<open>
  What a claim returns.  A global claim takes from the band its calendar slot names when that band
  has work, and otherwise from the highest band that has; within the band it takes the entry with the
  least deadline and sequence, unless the deadline burst of eight is used up and a task without
  deadline waits, which then goes first, oldest first.  It moves the calendar on by one slot exactly
  when it succeeds, and fails only when the global queues are empty.
\<close>

theorem claim_global_order:
  assumes "rq_inv q" and "claim_global ctx ci b (m, q) = (r, ci', b', m', q')"
  shows "case r of
      None \<Rightarrow> global_tasks q = {#} \<and> ci' = ci
    | Some t \<Rightarrow> ci' = (ci + 1) mod 15 \<and> rq_tasks q = add_mset t (rq_tasks q') \<and>
        (\<exists>p \<in> set named_priorities.
           band_took t (rq_bands (q, b) p) (rq_bands (q', b') p) \<and>
           (\<forall>r. r \<noteq> p \<longrightarrow> rq_bands (q', b') r = rq_bands (q, b) r) \<and>
           (band_tasks (rq_bands (q, b) (calendar_target ci)) \<noteq> {#} \<longrightarrow> p = calendar_target ci))"
proof (cases r)
  case None
  then show ?thesis using claim_global_law [OF assms] by simp
next
  case (Some t)
  then obtain p where p: "p \<in> set named_priorities"
    "takes_from band_took p t (rq_bands (q, b)) (rq_bands (q', b'))"
    "band_tasks (rq_bands (q, b) (calendar_target ci)) \<noteq> {#} \<longrightarrow> p = calendar_target ci"
    using claim_global_law [OF assms] by auto
  have "band_took t (rq_bands (q, b) p) (rq_bands (q', b') p)"
    "\<forall>r. r \<noteq> p \<longrightarrow> rq_bands (q', b') r = rq_bands (q, b) r"
    using p(2) by (simp_all add: takes_from_def)
  then show ?thesis
    using Some p(1,3) claim_global_law [OF assms] unfolding Some option.simps next_slot_def by blast
qed

theorem claim_global_order_witness:
  "case claim_global foreign_thread 3 (\<lambda>_. 0) (idle_metrics, new_ready_queues 1 Locked) of
     (r, ci', _) \<Rightarrow> r = None \<and> ci' = 3"
proof -
  obtain r ci' b' m' q' where c: "claim_global foreign_thread 3 (\<lambda>_. 0) (idle_metrics, new_ready_queues 1 Locked) =
      (r, ci', b', m', q')" by (metis prod_cases5)
  have e: "rq_tasks (new_ready_queues 1 Locked) = {#}" using rq_new(2) by (simp add: rq_facts_def)
  then have "r = None"
    using claim_global_order [OF rq_new(1) c] by (cases r) simp_all
  then show ?thesis using claim_global_order [OF rq_new(1) c] c by simp
qed

text \<open>
  The priorities are served in fixed shares.  Over any fifteen successful global claims by one
  worker, whatever is published or claimed by others in between, a priority whose band is never empty
  is served at least 8 (critical), 4 (high), 2 (normal) or 1 (low) times: no priority starves.
\<close>

theorem priority_shares_guaranteed:
  assumes "length ss = 15" and "claims_in_turn False global_claim ci ss = map Some ts"
    and "\<forall>s \<in> set ss. rq_inv (fst s) \<and> band_tasks (rq_bands s p) \<noteq> {#}"
  shows "calendar_share p \<le> length (filter (\<lambda>t. qt_priority t = p) ts)"
proof (rule global_bands.fair_share [OF assms(1,2)])
  show "global_inv (fst s) \<and> band_tasks (rq_bands s p) \<noteq> {#}" if "s \<in> set ss" for s
    using assms(3) that by (auto simp: rq_inv_def)
  show "qt_priority t = r" if "s \<in> set ss" "t \<in># band_tasks (rq_bands s r)" for s r t
    using assms(3) that band_member_priority [of "fst s" t "snd s" r] by (auto simp: rq_inv_def)
qed

theorem priority_shares_guaranteed_witness:
  "\<exists>q ts. claims_in_turn False global_claim 0 (replicate 15 (q, \<lambda>_. 0)) = map Some ts \<and>
     1 \<le> length (filter (\<lambda>t. qt_priority t = Low) ts)"
proof -
  obtain m q where pub: "publish foreign_thread True (Some (plain_task 1 Low)) False False 0
      (idle_metrics, new_ready_queues 1 Locked) = (m, q)" by (metis prod.exhaust)
  have q: "q = (new_ready_queues 1 Locked)\<lparr>global_fifo_queues := (\<lambda>_. empty_fifo)(Low :=
      fifo_push_back (plain_task 1 Low) False empty_fifo)\<rparr>"
    using pub by (simp add: publish_def plain_task_def iv_priority_def iv_deadline_def
        is_resume_segment_def new_ready_queues_def)
  have inv: "rq_inv q"
    using publish_law [OF rq_new(1) _ pub] by (simp add: plain_task_def iv_priority_def named_priorities_def)
  have f: "fifo_contents (fifo_push_back (plain_task 1 Low) False empty_fifo) =
      [adopt_task \<lparr>qt_invoker = plain_task 1 Low, qt_external = False\<rparr>]"
    using fifo.push_law [of empty_fifo "\<lparr>qt_invoker = plain_task 1 Low, qt_external = False\<rparr>"] by simp
  have ne: "band_tasks (rq_bands (q, \<lambda>_. 0) Low) \<noteq> {#}"
    using f by (simp add: rq_bands_def band_of_def band_tasks_def q)
  have some: "\<exists>t j s'. claim_by_calendar False global_claim ci (q, \<lambda>_. 0) = (Some t, j, s')" for ci
  proof -
    obtain r j s' where c: "claim_by_calendar False global_claim ci (q, \<lambda>_. 0) = (r, j, s')"
      by (metis prod_cases3)
    have gi: "global_inv (fst (q, \<lambda>_. 0 :: nat))" using inv by (simp add: rq_inv_def)
    have "r \<noteq> None"
    proof
      assume "r = None"
      from global_bands.claim_by_calendar_none(4) [OF gi c [unfolded this]] ne show False
        by (simp add: kFallbackPriorityOrder_def)
    qed
    then show ?thesis using c by (cases r) auto
  qed
  have "\<exists>ts. claims_in_turn False global_claim ci (replicate n (q, \<lambda>_. 0)) = map Some ts" for n ci
  proof (induction n arbitrary: ci)
    case (Suc n)
    obtain t j s' where t: "claim_by_calendar False global_claim ci (q, \<lambda>_. 0) = (Some t, j, s')"
      using some by blast
    obtain ts where "claims_in_turn False global_claim j (replicate n (q, \<lambda>_. 0)) = map Some ts"
      using Suc.IH by blast
    then have "claims_in_turn False global_claim ci (replicate (Suc n) (q, \<lambda>_. 0)) = map Some (t # ts)"
      using t by simp
    then show ?case by blast
  qed simp
  then obtain ts where ts: "claims_in_turn False global_claim 0 (replicate 15 (q, \<lambda>_. 0)) = map Some ts"
    by blast
  have "\<forall>s \<in> set (replicate 15 (q, \<lambda>_. 0)). rq_inv (fst s) \<and> band_tasks (rq_bands s Low) \<noteq> {#}"
    using inv ne by simp
  from priority_shares_guaranteed [OF _ ts this] ts show ?thesis by auto
qed

text \<open>
  C36: Deadlines cannot starve the tasks without one.  However many tasks with a deadline a band
  receives, and whatever burst the claiming worker starts with, among any nine consecutive claims
  from a band whose FIFO is never empty at least one takes the FIFO's oldest task.
\<close>

fun fifo_turns :: "nat \<Rightarrow> (EdfEntry list \<times> IntrusiveFifo) list \<Rightarrow> bool list" where
  "fifo_turns b [] = []"
| "fifo_turns b ((h, f) # bs) =
     (case claim_global_band_locked (h, f, b) of
        (r, h', _, b') \<Rightarrow> (r = Some (hd (fifo_contents f)) \<and> h' = h) # fifo_turns b' bs)"

lemma fifo_turn_step:
  assumes "band_inv p h f" and "fifo_contents f \<noteq> []"
    and "claim_global_band_locked (h, f, b) = (r, h', f', b')"
  shows "(r = Some (hd (fifo_contents f)) \<and> h' = h) \<or> (b < 8 \<and> b' = b + 1)"
proof -
  have fi: "fifo_inv f" using assms(1) by (simp add: band_inv_def)
  obtain t f1 where pf: "fifo_pop_front f = (t, f1)" by (cases "fifo_pop_front f")
  note pop = fifo_pop_law [OF fi assms(2) pf]
  have fe: "\<not> fifo_empty f" using fifo_empty_iff [OF fi] assms(2) by simp
  show ?thesis
  proof (cases "h = [] \<or> 8 \<le> b")
    case True
    then have "r = t" "h' = h"
      using assms(3) fe pf by (auto simp: claim_global_band_locked_def kEdfDeadlineBurstLimit_def split: if_splits)
    then show ?thesis using pop(1) by simp
  next
    case False
    then show ?thesis
      using assms(3) fe by (auto simp: claim_global_band_locked_def kEdfDeadlineBurstLimit_def split_beta)
  qed
qed

lemma fifo_turns_within:
  "\<forall>(h, f) \<in> set bs. band_inv p h f \<and> fifo_contents f \<noteq> [] \<Longrightarrow> 8 - b < length bs \<Longrightarrow>
   True \<in> set (fifo_turns b bs)"
proof (induction bs arbitrary: b)
  case (Cons x bs)
  obtain h f where x: "x = (h, f)" by (cases x)
  obtain r h' f' b' where c: "claim_global_band_locked (h, f, b) = (r, h', f', b')" by (metis prod_cases4)
  have st: "(r = Some (hd (fifo_contents f)) \<and> h' = h) \<or> (b < 8 \<and> b' = b + 1)"
    by (rule fifo_turn_step [OF _ _ c, of p]) (use Cons.prems(1) x in auto)
  show ?case
  proof (cases "r = Some (hd (fifo_contents f)) \<and> h' = h")
    case True
    then show ?thesis using x c by simp
  next
    case False
    then have "8 - b' < length bs" using st Cons.prems(2) by auto
    then show ?thesis using Cons.IH [of b'] Cons.prems(1) x c by auto
  qed
qed simp

theorem deadlines_cannot_starve_fifo:
  assumes "length bs = 9" and "\<forall>(h, f) \<in> set bs. band_inv p h f \<and> fifo_contents f \<noteq> []"
  shows "True \<in> set (fifo_turns b bs)"
  using fifo_turns_within [OF assms(2), of b] assms(1) by simp

theorem deadlines_cannot_starve_fifo_witness:
  "\<exists>f. fifo_contents f \<noteq> [] \<and> True \<in> set (fifo_turns 0 (replicate 9 ([], f)))"
proof -
  let ?t = "\<lparr>qt_invoker = plain_task 1 Low, qt_external = False\<rparr>"
  let ?f = "fifo_push ?t empty_fifo"
  have f: "fifo_inv ?f" "fifo_contents ?f = [adopt_task ?t]" using fifo.push_law [of empty_fifo ?t] by simp_all
  then have "band_inv Low [] ?f"
    by (simp add: band_inv_def edf.is_heap_small plain_task_def iv_priority_def named_priorities_def)
  then have "\<forall>(h, g) \<in> set (replicate 9 ([], ?f)). band_inv Low h g \<and> fifo_contents g \<noteq> []"
    using f(2) by simp
  then have "True \<in> set (fifo_turns 0 (replicate 9 ([], ?f)))"
    by (intro deadlines_cannot_starve_fifo [of _ Low]) simp_all
  then show ?thesis using f(2) by (metis list.distinct(1))
qed

text \<open>
  A worker takes its own newest task and a thief takes the oldest: a successful local claim returns
  the last task of one of the worker's bands, a successful theft the first, nothing else moves, and the
  claimed task has that band's priority.
\<close>

theorem owner_newest_thief_oldest:
  assumes "rq_inv q" and "local_claim owner alloc w ci q = (Some t, ci', q')"
  shows "\<exists>p \<in> set named_priorities. qt_priority t = p \<and>
    (if owner then lq_tasks (local_queues q ! w) p = lq_tasks (local_queues q' ! w) p @ [t]
     else lq_tasks (local_queues q ! w) p = t # lq_tasks (local_queues q' ! w) p) \<and>
    (\<forall>r. r \<noteq> p \<longrightarrow> lq_tasks (local_queues q' ! w) r = lq_tasks (local_queues q ! w) r) \<and>
    global_tasks q' = global_tasks q"
proof -
  note law = local_claim_law [OF assms]
  obtain p where p: "p \<in> set named_priorities" "takes_from (from_end owner) p t
      (lq_tasks (local_queues q ! w)) (lq_tasks (local_queues q' ! w))" and w: "w < length (local_queues q)"
    using law by auto
  have fe: "from_end owner t (lq_tasks (local_queues q ! w) p) (lq_tasks (local_queues q' ! w) p)"
    and oth: "\<forall>r. r \<noteq> p \<longrightarrow> lq_tasks (local_queues q' ! w) r = lq_tasks (local_queues q ! w) r"
    using p(2) by (simp_all add: takes_from_def)
  have "t \<in> set (lq_tasks (local_queues q ! w) p)"
    using fe by (auto simp: from_end_def from_back_def from_front_def split: if_splits)
  moreover have "lq_inv (local_queues q ! w)" using assms(1) w by (simp add: rq_inv_def)
  ultimately have "qt_priority t = p" by (auto simp: lq_inv_def)
  then show ?thesis
    using p(1) fe oth law by (auto simp: from_end_def from_back_def from_front_def)
qed

theorem owner_newest_thief_oldest_witness:
  "\<exists>q t ci' q'. local_claim False True 0 0 q = (Some t, ci', q') \<and> qt_priority t = Low"
proof -
  let ?q0 = "new_ready_queues 1 Locked"
  obtain m q where pub: "publish foreign_thread True (Some (plain_task 1 Low)) False True 0
      (idle_metrics, ?q0) = (m, q)" by (metis prod.exhaust)
  let ?t = "\<lparr>qt_invoker = plain_task 1 Low, qt_external = False\<rparr>"
  let ?l = "(new_local_queues Locked)\<lparr>locked_bands := (\<lambda>_. [])(Low := [?t])\<rparr>"
  have q: "q = ?q0\<lparr>local_queues := [?l]\<rparr>"
    using pub by (simp add: publish_def plain_task_def iv_priority_def iv_deadline_def lq_push_def
        is_resume_segment_def new_ready_queues_def new_local_queues_def uses_chase_lev_def)
  have inv: "rq_inv q"
    using publish_law [OF rq_new(1) _ pub] by (simp add: plain_task_def iv_priority_def named_priorities_def)
  have c: "\<exists>ci' q'. local_claim False True 0 0 q = (Some ?t, ci', q')"
    by (simp add: local_claim_def steal_task_def q steal_front_def uses_chase_lev_def new_local_queues_def
        choose_local_band_def claim_by_calendar_def calendar_target_def kPriorityCalendar_def
        kFallbackPriorityOrder_def locked_claim_def)
  then obtain ci' q' where c': "local_claim False True 0 0 q = (Some ?t, ci', q')" by blast
  have "qt_priority ?t = Low" by (simp add: plain_task_def iv_priority_def)
  moreover have "\<exists>p \<in> set named_priorities. qt_priority ?t = p"
    using owner_newest_thief_oldest [OF inv c'] by blast
  ultimately show ?thesis using c' by blast
qed

text \<open>
  C28: The immediate cleanup calls \<open>cancel_pre_start\<close> once on every queued task that has not started,
  keeps every resume segment, gives back one admission slot for each external task it drops, and then
  the query for remaining resume work is exact: it tells whether anything is queued at all.
\<close>

lemma sum_named_empty:
  "(\<Sum>p \<in> set named_priorities. f p) = ({#} :: 'a multiset) \<longleftrightarrow> (\<forall>p \<in> set named_priorities. f p = {#})"
  by (simp add: named_priorities_def)

lemma sum_list_empty: "sum_list ms = ({#} :: 'a multiset) \<longleftrightarrow> (\<forall>m \<in> set ms. m = {#})"
  by (induction ms) auto

lemma any_local_work_iff: "rq_inv q \<Longrightarrow> any_local_work q \<longleftrightarrow> sum_list (map local_tasks (local_queues q)) \<noteq> {#}"
proof -
  assume "rq_inv q"
  then have "lq_empty l \<longleftrightarrow> local_tasks l = {#}" if "l \<in> set (local_queues q)" for l
  proof -
    have li: "lq_inv l" using \<open>rq_inv q\<close> that by (simp add: rq_inv_def)
    have "lq_tasks l p = []" if "p \<notin> set named_priorities" for p
      using li that unfolding lq_inv_def by (metis equals0I set_empty)
    moreover have "local_tasks l = {#} \<longleftrightarrow> (\<forall>p \<in> set named_priorities. lq_tasks l p = [])"
      by (simp add: local_tasks_def sum_named_empty)
    ultimately show ?thesis unfolding lq_empty_iff [OF li] by blast
  qed
  then show ?thesis by (auto simp: any_local_work_def list_ex_iff sum_list_empty)
qed

lemma global_empty_iff: "rq_inv q \<Longrightarrow> global_empty q \<longleftrightarrow> global_tasks q = {#}"
proof -
  assume "rq_inv q"
  then have "fifo_inv (global_fifo_queues q p)" for p by (simp add: rq_inv_def global_inv_def band_inv_def)
  then show ?thesis
    by (simp add: global_empty_def fifo_empty_iff global_tasks_def rq_bands_def band_of_def band_tasks_def
        sum_named_empty)
qed

lemma any_queued_work_iff: "rq_inv q \<Longrightarrow> any_queued_work q \<longleftrightarrow> rq_tasks q \<noteq> {#}"
  by (simp add: any_queued_work_def global_empty_iff any_local_work_iff rq_tasks_def)

theorem immediate_cleanup_exact:
  assumes "rq_inv q" and "cancel_unstarted a q = (cs, a', q')"
  shows "rq_inv q' \<and> rq_facts q = mset (map facts_of cs) + rq_facts q' \<and>
    (\<forall>i \<in> set cs. \<not> is_resume_segment i) \<and> (\<forall>t \<in># rq_tasks q'. is_resume_segment (qt_invoker t)) \<and>
    a' = (release 1 ^^ external_drops (global_tasks q)) a \<and>
    (any_resume_work_after_immediate_cleanup q' \<longleftrightarrow> rq_tasks q' \<noteq> {#})"
proof -
  note law = cancel_unstarted_law [OF assms]
  have res: "is_resume_segment (qt_invoker t)" if "t \<in># global_tasks q'" for t
    using law that by (auto simp: rq_tasks_def)
  have "list_ex (\<lambda>p. fifo_any_resume (global_fifo_queues q' p)) named_priorities \<or>
      list_ex (\<lambda>p. list_ex (\<lambda>e. is_resume_segment (qt_invoker (edf_task e))) (global_edf_heaps q' p))
        named_priorities \<longleftrightarrow> global_tasks q' \<noteq> {#}" (is "?L \<longleftrightarrow> _")
  proof
    assume ?L
    then show "global_tasks q' \<noteq> {#}"
      by (auto simp: list_ex_iff fifo_any_resume_iff global_tasks_def sum_named_empty rq_bands_def band_of_def
          band_tasks_def) (metis empty_iff empty_set)+
  next
    assume "global_tasks q' \<noteq> {#}"
    then obtain t where "t \<in># global_tasks q'" by blast
    moreover then obtain p where "p \<in> set named_priorities" "t \<in># band_tasks (rq_bands (q', \<lambda>_. 0) p)"
      by (auto simp: global_tasks_def named_priorities_def)
    ultimately show ?L
      using res [of t] by (force simp: list_ex_iff fifo_any_resume_iff rq_bands_def band_of_def band_tasks_def)
  qed
  then have "any_resume_work_after_immediate_cleanup q' \<longleftrightarrow> rq_tasks q' \<noteq> {#}"
    using law by (auto simp: any_resume_work_after_immediate_cleanup_def any_local_work_iff rq_tasks_def)
  then show ?thesis using law by simp
qed

theorem immediate_cleanup_exact_witness:
  "case cancel_unstarted idle_admission (new_ready_queues 2 ChaseLevLockFree) of
     (cs, a', q') \<Rightarrow> cs = [] \<and> \<not> any_resume_work_after_immediate_cleanup q'"
proof -
  let ?q = "new_ready_queues 2 ChaseLevLockFree"
  obtain cs a' q' where c: "cancel_unstarted idle_admission ?q = (cs, a', q')" by (metis prod_cases3)
  have "mset (map facts_of cs) + rq_facts q' = {#}"
    using immediate_cleanup_exact [OF rq_new(1) c] rq_new(2) [of 2 ChaseLevLockFree] by simp
  then have "cs = []" "rq_tasks q' = {#}" by (simp_all add: rq_facts_def)
  then show ?thesis using immediate_cleanup_exact [OF rq_new(1) c] c by simp
qed

end
