(* ===== verification/Await_Handshake.thy ===== *)
theory Await_Handshake
  imports Prelude
begin

text \<open>
  The handshake between an awaiting coroutine and what wakes it (\<open>src/task/await_handshake.hpp\<close>).
  The operations are first given as they act when nothing interferes; then each of them is split at
  its atomic accesses, and any number of threads run them on one word, in any interleaving, with
  weak compare-exchanges that may fail spuriously.
\<close>

section \<open>The word and the operations\<close>

definition kStateMask :: u8 where "kStateMask = 0x0F"
definition kCancelled :: u8 where "kCancelled = 0x80"

definition Init :: u8 where "Init = 0"
definition Triggered :: u8 where "Triggered = 1"
definition Armed :: u8 where "Armed = 2"
definition Resolved :: u8 where "Resolved = 3"

lemmas hs_consts = kStateMask_def kCancelled_def Init_def Triggered_def Armed_def Resolved_def

definition hs_state :: "u8 \<Rightarrow> u8" where
  "hs_state raw = raw AND kStateMask"

definition hs_cancelled :: "u8 \<Rightarrow> bool" where
  "hs_cancelled raw \<longleftrightarrow> raw AND kCancelled \<noteq> 0"

definition is_resolved :: "u8 \<Rightarrow> bool" where
  "is_resolved raw \<longleftrightarrow> hs_state raw = Resolved"

text \<open>Whether \<open>post_action\<close> is called, and the word left behind.\<close>

definition hs_trigger :: "u8 \<Rightarrow> bool \<times> u8" where
  "hs_trigger raw =
     (if raw = Init then (False, Triggered)
      else if hs_state raw = Armed then (True, Resolved OR (raw AND kCancelled))
      else (False, raw))"

definition hs_trigger_cancel :: "u8 \<Rightarrow> bool \<times> u8" where
  "hs_trigger_cancel raw =
     (if hs_state raw = Resolved then (False, raw)
      else if hs_state raw = Triggered then (False, raw)
      else if hs_state raw = Init then (False, Triggered OR kCancelled)
      else if hs_state raw = Armed then (True, Resolved OR kCancelled)
      else (False, raw))"

definition hs_arm :: "u8 \<Rightarrow> bool \<times> u8" where
  "hs_arm raw =
     (if raw = Init then (False, Armed)
      else if hs_state raw = Triggered then (True, Resolved OR (raw AND kCancelled))
      else (False, raw))"

text \<open>The words the protocol reaches.\<close>

definition hs_words :: "u8 set" where
  "hs_words = {Init, Triggered, Triggered OR kCancelled, Armed, Resolved, Resolved OR kCancelled}"

lemma hs_words_cases:
  assumes "raw \<in> hs_words"
  obtains "raw = 0" | "raw = 1" | "raw = 0x81" | "raw = 2" | "raw = 3" | "raw = 0x83"
  using assms by (auto simp: hs_words_def hs_consts)

lemma hs_state_values [simp]:
  "hs_state 0 = 0" "hs_state 1 = 1" "hs_state 0x81 = 1" "hs_state 2 = 2" "hs_state 3 = 3" "hs_state 0x83 = 3"
  by (simp_all add: hs_state_def hs_consts)

lemma hs_cancelled_values [simp]:
  "\<not> hs_cancelled 0" "\<not> hs_cancelled 1" "hs_cancelled 0x81" "\<not> hs_cancelled 2" "\<not> hs_cancelled 3"
  "hs_cancelled 0x83"
  by (simp_all add: hs_cancelled_def hs_consts)

section \<open>Interleavings\<close>

text \<open>
  A thread runs one operation.  Its program counter names the access it is about to make, with the
  value its last compare-exchange left in \<open>expected\<close>; \<open>Posting\<close> is between winning and having called
  \<open>post_action\<close>.
\<close>

datatype hs_call = Call_trigger | Call_cancel | Call_arm

datatype hs_pc = Start hs_call | Second hs_call u8 | Posting hs_call | Finished hs_call

record hs_system =
  hs_raw :: u8
  hs_pcs :: "nat \<Rightarrow> hs_pc option"
  hs_posts :: nat

definition hs_goto :: "nat \<Rightarrow> hs_pc \<Rightarrow> hs_system \<Rightarrow> hs_system" where
  "hs_goto i pc s = s\<lparr>hs_pcs := (hs_pcs s)(i \<mapsto> pc)\<rparr>"

text \<open>The first access: an exchange from \<open>Init\<close>, or the load of \<open>trigger_cancel\<close>.\<close>

definition first_target :: "hs_call \<Rightarrow> u8" where
  "first_target c = (case c of Call_trigger \<Rightarrow> Triggered | Call_arm \<Rightarrow> Armed | Call_cancel \<Rightarrow> Init)"

text \<open>The second access: what word it moves to from an \<open>expected\<close> value, if it tries at all.\<close>

definition second_target :: "hs_call \<Rightarrow> u8 \<Rightarrow> u8 option" where
  "second_target c e =
     (case c of
        Call_trigger \<Rightarrow> if hs_state e = Armed then Some (Resolved OR (e AND kCancelled)) else None
      | Call_arm \<Rightarrow> if hs_state e = Triggered then Some (Resolved OR (e AND kCancelled)) else None
      | Call_cancel \<Rightarrow> if hs_state e = Init then Some (Triggered OR kCancelled)
                      else if hs_state e = Armed then Some (Resolved OR kCancelled) else None)"

inductive hs_step :: "hs_system \<Rightarrow> hs_system \<Rightarrow> bool" where
  first_wins: "hs_pcs s i = Some (Start c) \<Longrightarrow> c \<noteq> Call_cancel \<Longrightarrow> hs_raw s = Init \<Longrightarrow>
     hs_step s ((hs_goto i (Finished c) s)\<lparr>hs_raw := first_target c\<rparr>)"
| first_fails: "hs_pcs s i = Some (Start c) \<Longrightarrow> c = Call_cancel \<or> hs_raw s \<noteq> Init \<Longrightarrow>
     hs_step s (hs_goto i (Second c (hs_raw s)) s)"
| no_second: "hs_pcs s i = Some (Second c e) \<Longrightarrow> second_target c e = None \<Longrightarrow>
     hs_step s (hs_goto i (Finished c) s)"
| second_wins: "hs_pcs s i = Some (Second c e) \<Longrightarrow> second_target c e = Some w \<Longrightarrow> hs_raw s = e \<Longrightarrow>
     hs_step s ((hs_goto i (if hs_state e = Init then Finished c else Posting c) s)\<lparr>hs_raw := w\<rparr>)"
| second_fails: "hs_pcs s i = Some (Second c e) \<Longrightarrow> second_target c e = Some w \<Longrightarrow> hs_raw s \<noteq> e \<Longrightarrow>
     c \<noteq> Call_cancel \<Longrightarrow> hs_step s (hs_goto i (Finished c) s)"
| cancel_retries: "hs_pcs s i = Some (Second Call_cancel e) \<Longrightarrow> second_target Call_cancel e = Some w \<Longrightarrow>
     hs_step s (hs_goto i (Second Call_cancel (hs_raw s)) s)"
| posts: "hs_pcs s i = Some (Posting c) \<Longrightarrow>
     hs_step s ((hs_goto i (Finished c) s)\<lparr>hs_posts := hs_posts s + 1\<rparr>)"

definition hs_init :: "(nat \<Rightarrow> hs_call option) \<Rightarrow> hs_system" where
  "hs_init calls = \<lparr>hs_raw = Init, hs_pcs = (\<lambda>i. map_option Start (calls i)), hs_posts = 0\<rparr>"

inductive hs_reach :: "(nat \<Rightarrow> hs_call option) \<Rightarrow> hs_system \<Rightarrow> bool" for calls where
  hs_begin: "hs_reach calls (hs_init calls)"
| hs_next: "hs_reach calls s \<Longrightarrow> hs_step s t \<Longrightarrow> hs_reach calls t"

inductive_cases hs_stepE: "hs_step s t"

fun call_of :: "hs_pc \<Rightarrow> hs_call" where
  "call_of (Start c) = c" | "call_of (Second c e) = c" | "call_of (Posting c) = c" | "call_of (Finished c) = c"

lemma call_of_step: "hs_step s t \<Longrightarrow> map_option call_of (hs_pcs t i) = map_option call_of (hs_pcs s i)"
  by (induction rule: hs_step.induct) (auto simp: hs_goto_def)

lemma call_of_reach: "hs_reach calls s \<Longrightarrow> map_option call_of (hs_pcs s i) = calls i"
proof (induction rule: hs_reach.induct)
  case hs_begin
  then show ?case by (cases "calls i") (auto simp: hs_init_def)
qed (simp add: call_of_step)

section \<open>The invariant\<close>

text \<open>
  The word only moves forward.  What a thread has seen, or left behind, bounds where the word can be.
\<close>

definition raw_next :: "u8 \<Rightarrow> u8 \<Rightarrow> bool" where
  "raw_next v w \<longleftrightarrow> v = w \<or> (v, w) \<in> {(0, 1), (0, 0x81), (0, 2), (2, 3), (2, 0x83), (1, 3), (0x81, 0x83)}"

definition pc_ok :: "u8 \<Rightarrow> hs_pc \<Rightarrow> bool" where
  "pc_ok raw pc \<longleftrightarrow>
     (case pc of
        Second c e \<Rightarrow> e \<in> hs_words \<and> (e \<noteq> Init \<longrightarrow> raw \<noteq> Init) \<and> (hs_state e = Resolved \<longrightarrow> hs_state raw = Resolved) \<and>
          (hs_state e = Armed \<longrightarrow> hs_state raw \<in> {Armed, Resolved}) \<and>
          (hs_state e = Triggered \<longrightarrow> raw = e \<or> hs_state raw = Resolved) \<and>
          (c \<noteq> Call_cancel \<longrightarrow> e \<noteq> Init)
      | Posting c \<Rightarrow> hs_state raw = Resolved
      | Finished c \<Rightarrow>
          (c = Call_arm \<longrightarrow> hs_state raw \<in> {Armed, Resolved}) \<and>
          (c \<noteq> Call_arm \<longrightarrow> hs_state raw \<in> {Triggered, Resolved})
      | Start c \<Rightarrow> True)"

lemma raw_next_cases:
  assumes "raw_next v w"
  obtains "v = w" | "v = 0" "w = 1" | "v = 0" "w = 0x81" | "v = 0" "w = 2" | "v = 2" "w = 3"
    | "v = 2" "w = 0x83" | "v = 1" "w = 3" | "v = 0x81" "w = 0x83"
  using assms by (auto simp: raw_next_def)

lemma pc_ok_next: "raw_next v w \<Longrightarrow> pc_ok v pc \<Longrightarrow> pc_ok w pc"
  by (erule raw_next_cases; cases pc) (auto simp: pc_ok_def hs_consts elim!: hs_words_cases)

lemma raw_next_words: "raw_next v w \<Longrightarrow> v \<in> hs_words \<Longrightarrow> w \<in> hs_words"
  by (erule raw_next_cases) (auto simp: hs_words_def hs_consts)

definition posting :: "hs_system \<Rightarrow> nat set" where
  "posting s = {i. \<exists>c. hs_pcs s i = Some (Posting c)}"

definition hs_inv :: "hs_system \<Rightarrow> bool" where
  "hs_inv s \<longleftrightarrow> hs_raw s \<in> hs_words \<and> (\<forall>i pc. hs_pcs s i = Some pc \<longrightarrow> pc_ok (hs_raw s) pc) \<and>
     finite (posting s) \<and> hs_posts s + card (posting s) = (if hs_state (hs_raw s) = Resolved then 1 else 0)"

lemma hs_inv_init: "hs_inv (hs_init calls)"
  by (auto simp: hs_inv_def hs_init_def pc_ok_def hs_words_def posting_def hs_state_def hs_consts split: option.splits)

lemma posting_goto:
  "posting (hs_goto i pc s) = (if \<exists>c. pc = Posting c then insert i (posting s) else posting s - {i})"
  by (auto simp: posting_def hs_goto_def)

lemma posting_raw [simp]: "posting (s\<lparr>hs_raw := w\<rparr>) = posting s" "posting (s\<lparr>hs_posts := n\<rparr>) = posting s"
  by (simp_all add: posting_def)

text \<open>A step that moves the word forward, gives the stepping thread an admissible counter and keeps the sum.\<close>

lemma hs_inv_stepI:
  assumes "hs_inv s" and "raw_next (hs_raw s) w" and "pc_ok w pc"
    and "n + card (posting (hs_goto i pc s)) = (if hs_state w = Resolved then 1 else 0)"
  shows "hs_inv ((hs_goto i pc s)\<lparr>hs_raw := w, hs_posts := n\<rparr>)"
proof -
  have "pc_ok w p" if "hs_pcs s j = Some p" for j p
    using that assms(1,2) pc_ok_next unfolding hs_inv_def by blast
  moreover have "finite (posting (hs_goto i pc s))"
    using assms(1) by (simp add: hs_inv_def posting_goto)
  moreover have "w \<in> hs_words"
    using assms(1,2) raw_next_words unfolding hs_inv_def by blast
  ultimately show ?thesis
    using assms(3,4) unfolding hs_inv_def by (auto simp: hs_goto_def)
qed

lemma not_posting [simp]: "hs_pcs s i = Some pc \<Longrightarrow> \<forall>c. pc \<noteq> Posting c \<Longrightarrow> posting s - {i} = posting s"
  by (auto simp: posting_def)

lemma hs_inv_quiet:
  assumes "hs_inv s" and "hs_pcs s i = Some old" and "\<forall>c. old \<noteq> Posting c" and "\<forall>c. pc \<noteq> Posting c"
    and "raw_next (hs_raw s) w" and "pc_ok w pc" and "hs_state w = Resolved \<longleftrightarrow> hs_state (hs_raw s) = Resolved"
  shows "hs_inv ((hs_goto i pc s)\<lparr>hs_raw := w\<rparr>)"
proof -
  have "posting (hs_goto i pc s) = posting s"
    using assms(2,3,4) by (simp add: posting_goto)
  then have "hs_inv ((hs_goto i pc s)\<lparr>hs_raw := w, hs_posts := hs_posts s\<rparr>)"
    using assms by (intro hs_inv_stepI) (auto simp: hs_inv_def)
  then show ?thesis
    by (simp add: hs_goto_def)
qed

lemma hs_inv_quiet_same:
  assumes "hs_inv s" and "hs_pcs s i = Some old" and "\<forall>c. old \<noteq> Posting c" and "\<forall>c. pc \<noteq> Posting c"
    and "pc_ok (hs_raw s) pc"
  shows "hs_inv (hs_goto i pc s)"
  using hs_inv_quiet [OF assms(1-4), of "hs_raw s"] assms(5) by (simp add: raw_next_def hs_goto_def)

lemma hs_step_inv: "hs_step s t \<Longrightarrow> hs_inv s \<Longrightarrow> hs_inv t"
proof (induction rule: hs_step.induct)
  case (first_wins s i c)
  then show ?case
    by (cases c; intro hs_inv_quiet) (auto simp: raw_next_def first_target_def pc_ok_def hs_consts)
next
  case (first_fails s i c)
  have "hs_raw s \<in> hs_words"
    using first_fails.prems by (simp add: hs_inv_def)
  then show ?case
    using first_fails by (intro hs_inv_quiet_same) (auto simp: pc_ok_def hs_consts elim!: hs_words_cases)
next
  case (no_second s i c e)
  then have ok: "pc_ok (hs_raw s) (Second c e)"
    by (simp add: hs_inv_def)
  then have "pc_ok (hs_raw s) (Finished c)"
    using no_second.hyps(2)
    by (cases c) (auto simp: pc_ok_def second_target_def hs_consts elim!: hs_words_cases)
  with no_second show ?case
    by (intro hs_inv_quiet_same) auto
next
  case (second_wins s i c e w)
  then have ok: "pc_ok (hs_raw s) (Second c e)"
    by (simp add: hs_inv_def)
  have nxt: "raw_next e w" and st: "hs_state w \<noteq> hs_state e" and "hs_state e \<noteq> Resolved"
    and quiet: "hs_state e = Init \<Longrightarrow> hs_state w = Triggered \<and> c \<noteq> Call_arm"
    and loud: "hs_state e \<noteq> Init \<Longrightarrow> hs_state w = Resolved"
    using ok second_wins.hyps(2) 
    by (cases c; auto simp: pc_ok_def second_target_def raw_next_def hs_consts split: if_splits elim!: hs_words_cases)+
  show ?case
  proof (cases "hs_state e = Init")
    case True
    then show ?thesis
      using second_wins nxt quiet by (auto intro!: hs_inv_quiet simp: pc_ok_def hs_consts)
  next
    case False
    have zero: "hs_posts s = 0" and none: "posting s = {}"
      using second_wins.prems second_wins.hyps(3) \<open>hs_state e \<noteq> Resolved\<close> by (auto simp: hs_inv_def)
    have "hs_inv ((hs_goto i (Posting c) s)\<lparr>hs_raw := w, hs_posts := hs_posts s\<rparr>)"
      using second_wins nxt loud [OF False] zero none
      by (intro hs_inv_stepI) (auto simp: posting_goto pc_ok_def)
    then show ?thesis
      using False by (simp add: hs_goto_def)
  qed
next
  case (second_fails s i c e w)
  then have ok: "pc_ok (hs_raw s) (Second c e)" "hs_raw s \<in> hs_words"
    by (simp_all add: hs_inv_def)
  then have "pc_ok (hs_raw s) (Finished c)"
    using second_fails.hyps
    by (cases c) (auto simp: pc_ok_def second_target_def hs_consts split: if_splits elim!: hs_words_cases)
  with second_fails show ?case
    by (intro hs_inv_quiet_same) auto
next
  case (cancel_retries s i e w)
  have "hs_raw s \<in> hs_words"
    using cancel_retries.prems by (simp add: hs_inv_def)
  then show ?case
    using cancel_retries by (intro hs_inv_quiet_same) (auto simp: pc_ok_def hs_consts elim!: hs_words_cases)
next
  case (posts s i c)
  then have "pc_ok (hs_raw s) (Posting c)"
    by (simp add: hs_inv_def)
  then have res: "hs_state (hs_raw s) = Resolved"
    by (simp add: pc_ok_def)
  have i: "i \<in> posting s"
    using posts by (auto simp: posting_def)
  have "card (posting s) = Suc (card (posting s - {i}))" 
    using i posts.prems by (metis card.remove hs_inv_def)
  then have "hs_posts s + 1 + card (posting (hs_goto i (Finished c) s)) = 1"
    using posts.prems res by (simp add: hs_inv_def posting_goto)
  then have "hs_inv ((hs_goto i (Finished c) s)\<lparr>hs_raw := hs_raw s, hs_posts := hs_posts s + 1\<rparr>)"
    using posts.prems res by (intro hs_inv_stepI) (auto simp: raw_next_def pc_ok_def)
  then show ?case
    by (simp add: hs_goto_def)
qed

lemma hs_reach_inv: "hs_reach calls s \<Longrightarrow> hs_inv s"
  by (induction rule: hs_reach.induct) (auto intro: hs_inv_init hs_step_inv)

text \<open>The word witnesses the calls that have been made.\<close>

definition calls_made :: "(nat \<Rightarrow> hs_call option) \<Rightarrow> u8 \<Rightarrow> bool" where
  "calls_made calls raw \<longleftrightarrow>
     (hs_state raw \<in> {Armed, Resolved} \<longrightarrow> (\<exists>i. calls i = Some Call_arm)) \<and>
     (hs_state raw \<in> {Triggered, Resolved} \<longrightarrow> (\<exists>i. calls i \<in> {Some Call_trigger, Some Call_cancel})) \<and>
     (hs_cancelled raw \<longrightarrow> (\<exists>i. calls i = Some Call_cancel))"

lemma calls_made_reach: "hs_reach calls s \<Longrightarrow> calls_made calls (hs_raw s)"
proof (induction rule: hs_reach.induct)
  case hs_begin
  then show ?case
    by (simp add: calls_made_def hs_init_def hs_consts)
next
  case (hs_next s t)
  have inv: "hs_inv s"
    using hs_next.hyps(1) by (rule hs_reach_inv)
  have call: "hs_pcs s i = Some pc \<Longrightarrow> calls i = Some (call_of pc)" for i pc
    using call_of_reach [OF hs_next.hyps(1), of i] by simp
  from hs_next.hyps(2) show ?case
  proof cases
    case (first_wins i c)
    with call [of i] hs_next.IH show ?thesis
      by (cases c) (auto simp: calls_made_def first_target_def hs_consts)
  next
    case (second_wins i c e w)
    have "e \<in> hs_words"
      using inv second_wins by (auto simp: hs_inv_def)
    with second_wins call [of i] hs_next.IH show ?thesis
      by (cases c) (auto simp: calls_made_def second_target_def hs_consts split: if_splits elim!: hs_words_cases)
  qed (use hs_next.IH in \<open>simp_all add: hs_goto_def\<close>)
qed

section \<open>Every call can finish\<close>

abbreviation hs_steps :: "hs_system \<Rightarrow> hs_system \<Rightarrow> bool" where
  "hs_steps \<equiv> hs_step\<^sup>*\<^sup>*"

lemma hs_reach_steps: "hs_steps s t \<Longrightarrow> hs_reach calls s \<Longrightarrow> hs_reach calls t"
  by (induction rule: rtranclp_induct) (auto intro: hs_next)

text \<open>A thread that runs alone finishes, and leaves the others where they are.\<close>

definition alone :: "nat \<Rightarrow> hs_system \<Rightarrow> hs_system \<Rightarrow> bool" where
  "alone i s t \<longleftrightarrow> hs_steps s t \<and> (\<exists>c. hs_pcs t i = Some (Finished c)) \<and> (\<forall>j. j \<noteq> i \<longrightarrow> hs_pcs t j = hs_pcs s j)"

lemma alone_step: "hs_step s t \<Longrightarrow> \<forall>j. j \<noteq> i \<longrightarrow> hs_pcs t j = hs_pcs s j \<Longrightarrow> alone i t u \<Longrightarrow> alone i s u"
  by (auto simp: alone_def intro: converse_rtranclp_into_rtranclp)

lemma alone_refl: "hs_pcs s i = Some (Finished c) \<Longrightarrow> alone i s s"
  by (auto simp: alone_def)

lemma alone_one:
  "hs_step s t \<Longrightarrow> hs_pcs t i = Some (Finished c) \<Longrightarrow> \<forall>j. j \<noteq> i \<longrightarrow> hs_pcs t j = hs_pcs s j \<Longrightarrow>
   \<exists>t. alone i s t"
  by (blast intro: alone_step alone_refl)

lemma alone_posting:
  assumes "hs_pcs s i = Some (Posting c)"
  shows "\<exists>t. alone i s t"
  by (rule alone_one [OF hs_step.posts [OF assms]]) (simp_all add: hs_goto_def)

lemma alone_second:
  assumes "hs_pcs s i = Some (Second c (hs_raw s))"
  shows "\<exists>t. alone i s t"
proof (cases "second_target c (hs_raw s)")
  case None
  then show ?thesis
    by (intro alone_one [OF hs_step.no_second [OF assms None]]) (simp_all add: hs_goto_def)
next
  case (Some w)
  let ?t = "(hs_goto i (if hs_state (hs_raw s) = Init then Finished c else Posting c) s)\<lparr>hs_raw := w\<rparr>"
  have step: "hs_step s ?t"
    by (rule hs_step.second_wins [OF assms Some]) simp
  have others: "\<forall>j. j \<noteq> i \<longrightarrow> hs_pcs ?t j = hs_pcs s j"
    by (simp add: hs_goto_def)
  have "hs_pcs ?t i = Some (Finished c) \<or> hs_pcs ?t i = Some (Posting c)"
    by (simp add: hs_goto_def)
  then have "\<exists>u. alone i ?t u"
    using alone_refl alone_posting by blast
  then show ?thesis
    using alone_step [OF step others] by blast
qed

lemma alone_from:
  assumes "hs_pcs s i = Some pc"
  shows "\<exists>t. alone i s t"
proof (cases pc)
  case (Start c)
  show ?thesis
  proof (cases "c \<noteq> Call_cancel \<and> hs_raw s = Init")
    case True
    then show ?thesis
      using assms Start by (intro alone_one [OF hs_step.first_wins [of s i c]]) (simp_all add: hs_goto_def)
  next
    case False
    let ?t = "hs_goto i (Second c (hs_raw s)) s"
    have "hs_step s ?t"
      using assms Start False by (intro hs_step.first_fails) auto
    moreover have "\<exists>u. alone i ?t u"
      by (rule alone_second [of _ _ c]) (simp add: hs_goto_def)
    ultimately show ?thesis
      using alone_step [of s ?t i] by (auto simp: hs_goto_def)
  qed
next
  case (Second c e)
  show ?thesis
  proof (cases "second_target c e")
    case None
    then show ?thesis
      using assms Second by (intro alone_one [OF hs_step.no_second [of s i c e]]) (simp_all add: hs_goto_def)
  next
    case (Some w)
    show ?thesis
    proof (cases "hs_raw s = e \<or> c = Call_cancel")
      case same: True
      show ?thesis
      proof (cases "hs_raw s = e")
        case True
        then show ?thesis using alone_second assms Second by blast
      next
        case False
        with same have c: "c = Call_cancel" by simp
        let ?t = "hs_goto i (Second c (hs_raw s)) s"
        have "hs_step s ?t"
          using assms Second Some c by (auto intro: hs_step.cancel_retries)
        moreover have "\<exists>u. alone i ?t u"
          by (rule alone_second [of _ _ c]) (simp add: hs_goto_def)
        ultimately show ?thesis
          using alone_step [of s ?t i] by (auto simp: hs_goto_def)
      qed
    next
      case False
      then show ?thesis
        using assms Second Some
        by (intro alone_one [OF hs_step.second_fails [of s i c e w]]) (simp_all add: hs_goto_def)
    qed
  qed
qed (use assms alone_refl alone_posting in blast)+

definition all_finished :: "hs_system \<Rightarrow> bool" where
  "all_finished s \<longleftrightarrow> (\<forall>i pc. hs_pcs s i = Some pc \<longrightarrow> (\<exists>c. pc = Finished c))"

definition running :: "hs_system \<Rightarrow> nat set" where
  "running s = {i. \<exists>pc. hs_pcs s i = Some pc \<and> (\<forall>c. pc \<noteq> Finished c)}"

lemma all_can_finish: "finite (running s) \<Longrightarrow> \<exists>t. hs_steps s t \<and> all_finished t"
proof (induction "card (running s)" arbitrary: s)
  case 0
  then have "all_finished s"
    by (auto simp: all_finished_def running_def)
  then show ?case by blast
next
  case (Suc n)
  then have "running s \<noteq> {}"
    by auto
  then obtain i pc where i: "hs_pcs s i = Some pc" "i \<in> running s"
    by (auto simp: running_def)
  obtain t where t: "alone i s t"
    using alone_from [OF i(1)] by blast
  have "x \<in> running t \<longleftrightarrow> x \<in> running s - {i}" for x
    using t by (cases "x = i") (auto simp: alone_def running_def)
  then have "running t = running s - {i}"
    by blast
  with Suc i have "\<exists>u. hs_steps t u \<and> all_finished u"
    by (intro Suc.hyps(1)) auto
  with t show ?case
    unfolding alone_def by (meson rtranclp_trans)
qed

section \<open>What the handshake guarantees\<close>

text \<open>C19: However many threads arm, trigger and cancel one await handshake, in any interleaving of
  their atomic accesses and with weak compare-exchanges failing spuriously, the resume action is run
  at most once, and only if somebody armed and somebody triggered or cancelled; the cancelled flag is
  only set by a cancellation; and once an arming call and a triggering or cancelling call have both
  returned and nobody is about to post, it has been run exactly once: no wake-up is lost.\<close>

theorem handshake_resumes_exactly_once:
  assumes "hs_reach calls s"
  shows "hs_posts s \<le> 1 \<and>
    (0 < hs_posts s \<longrightarrow> is_resolved (hs_raw s) \<and> (\<exists>i. calls i = Some Call_arm) \<and>
       (\<exists>i. calls i \<in> {Some Call_trigger, Some Call_cancel})) \<and>
    (hs_cancelled (hs_raw s) \<longrightarrow> (\<exists>i. calls i = Some Call_cancel)) \<and>
    (\<forall>a b c. hs_pcs s a = Some (Finished Call_arm) \<longrightarrow> hs_pcs s b = Some (Finished c) \<longrightarrow> c \<noteq> Call_arm \<longrightarrow>
       posting s = {} \<longrightarrow> hs_posts s = 1)"
proof -
  have inv: "hs_inv s" and made: "calls_made calls (hs_raw s)"
    using assms hs_reach_inv calls_made_reach by blast+
  have resolved: "hs_state (hs_raw s) = Resolved"
    if "hs_pcs s a = Some (Finished Call_arm)" "hs_pcs s b = Some (Finished c)" "c \<noteq> Call_arm" for a b c
  proof -
    have "pc_ok (hs_raw s) (Finished Call_arm)" "pc_ok (hs_raw s) (Finished c)"
      using inv that by (auto simp: hs_inv_def)
    then show ?thesis
      using that(3) by (auto simp: pc_ok_def hs_consts)
  qed
  have "hs_posts s = 1"
    if "hs_pcs s a = Some (Finished Call_arm)" "hs_pcs s b = Some (Finished c)" "c \<noteq> Call_arm" "posting s = {}" for a b c
    using inv that(4) resolved [OF that(1-3)] by (simp add: hs_inv_def)
  moreover have "hs_posts s \<le> (if hs_state (hs_raw s) = Resolved then 1 else 0)"
    using inv unfolding hs_inv_def by linarith
  ultimately show ?thesis
    using made by (auto simp: calls_made_def is_resolved_def split: if_splits)
qed

text \<open>C20: No wake-up is ever out of reach: with finitely many threads, one of which arms and one of
  which triggers or cancels, every state the handshake reaches can be continued so that all calls
  return, and then the resume action has been run exactly once.\<close>

theorem handshake_always_resumes:
  assumes "hs_reach calls s" and "finite (dom calls)"
    and "calls a = Some Call_arm" and "calls b \<in> {Some Call_trigger, Some Call_cancel}"
  shows "\<exists>t. hs_steps s t \<and> all_finished t \<and> hs_posts t = 1"
proof -
  have call: "map_option call_of (hs_pcs u i) = calls i" if "hs_reach calls u" for u i
    using that by (rule call_of_reach)
  have "i \<in> dom calls" if "i \<in> running s" for i
    using that call [OF assms(1), of i] by (cases "calls i") (auto simp: running_def)
  then have "running s \<subseteq> dom calls"
    by blast
  then obtain t where t: "hs_steps s t" "all_finished t"
    using all_can_finish assms(2) finite_subset by blast
  have reach: "hs_reach calls t"
    using hs_reach_steps t(1) assms(1) by blast
  have fin: "\<exists>c. hs_pcs t i = Some (Finished c) \<and> calls i = Some c" if "calls i \<noteq> None" for i
    using call [OF reach, of i] that t(2) unfolding all_finished_def by fastforce
  have none: "posting t = {}"
    using t(2) by (auto simp: all_finished_def posting_def)
  have "hs_inv t" using reach by (rule hs_reach_inv)
  moreover have "pc_ok (hs_raw t) (Finished Call_arm)" "\<exists>c. c \<noteq> Call_arm \<and> pc_ok (hs_raw t) (Finished c)"
    using fin [of a] fin [of b] assms(3,4) calculation by (auto simp: hs_inv_def)
  ultimately have "hs_posts t = 1"
    using none by (auto simp: hs_inv_def pc_ok_def hs_consts)
  with t show ?thesis by blast
qed

text \<open>Two threads: 0 arms, 1 triggers.\<close>

definition two_calls :: "nat \<Rightarrow> hs_call option" where
  "two_calls = [0 \<mapsto> Call_arm, 1 \<mapsto> Call_trigger]"

lemma two_calls_finish: "\<exists>t. hs_steps (hs_init two_calls) t \<and> all_finished t"
proof -
  have "running (hs_init two_calls) \<subseteq> {0, 1}"
    by (auto simp: running_def hs_init_def two_calls_def split: if_splits)
  then show ?thesis
    by (blast intro: all_can_finish finite_subset)
qed

theorem handshake_resumes_exactly_once_witness:
  "\<exists>s. hs_reach two_calls s \<and> hs_posts s = 1"
proof -
  obtain t where t: "hs_steps (hs_init two_calls) t" "all_finished t"
    using two_calls_finish by blast
  have reach: "hs_reach two_calls t"
    using t(1) by (rule hs_reach_steps) (rule hs_begin)
  have "hs_pcs t 0 = Some (Finished Call_arm)" "hs_pcs t 1 = Some (Finished Call_trigger)" "posting t = {}"
    using call_of_reach [OF reach, of 0] call_of_reach [OF reach, of 1] t(2)
    unfolding two_calls_def all_finished_def posting_def by fastforce+
  then have "hs_posts t = 1"
    using handshake_resumes_exactly_once [OF reach] by blast
  with reach show ?thesis by blast
qed

theorem handshake_always_resumes_witness:
  "\<exists>t. hs_steps (hs_init two_calls) t \<and> all_finished t \<and> hs_posts t = 1"
  by (rule handshake_always_resumes [OF hs_begin, of two_calls 0 1]) (auto simp: two_calls_def)

end
