(* ===== verification/Task_Block.thy ===== *)
theory Task_Block
  imports Diagnostics
begin

text \<open>
  The protocol object of a task: \<open>TaskControlBlock\<close> (\<open>src/task/task_control_block.cpp\<close> and
  \<open>.hpp\<close>).  Every operation runs under the block's mutex up to its callbacks, so it is one step on
  the block and on the process-wide diagnostics; what it then calls, in order, is returned as a list.
  The completion callbacks and the scheduler's hooks are opaque: a number names the function object,
  \<open>None\<close> is an empty \<open>std::function\<close>.  The callbacks the library registers do not throw.
\<close>

section \<open>The block\<close>

record task_block =
  tcb_id :: TaskId
  tcb_priority :: Priority
  tcb_deadline :: "TaskDeadline option"
  tcb_disposition :: DeadlineDisposition
  tcb_stop_requested :: bool
  tcb_stop_callbacks :: "nat list"
  tcb_state :: TaskState
  tcb_exception :: "nat option"
  tcb_observed :: bool
  tcb_handoff_seq :: u64
  tcb_suspend_seq :: u64
  tcb_callbacks :: "nat option list"
  tcb_rescheduler :: "nat option"
  tcb_registrar :: "nat option"
  tcb_canceller :: "nat option"
  tcb_admitted_ns :: time
  tcb_ready_ns :: time

datatype block_call = Stop_callback nat | Completion_callback nat

definition make_task_control_block ::
  "TaskId \<Rightarrow> Priority \<Rightarrow> TaskDeadline option \<Rightarrow> time \<Rightarrow> task_block" where
  "make_task_control_block i prio dl now =
     \<lparr>tcb_id = i, tcb_priority = prio, tcb_deadline = dl, tcb_disposition = No_disposition,
      tcb_stop_requested = False, tcb_stop_callbacks = [], tcb_state = Ready, tcb_exception = None,
      tcb_observed = False, tcb_handoff_seq = 0, tcb_suspend_seq = 0, tcb_callbacks = [],
      tcb_rescheduler = None, tcb_registrar = None, tcb_canceller = None,
      tcb_admitted_ns = now, tcb_ready_ns = now\<rparr>"

definition destroy_block :: "thread_context \<Rightarrow> task_block \<Rightarrow> process \<Rightarrow> process" where
  "destroy_block ctx b p =
     (if tcb_state b = Failed \<and> \<not> tcb_observed b then record_metrics_unobserved_failure ctx (tcb_id b) p else p)"

definition is_completed :: "task_block \<Rightarrow> bool" where
  "is_completed b \<longleftrightarrow> tcb_state b = Succeeded \<or> tcb_state b = Failed \<or> tcb_state b = Cancelled"

definition set_ready_published_at :: "time \<Rightarrow> task_block \<Rightarrow> task_block" where
  "set_ready_published_at tp b = b\<lparr>tcb_ready_ns := tp\<rparr>"

definition set_rescheduler :: "nat option \<Rightarrow> task_block \<Rightarrow> task_block" where
  "set_rescheduler f b = b\<lparr>tcb_rescheduler := f\<rparr>"

definition set_timer_functions :: "nat option \<Rightarrow> nat option \<Rightarrow> task_block \<Rightarrow> task_block" where
  "set_timer_functions reg cancel b = b\<lparr>tcb_registrar := reg, tcb_canceller := cancel\<rparr>"

definition mark_resume_handoff :: "task_block \<Rightarrow> task_block" where
  "mark_resume_handoff b = b\<lparr>tcb_handoff_seq := tcb_handoff_seq b + 1\<rparr>"

definition publish_await_suspend :: "task_block \<Rightarrow> task_block" where
  "publish_await_suspend b = b\<lparr>tcb_suspend_seq := tcb_handoff_seq b\<rparr>"

text \<open>When the wait for the publication returns; \<open>need\<close> is the handoff number read at its start.\<close>

definition suspend_published :: "u64 \<Rightarrow> task_block \<Rightarrow> bool" where
  "suspend_published need b \<longleftrightarrow> need = 0 \<or> \<not> tcb_suspend_seq b < need"

definition mark_observed :: "task_block \<Rightarrow> task_block" where
  "mark_observed b = b\<lparr>tcb_observed := True\<rparr>"

section \<open>Transitions\<close>

definition transition_to_suspended ::
  "thread_context \<Rightarrow> task_block \<Rightarrow> process \<Rightarrow> task_block \<times> process" where
  "transition_to_suspended ctx b p =
     (if tcb_state b = TaskState.Running
      then (b\<lparr>tcb_state := Suspended, tcb_ready_ns := 0\<rparr>, record_metrics_suspended ctx (tcb_id b) p)
      else (b, p))"

definition transition_to_running :: "task_block \<Rightarrow> task_block" where
  "transition_to_running b =
     (if tcb_state b = Suspended \<or> tcb_state b = Ready then b\<lparr>tcb_state := TaskState.Running\<rparr> else b)"

text \<open>The calls made for a list of moved-out callbacks, skipping the empty ones.\<close>

definition completion_calls :: "nat option list \<Rightarrow> block_call list" where
  "completion_calls cbs = map (Completion_callback \<circ> the) (filter (\<lambda>c. c \<noteq> None) cbs)"

definition add_completion_callback :: "nat option \<Rightarrow> task_block \<Rightarrow> block_call list \<times> task_block" where
  "add_completion_callback cb b =
     (if is_completed b then (completion_calls [cb], b)
      else ([], b\<lparr>tcb_callbacks := tcb_callbacks b @ [cb]\<rparr>))"

definition record_terminal_wall_time :: "thread_context \<Rightarrow> time \<Rightarrow> task_block \<Rightarrow> process \<Rightarrow> process" where
  "record_terminal_wall_time ctx now b p =
     (if tcb_admitted_ns b \<le> now \<and> 0 < tcb_admitted_ns b
      then record_metrics_task_wall_time ctx (tcb_id b) (word_of_int (now - tcb_admitted_ns b)) p
      else p)"

text \<open>
  The stop source: the first request runs the registered stop callbacks, later ones do nothing.
\<close>

definition request_stop :: "task_block \<Rightarrow> block_call list \<times> task_block" where
  "request_stop b =
     (if tcb_stop_requested b then ([], b)
      else (map Stop_callback (tcb_stop_callbacks b),
            b\<lparr>tcb_stop_requested := True, tcb_stop_callbacks := []\<rparr>))"

definition request_cancel ::
  "thread_context \<Rightarrow> time \<Rightarrow> task_block \<Rightarrow> process \<Rightarrow> block_call list \<times> task_block \<times> process" where
  "request_cancel ctx now b p =
     (let (stops, b1) = request_stop b
      in if tcb_state b1 = Ready then
           (let b2 = b1\<lparr>tcb_state := Cancelled, tcb_callbacks := []\<rparr>;
                p1 = record_terminal_wall_time ctx now b2 p;
                p2 = record_metrics_cancelled_before_start ctx (tcb_id b) (tcb_deadline b \<noteq> None) p1
            in (stops @ completion_calls (tcb_callbacks b1), b2, p2))
         else (stops, b1, p))"

definition judge_deadline :: "time \<Rightarrow> task_block \<Rightarrow> task_block" where
  "judge_deadline now b =
     (case tcb_deadline b of
        None \<Rightarrow> b
      | Some dl \<Rightarrow>
          if tcb_disposition b = No_disposition
          then b\<lparr>tcb_disposition := if now \<le> time_point dl then Met else Missed\<rparr>
          else b)"

definition record_start_lateness :: "thread_context \<Rightarrow> time \<Rightarrow> task_block \<Rightarrow> process \<Rightarrow> process" where
  "record_start_lateness ctx now b p =
     (case tcb_deadline b of
        None \<Rightarrow> p
      | Some dl \<Rightarrow>
          if tcb_disposition b = No_disposition \<and> time_point dl < now
          then record_metrics_deadline_start_lateness ctx (tcb_id b) (word_of_int (now - time_point dl)) p
          else p)"

definition record_queue_wait :: "thread_context \<Rightarrow> time \<Rightarrow> task_block \<Rightarrow> process \<Rightarrow> process" where
  "record_queue_wait ctx now b p =
     (if tcb_ready_ns b \<le> now \<and> 0 < tcb_ready_ns b
      then record_metrics_ready_queue_wait ctx (tcb_id b) (word_of_int (now - tcb_ready_ns b)) p
      else p)"

definition try_start ::
  "thread_context \<Rightarrow> time \<Rightarrow> task_block \<Rightarrow> process \<Rightarrow> bool \<times> task_block \<times> process" where
  "try_start ctx now b p =
     (if tcb_state b = Ready then
        (let b1 = judge_deadline now (b\<lparr>tcb_state := TaskState.Running\<rparr>);
             p1 = record_start_lateness ctx now b p;
             p2 = record_queue_wait ctx now b1 p1;
             p3 = record_metrics_first_start ctx (tcb_id b)
               (if tcb_deadline b \<noteq> None then Some (tcb_disposition b1) else None) p2
         in (True, b1, p3))
      else (False, b, p))"

text \<open>What the three terminal operations do under the mutex.\<close>

definition finish_block :: "TaskState \<Rightarrow> task_block \<Rightarrow> task_block" where
  "finish_block st b = b\<lparr>tcb_state := st, tcb_callbacks := [], tcb_rescheduler := None\<rparr>"

definition succeed ::
  "thread_context \<Rightarrow> time \<Rightarrow> task_block \<Rightarrow> process \<Rightarrow> block_call list \<times> task_block \<times> process" where
  "succeed ctx now b p =
     (let b1 = finish_block Succeeded b;
          p1 = record_terminal_wall_time ctx now b1 p
      in (completion_calls (tcb_callbacks b), b1, record_metrics_succeeded ctx (tcb_id b) p1))"

definition set_exception ::
  "thread_context \<Rightarrow> time \<Rightarrow> nat \<Rightarrow> task_block \<Rightarrow> process \<Rightarrow> block_call list \<times> task_block \<times> process" where
  "set_exception ctx now ex b p =
     (let b1 = finish_block Failed (b\<lparr>tcb_exception := Some ex\<rparr>);
          p1 = record_terminal_wall_time ctx now b1 p
      in (completion_calls (tcb_callbacks b), b1, record_metrics_failed ctx (tcb_id b) p1))"

definition set_cancelled ::
  "thread_context \<Rightarrow> time \<Rightarrow> task_block \<Rightarrow> process \<Rightarrow> block_call list \<times> task_block \<times> process" where
  "set_cancelled ctx now b p =
     (let b1 = finish_block Cancelled b;
          p1 = record_terminal_wall_time ctx now b1 p
      in (completion_calls (tcb_callbacks b), b1, record_metrics_cancelled_cooperative ctx (tcb_id b) p1))"

lemmas block_defs [op_defs] = transition_to_suspended_def transition_to_running_def
  add_completion_callback_def request_stop_def request_cancel_def try_start_def finish_block_def
  succeed_def set_exception_def set_cancelled_def judge_deadline_def mark_observed_def
  set_ready_published_at_def set_rescheduler_def set_timer_functions_def mark_resume_handoff_def
  publish_await_suspend_def

lemma completion_calls_append [simp]: "completion_calls (xs @ ys) = completion_calls xs @ completion_calls ys"
  by (simp add: completion_calls_def)

lemma completion_calls_Nil [simp]: "completion_calls [] = []"
  by (simp add: completion_calls_def)

end
