(* ===== verification/Task_Handle.thy ===== *)
theory Task_Handle
  imports Task_Block
begin

text \<open>
  What is built on the task block: the result cell and the handles on it
  (\<open>include/astra/task_handle.hpp\<close>), the invokers that run a task's body
  (\<open>TaskInvokerModel\<close> there, \<open>SubmittedInvokerGate\<close> in \<open>src/task/task_control_block.cpp\<close>) and the
  prologue of a resumed coroutine segment (\<open>src/task/await_protocol.cpp\<close>).  A body is known by its
  outcome alone.
\<close>

section \<open>Result cells\<close>

record 'v result_cell =
  cell_value :: "'v option"
  cell_protocol :: task_block

definition new_cell :: "TaskId \<Rightarrow> Priority \<Rightarrow> TaskDeadline option \<Rightarrow> time \<Rightarrow> 'v result_cell" where
  "new_cell i prio dl now = \<lparr>cell_value = None, cell_protocol = make_task_control_block i prio dl now\<rparr>"

definition on_protocol :: "(task_block \<Rightarrow> task_block) \<Rightarrow> 'v result_cell \<Rightarrow> 'v result_cell" where
  "on_protocol f c = c\<lparr>cell_protocol := f (cell_protocol c)\<rparr>"

type_synonym 'v cell_effect = "block_call list \<times> 'v result_cell \<times> process"

definition with_protocol :: "'v result_cell \<Rightarrow> block_call list \<times> task_block \<times> process \<Rightarrow> 'v cell_effect" where
  "with_protocol c r = (case r of (calls, b, p) \<Rightarrow> (calls, c\<lparr>cell_protocol := b\<rparr>, p))"

definition set_value :: "thread_context \<Rightarrow> time \<Rightarrow> 'v \<Rightarrow> 'v result_cell \<Rightarrow> process \<Rightarrow> 'v cell_effect" where
  "set_value ctx now v c p =
     with_protocol (c\<lparr>cell_value := Some v\<rparr>) (succeed ctx now (cell_protocol c) p)"

definition cell_set_exception ::
  "thread_context \<Rightarrow> time \<Rightarrow> nat \<Rightarrow> 'v result_cell \<Rightarrow> process \<Rightarrow> 'v cell_effect" where
  "cell_set_exception ctx now ex c p = with_protocol c (set_exception ctx now ex (cell_protocol c) p)"

definition cell_set_cancelled :: "thread_context \<Rightarrow> time \<Rightarrow> 'v result_cell \<Rightarrow> process \<Rightarrow> 'v cell_effect" where
  "cell_set_cancelled ctx now c p = with_protocol c (set_cancelled ctx now (cell_protocol c) p)"

definition cell_request_cancel :: "thread_context \<Rightarrow> time \<Rightarrow> 'v result_cell \<Rightarrow> process \<Rightarrow> 'v cell_effect" where
  "cell_request_cancel ctx now c p = with_protocol c (request_cancel ctx now (cell_protocol c) p)"

definition cell_try_start ::
  "thread_context \<Rightarrow> time \<Rightarrow> 'v result_cell \<Rightarrow> process \<Rightarrow> bool \<times> 'v result_cell \<times> process" where
  "cell_try_start ctx now c p =
     (case try_start ctx now (cell_protocol c) p of (ok, b, p') \<Rightarrow> (ok, c\<lparr>cell_protocol := b\<rparr>, p'))"

datatype handle_error = Logic_error string | Task_cancelled | Rethrown nat

text \<open>The value of a finished cell, as \<open>get\<close> reads it once its wait is over.\<close>

definition cell_get :: "'v result_cell \<Rightarrow> (handle_error + 'v) \<times> 'v result_cell" where
  "cell_get c =
     (let s = tcb_state (cell_protocol c)
      in if s = Failed then (Inl (Rethrown (the (tcb_exception (cell_protocol c)))), on_protocol mark_observed c)
         else if s = Cancelled then (Inl Task_cancelled, c)
         else (Inr (the (cell_value c)), c))"

text \<open>
  A bounded wait.  A duration that is not positive only looks at the task; otherwise the caller waits
  and \<open>after\<close> is the cell when that wait returns.
\<close>

definition cell_wait_for ::
  "thread_context \<Rightarrow> int \<Rightarrow> 'v result_cell \<Rightarrow> 'v result_cell \<Rightarrow> process \<Rightarrow> WaitResult \<times> process" where
  "cell_wait_for ctx duration c after p =
     (if duration \<le> 0 then
        (let finished = is_completed (cell_protocol c)
         in (if finished then Completed else TimedOut,
             record_wait_call ctx (tcb_id (cell_protocol c)) (\<not> finished) p))
      else (if is_completed (cell_protocol after) then Completed else TimedOut, p))"

section \<open>Handles\<close>

text \<open>A handle shares a cell or is empty.\<close>

definition on_handle :: "('v result_cell \<Rightarrow> 'b) \<Rightarrow> 'v result_cell option \<Rightarrow> handle_error + 'b" where
  "on_handle f h =
     (case h of None \<Rightarrow> Inl (Logic_error ''operating on empty/moved-from TaskHandle'') | Some c \<Rightarrow> Inr (f c))"

definition handle_valid :: "'v result_cell option \<Rightarrow> bool" where
  "handle_valid h \<longleftrightarrow> h \<noteq> None"

definition handle_task_id :: "'v result_cell option \<Rightarrow> handle_error + TaskId" where
  "handle_task_id = on_handle (\<lambda>c. tcb_id (cell_protocol c))"

definition handle_priority :: "'v result_cell option \<Rightarrow> handle_error + Priority" where
  "handle_priority = on_handle (\<lambda>c. tcb_priority (cell_protocol c))"

definition handle_deadline :: "'v result_cell option \<Rightarrow> handle_error + TaskDeadline option" where
  "handle_deadline = on_handle (\<lambda>c. tcb_deadline (cell_protocol c))"

definition handle_disposition :: "'v result_cell option \<Rightarrow> handle_error + DeadlineDisposition" where
  "handle_disposition = on_handle (\<lambda>c. tcb_disposition (cell_protocol c))"

definition handle_state :: "'v result_cell option \<Rightarrow> handle_error + TaskState" where
  "handle_state = on_handle (\<lambda>c. tcb_state (cell_protocol c))"

definition handle_get :: "'v result_cell option \<Rightarrow> (handle_error + 'v) \<times> 'v result_cell option" where
  "handle_get h =
     (case h of
        None \<Rightarrow> (Inl (Logic_error ''operating on empty/moved-from TaskHandle''), None)
      | Some c \<Rightarrow> (case cell_get c of (r, c') \<Rightarrow> (r, Some c')))"

definition handle_request_cancel ::
  "thread_context \<Rightarrow> time \<Rightarrow> 'v result_cell option \<Rightarrow> process \<Rightarrow> block_call list \<times> 'v result_cell option \<times> process" where
  "handle_request_cancel ctx now h p =
     (case h of
        None \<Rightarrow> ([], None, p)
      | Some c \<Rightarrow> (case cell_request_cancel ctx now c p of (calls, c', p') \<Rightarrow> (calls, Some c', p')))"

definition throw_if_stop_requested :: "task_block \<Rightarrow> handle_error + unit" where
  "throw_if_stop_requested b = (if tcb_stop_requested b then Inl Task_cancelled else Inr ())"

section \<open>Invokers\<close>

datatype 'v outcome = Returned 'v | Threw_cancelled | Threw nat

text \<open>What the callable's invoker does with the outcome of the call.\<close>

definition finish_body :: "thread_context \<Rightarrow> time \<Rightarrow> 'v outcome \<Rightarrow> 'v result_cell \<Rightarrow> process \<Rightarrow> 'v cell_effect" where
  "finish_body ctx now r c p =
     (case r of
        Returned v \<Rightarrow> set_value ctx now v c p
      | Threw_cancelled \<Rightarrow> cell_set_cancelled ctx now c p
      | Threw ex \<Rightarrow> cell_set_exception ctx now ex c p)"

text \<open>
  The gate around a submitted task, split where the body runs: its entry, which tells whether the
  body is called, and its exit with the clock at the start and the end of the body.
\<close>

definition gate_enter ::
  "thread_context \<Rightarrow> time \<Rightarrow> 'v result_cell \<Rightarrow> process \<Rightarrow> bool \<times> block_call list \<times> 'v result_cell \<times> process" where
  "gate_enter ctx now c p =
     (case cell_try_start ctx now c p of
        (True, c1, p1) \<Rightarrow> (True, [], c1, p1)
      | (False, c1, p1) \<Rightarrow> (False, cell_request_cancel ctx now c1 p1))"

definition gate_exit :: "thread_context \<Rightarrow> time \<Rightarrow> time \<Rightarrow> 'v result_cell \<Rightarrow> process \<Rightarrow> process" where
  "gate_exit ctx t_start t_end c p =
     record_metrics_execution_segment ctx (tcb_id (cell_protocol c)) (word_of_int (t_end - t_start)) p"

definition gate_cancel_pre_start ::
  "thread_context \<Rightarrow> time \<Rightarrow> 'v result_cell \<Rightarrow> process \<Rightarrow> 'v cell_effect" where
  "gate_cancel_pre_start ctx now c p = cell_request_cancel ctx now c p"

text \<open>The prologue of a resumed segment, once the suspension it resumes from has been published.\<close>

definition resume_prologue :: "thread_context \<Rightarrow> time \<Rightarrow> task_block \<Rightarrow> process \<Rightarrow> task_block \<times> process" where
  "resume_prologue ctx now b p =
     (let b1 = transition_to_running b;
          p1 = (if tcb_ready_ns b1 \<le> now \<and> tcb_ready_ns b1 \<noteq> 0
                then record_metrics_ready_queue_wait ctx (tcb_id b) (word_of_int (now - tcb_ready_ns b1)) p
                else p);
          p2 = record_metrics_resumed (tcb_id b) p1
      in (b1, record_metrics_resume_segment ctx (tcb_id b) p2))"

section \<open>What the operations do to a block\<close>

lemma cell_protocol_simps [simp]:
  "cell_protocol (fst (snd (with_protocol c r))) = fst (snd r)"
  "fst (with_protocol c r) = fst r" "snd (snd (with_protocol c r)) = snd (snd r)"
  "cell_value (fst (snd (with_protocol c r))) = cell_value c"
  by (simp_all add: with_protocol_def split: prod.split)

end
