(* ===== verification/Task_Lifecycle.thy ===== *)
theory Task_Lifecycle
  imports Task_Handle
begin

text \<open>
  The life of the submitted tasks of a runtime: every task has its block, its result cell and a gate
  that is queued once, and any threads start, suspend, resume, finish, cancel, drop and observe them in
  any order.  What the gate and the queues guarantee is the enabledness of the operations: a gate is
  executed or dropped once, the body's outcome is delivered by the thread that runs the body, and a
  suspended body is resumed once per suspension.
\<close>

section \<open>One task\<close>

datatype gate = Queued | In_body | Parked | Left

record 'v task_run =
  run_cell :: "'v result_cell"
  run_gate :: gate
  run_starts :: nat
  run_outcome :: "'v outcome option"
  run_calls :: "block_call list"
  run_registered :: "nat list"

abbreviation run_block :: "'v task_run \<Rightarrow> task_block" where
  "run_block r \<equiv> cell_protocol (run_cell r)"

abbreviation run_state :: "'v task_run \<Rightarrow> TaskState" where
  "run_state r \<equiv> tcb_state (run_block r)"

datatype 'v task_op =
    Op_execute | Op_finish "'v outcome" | Op_drop | Op_cancel | Op_callback nat
  | Op_suspend | Op_resume | Op_segment_end time | Op_observe

definition with_cell :: "'v task_run \<Rightarrow> gate \<Rightarrow> 'v cell_effect \<Rightarrow> 'v task_run \<times> process" where
  "with_cell r g e =
     (case e of (calls, c, p) \<Rightarrow> (r\<lparr>run_cell := c, run_gate := g, run_calls := run_calls r @ calls\<rparr>, p))"

definition with_block :: "'v task_run \<Rightarrow> gate \<Rightarrow> task_block \<times> process \<Rightarrow> 'v task_run \<times> process" where
  "with_block r g e = (case e of (b, p) \<Rightarrow> (r\<lparr>run_cell := (run_cell r)\<lparr>cell_protocol := b\<rparr>, run_gate := g\<rparr>, p))"

fun task_step ::
  "thread_context \<Rightarrow> time \<Rightarrow> 'v task_op \<Rightarrow> 'v task_run \<times> process \<Rightarrow> ('v task_run \<times> process) option" where
  "task_step ctx now Op_execute (r, p) =
     (if run_gate r = Queued then
        (case gate_enter ctx now (run_cell r) p of
           (ok, e) \<Rightarrow> Some (with_cell (r\<lparr>run_starts := run_starts r + (if ok then 1 else 0)\<rparr>)
             (if ok then In_body else Left) e))
      else None)"
| "task_step ctx now (Op_finish out) (r, p) =
     (if run_gate r = In_body
      then Some (with_cell (r\<lparr>run_outcome := Some out\<rparr>) Left (finish_body ctx now out (run_cell r) p))
      else None)"
| "task_step ctx now Op_drop (r, p) =
     (if run_gate r = Queued then Some (with_cell r Left (gate_cancel_pre_start ctx now (run_cell r) p)) else None)"
| "task_step ctx now Op_cancel (r, p) =
     Some (with_cell r (run_gate r) (cell_request_cancel ctx now (run_cell r) p))"
| "task_step ctx now (Op_callback cb) (r, p) =
     (case add_completion_callback (Some cb) (run_block r) of
        (calls, b) \<Rightarrow> Some (with_cell (r\<lparr>run_registered := run_registered r @ [cb]\<rparr>) (run_gate r)
          (calls, (run_cell r)\<lparr>cell_protocol := b\<rparr>, p)))"
| "task_step ctx now Op_suspend (r, p) =
     (if run_gate r = In_body then Some (with_block r Parked (transition_to_suspended ctx (run_block r) p)) else None)"
| "task_step ctx now Op_resume (r, p) =
     (if run_gate r = Parked then Some (with_block r In_body (resume_prologue ctx now (run_block r) p)) else None)"
| "task_step ctx now (Op_segment_end t_start) (r, p) = Some (r, gate_exit ctx t_start now (run_cell r) p)"
| "task_step ctx now Op_observe (r, p) = Some (with_block r (run_gate r) (snd (run_block r, mark_observed (run_block r)), p))"

definition new_run :: "TaskId \<Rightarrow> Priority \<Rightarrow> TaskDeadline option \<Rightarrow> time \<Rightarrow> 'v task_run" where
  "new_run i prio dl now = \<lparr>run_cell = new_cell i prio dl now, run_gate = Queued, run_starts = 0,
     run_outcome = None, run_calls = [], run_registered = []\<rparr>"

section \<open>The invariant of a task\<close>

text \<open>The gate fixes the state, and the state what has been called and stored.\<close>

definition gate_state :: "gate \<Rightarrow> TaskState \<Rightarrow> bool" where
  "gate_state g s \<longleftrightarrow>
     (case g of
        Queued \<Rightarrow> s \<in> {Ready, Cancelled}
      | In_body \<Rightarrow> s = TaskState.Running
      | Parked \<Rightarrow> s = Suspended
      | Left \<Rightarrow> s \<in> {Succeeded, Failed, Cancelled})"

fun completion_ids :: "block_call list \<Rightarrow> nat list" where
  "completion_ids [] = []"
| "completion_ids (Completion_callback n # xs) = n # completion_ids xs"
| "completion_ids (Stop_callback n # xs) = completion_ids xs"

lemma completion_ids_append [simp]: "completion_ids (xs @ ys) = completion_ids xs @ completion_ids ys"
  by (induction xs rule: completion_ids.induct) auto

lemma completion_ids_calls [simp]: "completion_ids (completion_calls cbs) = map the (filter (\<lambda>c. c \<noteq> None) cbs)"
  by (induction cbs) (auto simp: completion_calls_def)

lemma completion_ids_stops [simp]: "completion_ids (map Stop_callback xs) = []"
  by (induction xs) auto

definition callbacks_ok :: "'v task_run \<Rightarrow> bool" where
  "callbacks_ok r \<longleftrightarrow>
     (if is_completed (run_block r)
      then completion_ids (run_calls r) = run_registered r \<and> tcb_callbacks (run_block r) = []
      else completion_ids (run_calls r) = [] \<and> tcb_callbacks (run_block r) = map Some (run_registered r))"

definition outcome_ok :: "'v task_run \<Rightarrow> bool" where
  "outcome_ok r \<longleftrightarrow>
     (case run_outcome r of
        None \<Rightarrow> run_state r \<notin> {Succeeded, Failed} \<and> (run_state r = Cancelled \<longrightarrow> run_starts r = 0)
      | Some (Returned v) \<Rightarrow> run_state r = Succeeded \<and> cell_value (run_cell r) = Some v
      | Some Threw_cancelled \<Rightarrow> run_state r = Cancelled
      | Some (Threw ex) \<Rightarrow> run_state r = Failed \<and> tcb_exception (run_block r) = Some ex)"

definition starts_ok :: "'v task_run \<Rightarrow> bool" where
  "starts_ok r \<longleftrightarrow> run_starts r = (if run_gate r \<in> {In_body, Parked} \<or> run_outcome r \<noteq> None then 1 else 0)"

definition run_ok :: "'v task_run \<Rightarrow> bool" where
  "run_ok r \<longleftrightarrow> gate_state (run_gate r) (run_state r) \<and> callbacks_ok r \<and> outcome_ok r \<and> starts_ok r \<and>
     (run_gate r \<noteq> Left \<longrightarrow> run_outcome r = None)"

lemmas run_ok_defs [inv_defs] = run_ok_def gate_state_def callbacks_ok_def outcome_ok_def starts_ok_def

lemmas run_op_defs [op_defs] = with_cell_def with_block_def with_protocol_def gate_enter_def gate_cancel_pre_start_def
  cell_try_start_def cell_request_cancel_def finish_body_def set_value_def cell_set_exception_def
  cell_set_cancelled_def resume_prologue_def

lemma run_ok_new: "run_ok (new_run i prio dl now)"
  by (simp add: inv_defs new_run_def new_cell_def make_task_control_block_def is_completed_def)

lemma judge_deadline_frame [simp]:
  "tcb_state (judge_deadline now b) = tcb_state b" "tcb_callbacks (judge_deadline now b) = tcb_callbacks b"
  "tcb_exception (judge_deadline now b) = tcb_exception b" "tcb_id (judge_deadline now b) = tcb_id b"
  "tcb_deadline (judge_deadline now b) = tcb_deadline b" "tcb_ready_ns (judge_deadline now b) = tcb_ready_ns b"
  by (simp_all add: judge_deadline_def split: option.split)

lemma request_stop_frame [simp]:
  "tcb_state (snd (request_stop b)) = tcb_state b" "tcb_callbacks (snd (request_stop b)) = tcb_callbacks b"
  "tcb_exception (snd (request_stop b)) = tcb_exception b" "tcb_id (snd (request_stop b)) = tcb_id b"
  "completion_ids (fst (request_stop b)) = []" "tcb_admitted_ns (snd (request_stop b)) = tcb_admitted_ns b"
  by (simp_all add: request_stop_def)

text \<open>Cancelling either changes nothing but the stop state, or cancels a task that has not started.\<close>

lemma request_cancel_cases:
  obtains stops b1 where "completion_ids stops = []" "tcb_state b1 = tcb_state b" "tcb_callbacks b1 = tcb_callbacks b"
      "tcb_exception b1 = tcb_exception b" "tcb_state b \<noteq> Ready" "request_cancel ctx now b p = (stops, b1, p)"
      "tcb_id b1 = tcb_id b"
    | calls b1 p1 where "completion_ids calls = map the (filter (\<lambda>c. c \<noteq> None) (tcb_callbacks b))"
      "tcb_state b = Ready" "tcb_state b1 = Cancelled" "tcb_callbacks b1 = []" "tcb_exception b1 = tcb_exception b"
      "request_cancel ctx now b p = (calls, b1, p1)" "tcb_id b1 = tcb_id b"
proof (cases "request_stop b")
  case (Pair stops c)
  then have stops: "completion_ids stops = []"
    using request_stop_frame(5) [of b] by simp
  have c: "tcb_state c = tcb_state b" "tcb_callbacks c = tcb_callbacks b" "tcb_exception c = tcb_exception b"
    "tcb_id c = tcb_id b"
    using request_stop_frame [of b] Pair by simp_all
  show thesis
  proof (cases "tcb_state b = Ready")
    case True
    show thesis
by (rule that(2) [of "stops @ completion_calls (tcb_callbacks b)"
            "c\<lparr>tcb_state := Cancelled, tcb_callbacks := []\<rparr>"]) (simp_all add: stops c True request_cancel_def Pair Let_def)
  next
    case False
    show thesis
      by (rule that(1) [OF stops c(1-3) False _ c(4)]) (use c False in \<open>simp add: request_cancel_def Pair\<close>)
  qed
qed

lemma try_start_cases:
  obtains p1 where "tcb_state b = Ready"
      "try_start ctx now b p = (True, judge_deadline now (b\<lparr>tcb_state := TaskState.Running\<rparr>), p1)"
    | "tcb_state b \<noteq> Ready" "try_start ctx now b p = (False, b, p)"
  by (cases "tcb_state b = Ready") (auto simp: try_start_def Let_def)

lemma map_the_Some [simp]: "map the (filter (\<lambda>c. \<exists>y. c = Some y) (map Some xs)) = xs"
  "map the (filter (\<lambda>c. c \<noteq> None) (map Some xs)) = xs"
  by (induction xs) auto

lemma run_ok_cancel:
  assumes ok: "run_ok r" and g: "g = run_gate r \<or> run_gate r = Queued \<and> g = Left"
  shows "run_ok (fst (with_cell r g (cell_request_cancel ctx now (run_cell r) p)))"
  by (rule request_cancel_cases [of "run_block r" ctx now p]; use ok g in \<open>auto simp: inv_defs with_cell_def cell_request_cancel_def with_protocol_def is_completed_def
      split: gate.splits option.splits outcome.splits\<close>)

text \<open>The terminal operations, seen by the callbacks and the outcome.\<close>

lemma finish_body_run:
  assumes ok: "run_ok r" and g: "run_gate r = In_body"
  shows "run_ok (fst (with_cell (r\<lparr>run_outcome := Some out\<rparr>) Left (finish_body ctx now out (run_cell r) p)))"
  using ok g
  by (cases out)
    (auto simp: inv_defs run_op_defs succeed_def set_exception_def set_cancelled_def finish_block_def
      is_completed_def Let_def split: option.splits)

lemma suspend_run:
  assumes ok: "run_ok r" and g: "run_gate r = In_body"
  shows "run_ok (fst (with_block r Parked (transition_to_suspended ctx (run_block r) p)))"
  using ok g by (auto simp: inv_defs with_block_def transition_to_suspended_def is_completed_def split: option.splits)

lemma resume_run:
  assumes ok: "run_ok r" and g: "run_gate r = Parked"
  shows "run_ok (fst (with_block r In_body (resume_prologue ctx now (run_block r) p)))"
  using ok g
  by (auto simp: inv_defs with_block_def resume_prologue_def transition_to_running_def is_completed_def Let_def
      split: option.splits)

lemma callback_run:
  assumes ok: "run_ok r" and a: "add_completion_callback (Some cb) (run_block r) = (calls, b)"
  shows "run_ok (fst (with_cell (r\<lparr>run_registered := run_registered r @ [cb]\<rparr>) (run_gate r)
    (calls, (run_cell r)\<lparr>cell_protocol := b\<rparr>, p)))"
  using assms
  by (auto simp: inv_defs with_cell_def add_completion_callback_def is_completed_def
      split: if_splits option.splits gate.splits outcome.splits)

lemma execute_run:
  assumes ok: "run_ok r" and g: "run_gate r = Queued" and e: "gate_enter ctx now (run_cell r) p = (okay, e)"
  shows "run_ok (fst (with_cell (r\<lparr>run_starts := run_starts r + (if okay then 1 else 0)\<rparr>)
             (if okay then In_body else Left) e))"
proof (cases "run_state r = Ready")
  case True
  then obtain p1 where t: "try_start ctx now (run_block r) p =
      (True, judge_deadline now ((run_block r)\<lparr>tcb_state := TaskState.Running\<rparr>), p1)"
    by (cases rule: try_start_cases [of "run_block r" ctx now p]) auto
  have "e = ([], (run_cell r)\<lparr>cell_protocol := judge_deadline now ((run_block r)\<lparr>tcb_state := TaskState.Running\<rparr>)\<rparr>, p1)"
    and "okay"
    using e by (auto simp: gate_enter_def cell_try_start_def t)
  then show ?thesis
    using ok g True by (auto simp: inv_defs with_cell_def is_completed_def split: option.splits)
next
  case False
  then have "okay = False" and "e = cell_request_cancel ctx now (run_cell r) p"
    using e by (auto simp: gate_enter_def cell_try_start_def try_start_def)
  then show ?thesis
    using run_ok_cancel [OF ok, of Left ctx now p] g by simp
qed

lemma observe_run: "run_ok r \<Longrightarrow> run_ok (fst (with_block r (run_gate r) (mark_observed (run_block r), p)))"
  by (auto simp: inv_defs with_block_def mark_observed_def is_completed_def split: option.splits gate.splits outcome.splits)

lemma task_step_fst_ok:
  assumes "task_step ctx now op (r, p) = Some s" and "run_ok r"
  shows "run_ok (fst s)"
proof (cases op)
  case Op_execute
  obtain okay e where e: "gate_enter ctx now (run_cell r) p = (okay, e)"
    by (cases "gate_enter ctx now (run_cell r) p")
  then show ?thesis
    using assms execute_run [OF assms(2) _ e] Op_execute by (simp split: if_splits)
next
  case (Op_callback cb)
  obtain calls b where a: "add_completion_callback (Some cb) (run_block r) = (calls, b)"
    by (cases "add_completion_callback (Some cb) (run_block r)")
  then show ?thesis
    using assms callback_run [OF assms(2) a, of p] Op_callback by simp
next
  case (Op_finish out)
  with assms show ?thesis
    using finish_body_run [OF assms(2), of out ctx now p] by (simp split: if_splits)
next
  case Op_drop
  with assms show ?thesis
    using run_ok_cancel [OF assms(2), of Left ctx now p] by (simp add: gate_cancel_pre_start_def split: if_splits)
next
  case Op_cancel
  with assms show ?thesis
    using run_ok_cancel [OF assms(2), of "run_gate r" ctx now p] by simp
next
  case Op_suspend
  with assms show ?thesis
    using suspend_run [OF assms(2), of ctx p] by (simp split: if_splits)
next
  case Op_resume
  with assms show ?thesis
    using resume_run [OF assms(2), of ctx now p] by (simp split: if_splits)
next
  case Op_observe
  with assms show ?thesis
    using observe_run [OF assms(2), of p] by simp
qed (use assms in auto)

lemma task_step_ok: "task_step ctx now op (r, p) = Some (r', p') \<Longrightarrow> run_ok r \<Longrightarrow> run_ok r'"
  using task_step_fst_ok [of ctx now op r p "(r', p')"] by simp

fun task_steps :: "(thread_context \<times> time \<times> 'v task_op) list \<Rightarrow> 'v task_run \<times> process \<Rightarrow> ('v task_run \<times> process) option" where
  "task_steps [] s = Some s"
| "task_steps ((ctx, now, op) # ops) s = (case task_step ctx now op s of None \<Rightarrow> None | Some s' \<Rightarrow> task_steps ops s')"

lemma task_steps_ok: "task_steps ops (r, p) = Some (r', p') \<Longrightarrow> run_ok r \<Longrightarrow> run_ok r'"
proof (induction ops arbitrary: r p)
  case (Cons x ops)
  obtain ctx now op where x: "x = (ctx, now, op)" by (cases x)
  with Cons.prems(1) obtain r1 p1 where s: "task_step ctx now op (r, p) = Some (r1, p1)" "task_steps ops (r1, p1) = Some (r', p')"
    by (auto split: option.splits)
  then show ?case
    using Cons.IH [OF s(2)] task_step_ok [OF s(1) Cons.prems(2)] by blast
qed simp

section \<open>What a task guarantees\<close>

text \<open>A finished task is left alone by everything that may still happen to it.\<close>

lemma completed_step:
  assumes st: "task_step ctx now op (r, p) = Some s" and ok: "run_ok r" and fin: "is_completed (run_block r)"
  shows "run_state (fst s) = run_state r \<and> run_outcome (fst s) = run_outcome r \<and> run_starts (fst s) = run_starts r \<and>
    fst (cell_get (run_cell (fst s))) = fst (cell_get (run_cell r))"
proof -
  have nr: "run_state r \<noteq> Ready" "run_gate r \<noteq> In_body" "run_gate r \<noteq> Parked"
    using ok fin by (auto simp: inv_defs is_completed_def)
  have cancel: "\<exists>stops b1. request_cancel ctx now (run_block r) p = (stops, b1, p) \<and> tcb_state b1 = run_state r \<and>
      tcb_exception b1 = tcb_exception (run_block r)"
    using nr(1) by (cases rule: request_cancel_cases [of "run_block r" ctx now p]) auto
  show ?thesis
  proof (cases op)
    case Op_execute
    then show ?thesis
      using st nr(1) cancel
      by (auto simp: gate_enter_def cell_try_start_def try_start_def with_cell_def cell_request_cancel_def
          with_protocol_def cell_get_def on_protocol_def Let_def split: if_splits)
  next
    case Op_drop
    then show ?thesis
      using st cancel
      by (auto simp: gate_cancel_pre_start_def with_cell_def cell_request_cancel_def with_protocol_def cell_get_def
          on_protocol_def Let_def split: if_splits)
  next
    case Op_cancel
    then show ?thesis
      using st cancel
      by (auto simp: with_cell_def cell_request_cancel_def with_protocol_def cell_get_def on_protocol_def Let_def)
  next
    case (Op_callback cb)
    then show ?thesis
      using st fin by (auto simp: add_completion_callback_def with_cell_def cell_get_def on_protocol_def Let_def)
  next
    case Op_observe
    then show ?thesis
      using st by (auto simp: with_block_def mark_observed_def cell_get_def on_protocol_def Let_def)
  qed (use st nr in auto)
qed

lemma completed_steps:
  "task_steps ops (r, p) = Some s \<Longrightarrow> run_ok r \<Longrightarrow> is_completed (run_block r) \<Longrightarrow>
   run_state (fst s) = run_state r \<and> run_outcome (fst s) = run_outcome r \<and> run_starts (fst s) = run_starts r \<and>
   fst (cell_get (run_cell (fst s))) = fst (cell_get (run_cell r))"
proof (induction ops arbitrary: r p)
  case (Cons x ops)
  obtain ctx now op where x: "x = (ctx, now, op)" by (cases x)
  with Cons.prems(1) obtain r1 p1 where s: "task_step ctx now op (r, p) = Some (r1, p1)" "task_steps ops (r1, p1) = Some s"
    by (auto split: option.splits)
  note c = completed_step [OF s(1) Cons.prems(2,3), simplified]
  have "is_completed (run_block r1)"
    using c Cons.prems(3) by (simp add: is_completed_def)
  then show ?case
    using Cons.IH [OF s(2) task_step_ok [OF s(1) Cons.prems(2)]] c by simp
qed auto

fun result_of :: "'v outcome \<Rightarrow> handle_error + 'v" where
  "result_of (Returned v) = Inr v"
| "result_of Threw_cancelled = Inl Task_cancelled"
| "result_of (Threw ex) = Inl (Rethrown ex)"

text \<open>C2: A submitted task runs at most once and ends at most once: under any sequence of executions,
  drops, cancellations, suspensions, resumptions and observations of its gate and block, its body is
  started at most once; it is finished exactly when its body has delivered an outcome or it was
  cancelled before it started; \<open>get\<close> then reports exactly that outcome; every completion callback has
  been run exactly once, in registration order, and none earlier; and nothing that happens afterwards
  changes the state or the result.\<close>

theorem task_runs_and_ends_once:
  assumes "task_steps ops (new_run i prio dl now0, p0) = Some (r, p)"
  shows "run_starts r \<le> 1 \<and>
    (is_completed (run_block r) \<longleftrightarrow> run_outcome r \<noteq> None \<or> run_state r = Cancelled \<and> run_starts r = 0) \<and>
    (\<forall>out. run_outcome r = Some out \<longrightarrow> run_starts r = 1 \<and> fst (cell_get (run_cell r)) = result_of out) \<and>
    (run_outcome r = None \<and> is_completed (run_block r) \<longrightarrow> fst (cell_get (run_cell r)) = Inl Task_cancelled) \<and>
    completion_ids (run_calls r) = (if is_completed (run_block r) then run_registered r else []) \<and>
    (\<forall>later r' p'. is_completed (run_block r) \<longrightarrow> task_steps later (r, p) = Some (r', p') \<longrightarrow>
       run_state r' = run_state r \<and> run_starts r' = run_starts r \<and>
       fst (cell_get (run_cell r')) = fst (cell_get (run_cell r)))"
proof -
  have ok: "run_ok r"
    using task_steps_ok [OF assms run_ok_new] .
  have stable: "run_state r' = run_state r \<and> run_starts r' = run_starts r \<and>
      fst (cell_get (run_cell r')) = fst (cell_get (run_cell r))"
    if "is_completed (run_block r)" "task_steps later (r, p) = Some (r', p')" for later r' p'
    using completed_steps [OF that(2) ok that(1)] by simp
  have "run_starts r \<le> 1"
    using ok by (simp add: inv_defs)
  moreover have "is_completed (run_block r) \<longleftrightarrow> run_outcome r \<noteq> None \<or> run_state r = Cancelled \<and> run_starts r = 0"
    using ok by (auto simp: inv_defs is_completed_def split: option.splits outcome.splits)
  moreover have "run_starts r = 1 \<and> fst (cell_get (run_cell r)) = result_of out" if "run_outcome r = Some out" for out
    using ok that by (cases out) (auto simp: inv_defs cell_get_def)
  moreover have "fst (cell_get (run_cell r)) = Inl Task_cancelled"
    if "run_outcome r = None" "is_completed (run_block r)"
    using ok that by (auto simp: inv_defs cell_get_def is_completed_def)
  moreover have "completion_ids (run_calls r) = (if is_completed (run_block r) then run_registered r else [])"
    using ok by (auto simp: inv_defs)
  ultimately show ?thesis
    using stable by blast
qed

definition demo_ops :: "(thread_context \<times> time \<times> nat task_op) list" where
  "demo_ops = [(foreign_thread, 1, Op_callback 7), (foreign_thread, 2, Op_execute), (foreign_thread, 3, Op_suspend),
     (foreign_thread, 4, Op_cancel), (foreign_thread, 5, Op_resume), (foreign_thread, 6, Op_finish (Returned 42)),
     (foreign_thread, 7, Op_cancel), (foreign_thread, 8, Op_callback 9)]"

theorem task_runs_and_ends_once_witness:
  "\<exists>r p. task_steps demo_ops (new_run (TaskId (RuntimeId 1) 1) Normal None 1, demo_process) = Some (r, p) \<and>
     fst (cell_get (run_cell r)) = Inr 42 \<and> completion_ids (run_calls r) = [7, 9]"
proof -
  obtain r p where r: "task_steps demo_ops (new_run (TaskId (RuntimeId 1) 1) Normal None 1, demo_process) = Some (r, p)"
    and out: "run_outcome r = Some (Returned 42)" and reg: "run_registered r = [7, 9]"
    by (simp add: demo_ops_def new_run_def new_cell_def make_task_control_block_def op_defs Let_def is_completed_def
        record_terminal_wall_time_def)
  have "is_completed (run_block r)" "fst (cell_get (run_cell r)) = Inr 42"
    "completion_ids (run_calls r) = (if is_completed (run_block r) then run_registered r else [])"
    using task_runs_and_ends_once [OF r] out by auto
  with r reg show ?thesis by auto
qed

end
