(* ===== verification/Task_Gauges.thy ===== *)
theory Task_Gauges
  imports Task_Lifecycle
begin

text \<open>
  The tasks of a runtime and its metrics together: every step of every task's block records exactly
  the lifecycle event that its change of state calls for, so the gauges count the blocks by state.
\<close>

section \<open>What a step does to the gauges\<close>

definition moved :: "RuntimeId \<Rightarrow> RuntimeDiagnostics \<Rightarrow> u64 \<times> u64 \<times> u64 \<Rightarrow> process \<Rightarrow> bool" where
  "moved rt d g p \<longleftrightarrow> (\<exists>m. find_runtime_instance rt p = Some (d\<lparr>diag_metrics := m\<rparr>) \<and>
     level m = level (diag_metrics d) \<and> gauges m = g)"

lemma moved_refl: "find_runtime_instance rt p = Some d \<Longrightarrow> moved rt d (gauges (diag_metrics d)) p"
  by (auto simp: moved_def intro: exI [of _ "diag_metrics d"])

lemma record_duration_gauges [simp]:
  "level (record_duration ctx k ns m) = level m" "gauges (record_duration ctx k ns m) = gauges m"
  by (simp_all add: record_duration_def on_current_shard_def gauges_def split: shard_choice.split)

lemma moved_detailed:
  assumes "moved rt d g p" and "\<And>m. level (f m) = level m" and "\<And>m. gauges (f m) = gauges m"
  shows "moved rt d g (on_detailed rt f p)"
  using assms
  by (auto simp: moved_def on_detailed_def update_metrics_def find_runtime_instance_def split: option.splits)

lemmas moved_wall_time = moved_detailed [of _ _ _ _ "record_duration ctx H_task_wall_time ns" for ctx ns, simplified]
lemmas moved_lateness = moved_detailed [of _ _ _ _ "record_duration ctx H_deadline_start_lateness ns" for ctx ns, simplified]
lemmas moved_queue_wait = moved_detailed [of _ _ _ _ "record_duration ctx H_ready_queue_wait ns" for ctx ns, simplified]
lemmas moved_segment = moved_detailed [of _ _ _ _ "record_duration ctx H_execution_segment ns" for ctx ns, simplified]

lemma moved_terminal_wall_time:
  "moved (task_runtime (tcb_id b)) d g p \<Longrightarrow> moved (task_runtime (tcb_id b)) d g (record_terminal_wall_time ctx now b p)"
  by (simp add: record_terminal_wall_time_def record_metrics_task_wall_time_def moved_wall_time)

lemma moved_record_start_lateness:
  "moved (task_runtime (tcb_id b)) d g p \<Longrightarrow> moved (task_runtime (tcb_id b)) d g (record_start_lateness ctx now b p)"
  by (simp add: record_start_lateness_def record_metrics_deadline_start_lateness_def moved_lateness split: option.split)

lemma moved_record_queue_wait:
  "moved (task_runtime (tcb_id b)) d g p \<Longrightarrow> moved (task_runtime (tcb_id b)) d g (record_queue_wait ctx now b p)"
  by (simp add: record_queue_wait_def record_metrics_ready_queue_wait_def moved_queue_wait)

lemma moved_event:
  assumes "moved (task_runtime t) d (gauges (diag_metrics d)) p" and "level (diag_metrics d) \<noteq> Off"
  shows "moved (task_runtime t) d (event_gauges e (diag_metrics d)) (record_event ctx t e p)"
proof -
  obtain m where m: "find_runtime_instance (task_runtime t) p = Some (d\<lparr>diag_metrics := m\<rparr>)"
    "level m = level (diag_metrics d)" "gauges m = gauges (diag_metrics d)"
    using assms(1) by (auto simp: moved_def)
  have "event_gauges e m = event_gauges e (diag_metrics d)"
    using m(3) by (simp add: event_gauges_def gauges_def split: task_event.split)
  then show ?thesis
    using record_event_gauges [OF m(1), of ctx e] m(2) assms(2) by (auto simp: moved_def)
qed

fun phase_of :: "TaskState \<Rightarrow> task_phase" where
  "phase_of Ready = Phase_ready"
| "phase_of TaskState.Running = Phase_running"
| "phase_of Suspended = Phase_suspended"
| "phase_of _ = Phase_done"

text \<open>A step on a block either leaves its phase and the gauges alone, or is one lifecycle event on both.\<close>

definition tracked :: "RuntimeDiagnostics \<Rightarrow> task_block \<Rightarrow> task_block \<Rightarrow> process \<Rightarrow> bool" where
  "tracked d b b' p' \<longleftrightarrow> tcb_id b' = tcb_id b \<and>
     (phase_of (tcb_state b') = phase_of (tcb_state b) \<and> moved (task_runtime (tcb_id b)) d (gauges (diag_metrics d)) p' \<or>
      (\<exists>e. phase_step e (phase_of (tcb_state b)) = Some (phase_of (tcb_state b')) \<and>
         moved (task_runtime (tcb_id b)) d (event_gauges e (diag_metrics d)) p'))"

lemma tracked_same:
  "moved (task_runtime (tcb_id b)) d (gauges (diag_metrics d)) p \<Longrightarrow> tcb_id b' = tcb_id b \<Longrightarrow>
   tcb_state b' = tcb_state b \<Longrightarrow> tracked d b b' p"
  by (simp add: tracked_def)

lemma tracked_event:
  assumes "moved (task_runtime (tcb_id b)) d (gauges (diag_metrics d)) p" and "level (diag_metrics d) \<noteq> Off"
    and "phase_step e (phase_of (tcb_state b)) = Some (phase_of (tcb_state b'))" and "tcb_id b' = tcb_id b"
    and "p' = record_event ctx (tcb_id b) e p"
  shows "tracked d b b' p'"
  using moved_event [OF assms(1,2), of e ctx] assms(3-5) by (auto simp: tracked_def)

lemma tracked_try_start:
  assumes m: "moved (task_runtime (tcb_id b)) d (gauges (diag_metrics d)) p" and l: "level (diag_metrics d) \<noteq> Off"
    and t: "try_start ctx now b p = (okay, b', p')"
  shows "tracked d b b' p'"
proof (cases "tcb_state b = Ready")
  case False
  then show ?thesis
    using t m by (auto simp: try_start_def intro: tracked_same)
next
  case True
  let ?b1 = "judge_deadline now (b\<lparr>tcb_state := TaskState.Running\<rparr>)"
  let ?p2 = "record_queue_wait ctx now ?b1 (record_start_lateness ctx now b p)"
  let ?e = "Ev_start (if tcb_deadline b \<noteq> None then Some (tcb_disposition ?b1) else None)"
  have "moved (task_runtime (tcb_id b)) d (gauges (diag_metrics d)) ?p2"
    using moved_record_queue_wait [of ?b1] moved_record_start_lateness [OF m] by simp
  moreover have "b' = ?b1" "p' = record_event ctx (tcb_id b) ?e ?p2"
    using t True by (auto simp: try_start_def Let_def)
  ultimately show ?thesis
    using l True by (intro tracked_event [where e = ?e and p = ?p2 and ctx = ctx]) simp_all
qed

lemma tracked_request_cancel:
  assumes m: "moved (task_runtime (tcb_id b)) d (gauges (diag_metrics d)) p" and l: "level (diag_metrics d) \<noteq> Off"
    and t: "request_cancel ctx now b p = (calls, b', p')"
  shows "tracked d b b' p'"
proof -
  obtain stops b1 where s: "request_stop b = (stops, b1)"
    by (cases "request_stop b")
  have fr: "tcb_state b1 = tcb_state b" "tcb_id b1 = tcb_id b"
    using request_stop_frame [of b] s by simp_all
  show ?thesis
  proof (cases "tcb_state b = Ready")
    case False
    then show ?thesis
      using t m fr by (auto simp: request_cancel_def s intro: tracked_same)
  next
    case True
    let ?b2 = "b1\<lparr>tcb_state := Cancelled, tcb_callbacks := []\<rparr>"
    let ?p1 = "record_terminal_wall_time ctx now ?b2 p"
    let ?e = "Ev_cancel_before_start (tcb_deadline b \<noteq> None)"
    have "moved (task_runtime (tcb_id b)) d (gauges (diag_metrics d)) ?p1"
      using moved_terminal_wall_time [of ?b2 d] m fr by simp
    moreover have "b' = ?b2" "p' = record_event ctx (tcb_id b) ?e ?p1"
      using t True fr by (auto simp: request_cancel_def s Let_def)
    ultimately show ?thesis
      using l True fr by (intro tracked_event [where e = ?e and p = ?p1 and ctx = ctx]) simp_all
  qed
qed

lemma tracked_finish:
  assumes m: "moved (task_runtime (tcb_id b)) d (gauges (diag_metrics d)) p" and l: "level (diag_metrics d) \<noteq> Off"
    and run: "tcb_state b = TaskState.Running"
    and b': "tcb_id b' = tcb_id b" "phase_of (tcb_state b') = Phase_done"
    and e: "phase_step e Phase_running = Some Phase_done"
    and p': "p' = record_event ctx (tcb_id b) e (record_terminal_wall_time ctx now b' p)"
  shows "tracked d b b' p'"
proof (rule tracked_event [OF _ l _ b'(1) p'])
  show "moved (task_runtime (tcb_id b)) d (gauges (diag_metrics d)) (record_terminal_wall_time ctx now b' p)"
    using moved_terminal_wall_time [of b' d] m b'(1) by simp
qed (use run b'(2) e in simp)

lemma tracked_finish_body:
  assumes m: "moved (task_runtime (tcb_id (cell_protocol c))) d (gauges (diag_metrics d)) p"
    and l: "level (diag_metrics d) \<noteq> Off" and run: "tcb_state (cell_protocol c) = TaskState.Running"
  shows "tracked d (cell_protocol c) (cell_protocol (fst (snd (finish_body ctx now out c p)))) (snd (snd (finish_body ctx now out c p)))"
proof (cases out)
  case (Returned v)
  then show ?thesis
    by (intro tracked_finish [OF m l run, where e = Ev_succeed and ctx = ctx and now = now])
      (simp_all add: finish_body_def set_value_def succeed_def finish_block_def Let_def)
next
  case Threw_cancelled
  then show ?thesis
    by (intro tracked_finish [OF m l run, where e = Ev_cancel_cooperative and ctx = ctx and now = now])
      (simp_all add: finish_body_def cell_set_cancelled_def set_cancelled_def finish_block_def Let_def)
next
  case (Threw ex)
  then show ?thesis
    by (intro tracked_finish [OF m l run, where e = Ev_fail and ctx = ctx and now = now])
      (simp_all add: finish_body_def cell_set_exception_def set_exception_def finish_block_def Let_def)
qed

lemma tracked_suspend:
  assumes "moved (task_runtime (tcb_id b)) d (gauges (diag_metrics d)) p" and "level (diag_metrics d) \<noteq> Off"
    and "tcb_state b = TaskState.Running"
  shows "tracked d b (fst (transition_to_suspended ctx b p)) (snd (transition_to_suspended ctx b p))"
  using assms(3)
  by (intro tracked_event [OF assms(1,2), where e = Ev_suspend and ctx = ctx]) (simp_all add: transition_to_suspended_def)

lemma tracked_resume:
  assumes m: "moved (task_runtime (tcb_id b)) d (gauges (diag_metrics d)) p" and l: "level (diag_metrics d) \<noteq> Off"
    and s: "tcb_state b = Suspended"
  shows "tracked d b (fst (resume_prologue ctx now b p)) (snd (resume_prologue ctx now b p))"
proof -
  define p1 where "p1 = (if tcb_ready_ns (transition_to_running b) \<le> now \<and> tcb_ready_ns (transition_to_running b) \<noteq> 0
    then record_metrics_ready_queue_wait ctx (tcb_id b) (word_of_int (now - tcb_ready_ns (transition_to_running b))) p else p)"
  have "moved (task_runtime (tcb_id b)) d (gauges (diag_metrics d)) p1"
    using m by (simp add: p1_def record_metrics_ready_queue_wait_def moved_queue_wait)
  then show ?thesis
    by (rule tracked_event [OF _ l, where e = Ev_resume and ctx = ctx])
      (use s in \<open>simp_all add: resume_prologue_def p1_def Let_def transition_to_running_def\<close>)
qed

lemma run_cancel_tracked:
  assumes "moved (task_runtime (tcb_id (run_block r))) d (gauges (diag_metrics d)) p" and "level (diag_metrics d) \<noteq> Off"
  shows "tracked d (run_block r) (run_block (fst (with_cell r g (cell_request_cancel ctx now (run_cell r) p))))
    (snd (with_cell r g (cell_request_cancel ctx now (run_cell r) p)))"
proof -
  obtain calls b' p' where c: "request_cancel ctx now (run_block r) p = (calls, b', p')"
    by (cases "request_cancel ctx now (run_block r) p")
  show ?thesis
    using tracked_request_cancel [OF assms c] by (simp add: with_cell_def cell_request_cancel_def with_protocol_def c)
qed

lemma task_step_tracked:
  assumes st: "task_step ctx now op (r, p) = Some s" and ok: "run_ok r"
    and m: "moved (task_runtime (tcb_id (run_block r))) d (gauges (diag_metrics d)) p" and l: "level (diag_metrics d) \<noteq> Off"
  shows "tracked d (run_block r) (run_block (fst s)) (snd s)"
proof (cases op)
  case Op_execute
  obtain okay b' p' where t: "try_start ctx now (run_block r) p = (okay, b', p')"
    by (cases "try_start ctx now (run_block r) p")
  note tr = tracked_try_start [OF m l t]
  show ?thesis
  proof (cases okay)
    case True
    then show ?thesis
      using st tr Op_execute by (auto simp: gate_enter_def cell_try_start_def t with_cell_def split: if_splits)
  next
    case False
    then have "b' = run_block r" "p' = p"
      using t by (auto simp: try_start_def Let_def split: if_splits)
    then show ?thesis
      using st False run_cancel_tracked [OF m l, of Left ctx now] Op_execute
      by (auto simp: gate_enter_def cell_try_start_def t split: if_splits)
  qed
next
  case (Op_callback cb)
  then show ?thesis
    using st m by (auto simp: add_completion_callback_def with_cell_def split: if_splits intro: tracked_same)
next
  case (Op_finish out)
  have "run_state r = TaskState.Running"
    using ok st Op_finish by (auto simp: inv_defs split: if_splits)
  from tracked_finish_body [OF m l this, of ctx now out] show ?thesis
    using st Op_finish by (auto simp: with_cell_def split: if_splits prod.splits)
next
  case Op_drop
  then show ?thesis
    using st run_cancel_tracked [OF m l, of Left ctx now] by (auto simp: gate_cancel_pre_start_def split: if_splits)
next
  case Op_cancel
  then show ?thesis
    using st run_cancel_tracked [OF m l, of "run_gate r" ctx now] by auto
next
  case Op_suspend
  have "run_state r = TaskState.Running"
    using ok st Op_suspend by (auto simp: inv_defs split: if_splits)
  from tracked_suspend [OF m l this, of ctx] show ?thesis
    using st Op_suspend by (auto simp: with_block_def split: if_splits prod.splits)
next
  case Op_resume
  have "run_state r = Suspended"
    using ok st Op_resume by (auto simp: inv_defs split: if_splits)
  from tracked_resume [OF m l this, of ctx now] show ?thesis
    using st Op_resume by (auto simp: with_block_def split: if_splits prod.splits)
next
  case Op_segment_end
  then show ?thesis
    using st m by (auto simp: gate_exit_def record_metrics_execution_segment_def intro!: tracked_same moved_segment)
next
  case Op_observe
  then show ?thesis
    using st m by (auto simp: with_block_def mark_observed_def intro: tracked_same)
qed

section \<open>All the tasks\<close>

fun pool_steps ::
  "(thread_context \<times> time \<times> TaskId \<times> 'v task_op) list \<Rightarrow> (TaskId \<Rightarrow> 'v task_run) \<times> process \<Rightarrow>
     ((TaskId \<Rightarrow> 'v task_run) \<times> process) option" where
  "pool_steps [] s = Some s"
| "pool_steps ((ctx, now, t, op) # ops) (f, p) =
     (case task_step ctx now op (f t, p) of
        None \<Rightarrow> None
      | Some (r, p') \<Rightarrow> pool_steps ops (f(t := r), p'))"

definition pool_ok :: "TaskId set \<Rightarrow> (TaskId \<Rightarrow> 'v task_run) \<Rightarrow> bool" where
  "pool_ok T f \<longleftrightarrow> (\<forall>t \<in> T. run_ok (f t) \<and> tcb_id (run_block (f t)) = t)"

definition phases :: "(TaskId \<Rightarrow> 'v task_run) \<Rightarrow> TaskId \<Rightarrow> task_phase" where
  "phases f t = phase_of (run_state (f t))"

lemma phases_update: "phases (f(t := r)) = (phases f)(t := phase_of (run_state r))"
  by (auto simp: phases_def)

lemma pool_step_match:
  assumes T: "finite T" "card T < 2 ^ 64" "t \<in> T" and rt: "task_runtime t = rt"
    and ok: "pool_ok T f" and find: "find_runtime_instance rt p = Some d" and l: "level (diag_metrics d) \<noteq> Off"
    and g: "gauges_match T (phases f) (diag_metrics d)" and st: "task_step ctx now op (f t, p) = Some (r, p')"
  shows "pool_ok T (f(t := r)) \<and> (\<exists>d'. find_runtime_instance rt p' = Some d' \<and> level (diag_metrics d') \<noteq> Off \<and>
    gauges_match T (phases (f(t := r))) (diag_metrics d'))"
proof -
  have fr: "run_ok (f t)" "tcb_id (run_block (f t)) = t"
    using ok T(3) by (auto simp: pool_ok_def)
  have "tracked d (run_block (f t)) (run_block r) p'"
    using task_step_tracked [OF st fr(1), of d] moved_refl [OF find] l fr(2) rt by simp
  moreover have "run_ok r"
    using task_step_ok [OF st fr(1)] .
  ultimately have "pool_ok T (f(t := r))"
    using ok fr(2) by (auto simp: pool_ok_def tracked_def)
  moreover from \<open>tracked d (run_block (f t)) (run_block r) p'\<close>
  consider m where "phase_of (run_state r) = phases f t" "find_runtime_instance rt p' = Some (d\<lparr>diag_metrics := m\<rparr>)"
      "level m = level (diag_metrics d)" "gauges m = gauges (diag_metrics d)"
    | e m where "phase_step e (phases f t) = Some (phase_of (run_state r))"
      "find_runtime_instance rt p' = Some (d\<lparr>diag_metrics := m\<rparr>)"
      "level m = level (diag_metrics d)" "gauges m = event_gauges e (diag_metrics d)"
    using fr(2) rt by (auto simp: tracked_def moved_def phases_def)
  then have "\<exists>d'. find_runtime_instance rt p' = Some d' \<and> level (diag_metrics d') \<noteq> Off \<and>
    gauges_match T (phases (f(t := r))) (diag_metrics d')"
  proof cases
    case 1
    have "phases (f(t := r)) = phases f"
      using 1(1) by (auto simp: phases_update)
    then have "gauges_match T (phases (f(t := r))) m"
      using g 1(4) by (simp add: gauges_match_def gauges_def)
    with 1 l show ?thesis by auto
  next
    case 2
    have "gauges_match T (phases (f(t := r))) m"
      unfolding phases_update by (rule gauges_match_step [OF T 2(1) g 2(4)])
    with 2 l show ?thesis by auto
  qed
  ultimately show ?thesis by blast
qed

text \<open>The gauges count the task blocks: whatever any threads do to the tasks of a runtime whose
  metrics are on (execute, finish, suspend, resume, cancel, drop, observe, register callbacks, in any
  order), the ready, running and suspended gauges are the numbers of its task blocks in those
  states.\<close>

theorem task_blocks_keep_gauges:
  assumes "finite T" and "card T < 2 ^ 64" and "\<forall>t \<in> T. task_runtime t = rt"
    and "\<forall>(_, _, t, _) \<in> set ops. t \<in> T"
    and "pool_ok T f" and "find_runtime_instance rt p = Some d" and "level (diag_metrics d) \<noteq> Off"
    and "gauges_match T (phases f) (diag_metrics d)"
    and "pool_steps ops (f, p) = Some (f', p')"
  shows "pool_ok T f' \<and> (\<exists>d'. find_runtime_instance rt p' = Some d' \<and> gauges_match T (phases f') (diag_metrics d'))"
  using assms(4-9)
proof (induction ops arbitrary: f p d)
  case Nil
  then show ?case by simp
next
  case (Cons x ops)
  obtain ctx now t op where x: "x = (ctx, now, t, op)" by (cases x)
  have t: "t \<in> T" "task_runtime t = rt" using Cons.prems(1) x assms(3) by auto
  from Cons.prems(6) x obtain r p1 where st: "task_step ctx now op (f t, p) = Some (r, p1)"
    and run: "pool_steps ops (f(t := r), p1) = Some (f', p')"
    by (auto split: option.splits prod.splits)
  from pool_step_match [OF assms(1,2) t Cons.prems(2-5) st] obtain d1 where
    d1: "pool_ok T (f(t := r))" "find_runtime_instance rt p1 = Some d1" "level (diag_metrics d1) \<noteq> Off"
    "gauges_match T (phases (f(t := r))) (diag_metrics d1)"
    by blast
  have rest: "\<forall>(_, _, t, _) \<in> set ops. t \<in> T"
    using Cons.prems(1) by simp
  show ?case
    by (rule Cons.IH [OF rest d1 run])
qed

definition demo_pool :: "TaskId \<Rightarrow> nat task_run" where
  "demo_pool t = new_run t Normal None 5"

definition demo_pool_ops :: "(thread_context \<times> time \<times> TaskId \<times> nat task_op) list" where
  "demo_pool_ops =
     [(foreign_thread, 10, TaskId (RuntimeId 1) 1, Op_execute),
      (foreign_thread, 11, TaskId (RuntimeId 1) 2, Op_cancel),
      (foreign_thread, 12, TaskId (RuntimeId 1) 1, Op_suspend),
      (foreign_thread, 13, TaskId (RuntimeId 1) 1, Op_resume)]"

theorem task_blocks_keep_gauges_witness:
  "\<exists>f' p' d'. pool_steps demo_pool_ops (demo_pool, demo_process) = Some (f', p') \<and>
     find_runtime_instance (RuntimeId 1) p' = Some d' \<and>
     gauges_match {TaskId (RuntimeId 1) 1, TaskId (RuntimeId 1) 2} (phases f') (diag_metrics d')"
proof -
  let ?T = "{TaskId (RuntimeId 1) 1, TaskId (RuntimeId 1) 2}"
  let ?d = "new_diagnostics (RuntimeId 1) ((metrics_init Basic 1 (RuntimeId 1))\<lparr>ready_tasks := 2\<rparr>)"
  have "pool_steps demo_pool_ops (demo_pool, demo_process) \<noteq> None"
    by (simp add: demo_pool_ops_def demo_pool_def new_run_def new_cell_def make_task_control_block_def op_defs Let_def)
  then obtain f' p' where run: "pool_steps demo_pool_ops (demo_pool, demo_process) = Some (f', p')"
    by fastforce
  have T: "finite ?T" "card ?T < 2 ^ 64" "\<forall>t \<in> ?T. task_runtime t = RuntimeId 1"
    "\<forall>(_, _, t, _) \<in> set demo_pool_ops. t \<in> ?T"
    by (auto simp: demo_pool_ops_def)
  have ok: "pool_ok ?T demo_pool"
    by (simp add: pool_ok_def demo_pool_def run_ok_new) (simp add: new_run_def new_cell_def make_task_control_block_def)
  have d: "find_runtime_instance (RuntimeId 1) demo_process = Some ?d"
    by (simp add: find_runtime_instance_def demo_process_def register_runtime_instance_def)
  have l: "level (diag_metrics ?d) \<noteq> Off"
    by (simp add: new_diagnostics_def metrics_init_def)
  have ph: "phases demo_pool = (\<lambda>_. Phase_ready)"
    by (auto simp: phases_def demo_pool_def new_run_def new_cell_def make_task_control_block_def)
  have "{t \<in> ?T. True} = ?T" by auto
  then have g: "gauges_match ?T (phases demo_pool) (diag_metrics ?d)"
    unfolding ph by (simp add: gauges_match_def in_phase_def new_diagnostics_def metrics_init_def)
  show ?thesis
    using task_blocks_keep_gauges [OF T ok d l g run] run by blast
qed

end
