(* ===== verification/Runtime_State.thy ===== *)
theory Runtime_State
  imports Ready_Runs Timer_Queue Await_Handshake Task_Block
begin

text \<open>
  The state of one runtime (\<open>src/runtime/runtime_state.hpp\<close>, \<open>runtime_state.cpp\<close> and
  \<open>Scheduler::Impl\<close> in \<open>src/runtime/scheduler.cpp\<close>) and of the thread that acts on it: timers that
  fire, publication of tasks, and the deferral of resumptions published while a task executes.

  The metrics are one object the components refer to; a component is given it before an operation
  and hands it back after it.
\<close>

section \<open>The runtime\<close>

record runtime =
  rt_id :: RuntimeId
  rt_options :: SchedulerOptions
  rt_packed_status :: u16
  rt_metrics :: RuntimeMetrics
  rt_admission :: AdmissionController
  rt_timers :: TimerQueue
  rt_ready :: ReadyQueues
  rt_startup_done :: bool
  rt_startup_failed :: bool
  rt_stop_requested :: bool
  rt_handoff_dispatched :: bool
  rt_workers_ready :: nat
  rt_active_workers :: nat
  rt_parked_workers :: nat
  rt_work_epoch :: u64

definition new_runtime :: "RuntimeId \<Rightarrow> SchedulerOptions \<Rightarrow> LocalDequeBackend \<Rightarrow> runtime" where
  "new_runtime i opts be =
     (let m = metrics_init (metrics_level opts) (unat (worker_count opts)) i;
          st = pack SchedulerState.Running No_shutdown
      in \<lparr>rt_id = i, rt_options = opts, rt_packed_status = st, rt_metrics = m,
          rt_admission = new_admission st (external_pending_capacity opts) (external_backpressure opts) m,
          rt_timers = new_timer_queue m, rt_ready = new_ready_queues (unat (worker_count opts)) be,
          rt_startup_done = False, rt_startup_failed = False, rt_stop_requested = False,
          rt_handoff_dispatched = False, rt_workers_ready = 0, rt_active_workers = 0,
          rt_parked_workers = 0, rt_work_epoch = 0\<rparr>)"

definition get_status :: "runtime \<Rightarrow> SchedulerStatus" where
  "get_status r = unpack (rt_packed_status r)"

text \<open>Acting on the components with the shared metrics and status.\<close>

definition on_timers :: "(TimerQueue \<Rightarrow> 'b \<times> TimerQueue) \<Rightarrow> runtime \<Rightarrow> 'b \<times> runtime" where
  "on_timers f r =
     (case f ((rt_timers r)\<lparr>tq_metrics := rt_metrics r\<rparr>) of
        (x, q) \<Rightarrow> (x, r\<lparr>rt_timers := q, rt_metrics := tq_metrics q\<rparr>))"

definition shared_admission :: "runtime \<Rightarrow> AdmissionController" where
  "shared_admission r =
     (rt_admission r)\<lparr>adm_metrics := rt_metrics r, adm_packed_status := rt_packed_status r\<rparr>"

definition store_admission :: "AdmissionController \<Rightarrow> runtime \<Rightarrow> runtime" where
  "store_admission a r = r\<lparr>rt_admission := a, rt_metrics := adm_metrics a\<rparr>"

definition release_external_slots :: "u64 \<Rightarrow> runtime \<Rightarrow> runtime" where
  "release_external_slots n r = store_admission (release n (shared_admission r)) r"

definition release_external_slot_after_claim :: "QueuedTask \<Rightarrow> runtime \<Rightarrow> runtime" where
  "release_external_slot_after_claim t r = (if qt_external t then release_external_slots 1 r else r)"

definition bump_epoch :: "runtime \<Rightarrow> runtime" where
  "bump_epoch r = r\<lparr>rt_work_epoch := rt_work_epoch r + 1\<rparr>"

definition register_timer ::
  "thread_context \<Rightarrow> time \<Rightarrow> nat option \<Rightarrow> nat option \<Rightarrow> runtime \<Rightarrow> u64 \<times> runtime" where
  "register_timer ctx wake hs act r =
     (case on_timers (\<lambda>q. case timer_add ctx wake hs act q of (tid, earliest, q') \<Rightarrow> ((tid, earliest), q')) r of
        ((tid, earliest), r1) \<Rightarrow> (tid, if earliest then bump_epoch r1 else r1))"

definition cancel_timer :: "thread_context \<Rightarrow> u64 \<Rightarrow> runtime \<Rightarrow> runtime" where
  "cancel_timer ctx tid r = snd (on_timers (\<lambda>q. ((), timer_cancel ctx tid q)) r)"

text \<open>
  Firing: the handshakes of the items that have one, with the words of all handshakes, and the resume
  actions that are run.
\<close>

fun fire_items :: "(u8 \<Rightarrow> bool \<times> u8) \<Rightarrow> DueItem list \<Rightarrow> (nat \<Rightarrow> u8) \<Rightarrow> nat list \<times> (nat \<Rightarrow> u8)" where
  "fire_items f [] w = ([], w)"
| "fire_items f (i # is) w =
     (case (due_handshake i, due_resume_action i) of
        (Some h, Some act) \<Rightarrow>
          (case f (w h) of
             (run, v) \<Rightarrow>
               (case fire_items f is (w(h := v)) of
                  (acts, w') \<Rightarrow> ((if run then act # acts else acts), w')))
      | _ \<Rightarrow> fire_items f is w)"

definition process_due_timers ::
  "thread_context \<Rightarrow> time \<Rightarrow> runtime \<Rightarrow> (nat \<Rightarrow> u8) \<Rightarrow> nat list \<times> (nat \<Rightarrow> u8) \<times> runtime" where
  "process_due_timers ctx now r w =
     (case on_timers (collect_due ctx now) r of
        (items, r1) \<Rightarrow> (case fire_items hs_trigger items w of (acts, w') \<Rightarrow> (acts, w', r1)))"

definition cancel_all_timers ::
  "thread_context \<Rightarrow> runtime \<Rightarrow> (nat \<Rightarrow> u8) \<Rightarrow> nat list \<times> (nat \<Rightarrow> u8) \<times> runtime" where
  "cancel_all_timers ctx r w =
     (case on_timers (timer_cancel_all ctx) r of
        (items, r1) \<Rightarrow> (case fire_items hs_trigger_cancel items w of (acts, w') \<Rightarrow> (acts, w', r1)))"

definition runtime_earliest_wake :: "runtime \<Rightarrow> time option" where
  "runtime_earliest_wake r = earliest_wake_time (rt_timers r)"

definition has_timers :: "runtime \<Rightarrow> bool" where
  "has_timers r \<longleftrightarrow> \<not> timers_empty (rt_timers r)"

section \<open>The thread\<close>

text \<open>The thread-local variables; a runtime is known by the address of its implementation.\<close>

record thread_locals =
  tl_context :: thread_context
  tl_task :: TaskId
  tl_priority :: Priority
  tl_graph_run :: GraphRunId
  tl_helping_depth :: nat
  tl_deferred :: "TaskInvoker option"
  tl_deferred_impl :: "nat option"
  tl_deferred_owner :: TaskId

type_synonym process_runtimes = "nat \<Rightarrow> runtime option"

text \<open>\<open>post_task_internal\<close> of the runtime at address \<open>k\<close>.\<close>

definition publish_ready :: "thread_context \<Rightarrow> bool \<Rightarrow> nat \<Rightarrow> TaskInvoker \<Rightarrow> bool \<Rightarrow> runtime \<Rightarrow> runtime" where
  "publish_ready ctx alloc k i is_external r =
     (let use_local = (\<not> is_external \<and> current_worker_impl ctx = Some k \<and>
            current_worker_runtime_id ctx = rt_id r \<and>
            current_worker_index ctx < length (local_queues (rt_ready r)))
      in case publish ctx alloc (Some i) is_external use_local (current_worker_index ctx) (rt_metrics r, rt_ready r) of
           (m, q) \<Rightarrow> bump_epoch (r\<lparr>rt_metrics := m, rt_ready := q\<rparr>))"

definition post_task_internal ::
  "bool \<Rightarrow> nat \<Rightarrow> TaskInvoker option \<Rightarrow> bool \<Rightarrow> thread_locals \<times> process_runtimes \<Rightarrow> thread_locals \<times> process_runtimes" where
  "post_task_internal alloc k task is_external = (\<lambda>(th, rts).
     (case (task, rts k) of
        (Some i, Some r) \<Rightarrow>
          if is_resume_segment i \<and> tl_task th \<noteq> no_task
          then (th\<lparr>tl_deferred := Some i, tl_deferred_impl := Some k, tl_deferred_owner := tl_task th\<rparr>, rts)
          else (th, rts(k \<mapsto> publish_ready (tl_context th) alloc k i is_external r))
      | _ \<Rightarrow> (th, rts)))"

definition flush_deferred_self_resume ::
  "bool \<Rightarrow> thread_locals \<times> process_runtimes \<Rightarrow> thread_locals \<times> process_runtimes" where
  "flush_deferred_self_resume alloc = (\<lambda>(th, rts).
     if tl_deferred th = None \<or> tl_deferred_owner th = tl_task th then (th, rts)
     else
       (let th1 = th\<lparr>tl_deferred := None, tl_deferred_impl := None, tl_deferred_owner := no_task\<rparr>
        in case tl_deferred_impl th of
             None \<Rightarrow> (th1, rts)
           | Some k \<Rightarrow> post_task_internal alloc k (tl_deferred th) False (th1, rts)))"

text \<open>\<open>TaskExecutionContextGuard\<close>: its constructor, which saves what its destructor restores.\<close>

definition enter_task :: "TaskId \<Rightarrow> Priority \<Rightarrow> thread_locals \<Rightarrow> (TaskId \<times> Priority) \<times> thread_locals" where
  "enter_task t prio th = ((tl_task th, tl_priority th), th\<lparr>tl_task := t, tl_priority := prio\<rparr>)"

definition leave_task ::
  "bool \<Rightarrow> TaskId \<times> Priority \<Rightarrow> thread_locals \<times> process_runtimes \<Rightarrow> thread_locals \<times> process_runtimes" where
  "leave_task alloc prev = (\<lambda>(th, rts).
     flush_deferred_self_resume alloc (th\<lparr>tl_task := fst prev, tl_priority := snd prev\<rparr>, rts))"

section \<open>What becomes of resumptions published while a task executes\<close>

definition post_all ::
  "bool \<Rightarrow> nat \<Rightarrow> TaskInvoker list \<Rightarrow> thread_locals \<times> process_runtimes \<Rightarrow> thread_locals \<times> process_runtimes" where
  "post_all alloc k is s = fold (\<lambda>i. post_task_internal alloc k (Some i) False) is s"

lemma post_resume_deferred:
  "is_resume_segment i \<Longrightarrow> tl_task th \<noteq> no_task \<Longrightarrow> rts k = Some r \<Longrightarrow>
   post_task_internal alloc k (Some i) ext (th, rts) =
     (th\<lparr>tl_deferred := Some i, tl_deferred_impl := Some k, tl_deferred_owner := tl_task th\<rparr>, rts)"
  by (simp add: post_task_internal_def)

lemma post_all_resumes:
  assumes "\<forall>i \<in> set is. is_resume_segment i" and "is \<noteq> []" and "tl_task th \<noteq> no_task" and "rts k = Some r"
  shows "post_all alloc k is (th, rts) =
    (th\<lparr>tl_deferred := Some (last is), tl_deferred_impl := Some k, tl_deferred_owner := tl_task th\<rparr>, rts)"
  using assms
proof (induction "is" arbitrary: th)
  case (Cons i xs)
  show ?case
  proof (cases "xs = []")
    case True
    with Cons.prems show ?thesis
      by (simp add: post_all_def post_resume_deferred)
  next
    case False
    have "post_all alloc k (i # xs) (th, rts) = post_all alloc k xs
        (th\<lparr>tl_deferred := Some i, tl_deferred_impl := Some k, tl_deferred_owner := tl_task th\<rparr>, rts)"
      using Cons.prems by (simp add: post_all_def post_resume_deferred)
    with False Cons.prems Cons.IH [of "th\<lparr>tl_deferred := Some i, tl_deferred_impl := Some k, tl_deferred_owner := tl_task th\<rparr>"]
    show ?thesis by simp
  qed
qed simp

lemma publish_ready_law:
  assumes inv: "rq_inv (rt_ready r)" and p: "iv_priority i \<in> set named_priorities"
  shows "rq_inv (rt_ready (publish_ready ctx alloc k i ext r))"
    and "rq_facts (rt_ready (publish_ready ctx alloc k i ext r)) = add_mset (facts_of i) (rq_facts (rt_ready r))"
    and "rt_work_epoch (publish_ready ctx alloc k i ext r) = rt_work_epoch r + 1"
proof -
  define use_local where "use_local = (\<not> ext \<and> current_worker_impl ctx = Some k \<and>
    current_worker_runtime_id ctx = rt_id r \<and> current_worker_index ctx < length (local_queues (rt_ready r)))"
  obtain m q where pub: "publish ctx alloc (Some i) ext use_local (current_worker_index ctx) (rt_metrics r, rt_ready r) = (m, q)"
    by (cases "publish ctx alloc (Some i) ext use_local (current_worker_index ctx) (rt_metrics r, rt_ready r)")
  have r: "publish_ready ctx alloc k i ext r = bump_epoch (r\<lparr>rt_metrics := m, rt_ready := q\<rparr>)"
    using pub by (simp add: publish_ready_def use_local_def Let_def)
  show "rq_inv (rt_ready (publish_ready ctx alloc k i ext r))"
    "rq_facts (rt_ready (publish_ready ctx alloc k i ext r)) = add_mset (facts_of i) (rq_facts (rt_ready r))"
    "rt_work_epoch (publish_ready ctx alloc k i ext r) = rt_work_epoch r + 1"
    using publish_law [OF inv p pub] by (simp_all add: r bump_epoch_def)
qed

text \<open>A task's segment that publishes some resumptions, between its guard's ends.\<close>

definition segment ::
  "bool \<Rightarrow> TaskId \<Rightarrow> Priority \<Rightarrow> nat \<Rightarrow> TaskInvoker list \<Rightarrow> thread_locals \<times> process_runtimes \<Rightarrow>
     thread_locals \<times> process_runtimes" where
  "segment alloc t prio k is = (\<lambda>(th, rts).
     (case enter_task t prio th of (prev, th1) \<Rightarrow> leave_task alloc prev (post_all alloc k is (th1, rts))))"

text \<open>C36: A thread keeps one deferred resumption: when a task executes on a worker that was executing
  nothing and publishes resumptions of suspended coroutines (as its completion callbacks do for every
  coroutine awaiting it), then at the end of its segment exactly the last of them is queued, once, and
  the others are not queued at all.\<close>

theorem deferred_resumption_keeps_last:
  assumes "tl_task th = no_task" and "t \<noteq> no_task" and "rts k = Some r" and "rq_inv (rt_ready r)"
    and "is \<noteq> []" and "\<forall>i \<in> set is. is_resume_segment i \<and> iv_priority i \<in> set named_priorities"
    and "segment alloc t prio k is (th, rts) = (th', rts')"
  shows "\<exists>r'. rts' k = Some r' \<and> rq_inv (rt_ready r') \<and>
    rq_facts (rt_ready r') = add_mset (facts_of (last is)) (rq_facts (rt_ready r)) \<and>
    rt_work_epoch r' = rt_work_epoch r + 1 \<and> tl_deferred th' = None \<and> tl_task th' = no_task"
proof -
  let ?th1 = "th\<lparr>tl_task := t, tl_priority := prio\<rparr>"
  have "post_all alloc k is (?th1, rts) =
      (?th1\<lparr>tl_deferred := Some (last is), tl_deferred_impl := Some k, tl_deferred_owner := t\<rparr>, rts)"
    using assms(2,3,5,6) post_all_resumes [of "is" ?th1 rts k r alloc] by simp
  moreover have "iv_priority (last is) \<in> set named_priorities"
    using assms(5,6) by simp
  ultimately show ?thesis
    using assms publish_ready_law [OF assms(4), of "last is" "tl_context th" alloc k False]
    by (auto simp: segment_def enter_task_def leave_task_def flush_deferred_self_resume_def post_task_internal_def Let_def)
qed

definition resume_of :: "nat \<Rightarrow> TaskInvoker" where
  "resume_of n = Linked \<lparr>tf_task = n, tf_priority = Normal, tf_deadline = None, tf_resume = True, tf_coroutine_node = False\<rparr>"

definition idle_locals :: thread_locals where
  "idle_locals = \<lparr>tl_context = foreign_thread, tl_task = no_task, tl_priority = Normal, tl_graph_run = no_graph_run,
     tl_helping_depth = 0, tl_deferred = None, tl_deferred_impl = None, tl_deferred_owner = no_task\<rparr>"

definition demo_runtime :: runtime where
  "demo_runtime = new_runtime (RuntimeId 1) (default_scheduler_options 2) Locked"

lemma demo_runtime_ready: "rq_inv (rt_ready demo_runtime)" "rq_facts (rt_ready demo_runtime) = {#}"
  by (simp_all add: demo_runtime_def new_runtime_def Let_def rq_new)

lemma resume_of_simps [simp]: "is_resume_segment (resume_of n)" "iv_priority (resume_of n) = Normal"
  "facts_of (resume_of n) = \<lparr>tf_task = n, tf_priority = Normal, tf_deadline = None, tf_resume = True, tf_coroutine_node = False\<rparr>"
  by (simp_all add: resume_of_def is_resume_segment_def iv_priority_def)

theorem deferred_resumption_keeps_last_witness:
  "\<exists>th' rts' r'. segment True (TaskId (RuntimeId 1) 1) Normal 0 [resume_of 7, resume_of 8] (idle_locals, [0 \<mapsto> demo_runtime]) =
     (th', rts') \<and> rts' 0 = Some r' \<and> rq_facts (rt_ready r') = {# facts_of (resume_of 8) #}"
proof -
  obtain th' rts' where s: "segment True (TaskId (RuntimeId 1) 1) Normal 0 [resume_of 7, resume_of 8]
      (idle_locals, [0 \<mapsto> demo_runtime]) = (th', rts')"
    by fastforce
  have "\<exists>r'. rts' 0 = Some r' \<and> rq_inv (rt_ready r') \<and>
    rq_facts (rt_ready r') = add_mset (facts_of (last [resume_of 7, resume_of 8])) (rq_facts (rt_ready demo_runtime)) \<and>
    rt_work_epoch r' = rt_work_epoch demo_runtime + 1 \<and> tl_deferred th' = None \<and> tl_task th' = no_task"
    by (rule deferred_resumption_keeps_last [OF _ _ _ _ _ _ s])
      (simp_all add: idle_locals_def demo_runtime_ready no_task_def no_runtime_def named_priorities_def)
  then show ?thesis
    using s demo_runtime_ready(2) by auto
qed

text \<open>C38: A thread that executes tasks while it waits inside another task does not queue the resumptions
  they publish: when a nested task publishes the resumption of a coroutine, leaving the nested task
  queues nothing and changes no runtime; the resumption is deferred again, until the waiting task itself
  ends.\<close>

theorem helping_postpones_resumption:
  assumes "tl_task th = waiting" and "waiting \<noteq> no_task" and "t \<noteq> no_task" and "t \<noteq> waiting"
    and "rts k = Some r" and "is_resume_segment i"
    and "segment alloc t prio k [i] (th, rts) = (th', rts')"
  shows "rts' = rts \<and> tl_deferred th' = Some i \<and> tl_deferred_owner th' = waiting \<and> tl_task th' = waiting"
  using assms
  by (auto simp: segment_def enter_task_def leave_task_def flush_deferred_self_resume_def post_all_def
      post_task_internal_def Let_def)

theorem helping_postpones_resumption_witness:
  "\<exists>th' rts'. segment True (TaskId (RuntimeId 1) 2) Normal 0 [resume_of 7]
     (idle_locals\<lparr>tl_task := TaskId (RuntimeId 1) 1\<rparr>, [0 \<mapsto> demo_runtime]) = (th', rts') \<and>
     rts' = [0 \<mapsto> demo_runtime] \<and> tl_deferred th' = Some (resume_of 7)"
proof -
  obtain th' rts' where s: "segment True (TaskId (RuntimeId 1) 2) Normal 0 [resume_of 7]
      (idle_locals\<lparr>tl_task := TaskId (RuntimeId 1) 1\<rparr>, [0 \<mapsto> demo_runtime]) = (th', rts')"
    by fastforce
  have "rts' = [0 \<mapsto> demo_runtime] \<and> tl_deferred th' = Some (resume_of 7) \<and>
      tl_deferred_owner th' = TaskId (RuntimeId 1) 1 \<and> tl_task th' = TaskId (RuntimeId 1) 1"
    by (rule helping_postpones_resumption [OF _ _ _ _ _ _ s]) (simp_all add: no_task_def no_runtime_def)
  with s show ?thesis by blast
qed

end
