(* ===== verification/Shutdown.thy ===== *)
theory Shutdown
  imports Runtime_State
begin

text \<open>
  How a runtime stops (\<open>Scheduler::Impl\<close> in \<open>src/runtime/scheduler.cpp\<close>): the requests that move the
  packed status, what an immediate request clears, and the gate that elects the one thread that joins
  the workers and publishes \<open>Stopped\<close>.  The second part runs any number of such calls on one runtime,
  split at their accesses to the status word and to the gate.
\<close>

section \<open>Requests\<close>

text \<open>The word one round of the compare-exchange loop tries to install, if any.\<close>

definition shutdown_word :: "ShutdownMode \<Rightarrow> u16 \<Rightarrow> u16 option" where
  "shutdown_word requested_mode current =
     (let st = unpack current
      in if state st = SchedulerState.Running then Some (pack Stopping requested_mode)
         else if state st = Stopping then
           (if requested_mode = Immediate \<and> shutdown_mode st \<noteq> Immediate
            then Some (pack Stopping Immediate) else None)
         else None)"

definition cancel_all_unstarted :: "runtime \<Rightarrow> TaskInvoker list \<times> runtime" where
  "cancel_all_unstarted r =
     (case cancel_unstarted (shared_admission r) (rt_ready r) of
        (cs, a, q) \<Rightarrow> (cs, (store_admission a r)\<lparr>rt_ready := q\<rparr>))"

text \<open>A whole request, undisturbed: the tasks cancelled before their start, the resume actions the timers run.\<close>

definition request_shutdown_mode ::
  "thread_context \<Rightarrow> ShutdownMode \<Rightarrow> runtime \<Rightarrow> (nat \<Rightarrow> u8) \<Rightarrow> TaskInvoker list \<times> nat list \<times> (nat \<Rightarrow> u8) \<times> runtime" where
  "request_shutdown_mode ctx requested_mode r w =
     (let r1 = bump_epoch r
      in case shutdown_word requested_mode (rt_packed_status r1) of
           None \<Rightarrow> ([], [], w, r1)
         | Some v \<Rightarrow>
             (let r2 = r1\<lparr>rt_packed_status := v\<rparr>
              in if requested_mode = Immediate then
                   (case cancel_all_unstarted r2 of
                      (cs, r3) \<Rightarrow> (case cancel_all_timers ctx r3 w of (acts, w', r4) \<Rightarrow> (cs, acts, w', r4)))
                 else ([], [], w, r2)))"

section \<open>Calls, split at their accesses\<close>

datatype sd_pc =
    Sd_begin ShutdownMode
  | Sd_request bool ShutdownMode
  | Sd_cas bool ShutdownMode u16
  | Sd_requested bool
  | Sd_cleanup
  | Sd_gate
  | Sd_leader
  | Sd_joined
  | Sd_publish u16
  | Sd_published
  | Sd_leave
  | Sd_waiting
  | Sd_returned bool

record sd_system =
  sd_word :: u16
  sd_stop :: bool
  sd_in_progress :: bool
  sd_stopped :: bool
  sd_live :: nat
  sd_joins :: nat
  sd_pcs :: "nat \<Rightarrow> sd_pc option"

abbreviation sd_goto :: "nat \<Rightarrow> sd_pc \<Rightarrow> sd_system \<Rightarrow> sd_system" where
  "sd_goto i pc s \<equiv> s\<lparr>sd_pcs := (sd_pcs s)(i \<mapsto> pc)\<rparr>"

definition sd_state :: "sd_system \<Rightarrow> SchedulerState" where
  "sd_state s = state (unpack (sd_word s))"

text \<open>
  \<open>Sd_begin\<close> enters \<open>shutdown_sync\<close>; \<open>Sd_request False\<close> is a request on its own (the registry's
  callbacks); \<open>Sd_cleanup\<close> is the reaper, which is told once the last worker has left.  A worker leaves
  its loop only when a stop was requested (the worker that drops the last handle sets the flag before
  its request, but it is executing a task then, and no worker leaves while a task is claimed).
\<close>

inductive sd_step :: "sd_system \<Rightarrow> sd_system \<Rightarrow> bool" where
  begin_stopped: "sd_pcs s i = Some (Sd_begin m) \<Longrightarrow> sd_state s = Stopped \<Longrightarrow>
     sd_step s (sd_goto i (Sd_returned True) s)"
| begin_request: "sd_pcs s i = Some (Sd_begin m) \<Longrightarrow> sd_state s \<noteq> Stopped \<Longrightarrow>
     sd_step s (sd_goto i (Sd_request True m) s)"
| load_word: "sd_pcs s i = Some (Sd_request g m) \<Longrightarrow> sd_step s (sd_goto i (Sd_cas g m (sd_word s)) s)"
| no_change: "sd_pcs s i = Some (Sd_cas g m cur) \<Longrightarrow> shutdown_word m cur = None \<Longrightarrow>
     sd_step s (sd_goto i (Sd_requested g) s)"
| cas_wins: "sd_pcs s i = Some (Sd_cas g m cur) \<Longrightarrow> shutdown_word m cur = Some v \<Longrightarrow> sd_word s = cur \<Longrightarrow>
     sd_step s (sd_goto i (Sd_requested g) (s\<lparr>sd_word := v\<rparr>))"
| cas_fails: "sd_pcs s i = Some (Sd_cas g m cur) \<Longrightarrow> shutdown_word m cur = Some v \<Longrightarrow>
     sd_step s (sd_goto i (Sd_cas g m (sd_word s)) s)"
| request_only: "sd_pcs s i = Some (Sd_requested False) \<Longrightarrow> sd_step s (sd_goto i (Sd_returned False) s)"
| request_stop: "sd_pcs s i = Some (Sd_requested True) \<Longrightarrow> sd_step s (sd_goto i Sd_gate (s\<lparr>sd_stop := True\<rparr>))"
| cleanup_called: "sd_pcs s i = Some Sd_cleanup \<Longrightarrow> sd_live s = 0 \<Longrightarrow> sd_step s (sd_goto i Sd_gate s)"
| gate_done: "sd_pcs s i = Some Sd_gate \<Longrightarrow> sd_stopped s \<or> sd_state s = Stopped \<Longrightarrow>
     sd_step s (sd_goto i (Sd_returned True) s)"
| gate_leads: "sd_pcs s i = Some Sd_gate \<Longrightarrow> \<not> sd_stopped s \<Longrightarrow> sd_state s \<noteq> Stopped \<Longrightarrow> \<not> sd_in_progress s \<Longrightarrow>
     sd_step s (sd_goto i Sd_leader (s\<lparr>sd_in_progress := True\<rparr>))"
| gate_waits: "sd_pcs s i = Some Sd_gate \<Longrightarrow> \<not> sd_stopped s \<Longrightarrow> sd_state s \<noteq> Stopped \<Longrightarrow> sd_in_progress s \<Longrightarrow>
     sd_step s (sd_goto i Sd_waiting s)"
| joins: "sd_pcs s i = Some Sd_leader \<Longrightarrow> sd_live s = 0 \<Longrightarrow>
     sd_step s (sd_goto i Sd_joined (s\<lparr>sd_joins := sd_joins s + 1\<rparr>))"
| load_mode: "sd_pcs s i = Some Sd_joined \<Longrightarrow>
     sd_step s (sd_goto i (Sd_publish (pack Stopped (shutdown_mode (unpack (sd_word s))))) s)"
| publish_stopped: "sd_pcs s i = Some (Sd_publish v) \<Longrightarrow> sd_step s (sd_goto i Sd_published (s\<lparr>sd_word := v\<rparr>))"
| mark_stopped: "sd_pcs s i = Some Sd_published \<Longrightarrow> sd_step s (sd_goto i Sd_leave (s\<lparr>sd_stopped := True\<rparr>))"
| leader_returns: "sd_pcs s i = Some Sd_leave \<Longrightarrow>
     sd_step s (sd_goto i (Sd_returned True) (s\<lparr>sd_in_progress := False\<rparr>))"
| waiter_returns: "sd_pcs s i = Some Sd_waiting \<Longrightarrow> sd_stopped s \<Longrightarrow> sd_step s (sd_goto i (Sd_returned True) s)"
| worker_leaves: "sd_stop s \<Longrightarrow> 0 < sd_live s \<Longrightarrow> sd_step s (s\<lparr>sd_live := sd_live s - 1\<rparr>)"

text \<open>The calls threads make, all with a shutdown mode proper.\<close>

fun sd_entry :: "sd_pc \<Rightarrow> bool" where
  "sd_entry (Sd_begin m) \<longleftrightarrow> m \<in> {Graceful, Immediate}"
| "sd_entry (Sd_request g m) \<longleftrightarrow> m \<in> {Graceful, Immediate}"
| "sd_entry Sd_cleanup \<longleftrightarrow> True"
| "sd_entry _ \<longleftrightarrow> False"

definition sd_initial :: "nat \<Rightarrow> (nat \<Rightarrow> sd_pc option) \<Rightarrow> sd_system" where
  "sd_initial workers calls = \<lparr>sd_word = pack SchedulerState.Running No_shutdown, sd_stop = False,
     sd_in_progress = False, sd_stopped = False, sd_live = workers, sd_joins = 0, sd_pcs = calls\<rparr>"

inductive sd_reach :: "nat \<Rightarrow> (nat \<Rightarrow> sd_pc option) \<Rightarrow> sd_system \<Rightarrow> bool" for workers calls where
  sd_start: "sd_reach workers calls (sd_initial workers calls)"
| sd_next: "sd_reach workers calls s \<Longrightarrow> sd_step s t \<Longrightarrow> sd_reach workers calls t"

inductive_cases sd_stepE: "sd_step s t"

section \<open>The invariant\<close>

fun leading :: "sd_pc \<Rightarrow> bool" where
  "leading Sd_leader \<longleftrightarrow> True" | "leading Sd_joined \<longleftrightarrow> True" | "leading (Sd_publish v) \<longleftrightarrow> True"
| "leading Sd_published \<longleftrightarrow> True" | "leading Sd_leave \<longleftrightarrow> True" | "leading _ \<longleftrightarrow> False"

fun past_join :: "sd_pc \<Rightarrow> bool" where
  "past_join Sd_joined \<longleftrightarrow> True" | "past_join (Sd_publish v) \<longleftrightarrow> True"
| "past_join Sd_published \<longleftrightarrow> True" | "past_join Sd_leave \<longleftrightarrow> True" | "past_join _ \<longleftrightarrow> False"

text \<open>What holds at a program counter, given the word, the flags and how many workers are left.\<close>

fun sd_pc_ok :: "sd_system \<Rightarrow> sd_pc \<Rightarrow> bool" where
  "sd_pc_ok s (Sd_begin m) \<longleftrightarrow> m \<in> {Graceful, Immediate}"
| "sd_pc_ok s (Sd_request g m) \<longleftrightarrow> m \<in> {Graceful, Immediate}"
| "sd_pc_ok s (Sd_cas g m cur) \<longleftrightarrow> m \<in> {Graceful, Immediate} \<and>
     (state (unpack cur) \<noteq> SchedulerState.Running \<longrightarrow> sd_state s \<noteq> SchedulerState.Running)"
| "sd_pc_ok s (Sd_requested g) \<longleftrightarrow> sd_state s \<noteq> SchedulerState.Running"
| "sd_pc_ok s Sd_cleanup \<longleftrightarrow> True"
| "sd_pc_ok s Sd_gate \<longleftrightarrow> sd_state s \<noteq> SchedulerState.Running"
| "sd_pc_ok s Sd_leader \<longleftrightarrow> sd_state s = Stopping"
| "sd_pc_ok s Sd_joined \<longleftrightarrow> sd_state s = Stopping \<and> sd_live s = 0"
| "sd_pc_ok s (Sd_publish v) \<longleftrightarrow> sd_state s = Stopping \<and> sd_live s = 0 \<and>
     (\<exists>m \<in> {Graceful, Immediate}. v = pack Stopped m)"
| "sd_pc_ok s Sd_published \<longleftrightarrow> sd_state s = Stopped \<and> sd_live s = 0"
| "sd_pc_ok s Sd_leave \<longleftrightarrow> sd_stopped s"
| "sd_pc_ok s Sd_waiting \<longleftrightarrow> True"
| "sd_pc_ok s (Sd_returned g) \<longleftrightarrow> (g \<longrightarrow> sd_state s = Stopped)"

definition leaders :: "(nat \<Rightarrow> sd_pc option) \<Rightarrow> nat set" where
  "leaders f = {i. \<exists>pc. f i = Some pc \<and> leading pc}"

definition joiners :: "(nat \<Rightarrow> sd_pc option) \<Rightarrow> nat set" where
  "joiners f = {i. \<exists>pc. f i = Some pc \<and> past_join pc}"

definition at_most_one :: "nat set \<Rightarrow> bool" where
  "at_most_one A \<longleftrightarrow> (\<forall>i \<in> A. A = {i})"

lemma at_most_one [simp]: "at_most_one {}" "at_most_one {i}"
  by (simp_all add: at_most_one_def)

lemma at_most_one_mem: "at_most_one A \<Longrightarrow> i \<in> A \<Longrightarrow> A = {i}"
  unfolding at_most_one_def by blast

definition sd_inv :: "nat \<Rightarrow> sd_system \<Rightarrow> bool" where
  "sd_inv workers s \<longleftrightarrow>
     legal_status (unpack (sd_word s)) \<and>
     (sd_stop s \<longrightarrow> sd_state s \<noteq> SchedulerState.Running) \<and> (sd_live s \<noteq> workers \<longrightarrow> sd_stop s) \<and>
     (sd_stopped s \<longrightarrow> sd_state s = Stopped) \<and>
     (leaders (sd_pcs s) \<noteq> {} \<longrightarrow> sd_in_progress s) \<and> at_most_one (leaders (sd_pcs s)) \<and>
     sd_joins s = (if sd_stopped s \<or> joiners (sd_pcs s) \<noteq> {} then 1 else 0) \<and>
     (sd_state s = Stopped \<longrightarrow> sd_joins s = 1 \<and> sd_live s = 0) \<and>
     (\<forall>i pc. sd_pcs s i = Some pc \<longrightarrow> sd_pc_ok s pc)"

lemma sd_pc_ok_frame [simp]:
  "sd_pc_ok (s\<lparr>sd_pcs := f\<rparr>) pc = sd_pc_ok s pc" "sd_pc_ok (s\<lparr>sd_joins := n\<rparr>) pc = sd_pc_ok s pc"
  "sd_pc_ok (s\<lparr>sd_stop := b\<rparr>) pc = sd_pc_ok s pc" "sd_pc_ok (s\<lparr>sd_in_progress := b\<rparr>) pc = sd_pc_ok s pc"
  by (cases pc; simp add: sd_state_def)+

lemma sd_state_frame [simp]:
  "sd_state (s\<lparr>sd_pcs := f\<rparr>) = sd_state s" "sd_state (s\<lparr>sd_joins := n\<rparr>) = sd_state s"
  "sd_state (s\<lparr>sd_stop := b\<rparr>) = sd_state s" "sd_state (s\<lparr>sd_in_progress := b\<rparr>) = sd_state s"
  "sd_state (s\<lparr>sd_stopped := b\<rparr>) = sd_state s" "sd_state (s\<lparr>sd_live := n\<rparr>) = sd_state s"
  by (simp_all add: sd_state_def)

lemma leaders_goto:
  "leaders (f(i \<mapsto> pc)) = (if leading pc then insert i (leaders f) else leaders f - {i})"
  "joiners (f(i \<mapsto> pc)) = (if past_join pc then insert i (joiners f) else joiners f - {i})"
  by (auto simp: leaders_def joiners_def)

lemma leaders_not [simp]:
  "sd_pcs s i = Some pc \<Longrightarrow> \<not> leading pc \<Longrightarrow> leaders (sd_pcs s) - {i} = leaders (sd_pcs s)"
  "sd_pcs s i = Some pc \<Longrightarrow> \<not> past_join pc \<Longrightarrow> joiners (sd_pcs s) - {i} = joiners (sd_pcs s)"
  "sd_pcs s i = Some pc \<Longrightarrow> leading pc \<Longrightarrow> insert i (leaders (sd_pcs s)) = leaders (sd_pcs s)"
  "sd_pcs s i = Some pc \<Longrightarrow> past_join pc \<Longrightarrow> insert i (joiners (sd_pcs s)) = joiners (sd_pcs s)"
  by (auto simp: leaders_def joiners_def)

lemma joiners_lead: "joiners f \<subseteq> leaders f"
proof -
  have "past_join pc \<Longrightarrow> leading pc" for pc
    by (cases pc) auto
  then show ?thesis by (auto simp: joiners_def leaders_def)
qed

lemma leading_mem: "sd_pcs s i = Some pc \<Longrightarrow> leading pc \<Longrightarrow> i \<in> leaders (sd_pcs s)"
  by (auto simp: leaders_def)

lemma sd_inv_pc: "sd_inv workers s \<Longrightarrow> sd_pcs s i = Some pc \<Longrightarrow> sd_pc_ok s pc"
  unfolding sd_inv_def by blast

text \<open>A step of the counter alone.\<close>

lemma sd_inv_goto:
  assumes "sd_inv workers s" and "sd_pcs s i = Some old" and "leading pc = leading old" and "past_join pc = past_join old"
    and "sd_pc_ok s pc"
  shows "sd_inv workers (sd_goto i pc s)"
proof -
  have same: "leaders ((sd_pcs s)(i \<mapsto> pc)) = leaders (sd_pcs s)" "joiners ((sd_pcs s)(i \<mapsto> pc)) = joiners (sd_pcs s)"
    using assms(2,3,4) by (cases "leading old"; cases "past_join old"; simp add: leaders_goto)+
  show ?thesis
    using assms(1,5) by (auto simp: sd_inv_def same)
qed

lemma shutdown_word_legal:
  assumes "legal_status (unpack cur)" and "m \<in> {Graceful, Immediate}" and "shutdown_word m cur = Some v"
  shows "state (unpack v) = Stopping \<and> legal_status (unpack v) \<and> state (unpack cur) \<in> {SchedulerState.Running, Stopping}"
  using assms
  by (auto simp: shutdown_word_def Let_def legal_status_def named_state_def named_mode_def unpack_pack split: if_splits)

lemma shutdown_word_none:
  "shutdown_word m cur = None \<Longrightarrow> state (unpack cur) \<noteq> SchedulerState.Running"
  by (auto simp: shutdown_word_def Let_def split: if_splits)

lemma sd_pc_ok_stopping:
  assumes "sd_pc_ok s pc" and "sd_state s \<noteq> Stopped" and "\<not> sd_stopped s" and "state (unpack v) = Stopping"
  shows "sd_pc_ok (s\<lparr>sd_word := v\<rparr>) pc"
  using assms by (cases pc) (auto simp: sd_state_def)

lemma sd_inv_cas:
  assumes inv: "sd_inv workers s" and pc: "sd_pcs s i = Some (Sd_cas g m cur)" and v: "shutdown_word m cur = Some v"
    and cur: "sd_word s = cur"
  shows "sd_inv workers (sd_goto i (Sd_requested g) (s\<lparr>sd_word := v\<rparr>))"
proof -
  have m: "m \<in> {Graceful, Immediate}"
    using sd_inv_pc [OF inv pc] by simp
  have legal: "legal_status (unpack cur)"
    using inv cur by (simp add: sd_inv_def)
  note vs = shutdown_word_legal [OF legal m v]
  have st: "sd_state s \<noteq> Stopped" "sd_state s \<in> {SchedulerState.Running, Stopping}"
    using vs cur by (auto simp: sd_state_def)
  have ns: "\<not> sd_stopped s"
    using inv st(1) by (auto simp: sd_inv_def)
  have inv1: "sd_inv workers (sd_goto i (Sd_requested g) (s\<lparr>sd_word := v\<rparr>))"
  proof (rule sd_inv_goto [where old = "Sd_cas g m cur"])
    have "sd_pc_ok (s\<lparr>sd_word := v\<rparr>) p" if "sd_pcs s j = Some p" for j p
      using inv that sd_pc_ok_stopping [OF _ st(1) ns] vs unfolding sd_inv_def by blast
    moreover have "sd_state (s\<lparr>sd_word := v\<rparr>) = Stopping"
      using vs by (simp add: sd_state_def)
    ultimately show "sd_inv workers (s\<lparr>sd_word := v\<rparr>)"
      using inv vs ns by (auto simp: sd_inv_def)
  qed (use pc vs in \<open>simp_all add: sd_state_def\<close>)
  then show ?thesis by simp
qed

lemma sd_inv_leads:
  assumes inv: "sd_inv workers s" and pc: "sd_pcs s i = Some Sd_gate" and free: "\<not> sd_in_progress s"
    and st: "\<not> sd_stopped s" "sd_state s \<noteq> Stopped"
  shows "sd_inv workers (sd_goto i Sd_leader (s\<lparr>sd_in_progress := True\<rparr>))"
proof -
  have none: "leaders (sd_pcs s) = {}" "joiners (sd_pcs s) = {}"
    using inv free joiners_lead [of "sd_pcs s"] by (auto simp: sd_inv_def)
  have "sd_state s \<noteq> SchedulerState.Running"
    using sd_inv_pc [OF inv pc] by simp
  then have "sd_state s = Stopping"
    using inv st(2) by (auto simp: sd_inv_def legal_status_def sd_state_def)
  moreover have "leaders ((sd_pcs s)(i \<mapsto> Sd_leader)) = {i}" "joiners ((sd_pcs s)(i \<mapsto> Sd_leader)) = {}"
    using none by (simp_all add: leaders_goto)
  ultimately show ?thesis
    using inv none st by (auto simp: sd_inv_def)
qed

lemma sd_inv_joins:
  assumes inv: "sd_inv workers s" and pc: "sd_pcs s i = Some Sd_leader" and live: "sd_live s = 0"
  shows "sd_inv workers (sd_goto i Sd_joined (s\<lparr>sd_joins := sd_joins s + 1\<rparr>))"
proof -
  have st: "sd_state s = Stopping"
    using sd_inv_pc [OF inv pc] by simp
  have ns: "\<not> sd_stopped s"
    using inv st by (auto simp: sd_inv_def)
  have l0: "leaders (sd_pcs s) = {i}"
    using inv at_most_one_mem leading_mem [OF pc] by (auto simp: sd_inv_def)
  then have lead: "leaders ((sd_pcs s)(i \<mapsto> Sd_joined)) = {i}" "joiners (sd_pcs s) = {}" "joiners ((sd_pcs s)(i \<mapsto> Sd_joined)) = {i}"
    using joiners_lead [of "sd_pcs s"] pc by (auto simp: leaders_goto joiners_def)
  have "sd_joins s = 0"
    using inv ns lead(2) by (simp add: sd_inv_def)
  then show ?thesis
    using inv st ns live lead l0 by (auto simp: sd_inv_def)
qed

lemma sd_inv_publish:
  assumes inv: "sd_inv workers s" and pc: "sd_pcs s i = Some (Sd_publish v)"
  shows "sd_inv workers (sd_goto i Sd_published (s\<lparr>sd_word := v\<rparr>))"
proof -
  have ok: "sd_pc_ok s (Sd_publish v)"
    using sd_inv_pc [OF inv pc] .
  then obtain m where m: "m \<in> {Graceful, Immediate}" "v = pack Stopped m"
    by auto
  then have v: "state (unpack v) = Stopped" "legal_status (unpack v)"
    by (auto simp: unpack_pack named_state_def named_mode_def legal_status_def)
  have lead: "leaders (sd_pcs s) = {i}"
    using inv at_most_one_mem leading_mem [OF pc] by (auto simp: sd_inv_def)
  have "i \<in> joiners (sd_pcs s)"
    using pc by (auto simp: joiners_def)
  then have join: "sd_joins s = 1" "joiners (sd_pcs s) = {i}"
    using inv joiners_lead [of "sd_pcs s"] lead by (auto simp: sd_inv_def)
  have "sd_pc_ok (s\<lparr>sd_word := v\<rparr>) p" if "sd_pcs s j = Some p" "j \<noteq> i" for j p
  proof -
    have "\<not> leading p"
      using that lead by (auto simp: leaders_def)
    moreover have "sd_pc_ok s p"
      using inv that by (simp add: sd_inv_def)
    ultimately show ?thesis
      using v by (cases p) (auto simp: sd_state_def)
  qed
  moreover have "sd_pc_ok (s\<lparr>sd_word := v\<rparr>) Sd_published"
    using ok v by (simp add: sd_state_def)
  moreover have "sd_state (sd_goto i Sd_published (s\<lparr>sd_word := v\<rparr>)) = Stopped"
    using v by (simp add: sd_state_def)
  ultimately show ?thesis
    using inv ok v lead join unfolding sd_inv_def by (auto simp: leaders_goto sd_state_def)
qed

lemma sd_inv_marked:
  assumes inv: "sd_inv workers s" and pc: "sd_pcs s i = Some Sd_published"
  shows "sd_inv workers (sd_goto i Sd_leave (s\<lparr>sd_stopped := True\<rparr>))"
proof -
  have st: "sd_state s = Stopped" "sd_joins s = 1" "sd_live s = 0"
    using sd_inv_pc [OF inv pc] inv by (auto simp: sd_inv_def)
  have "sd_pc_ok (s\<lparr>sd_stopped := True\<rparr>) p" if "sd_pc_ok s p" for p
    using that by (cases p) (auto simp: sd_state_def)
  moreover have "leaders ((sd_pcs s)(i \<mapsto> Sd_leave)) = leaders (sd_pcs s)" "joiners ((sd_pcs s)(i \<mapsto> Sd_leave)) = joiners (sd_pcs s)"
    using pc by (auto simp: leaders_goto leaders_def joiners_def)
  ultimately show ?thesis
    using inv st by (auto simp: sd_inv_def)
qed

lemma sd_inv_returns:
  assumes inv: "sd_inv workers s" and pc: "sd_pcs s i = Some Sd_leave"
  shows "sd_inv workers (sd_goto i (Sd_returned True) (s\<lparr>sd_in_progress := False\<rparr>))"
proof -
  have st: "sd_stopped s" "sd_state s = Stopped"
    using sd_inv_pc [OF inv pc] inv by (auto simp: sd_inv_def)
  have lead: "leaders (sd_pcs s) = {i}"
    using inv at_most_one_mem leading_mem [OF pc] by (auto simp: sd_inv_def)
  then have "leaders ((sd_pcs s)(i \<mapsto> (Sd_returned True))) = {}"
    by (simp add: leaders_goto)
  then show ?thesis
    using inv st by (auto simp: sd_inv_def)
qed

lemma sd_inv_worker:
  assumes inv: "sd_inv workers s" and stop: "sd_stop s" and live: "0 < sd_live s"
  shows "sd_inv workers (s\<lparr>sd_live := sd_live s - 1\<rparr>)"
proof -
  have "sd_pc_ok (s\<lparr>sd_live := sd_live s - 1\<rparr>) p" if "sd_pc_ok s p" for p
    using that by (cases p) (auto simp: sd_state_def)
  then show ?thesis
    using inv stop live by (auto simp: sd_inv_def)
qed

lemma sd_step_inv:
  assumes "sd_step s t" and "sd_inv workers s" and "0 < workers"
  shows "sd_inv workers t"
proof -
  have stopped: "sd_stopped s \<Longrightarrow> sd_state s = Stopped"
    using assms(2) by (simp add: sd_inv_def)
  from assms(1) show ?thesis
  proof cases
    case (cas_wins i g m cur v)
    then show ?thesis using sd_inv_cas [OF assms(2)] by simp
  next
    case (gate_leads i)
    then show ?thesis using sd_inv_leads [OF assms(2)] by simp
  next
    case (joins i)
    then show ?thesis using sd_inv_joins [OF assms(2)] by simp
  next
    case (publish_stopped i v)
    then show ?thesis using sd_inv_publish [OF assms(2)] by simp
  next
    case (mark_stopped i)
    then show ?thesis using sd_inv_marked [OF assms(2)] by simp
  next
    case (leader_returns i)
    then show ?thesis using sd_inv_returns [OF assms(2)] by simp
  next
    case worker_leaves
    then show ?thesis using sd_inv_worker [OF assms(2)] by simp
  next
    case (request_stop i)
    have ok: "sd_pc_ok s (Sd_requested True)"
      using sd_inv_pc [OF assms(2), of i] request_stop by simp
    then have "sd_inv workers (s\<lparr>sd_stop := True\<rparr>)"
      using assms(2) by (auto simp: sd_inv_def)
    then have "sd_inv workers (sd_goto i Sd_gate (s\<lparr>sd_stop := True\<rparr>))"
      using request_stop ok by (intro sd_inv_goto [where old = "Sd_requested True"]) auto
    then show ?thesis
      using request_stop by simp
  next
    case (cleanup_called i)
    have "sd_stop s"
      using assms(2,3) cleanup_called by (auto simp: sd_inv_def)
    then have "sd_state s \<noteq> SchedulerState.Running"
      using assms(2) by (simp add: sd_inv_def)
    then show ?thesis
      using cleanup_called by (auto intro: sd_inv_goto [OF assms(2)])
  next
    case (load_mode i)
    then have "sd_pc_ok s Sd_joined"
      using sd_inv_pc [OF assms(2), of i] by simp
    moreover have "legal_status (unpack (sd_word s))"
      using assms(2) by (simp add: sd_inv_def)
    ultimately have "sd_pc_ok s (Sd_publish (pack Stopped (shutdown_mode (unpack (sd_word s)))))"
      by (auto simp: legal_status_def sd_state_def)
    then show ?thesis
      using load_mode by (auto intro: sd_inv_goto [OF assms(2)])
  next
    case (load_word i g m)
    then have "sd_pc_ok s (Sd_request g m)"
      using sd_inv_pc [OF assms(2), of i] by simp
    then show ?thesis
      using load_word by (auto intro!: sd_inv_goto [OF assms(2)] simp: sd_state_def)
  next
    case (cas_fails i g m cur v)
    then have "sd_pc_ok s (Sd_cas g m cur)"
      using sd_inv_pc [OF assms(2), of i] by simp
    then show ?thesis
      using cas_fails by (auto intro!: sd_inv_goto [OF assms(2)] simp: sd_state_def)
  next
    case (no_change i g m cur)
    then have "sd_pc_ok s (Sd_cas g m cur)"
      using sd_inv_pc [OF assms(2), of i] by simp
    then show ?thesis
      using no_change shutdown_word_none by (auto intro!: sd_inv_goto [OF assms(2)])
  next
    case (begin_request i m)
    then have "sd_pc_ok s (Sd_begin m)"
      using sd_inv_pc [OF assms(2), of i] by simp
    then show ?thesis
      using begin_request by (auto intro!: sd_inv_goto [OF assms(2)])
  next
    case (begin_stopped i m)
    then show ?thesis by (auto intro: sd_inv_goto [OF assms(2)])
  next
    case (request_only i)
    then show ?thesis by (auto intro: sd_inv_goto [OF assms(2)])
  next
    case (gate_done i)
    then show ?thesis using stopped by (auto intro: sd_inv_goto [OF assms(2)])
  next
    case (gate_waits i)
    then show ?thesis by (auto intro: sd_inv_goto [OF assms(2)])
  next
    case (waiter_returns i)
    then show ?thesis using stopped by (auto intro: sd_inv_goto [OF assms(2)])
  qed
qed

lemma sd_reach_inv:
  assumes "sd_reach workers calls s" and "0 < workers" and "\<forall>i pc. calls i = Some pc \<longrightarrow> sd_entry pc"
  shows "sd_inv workers s"
  using assms(1)
proof (induction rule: sd_reach.induct)
  case sd_start
  have "\<not> leading pc \<and> \<not> past_join pc \<and> sd_pc_ok t pc" if "sd_entry pc" for pc t
    using that by (cases pc) auto
  then have "leaders calls = {}" "joiners calls = {}" "\<forall>i pc. calls i = Some pc \<longrightarrow> sd_pc_ok (sd_initial workers calls) pc"
    using assms(3) by (auto simp: leaders_def joiners_def)
  then show ?case
    by (simp add: sd_inv_def sd_initial_def sd_state_def unpack_pack named_state_def named_mode_def legal_status_def)
next
  case (sd_next s t)
  then show ?case using sd_step_inv assms(2) by blast
qed

section \<open>What shutting down guarantees\<close>


fun status_rank :: "SchedulerState \<Rightarrow> ShutdownMode \<Rightarrow> nat" where
  "status_rank SchedulerState.Running m = 0"
| "status_rank Stopping m = (if m = Immediate then 2 else 1)"
| "status_rank _ m = 3"

definition word_rank :: "u16 \<Rightarrow> nat" where
  "word_rank w = status_rank (state (unpack w)) (shutdown_mode (unpack w))"

text \<open>C18: The lifecycle only moves forward: no step of any shutdown call takes the published status
  back, from \<open>Running\<close> to a graceful stop, to an immediate one, to \<open>Stopped\<close>; in particular an immediate
  request is never downgraded to a graceful one while the runtime is stopping.\<close>

theorem lifecycle_moves_forward:
  assumes "sd_reach workers calls s" and "0 < workers" and "\<forall>i pc. calls i = Some pc \<longrightarrow> sd_entry pc"
    and "sd_step s t"
  shows "word_rank (sd_word s) \<le> word_rank (sd_word t)"
proof -
  have inv: "sd_inv workers s"
    using sd_reach_inv [OF assms(1-3)] .
  from assms(4) show ?thesis
  proof cases
    case (cas_wins i g m cur v)
    have m: "m \<in> {Graceful, Immediate}"
      using sd_inv_pc [OF inv] cas_wins by fastforce
    with cas_wins inv show ?thesis
      by (auto simp: shutdown_word_def word_rank_def Let_def unpack_pack named_state_def named_mode_def sd_inv_def
          split: if_splits)
  next
    case (publish_stopped i v)
    then obtain m where "m \<in> {Graceful, Immediate}" "v = pack Stopped m"
      using sd_inv_pc [OF inv] by fastforce
    then have "word_rank v = 3"
      by (auto simp: word_rank_def unpack_pack named_state_def named_mode_def)
    moreover have "word_rank w \<le> 3" for w
      by (cases "state (unpack w)") (auto simp: word_rank_def)
    ultimately show ?thesis
      using publish_stopped by simp
  qed simp_all
qed

text \<open>Two calls on a runtime with one worker: a graceful shutdown, which runs to its end, and a request.\<close>

definition one_shutdown :: "nat \<Rightarrow> sd_pc option" where
  "one_shutdown = [0 \<mapsto> Sd_begin Graceful]"

lemma one_shutdown_entries: "\<forall>i pc. one_shutdown i = Some pc \<longrightarrow> sd_entry pc"
  by (simp add: one_shutdown_def)

definition one_shutdown_end :: sd_system where
  "one_shutdown_end = \<lparr>sd_word = pack Stopped Graceful, sd_stop = True, sd_in_progress = False, sd_stopped = True,
     sd_live = 0, sd_joins = 1, sd_pcs = [0 \<mapsto> Sd_returned True]\<rparr>"

lemma one_shutdown_runs: "sd_reach 1 one_shutdown one_shutdown_end"
proof -
  define st where "st w stop busy fin live j pc =
    \<lparr>sd_word = w, sd_stop = stop, sd_in_progress = busy, sd_stopped = fin, sd_live = live, sd_joins = j,
      sd_pcs = [0 \<mapsto> pc]\<rparr>" for w stop busy fin live j and pc :: sd_pc
  let ?r = "pack SchedulerState.Running No_shutdown" and ?g = "pack Stopping Graceful" and ?e = "pack Stopped Graceful"
  have unp: "unpack ?r = \<lparr>state = SchedulerState.Running, shutdown_mode = No_shutdown\<rparr>"
    "unpack ?g = \<lparr>state = Stopping, shutdown_mode = Graceful\<rparr>"
    by (simp_all add: unpack_pack named_state_def named_mode_def)
  have next_st: "sd_reach 1 one_shutdown t" if "sd_reach 1 one_shutdown s" "sd_step s u" "u = t" for s t u
    using that sd_next by blast
  have "sd_reach 1 one_shutdown (st ?r False False False 1 0 (Sd_begin Graceful))"
    using sd_start [of 1 one_shutdown] by (simp add: sd_initial_def st_def one_shutdown_def)
  then have "sd_reach 1 one_shutdown (st ?r False False False 1 0 (Sd_request True Graceful))"
    by (rule next_st [OF _ begin_request [of _ 0]]) (simp_all add: st_def sd_state_def unp)
  then have "sd_reach 1 one_shutdown (st ?r False False False 1 0 (Sd_cas True Graceful ?r))"
    by (rule next_st [OF _ load_word [of _ 0]]) (simp_all add: st_def)
  then have "sd_reach 1 one_shutdown (st ?g False False False 1 0 (Sd_requested True))"
    by (rule next_st [OF _ cas_wins [of _ 0 _ _ _ ?g]]) (simp_all add: st_def shutdown_word_def unp Let_def)
  then have "sd_reach 1 one_shutdown (st ?g True False False 1 0 Sd_gate)"
    by (rule next_st [OF _ request_stop [of _ 0]]) (simp_all add: st_def)
  then have "sd_reach 1 one_shutdown (st ?g True True False 1 0 Sd_leader)"
    by (rule next_st [OF _ gate_leads [of _ 0]]) (simp_all add: st_def sd_state_def unp)
  then have "sd_reach 1 one_shutdown (st ?g True True False 0 0 Sd_leader)"
    by (rule next_st [OF _ worker_leaves]) (simp_all add: st_def)
  then have "sd_reach 1 one_shutdown (st ?g True True False 0 1 Sd_joined)"
    by (rule next_st [OF _ joins [of _ 0]]) (simp_all add: st_def)
  then have "sd_reach 1 one_shutdown (st ?g True True False 0 1 (Sd_publish ?e))"
    by (rule next_st [OF _ load_mode [of _ 0]]) (simp_all add: st_def unp)
  then have "sd_reach 1 one_shutdown (st ?e True True False 0 1 Sd_published)"
    by (rule next_st [OF _ publish_stopped [of _ 0]]) (simp_all add: st_def)
  then have "sd_reach 1 one_shutdown (st ?e True True True 0 1 Sd_leave)"
    by (rule next_st [OF _ mark_stopped [of _ 0]]) (simp_all add: st_def)
  then have "sd_reach 1 one_shutdown (st ?e True False True 0 1 (Sd_returned True))"
    by (rule next_st [OF _ leader_returns [of _ 0]]) (simp_all add: st_def)
  then show ?thesis
    by (simp add: st_def one_shutdown_end_def)
qed


theorem lifecycle_moves_forward_witness:
  "sd_step (sd_initial 1 one_shutdown) (sd_goto 0 (Sd_request True Graceful) (sd_initial 1 one_shutdown)) \<and>
   word_rank (sd_word (sd_initial 1 one_shutdown)) \<le>
     word_rank (sd_word (sd_goto 0 (Sd_request True Graceful) (sd_initial 1 one_shutdown)))"
proof -
  have "sd_step (sd_initial 1 one_shutdown) (sd_goto 0 (Sd_request True Graceful) (sd_initial 1 one_shutdown))"
    by (rule begin_request)
      (simp_all add: sd_initial_def one_shutdown_def sd_state_def unpack_pack named_state_def named_mode_def)
  then show ?thesis
    using lifecycle_moves_forward [OF sd_start zero_less_one one_shutdown_entries] by simp
qed

end
