(* ===== verification/Errors.thy ===== *)
theory Errors
  imports Ids
begin

text \<open>
  The machine-readable errors of \<open>include/astra/error.hpp\<close> with their messages.  An enumeration can
  hold a value no enumerator names, for which each message function has a default branch.
\<close>

datatype SchedulerCreationError = FinalizationStarted | Unnamed_creation_error u8

fun creation_message :: "SchedulerCreationError \<Rightarrow> string" where
  "creation_message FinalizationStarted = ''Scheduler creation rejected: process Finalization has already started''"
| "creation_message _ = ''Scheduler creation rejected''"

datatype SubmissionError = Rejected_stopping | Rejected_stopped | Rejected_capacity | Unnamed_submission_error u8

fun submission_message :: "SubmissionError \<Rightarrow> string" where
  "submission_message Rejected_stopping = ''Task submission rejected: scheduler is stopping''"
| "submission_message Rejected_stopped = ''Task submission rejected: scheduler is stopped''"
| "submission_message Rejected_capacity = ''Task submission rejected: external pending capacity exhausted''"
| "submission_message _ = ''Task submission rejected''"

fun submission_error_code :: "SubmissionError \<Rightarrow> u8" where
  "submission_error_code Rejected_stopping = 1"
| "submission_error_code Rejected_stopped = 2"
| "submission_error_code Rejected_capacity = 3"
| "submission_error_code (Unnamed_submission_error w) = w"

datatype GraphValidationError = ForeignNode | SelfEdge | DuplicateEdge | Cycle | Unnamed_graph_error u8

fun graph_message :: "GraphValidationError \<Rightarrow> string" where
  "graph_message ForeignNode = ''Graph validation failed: edge references node foreign to builder''"
| "graph_message SelfEdge = ''Graph validation failed: self-edge detected''"
| "graph_message DuplicateEdge = ''Graph validation failed: duplicate edge detected''"
| "graph_message Cycle = ''Graph validation failed: cycle detected in graph''"
| "graph_message _ = ''Graph validation failed''"

record graph_validation_error =
  gve_reason :: GraphValidationError
  gve_witness :: "NodeId list"

end
