(* ===== verification/Digraphs.thy ===== *)
theory Digraphs
  imports Main
begin

text \<open>
  Cycles of finite directed graphs: what the two cycle searches of a task graph's validation need.
\<close>

definition within :: "('a \<times> 'a) set \<Rightarrow> 'a set \<Rightarrow> ('a \<times> 'a) set" where
  "within E B = E \<inter> (B \<times> B)"

lemma within_insert_no_entry:
  assumes ac: "acyclic (within E B)" and entry: "\<forall>x \<in> insert u B. (x, u) \<notin> E"
  shows "acyclic (within E (insert u B))"
proof -
  have noent: "(x, u) \<notin> within E (insert u B)" for x
    using entry by (auto simp: within_def)
  have *: "(x, y) \<in> (within E (insert u B))\<^sup>+ \<Longrightarrow> x \<noteq> u \<Longrightarrow> (x, y) \<in> (within E B)\<^sup>+" for x y
  proof (induction rule: trancl_induct)
    case (base y)
    then have "(x, y) \<in> within E B"
      using noent by (auto simp: within_def)
    then show ?case by blast
  next
    case (step y z)
    have "(x, y) \<in> (within E (insert u B))\<^sup>+" by fact
    then have "y \<noteq> u"
      using noent by (metis tranclE)
    with step have "(y, z) \<in> within E B"
      using noent by (auto simp: within_def)
    with step show ?case by (meson trancl_into_trancl)
  qed
  have "(x, x) \<notin> (within E (insert u B))\<^sup>+" for x
  proof
    assume x: "(x, x) \<in> (within E (insert u B))\<^sup>+"
    then have "x \<noteq> u"
      using noent by (metis tranclE)
    with * x ac show False
      by (auto simp: acyclic_def)
  qed
  then show ?thesis by (simp add: acyclic_def)
qed

lemma within_converse: "(within E B)\<inverse> = within (E\<inverse>) B"
  by (auto simp: within_def)

lemma within_insert_no_exit:
  assumes "acyclic (within E B)" and "\<forall>x \<in> insert u B. (u, x) \<notin> E"
  shows "acyclic (within E (insert u B))"
proof -
  have "acyclic (within (E\<inverse>) B)"
    using assms(1) by (simp add: acyclic_converse flip: within_converse)
  then have "acyclic (within (E\<inverse>) (insert u B))"
    using assms(2) by (intro within_insert_no_entry) auto
  then show ?thesis
    by (simp add: acyclic_converse flip: within_converse)
qed

lemma within_all: "E \<subseteq> B \<times> B \<Longrightarrow> within E B = E"
  by (auto simp: within_def)

text \<open>Where every node of a finite set has a predecessor in the set there is a cycle.\<close>

lemma finite_no_source_cyclic:
  assumes "finite R" and "R \<noteq> {}" and pred: "\<forall>v \<in> R. \<exists>u \<in> R. (u, v) \<in> E"
  shows "\<not> acyclic E"
proof
  assume "acyclic E"
  then have "acyclic (within E R)"
    by (rule acyclic_subset) (auto simp: within_def)
  moreover have "finite (within E R)"
    using assms(1) by (auto simp: within_def)
  ultimately have "wf (within E R)"
    by (simp add: finite_acyclic_wf)
  moreover obtain a where "a \<in> R"
    using assms(2) by blast
  ultimately have "\<exists>v \<in> R. \<forall>u. (u, v) \<in> within E R \<longrightarrow> u \<notin> R"
    unfolding wf_eq_minimal by blast
  then obtain v where v: "v \<in> R" "\<forall>u. (u, v) \<in> within E R \<longrightarrow> u \<notin> R"
    by blast
  obtain u where u: "u \<in> R" "(u, v) \<in> E"
    using pred v(1) by blast
  then have "(u, v) \<in> within E R"
    using v(1) by (simp add: within_def)
  then show False
    using v(2) u(1) by blast
qed

section \<open>Walks\<close>

fun walk_in :: "('a \<times> 'a) set \<Rightarrow> 'a list \<Rightarrow> bool" where
  "walk_in E [] \<longleftrightarrow> True"
| "walk_in E [x] \<longleftrightarrow> True"
| "walk_in E (x # y # xs) \<longleftrightarrow> (x, y) \<in> E \<and> walk_in E (y # xs)"

lemma walk_in_append:
  "walk_in E (xs @ ys) \<longleftrightarrow> walk_in E xs \<and> walk_in E ys \<and> (xs \<noteq> [] \<and> ys \<noteq> [] \<longrightarrow> (last xs, hd ys) \<in> E)"
proof (induction xs rule: walk_in.induct)
  case (2 E x)
  then show ?case by (cases ys) auto
qed auto

lemma walk_in_snoc: "walk_in E xs \<Longrightarrow> (xs \<noteq> [] \<Longrightarrow> (last xs, y) \<in> E) \<Longrightarrow> walk_in E (xs @ [y])"
  by (simp add: walk_in_append)

lemma walk_in_dropWhile: "walk_in E xs \<Longrightarrow> walk_in E (dropWhile P xs)"
  by (metis takeWhile_dropWhile_id walk_in_append)

text \<open>A closed walk that passes through each of its nodes once.\<close>

definition is_cycle :: "('a \<times> 'a) set \<Rightarrow> 'a list \<Rightarrow> bool" where
  "is_cycle E w \<longleftrightarrow> 2 \<le> length w \<and> walk_in E w \<and> hd w = last w \<and> distinct (butlast w)"

lemma walk_in_trancl: "walk_in E (x # xs) \<Longrightarrow> xs \<noteq> [] \<Longrightarrow> (x, last (x # xs)) \<in> E\<^sup>+"
proof (induction xs arbitrary: x)
  case (Cons y ys)
  show ?case
  proof (cases ys)
    case Nil
    with Cons.prems show ?thesis by auto
  next
    case (Cons z zs)
    with Cons.prems Cons.IH [of y] have "(y, last (y # ys)) \<in> E\<^sup>+" "(x, y) \<in> E"
      by auto
    then show ?thesis by (auto intro: trancl_into_trancl2)
  qed
qed simp

lemma is_cycle_cyclic: "is_cycle E w \<Longrightarrow> \<not> acyclic E"
proof -
  assume w: "is_cycle E w"
  then obtain x xs where x: "w = x # xs" "xs \<noteq> []"
    by (cases w; cases "tl w") (auto simp: is_cycle_def)
  with w walk_in_trancl [of E x xs] have "(x, x) \<in> E\<^sup>+"
    by (auto simp: is_cycle_def)
  then show ?thesis by (auto simp: acyclic_def)
qed

end
