(* ===== verification/Task_Graph.thy ===== *)
theory Task_Graph
  imports Errors Digraphs Status
begin

text \<open>
  Building and validating a task graph (\<open>include/astra/graph.hpp\<close> and \<open>TaskGraph::freeze\<close> in
  \<open>src/graph/graph.cpp\<close>): nodes numbered from 1 in the order of their insertion, edges recorded as
  given, and the validation that refuses foreign nodes, self edges, duplicate edges and cycles, the
  last with a cycle found by depth-first search.
\<close>

section \<open>The builder\<close>

datatype EdgePolicy = RequireSuccess | AfterCompletion

record GraphEdge =
  edge_from :: NodeId
  edge_to :: NodeId
  edge_policy :: EdgePolicy

text \<open>A node's invoker: a callable, which may take a stop token, or a cold coroutine.\<close>

datatype NodeInvoker = Plain_node nat | Stop_aware_node nat | Coroutine_node nat

record NodeData =
  nd_id :: NodeId
  nd_invoker :: NodeInvoker
  nd_options :: "TaskOptions option"

record TaskGraph =
  tg_nodes :: "NodeData list"
  tg_edges :: "GraphEdge list"

definition empty_graph :: TaskGraph where
  "empty_graph = \<lparr>tg_nodes = [], tg_edges = []\<rparr>"

definition append_node :: "TaskOptions option \<Rightarrow> NodeInvoker \<Rightarrow> TaskGraph \<Rightarrow> NodeId \<times> TaskGraph" where
  "append_node opts i g =
     (let v = NodeId (of_nat (length (tg_nodes g) + 1))
      in (v, g\<lparr>tg_nodes := tg_nodes g @ [\<lparr>nd_id = v, nd_invoker = i, nd_options = opts\<rparr>]\<rparr>))"

definition emplace :: "NodeInvoker \<Rightarrow> TaskGraph \<Rightarrow> NodeId \<times> TaskGraph" where
  "emplace i = append_node None i"

definition emplace_with :: "TaskOptions \<Rightarrow> NodeInvoker \<Rightarrow> TaskGraph \<Rightarrow> invalid_argument + NodeId \<times> TaskGraph" where
  "emplace_with opts i g =
     (case validate_priority (priority opts) of
        Inl e \<Rightarrow> Inl e
      | Inr _ \<Rightarrow> Inr (append_node (Some opts) i g))"

text \<open>A moved-from or never started \<open>Task\<close> has no coroutine to give.\<close>

datatype emplace_error = Invalid_task string | Invalid_option invalid_argument

definition emplace_coroutine :: "nat option \<Rightarrow> TaskGraph \<Rightarrow> emplace_error + NodeId \<times> TaskGraph" where
  "emplace_coroutine coro g =
     (case coro of
        None \<Rightarrow> Inl (Invalid_task ''cannot emplace empty/invalid Task<void> into TaskGraph'')
      | Some c \<Rightarrow> Inr (append_node None (Coroutine_node c) g))"

definition emplace_coroutine_with ::
  "TaskOptions \<Rightarrow> nat option \<Rightarrow> TaskGraph \<Rightarrow> emplace_error + NodeId \<times> TaskGraph" where
  "emplace_coroutine_with opts coro g =
     (case validate_priority (priority opts) of
        Inl e \<Rightarrow> Inl (Invalid_option e)
      | Inr _ \<Rightarrow>
          (case coro of
             None \<Rightarrow> Inl (Invalid_task ''cannot emplace empty/invalid Task<void> into TaskGraph'')
           | Some c \<Rightarrow> Inr (append_node (Some opts) (Coroutine_node c) g)))"

definition add_edge :: "NodeId \<Rightarrow> NodeId \<Rightarrow> EdgePolicy \<Rightarrow> TaskGraph \<Rightarrow> TaskGraph" where
  "add_edge u v pol g = g\<lparr>tg_edges := tg_edges g @ [\<lparr>edge_from = u, edge_to = v, edge_policy = pol\<rparr>]\<rparr>"

section \<open>Validation\<close>

abbreviation node_number :: "NodeId \<Rightarrow> nat" where
  "node_number v \<equiv> unat (node_value v)"

definition foreign_end :: "nat \<Rightarrow> NodeId \<Rightarrow> bool" where
  "foreign_end n v \<longleftrightarrow> \<not> node_id_valid v \<or> node_value v = 0 \<or> n < node_number v"

definition edge_pair :: "GraphEdge \<Rightarrow> nat \<times> nat" where
  "edge_pair e = (node_number (edge_from e), node_number (edge_to e))"

text \<open>Sorted adjacency and in-degrees, by node number.\<close>

definition adj :: "(nat \<times> nat) list \<Rightarrow> nat \<Rightarrow> nat list" where
  "adj ps u = sort (map snd (filter (\<lambda>p. fst p = u) ps))"

definition in_degree :: "(nat \<times> nat) list \<Rightarrow> nat \<Rightarrow> nat" where
  "in_degree ps v = length (filter (\<lambda>p. snd p = v) ps)"

text \<open>One node of Kahn's algorithm: its successors lose a predecessor, and join the queue with the last.\<close>

fun relax :: "nat list \<Rightarrow> (nat \<Rightarrow> nat) \<times> nat list \<Rightarrow> (nat \<Rightarrow> nat) \<times> nat list" where
  "relax [] s = s"
| "relax (v # vs) (d, q) = relax vs (d(v := d v - 1), if d v = 1 then insort v q else q)"

text \<open>The queue holds the numbers of the nodes without a pending predecessor, least first.\<close>

lemma relax_sum:
  assumes "finite S" and "set vs \<subseteq> S" and "relax vs (d, q) = (d', q')"
  shows "(\<Sum>x\<in>S. d' x) + length q' \<le> (\<Sum>x\<in>S. d x) + length q"
  using assms(2,3)
proof (induction vs arbitrary: d q)
  case (Cons v vs)
  have v: "v \<in> S" using Cons.prems by simp
  let ?d = "d(v := d v - 1)" and ?q = "if d v = 1 then insort v q else q"
  have "(\<Sum>x\<in>S. ?d x) = d v - 1 + (\<Sum>x\<in>S - {v}. d x)" "(\<Sum>x\<in>S. d x) = d v + (\<Sum>x\<in>S - {v}. d x)"
    using assms(1) v by (simp_all add: sum.remove)
  moreover have "length ?q = (if d v = 1 then Suc (length q) else length q)"
    by simp
  moreover have sub: "set vs \<subseteq> S" and r: "relax vs (?d, ?q) = (d', q')"
    using Cons.prems by (simp, simp only: relax.simps)
  note Cons.IH [OF sub r]
  ultimately show ?case by (cases "d v = 1") (simp_all del: fun_upd_apply)
qed simp

lemma relax_adj_sum:
  assumes "relax (adj ps u) (d, q) = (d', q')"
  shows "(\<Sum>x\<in>snd ` set ps. d' x) + length q' \<le> (\<Sum>x\<in>snd ` set ps. d x) + length q"
  by (rule relax_sum [OF _ _ assms]) (auto simp: adj_def)

function kahn :: "(nat \<times> nat) list \<Rightarrow> (nat \<Rightarrow> nat) \<Rightarrow> nat list \<Rightarrow> nat \<Rightarrow> nat" where
  "kahn ps d [] visited = visited"
| "kahn ps d (u # q) visited =
     (case relax (adj ps u) (d, q) of (d', q') \<Rightarrow> kahn ps d' q' (visited + 1))"
  by pat_completeness auto
termination
  by (relation "measure (\<lambda>(ps, d, q, visited). (\<Sum>x\<in>snd ` set ps. d x) + length q)")
    (auto simp: less_Suc_eq_le dest: relax_adj_sum [OF sym])

definition visited_count :: "nat \<Rightarrow> (nat \<times> nat) list \<Rightarrow> nat" where
  "visited_count n ps = kahn ps (in_degree ps) (filter (\<lambda>i. in_degree ps i = 0) [1..<Suc n]) 0"

text \<open>
  The depth-first search.  A colour is 0 for an unseen node, 1 on the current path, 2 when finished;
  the loop visits the successors \<open>vs\<close> of the last node of \<open>path\<close>.  The fuel bounds the depth; \<open>None\<close> is
  running out of it.
\<close>

fun dfs_loop ::
  "(nat \<times> nat) list \<Rightarrow> nat \<Rightarrow> nat list \<Rightarrow> (nat \<Rightarrow> nat) \<Rightarrow> nat list \<Rightarrow> (nat list + (nat \<Rightarrow> nat)) option" where
  "dfs_loop ps fuel [] color path = Some (Inr color)"
| "dfs_loop ps 0 (v # vs) color path = None"
| "dfs_loop ps (Suc k) (v # vs) color path =
     (if color v = 1 \<and> v \<in> set path then Some (Inl (dropWhile (\<lambda>x. x \<noteq> v) path @ [v]))
      else if color v = 0 then
        (case dfs_loop ps k (adj ps v) (color(v := 1)) (path @ [v]) of
           Some (Inr color') \<Rightarrow> dfs_loop ps (Suc k) vs (color'(v := 2)) path
         | r \<Rightarrow> r)
      else dfs_loop ps (Suc k) vs color path)"

definition find_cycle_dfs ::
  "(nat \<times> nat) list \<Rightarrow> nat \<Rightarrow> nat \<Rightarrow> (nat \<Rightarrow> nat) \<Rightarrow> nat list \<Rightarrow> (nat list + (nat \<Rightarrow> nat)) option" where
  "find_cycle_dfs ps fuel u color path =
     (case dfs_loop ps fuel (adj ps u) (color(u := 1)) (path @ [u]) of
        Some (Inr color') \<Rightarrow> Some (Inr (color'(u := 2)))
      | r \<Rightarrow> r)"

fun dfs_roots :: "(nat \<times> nat) list \<Rightarrow> nat \<Rightarrow> nat list \<Rightarrow> (nat \<Rightarrow> nat) \<Rightarrow> (nat list + (nat \<Rightarrow> nat)) option" where
  "dfs_roots ps fuel [] color = Some (Inr color)"
| "dfs_roots ps fuel (i # is) color =
     (if color i = 0 then
        (case find_cycle_dfs ps fuel i color [] of
           Some (Inr color') \<Rightarrow> dfs_roots ps fuel is color'
         | r \<Rightarrow> r)
      else dfs_roots ps fuel is color)"

text \<open>The witness of the search over all roots; empty if it finds none.\<close>

definition cycle_witness :: "nat \<Rightarrow> (nat \<times> nat) list \<Rightarrow> NodeId list option" where
  "cycle_witness n ps =
     (case dfs_roots ps (Suc n) [1..<Suc n] (\<lambda>_. 0) of
        None \<Rightarrow> None
      | Some (Inl w) \<Rightarrow> Some (map (\<lambda>i. NodeId (of_nat i)) w)
      | Some (Inr _) \<Rightarrow> Some [])"

definition invalid_graph :: "GraphValidationError \<Rightarrow> NodeId list \<Rightarrow> (graph_validation_error + TaskGraph) option" where
  "invalid_graph e w = Some (Inl \<lparr>gve_reason = e, gve_witness = w\<rparr>)"

definition freeze :: "TaskGraph \<Rightarrow> (graph_validation_error + TaskGraph) option" where
  "freeze g =
     (let n = length (tg_nodes g); es = tg_edges g; ps = map edge_pair es
      in if list_ex (\<lambda>e. foreign_end n (edge_from e) \<or> foreign_end n (edge_to e)) es then invalid_graph ForeignNode []
         else if list_ex (\<lambda>e. edge_from e = edge_to e) es then invalid_graph SelfEdge []
         else if \<not> distinct ps then invalid_graph DuplicateEdge []
         else if 0 < n \<and> es \<noteq> [] \<and> visited_count n ps < n then
           (case cycle_witness n ps of None \<Rightarrow> None | Some w \<Rightarrow> invalid_graph Cycle w)
         else Some (Inr g))"

end
