(* ===== verification/Graph_Validation.thy ===== *)
theory Graph_Validation
  imports Task_Graph
begin

text \<open>
  The validation of a task graph is exact and complete: Kahn's algorithm counts all nodes just when the
  graph has no cycle, the depth-first search then finds one, and neither runs out of fuel.
\<close>

section \<open>Kahn's algorithm\<close>

definition proper_pairs :: "nat \<Rightarrow> (nat \<times> nat) list \<Rightarrow> bool" where
  "proper_pairs n ps \<longleftrightarrow> distinct ps \<and> set ps \<subseteq> {1..n} \<times> {1..n} \<and> (\<forall>v. (v, v) \<notin> set ps)"

lemma set_adj [simp]: "set (adj ps u) = {v. (u, v) \<in> set ps}"
  by (force simp: adj_def)

lemma distinct_adj: "distinct ps \<Longrightarrow> distinct (adj ps u)"
  by (auto simp: adj_def distinct_map inj_on_def prod_eq_iff)

lemma in_degree_card:
  assumes "distinct ps"
  shows "in_degree ps v = card {u. (u, v) \<in> set ps}"
proof -
  have "card (set (filter (\<lambda>p. snd p = v) ps)) = length (filter (\<lambda>p. snd p = v) ps)"
    using assms by (intro distinct_card) simp
  moreover have "set (filter (\<lambda>p. snd p = v) ps) = (\<lambda>u. (u, v)) ` {u. (u, v) \<in> set ps}"
    by auto
  moreover have "card ((\<lambda>u. (u, v)) ` {u. (u, v) \<in> set ps}) = card {u. (u, v) \<in> set ps}"
    by (intro card_image inj_onI) simp
  ultimately show ?thesis
    by (simp add: in_degree_def)
qed

lemma finite_preds [simp]: "finite {u. (u, v) \<in> set ps \<and> P u}" "finite {u. (u, v) \<in> set ps}"
proof -
  have "{u. (u, v) \<in> set ps} \<subseteq> fst ` set ps" by force
  then show "finite {u. (u, v) \<in> set ps}" by (rule finite_subset) simp
  then show "finite {u. (u, v) \<in> set ps \<and> P u}" by (rule rev_finite_subset) auto
qed

lemma relax_spec:
  assumes "distinct vs" and "relax vs (d, q) = (d', q')"
  shows "d' = (\<lambda>x. if x \<in> set vs then d x - 1 else d x) \<and> set q' = set q \<union> {v \<in> set vs. d v = 1} \<and>
    (distinct q \<longrightarrow> (\<forall>v \<in> set vs. d v = 1 \<longrightarrow> v \<notin> set q) \<longrightarrow> distinct q')"
  using assms
proof (induction vs arbitrary: d q)
  case (Cons v vs)
  let ?d = "d(v := d v - 1)" and ?q = "if d v = 1 then insort v q else q"
  have r: "relax vs (?d, ?q) = (d', q')"
    using Cons.prems(2) by (simp only: relax.simps)
  have v: "v \<notin> set vs" "distinct vs"
    using Cons.prems(1) by auto
  have same: "?d x = d x" if "x \<in> set vs" for x
    using that v(1) by auto
  from Cons.IH [OF v(2) r] have
    d': "d' = (\<lambda>x. if x \<in> set vs then ?d x - 1 else ?d x)" and
    q': "set q' = set ?q \<union> {x \<in> set vs. ?d x = 1}" and
    dis: "distinct ?q \<Longrightarrow> (\<forall>x \<in> set vs. ?d x = 1 \<longrightarrow> x \<notin> set ?q) \<Longrightarrow> distinct q'"
    by blast+
  have "d' = (\<lambda>x. if x \<in> set (v # vs) then d x - 1 else d x)"
    unfolding d' using v(1) by auto
  moreover have "{x \<in> set vs. ?d x = 1} = {x \<in> set vs. d x = 1}"
    using v(1) by auto
  then have "set q' = set q \<union> {x \<in> set (v # vs). d x = 1}"
    unfolding q' by (auto simp: set_insort_key)
  moreover have "distinct q'" if "distinct q" "\<forall>x \<in> set (v # vs). d x = 1 \<longrightarrow> x \<notin> set q"
  proof (rule dis)
    show "distinct ?q"
      using that by (simp add: distinct_insort)
    show "\<forall>x \<in> set vs. ?d x = 1 \<longrightarrow> x \<notin> set ?q"
      using that same v(1) by (auto simp: set_insort_key)
  qed
  ultimately show ?case by blast
qed simp

text \<open>\<open>P\<close> is the set of the nodes taken from the queue so far.\<close>

definition kahn_inv :: "nat \<Rightarrow> (nat \<times> nat) list \<Rightarrow> nat set \<Rightarrow> (nat \<Rightarrow> nat) \<Rightarrow> nat list \<Rightarrow> bool" where
  "kahn_inv n ps P d q \<longleftrightarrow>
     P \<subseteq> {1..n} \<and> set q \<subseteq> {1..n} \<and> distinct q \<and> P \<inter> set q = {} \<and>
     (\<forall>v \<in> {1..n}. d v = card {u. (u, v) \<in> set ps \<and> u \<notin> P}) \<and>
     (\<forall>v \<in> {1..n}. v \<in> P \<union> set q \<longleftrightarrow> d v = 0) \<and> acyclic (within (set ps) P)"

lemma kahn_inv_zero:
  assumes "kahn_inv n ps P d q" and "x \<in> P \<union> set q" and "(u, x) \<in> set ps"
  shows "u \<in> P"
proof -
  have "x \<in> {1..n}" using assms(1,2) by (auto simp: kahn_inv_def)
  then have "d x = card {u. (u, x) \<in> set ps \<and> u \<notin> P}" "d x = 0"
    using assms(1,2) unfolding kahn_inv_def by blast+
  then have "{u. (u, x) \<in> set ps \<and> u \<notin> P} = {}" by simp
  then show ?thesis using assms(3) by blast
qed

lemma kahn_inv_init:
  assumes "proper_pairs n ps"
  shows "kahn_inv n ps {} (in_degree ps) (filter (\<lambda>i. in_degree ps i = 0) [1..<Suc n])"
  using assms by (auto simp: kahn_inv_def in_degree_card proper_pairs_def within_def acyclic_def simp del: upt_Suc)

lemma kahn_inv_step:
  assumes p: "proper_pairs n ps" and inv: "kahn_inv n ps P d (u # q)" and r: "relax (adj ps u) (d, q) = (d', q')"
  shows "kahn_inv n ps (insert u P) d' q'" and "u \<notin> P"
proof -
  let ?E = "set ps"
  have u: "u \<in> {1..n}" "u \<notin> P" "u \<notin> set q" "distinct q" "P \<inter> set q = {}"
    using inv by (auto simp: kahn_inv_def)
  show "u \<notin> P" by fact
  have dis: "distinct (adj ps u)"
    using p by (simp add: proper_pairs_def distinct_adj)
  note rs = relax_spec [OF dis r]
  have dv: "d v = card {w. (w, v) \<in> ?E \<and> w \<notin> P}" if "v \<in> {1..n}" for v
    using inv that unfolding kahn_inv_def by blast
  have zero: "v \<in> P \<union> set (u # q) \<longleftrightarrow> d v = 0" if "v \<in> {1..n}" for v
    using inv that unfolding kahn_inv_def by blast
  have succ: "v \<in> {1..n}" "v \<notin> P" "v \<notin> set (u # q)" if "(u, v) \<in> ?E" for v
  proof -
    show "v \<in> {1..n}" using that p by (auto simp: proper_pairs_def)
    show "v \<notin> P" "v \<notin> set (u # q)"
      using kahn_inv_zero [OF inv _ that] u(2) by blast+
  qed
  have split: "{w. (w, v) \<in> ?E \<and> w \<notin> P} = (if (u, v) \<in> ?E then insert u {w. (w, v) \<in> ?E \<and> w \<notin> insert u P}
      else {w. (w, v) \<in> ?E \<and> w \<notin> insert u P})" for v
    using u(2) by auto
  have dd: "d' v = (if (u, v) \<in> ?E then d v - 1 else d v)" for v
    using rs by simp
  have d': "d' v = card {w. (w, v) \<in> ?E \<and> w \<notin> insert u P}" if "v \<in> {1..n}" for v
    using dd [of v] dv [OF that] split [of v] by (simp split: if_splits)
  have q': "set q' = set q \<union> {v. (u, v) \<in> ?E \<and> d v = 1}"
    using rs by simp
  have "\<forall>v \<in> set (adj ps u). d v = 1 \<longrightarrow> v \<notin> set q"
    using succ by simp
  then have c1: "distinct q'"
    using rs u(4) by blast
  have c2: "insert u P \<inter> set q' = {}"
    using q' succ u by auto
  have c3: "v \<in> insert u P \<union> set q' \<longleftrightarrow> d' v = 0" if "v \<in> {1..n}" for v
  proof (cases "(u, v) \<in> ?E")
    case True
    then show ?thesis
      using zero [OF that] succ [OF True] dd [of v] q' by (cases "d v") simp_all
  next
    case False
    then show ?thesis
      using zero [OF that] dd [of v] q' by simp
  qed
  have c4: "acyclic (within ?E (insert u P))"
  proof (rule within_insert_no_exit)
    show "acyclic (within ?E P)" using inv by (simp add: kahn_inv_def)
    show "\<forall>x \<in> insert u P. (u, x) \<notin> ?E"
      using succ p by (auto simp: proper_pairs_def)
  qed
  have c5: "set q' \<subseteq> {1..n}"
    using inv q' succ(1) unfolding kahn_inv_def by (simp add: subset_iff)
  have c6: "insert u P \<subseteq> {1..n}"
    using inv u(1) unfolding kahn_inv_def by simp
  show "kahn_inv n ps (insert u P) d' q'"
    unfolding kahn_inv_def by (intro conjI ballI c1 c2 c3 c4 c5 c6 d')
qed

lemma kahn_result:
  assumes "proper_pairs n ps" and "kahn_inv n ps P d q" and "visited = card P"
  shows "\<exists>R d'. kahn_inv n ps R d' [] \<and> kahn ps d q visited = card R"
  using assms
proof (induction ps d q visited arbitrary: P rule: kahn.induct)
  case (2 ps d u q visited)
  obtain d' q' where r: "relax (adj ps u) (d, q) = (d', q')"
    by (cases "relax (adj ps u) (d, q)")
  note st = kahn_inv_step [OF 2(2,3) r]
  have "finite P"
    using 2(3) by (auto simp: kahn_inv_def intro: finite_subset)
  then have "visited + 1 = card (insert u P)"
    using st(2) 2(4) by simp
  from 2(1) [OF r [symmetric] 2(2) st(1) this] show ?case
    by (simp add: r)
qed auto

lemma visited_count_spec:
  assumes "proper_pairs n ps"
  shows "visited_count n ps \<le> n \<and> (visited_count n ps = n \<longleftrightarrow> acyclic (set ps))"
proof -
  obtain R d' where inv: "kahn_inv n ps R d' []" and v: "visited_count n ps = card R"
    using kahn_result [OF assms kahn_inv_init [OF assms], of 0] unfolding visited_count_def by auto
  have R: "R \<subseteq> {1..n}" "finite R"
    using inv by (auto simp: kahn_inv_def intro: finite_subset)
  have le: "card R \<le> n"
    using R(1) card_mono [of "{1..n}" R] by simp
  have "card R = n \<longleftrightarrow> R = {1..n}"
    using R card_subset_eq [of "{1..n}" R] by auto
  moreover have "acyclic (set ps)" if "R = {1..n}"
    using inv that within_all [of "set ps" "{1..n}"] assms by (simp add: kahn_inv_def proper_pairs_def)
  moreover have "\<not> acyclic (set ps)" if "R \<noteq> {1..n}"
  proof (rule finite_no_source_cyclic)
    show "finite ({1..n} - R)" by simp
    show "{1..n} - R \<noteq> {}" using that R(1) by blast
    show "\<forall>v \<in> {1..n} - R. \<exists>u \<in> {1..n} - R. (u, v) \<in> set ps"
    proof
      fix v
      assume v: "v \<in> {1..n} - R"
      have "d' v \<noteq> 0" "d' v = card {u. (u, v) \<in> set ps \<and> u \<notin> R}"
        using inv v unfolding kahn_inv_def by auto
      then obtain u where "(u, v) \<in> set ps" "u \<notin> R"
        by (metis (mono_tags, lifting) card.empty empty_Collect_eq)
      moreover have "u \<in> {1..n}"
        using calculation assms by (auto simp: proper_pairs_def)
      ultimately show "\<exists>u \<in> {1..n} - R. (u, v) \<in> set ps" by blast
    qed
  qed
  ultimately show ?thesis
    using le v by auto
qed

section \<open>The depth-first search\<close>

text \<open>The nodes on the path are those of colour 1; the finished ones have only finished successors.\<close>

definition dfs_inv :: "nat \<Rightarrow> (nat \<times> nat) list \<Rightarrow> (nat \<Rightarrow> nat) \<Rightarrow> nat list \<Rightarrow> bool" where
  "dfs_inv n ps color path \<longleftrightarrow>
     set path = {v. color v = 1} \<and> set path \<subseteq> {1..n} \<and> distinct path \<and> walk_in (set ps) path \<and>
     (\<forall>v. color v \<in> {0, 1, 2}) \<and> (\<forall>u v. color u = 2 \<longrightarrow> (u, v) \<in> set ps \<longrightarrow> color v = 2) \<and>
     acyclic (within (set ps) {v. color v = 2})"

definition unseen :: "nat \<Rightarrow> (nat \<Rightarrow> nat) \<Rightarrow> nat" where
  "unseen n color = card {v \<in> {1..n}. color v = 0}"

lemma unseen_update:
  assumes "v \<in> {1..n}" and "color v = 0"
  shows "unseen n color = Suc (unseen n (color(v := 1)))"
proof -
  have "{w \<in> {1..n}. color w = 0} = insert v {w \<in> {1..n}. (color(v := 1)) w = 0}"
    using assms by auto
  then show ?thesis by (simp add: unseen_def)
qed

lemma dfs_inv_push:
  assumes inv: "dfs_inv n ps color path" and v: "color v = 0" "v \<in> {1..n}" and e: "path \<noteq> [] \<Longrightarrow> (last path, v) \<in> set ps"
  shows "dfs_inv n ps (color(v := 1)) (path @ [v])"
proof -
  have "{w. (color(v := 1)) w = 2} = {w. color w = 2}"
    using v(1) by auto
  moreover have "v \<notin> set path"
    using inv v(1) by (simp add: dfs_inv_def)
  moreover have "walk_in (set ps) (path @ [v])"
    using inv e by (auto simp: dfs_inv_def intro: walk_in_snoc)
  moreover have "\<forall>u w. (color(v := 1)) u = 2 \<longrightarrow> (u, w) \<in> set ps \<longrightarrow> (color(v := 1)) w = 2"
    using inv v(1) by (auto simp: dfs_inv_def)
  moreover have "set (path @ [v]) = {w. (color(v := 1)) w = 1}"
    using inv by (auto simp: dfs_inv_def)
  ultimately show ?thesis
    using inv v(2) by (auto simp: dfs_inv_def)
qed

lemma dfs_inv_pop:
  assumes inv: "dfs_inv n ps color (path @ [v])" and fin: "\<forall>w. (v, w) \<in> set ps \<longrightarrow> color w = 2"
  shows "dfs_inv n ps (color(v := 2)) path"
proof -
  have v: "color v = 1" "v \<notin> set path"
    using inv by (auto simp: dfs_inv_def)
  have B: "{w. (color(v := 2)) w = 2} = insert v {w. color w = 2}"
    by auto
  have "\<forall>x \<in> insert v {w. color w = 2}. (x, v) \<notin> set ps"
    using inv fin v(1) unfolding dfs_inv_def by (metis insertE mem_Collect_eq one_eq_numeral_iff semiring_norm(83))
  then have "acyclic (within (set ps) {w. (color(v := 2)) w = 2})"
    unfolding B using inv by (intro within_insert_no_entry) (simp_all add: dfs_inv_def)
  moreover have "set path = {w. (color(v := 2)) w = 1}"
    using inv v by (auto simp: dfs_inv_def)
  moreover have "\<forall>u w. (color(v := 2)) u = 2 \<longrightarrow> (u, w) \<in> set ps \<longrightarrow> (color(v := 2)) w = 2"
    using inv fin by (auto simp: dfs_inv_def)
  moreover have "walk_in (set ps) path"
    using inv by (simp add: dfs_inv_def walk_in_append)
  ultimately show ?thesis
    using inv by (auto simp: dfs_inv_def)
qed

lemma dfs_found:
  assumes inv: "dfs_inv n ps color path" and v: "v \<in> set path" and e: "(last path, v) \<in> set ps"
  shows "is_cycle (set ps) (dropWhile (\<lambda>x. x \<noteq> v) path @ [v])"
proof -
  let ?w = "dropWhile (\<lambda>x. x \<noteq> v) path"
  have ne: "?w \<noteq> []"
    using v by (auto simp: dropWhile_eq_Nil_conv)
  have "hd ?w = v"
    using hd_dropWhile [OF ne] by simp
  moreover have "last ?w = last path"
    using ne by (metis dropWhile_eq_Cons_conv last_appendR takeWhile_dropWhile_id)
  moreover have "walk_in (set ps) ?w" "distinct ?w"
    using inv by (simp_all add: dfs_inv_def walk_in_dropWhile distinct_dropWhile)
  moreover have "walk_in (set ps) (?w @ [v])"
    using calculation e ne by (auto intro: walk_in_snoc)
  moreover have "Suc 0 \<le> length ?w" "hd (?w @ [v]) = hd ?w"
    using ne by (simp_all add: Suc_le_eq)
  ultimately show ?thesis
    by (simp add: is_cycle_def)
qed

text \<open>What the loop returns: a cycle, or colours with all the given successors finished and no node unseen anew.\<close>

fun dfs_result ::
  "nat \<Rightarrow> (nat \<times> nat) list \<Rightarrow> nat list \<Rightarrow> (nat \<Rightarrow> nat) \<Rightarrow> nat list \<Rightarrow> (nat list + (nat \<Rightarrow> nat)) option \<Rightarrow> bool" where
  "dfs_result n ps vs color path None \<longleftrightarrow> False"
| "dfs_result n ps vs color path (Some (Inl w)) \<longleftrightarrow> is_cycle (set ps) w"
| "dfs_result n ps vs color path (Some (Inr color')) \<longleftrightarrow>
     dfs_inv n ps color' path \<and> (\<forall>v \<in> set vs. color' v = 2) \<and> unseen n color' \<le> unseen n color \<and>
     (\<forall>v. color v = 2 \<longrightarrow> color' v = 2)"

lemma dfs_resultE:
  assumes "dfs_result n ps vs color path r"
  obtains w where "r = Some (Inl w)" "is_cycle (set ps) w"
    | c where "r = Some (Inr c)" "dfs_inv n ps c path" "\<forall>v \<in> set vs. c v = 2" "unseen n c \<le> unseen n color"
      "\<forall>v. color v = 2 \<longrightarrow> c v = 2"
proof (cases r)
  case (Some x)
  with assms that show thesis
    by (cases x) auto
qed (use assms in simp)

lemma dfs_loop_spec:
  assumes "set ps \<subseteq> {1..n} \<times> {1..n}" and "dfs_inv n ps color path" and "path \<noteq> []"
    and "\<forall>v \<in> set vs. (last path, v) \<in> set ps" and "unseen n color < fuel"
  shows "dfs_result n ps vs color path (dfs_loop ps fuel vs color path)"
  using assms
proof (induction ps fuel vs color path rule: dfs_loop.induct)
  case (3 ps k v vs color path)
  have edge: "(last path, v) \<in> set ps" and vn: "v \<in> {1..n}"
    using "3.prems"(1,4) by auto
  have col: "color v \<in> {0, 1, 2}" "set path = {v. color v = 1}"
    using "3.prems"(2) unfolding dfs_inv_def by blast+
  consider "color v = 1" | "color v = 0" | "color v = 2"
    using col(1) by auto
  then show ?case
  proof cases
    case 1
    then show ?thesis
      using dfs_found [OF "3.prems"(2) _ edge] col(2) by simp
  next
    case 2
    let ?c = "color(v := 1)"
    have inv1: "dfs_inv n ps ?c (path @ [v])"
      using dfs_inv_push [OF "3.prems"(2) 2 vn] edge by simp
    have fuel1: "unseen n ?c < k"
      using unseen_update [where color = color, OF vn 2] "3.prems"(5) by simp
    have "dfs_result n ps (adj ps v) ?c (path @ [v]) (dfs_loop ps k (adj ps v) ?c (path @ [v]))"
      using 2 inv1 fuel1 "3.prems"(1) by (intro "3.IH"(1)) (auto simp del: fun_upd_apply)
    then consider w where "dfs_loop ps k (adj ps v) ?c (path @ [v]) = Some (Inl w)" "is_cycle (set ps) w"
      | c1 where "dfs_loop ps k (adj ps v) ?c (path @ [v]) = Some (Inr c1)" "dfs_inv n ps c1 (path @ [v])"
        "\<forall>w. (v, w) \<in> set ps \<longrightarrow> c1 w = 2" "unseen n c1 \<le> unseen n ?c" "\<forall>w. ?c w = 2 \<longrightarrow> c1 w = 2"
      by (rule dfs_resultE) (auto simp del: fun_upd_apply)
    then show ?thesis
    proof cases
      case 1
      with 2 show ?thesis by simp
    next
      case (2 c1)
      let ?c2 = "c1(v := 2)"
      have inv2: "dfs_inv n ps ?c2 path"
        using dfs_inv_pop [OF 2(2,3)] .
      have "c1 v = 1"
        using 2(2) by (auto simp: dfs_inv_def)
      then have "{w \<in> {1..n}. ?c2 w = 0} = {w \<in> {1..n}. c1 w = 0}"
        by auto
      then have un: "unseen n ?c2 \<le> unseen n color"
        using 2(4) unseen_update [where color = color, OF vn \<open>color v = 0\<close>] by (simp add: unseen_def)
      have "dfs_result n ps vs ?c2 path (dfs_loop ps (Suc k) vs ?c2 path)"
        using 2(1) \<open>color v = 0\<close> inv2 un "3.prems" by (intro "3.IH"(2)) (auto simp del: fun_upd_apply)
      moreover have "dfs_loop ps (Suc k) (v # vs) color path = dfs_loop ps (Suc k) vs ?c2 path"
        using 2(1) \<open>color v = 0\<close> by simp
      moreover have "dfs_result n ps (v # vs) color path r" if "dfs_result n ps vs ?c2 path r" for r
        using that
      proof (rule dfs_resultE)
        fix c
        assume c: "r = Some (Inr c)" "dfs_inv n ps c path" "\<forall>x \<in> set vs. c x = 2" "unseen n c \<le> unseen n ?c2"
          "\<forall>x. ?c2 x = 2 \<longrightarrow> c x = 2"
        have "c v = 2" using c(5) by simp
        moreover have "c x = 2" if "color x = 2" for x
          using c(5) 2(5) that \<open>color v = 0\<close> by (cases "x = v") simp_all
        ultimately show ?thesis
          using c un by simp
      qed simp
      ultimately show ?thesis by simp
    qed
  next
    case 3
    have "dfs_result n ps vs color path (dfs_loop ps (Suc k) vs color path)"
      using 3 "3.prems" by (intro "3.IH"(3)) auto
    then have "dfs_result n ps (v # vs) color path (dfs_loop ps (Suc k) vs color path)"
      by (rule dfs_resultE) (use 3 in auto)
    then show ?thesis
      using 3 by simp
  qed
qed auto

lemma find_cycle_spec:
  assumes E: "set ps \<subseteq> {1..n} \<times> {1..n}" and inv: "dfs_inv n ps color []" and i: "color i = 0" "i \<in> {1..n}"
    and fuel: "unseen n color < fuel"
  shows "dfs_result n ps [i] color [] (find_cycle_dfs ps fuel i color [])"
proof -
  let ?c = "color(i := 1)"
  have "dfs_inv n ps ?c [i]"
    using dfs_inv_push [OF inv i] by simp
  moreover have un: "unseen n color = Suc (unseen n ?c)"
    using unseen_update [where color = color, OF i(2,1)] .
  ultimately have "dfs_result n ps (adj ps i) ?c [i] (dfs_loop ps fuel (adj ps i) ?c [i])"
    using E fuel by (intro dfs_loop_spec) auto
  then show ?thesis
  proof (rule dfs_resultE)
    fix c1
    assume c1: "dfs_loop ps fuel (adj ps i) ?c [i] = Some (Inr c1)" "dfs_inv n ps c1 [i]"
      "\<forall>v \<in> set (adj ps i). c1 v = 2" "unseen n c1 \<le> unseen n ?c" "\<forall>v. ?c v = 2 \<longrightarrow> c1 v = 2"
    have "dfs_inv n ps (c1(i := 2)) []"
      using dfs_inv_pop [of n ps c1 "[]" i] c1(2,3) by simp
    moreover have "c1 i = 1"
      using c1(2) by (auto simp: dfs_inv_def)
    then have "{w \<in> {1..n}. (c1(i := 2)) w = 0} = {w \<in> {1..n}. c1 w = 0}"
      by auto
    then have "unseen n (c1(i := 2)) \<le> unseen n color"
      using c1(4) un by (simp add: unseen_def)
    moreover have "(c1(i := 2)) v = 2" if "color v = 2" for v
      using c1(5) that by (cases "v = i") simp_all
    ultimately show ?thesis
      using c1(1) by (simp add: find_cycle_dfs_def)
  qed (simp add: find_cycle_dfs_def)
qed

lemma dfs_roots_spec:
  assumes "set ps \<subseteq> {1..n} \<times> {1..n}" and "dfs_inv n ps color []" and "set is \<subseteq> {1..n}" and "unseen n color < fuel"
  shows "dfs_result n ps is color [] (dfs_roots ps fuel is color)"
  using assms
proof (induction ps fuel "is" color rule: dfs_roots.induct)
  case (2 ps fuel i "is" color)
  have i: "i \<in> {1..n}" using "2.prems" by simp
  show ?case
  proof (cases "color i = 0")
    case True
    have "dfs_result n ps [i] color [] (find_cycle_dfs ps fuel i color [])"
      using find_cycle_spec [OF "2.prems"(1,2) True i "2.prems"(4)] .
    then show ?thesis
    proof (rule dfs_resultE)
      fix c
      assume c: "find_cycle_dfs ps fuel i color [] = Some (Inr c)" "dfs_inv n ps c []" "\<forall>v \<in> set [i]. c v = 2"
        "unseen n c \<le> unseen n color" "\<forall>v. color v = 2 \<longrightarrow> c v = 2"
      have "dfs_result n ps is c [] (dfs_roots ps fuel is c)"
        using True c(1,2,4) "2.prems" by (intro "2.IH"(1)) auto
      then have "dfs_result n ps (i # is) color [] (dfs_roots ps fuel is c)"
        by (rule dfs_resultE) (use c in auto)
      then show ?thesis
        using True c(1) by simp
    qed (use True in simp)
  next
    case False
    have "{v. color v = 1} = {}" "color i \<in> {0, 1, 2}"
      using "2.prems"(2) by (auto simp: dfs_inv_def)
    then have "color i = 2"
      using False by auto
    have "dfs_result n ps is color [] (dfs_roots ps fuel is color)"
      using False "2.prems" by (intro "2.IH"(2)) auto
    then have "dfs_result n ps (i # is) color [] (dfs_roots ps fuel is color)"
      by (rule dfs_resultE) (use \<open>color i = 2\<close> in auto)
    then show ?thesis
      using False by simp
  qed
qed auto

lemma dfs_roots_finds:
  assumes "set ps \<subseteq> {1..n} \<times> {1..n}" and "\<not> acyclic (set ps)"
  shows "\<exists>w. dfs_roots ps (Suc n) [1..<Suc n] (\<lambda>_. 0) = Some (Inl w) \<and> is_cycle (set ps) w"
proof -
  have "dfs_inv n ps (\<lambda>_. 0) []"
    by (simp add: dfs_inv_def within_def acyclic_def)
  moreover have "unseen n (\<lambda>_. 0) < Suc n"
  proof -
    have "{v \<in> {1..n}. (\<lambda>_. 0 :: nat) v = 0} = {1..n}" by auto
    then show ?thesis by (simp add: unseen_def)
  qed
  ultimately have "dfs_result n ps [1..<Suc n] (\<lambda>_. 0) [] (dfs_roots ps (Suc n) [1..<Suc n] (\<lambda>_. 0))"
    using assms(1) by (intro dfs_roots_spec) (auto simp del: upt_Suc)
  then show ?thesis
  proof (rule dfs_resultE)
    fix c
    assume c: "dfs_inv n ps c []" "\<forall>v \<in> set [1..<Suc n]. c v = 2"
    have "set ps \<subseteq> {v. c v = 2} \<times> {v. c v = 2}"
      using assms(1) c(2) by (auto simp del: upt_Suc)
    then have "acyclic (set ps)"
      using c(1) within_all by (metis dfs_inv_def)
    with assms(2) show ?thesis by simp
  qed blast
qed

section \<open>Validation\<close>

definition edge_relation :: "TaskGraph \<Rightarrow> (NodeId \<times> NodeId) set" where
  "edge_relation g = (\<lambda>e. (edge_from e, edge_to e)) ` set (tg_edges g)"

lemma node_of_number [simp]: "NodeId (of_nat (node_number v)) = v"
  by (cases v) simp

lemma node_number_inj: "node_number u = node_number v \<longleftrightarrow> u = v"
  by (cases u; cases v) (simp add: word_unat_eq_iff)

lemma map_edge_pair: "set (map edge_pair (tg_edges g)) = (\<lambda>(u, v). (node_number u, node_number v)) ` edge_relation g"
  by (force simp: edge_relation_def edge_pair_def)

lemma walk_in_map:
  "walk_in E ws \<Longrightarrow> (\<And>x y. (x, y) \<in> E \<Longrightarrow> (f x, f y) \<in> F) \<Longrightarrow> walk_in F (map f ws)"
  by (induction E ws rule: walk_in.induct) auto

lemma cycle_of_numbers:
  assumes w: "is_cycle (set (map edge_pair (tg_edges g))) w"
  shows "is_cycle (edge_relation g) (map (\<lambda>i. NodeId (of_nat i)) w)"
proof -
  let ?f = "\<lambda>i. NodeId (of_nat i)"
  let ?E = "set (map edge_pair (tg_edges g))"
  have edge: "(?f x, ?f y) \<in> edge_relation g" if "(x, y) \<in> ?E" for x y
    using that unfolding map_edge_pair by auto
  have ends: "\<exists>v. x = node_number v" if "(x, y) \<in> ?E \<or> (y, x) \<in> ?E" for x y
    using that unfolding map_edge_pair by auto
  have mem: "\<exists>v. x = node_number v" if "walk_in ?E u" "x \<in> set u" "2 \<le> length u" for x u
    using that
  proof (induction ?E u rule: walk_in.induct)
    case (3 a b xs)
    then show ?case
      using ends [of a b] ends [of b a] by (cases xs) auto
  qed auto
  have inj: "inj_on ?f (set w)"
  proof (rule inj_onI)
    fix x y
    assume "x \<in> set w" "y \<in> set w" "?f x = ?f y"
    then show "x = y"
      using mem [of w x] mem [of w y] w by (auto simp: is_cycle_def)
  qed
  have "distinct (map ?f (butlast w))"
    using w inj by (auto simp: is_cycle_def distinct_map intro: inj_on_subset dest: in_set_butlastD)
  moreover have "walk_in (edge_relation g) (map ?f w)"
    using w edge by (auto simp: is_cycle_def intro: walk_in_map)
  moreover have "hd (map ?f w) = last (map ?f w)"
    using w by (cases w) (auto simp: is_cycle_def last_map)
  ultimately show ?thesis
    using w by (simp add: is_cycle_def map_butlast)
qed

lemma acyclic_simulation:
  assumes "acyclic S" and "\<And>x y. (x, y) \<in> R \<Longrightarrow> (f x, f y) \<in> S"
  shows "acyclic R"
proof -
  have "(f x, f y) \<in> S\<^sup>+" if "(x, y) \<in> R\<^sup>+" for x y
    using that by (induction rule: trancl_induct) (auto intro: assms(2) trancl_into_trancl)
  then show ?thesis
    using assms(1) by (auto simp: acyclic_def)
qed

lemma acyclic_numbers:
  "acyclic (set (map edge_pair (tg_edges g))) \<longleftrightarrow> acyclic (edge_relation g)"
proof
  assume "acyclic (set (map edge_pair (tg_edges g)))"
  then show "acyclic (edge_relation g)"
    by (rule acyclic_simulation [where f = node_number]) (unfold map_edge_pair, force)
next
  assume "acyclic (edge_relation g)"
  then show "acyclic (set (map edge_pair (tg_edges g)))"
    by (rule acyclic_simulation [where f = "\<lambda>i. NodeId (of_nat i)"]) (unfold map_edge_pair, auto)
qed

text \<open>The edges of a well-formed graph: between its own nodes, no node to itself, none twice.\<close>

definition own_node :: "TaskGraph \<Rightarrow> NodeId \<Rightarrow> bool" where
  "own_node g v \<longleftrightarrow> 1 \<le> node_number v \<and> node_number v \<le> length (tg_nodes g)"

definition simple_edges :: "TaskGraph \<Rightarrow> bool" where
  "simple_edges g \<longleftrightarrow> (\<forall>(u, v) \<in> edge_relation g. own_node g u \<and> own_node g v \<and> u \<noteq> v) \<and>
     distinct (map (\<lambda>e. (edge_from e, edge_to e)) (tg_edges g))"

lemma foreign_end_iff: "foreign_end (length (tg_nodes g)) v \<longleftrightarrow> \<not> own_node g v"
  by (cases v) (auto simp: foreign_end_def own_node_def node_id_valid_def unat_eq_zero Suc_le_eq unat_gt_0 word_gt_0)

lemma distinct_pairs:
  "distinct (map edge_pair es) \<longleftrightarrow> distinct (map (\<lambda>e. (edge_from e, edge_to e)) es)"
  by (induction es) (auto simp: edge_pair_def node_number_inj)

lemma simple_proper: "simple_edges g \<Longrightarrow> proper_pairs (length (tg_nodes g)) (map edge_pair (tg_edges g))"
  by (auto simp: simple_edges_def proper_pairs_def distinct_pairs edge_relation_def edge_pair_def own_node_def node_number_inj)

lemma freeze_simple:
  assumes "simple_edges g"
  shows "freeze g = (if 0 < length (tg_nodes g) \<and> tg_edges g \<noteq> [] \<and>
      visited_count (length (tg_nodes g)) (map edge_pair (tg_edges g)) < length (tg_nodes g)
    then (case cycle_witness (length (tg_nodes g)) (map edge_pair (tg_edges g)) of None \<Rightarrow> None | Some w \<Rightarrow> invalid_graph Cycle w)
    else Some (Inr g))"
proof -
  have "\<not> list_ex (\<lambda>e. foreign_end (length (tg_nodes g)) (edge_from e) \<or> foreign_end (length (tg_nodes g)) (edge_to e)) (tg_edges g)"
    and "\<not> list_ex (\<lambda>e. edge_from e = edge_to e) (tg_edges g)" and "distinct (map edge_pair (tg_edges g))"
    using assms by (auto simp: simple_edges_def list_ex_iff foreign_end_iff edge_relation_def distinct_pairs)
  then show ?thesis
    by (simp add: freeze_def Let_def)
qed

lemma freeze_spec:
  "freeze g \<noteq> None \<and>
   (freeze g = Some (Inr g) \<longleftrightarrow> simple_edges g \<and> acyclic (edge_relation g)) \<and>
   (simple_edges g \<and> \<not> acyclic (edge_relation g) \<longrightarrow>
      (\<exists>w. freeze g = Some (Inl \<lparr>gve_reason = Cycle, gve_witness = w\<rparr>) \<and> is_cycle (edge_relation g) w)) \<and>
   (\<forall>h. freeze g = Some (Inr h) \<longrightarrow> h = g)"
proof (cases "simple_edges g")
  case False
  have "\<exists>e. freeze g = Some (Inl e)"
  proof -
    have "list_ex (\<lambda>e. foreign_end (length (tg_nodes g)) (edge_from e) \<or> foreign_end (length (tg_nodes g)) (edge_to e)) (tg_edges g) \<or>
        list_ex (\<lambda>e. edge_from e = edge_to e) (tg_edges g) \<or> \<not> distinct (map edge_pair (tg_edges g))"
      using False by (auto simp: simple_edges_def list_ex_iff foreign_end_iff edge_relation_def distinct_pairs)
    then show ?thesis
      by (auto simp: freeze_def Let_def invalid_graph_def)
  qed
  with False show ?thesis by auto
next
  case simple: True
  let ?n = "length (tg_nodes g)" and ?ps = "map edge_pair (tg_edges g)"
  note proper = simple_proper [OF simple]
  note count = visited_count_spec [OF proper]
  show ?thesis
  proof (cases "acyclic (edge_relation g)")
    case True
    then have "visited_count ?n ?ps = ?n"
      using count acyclic_numbers by simp
    then show ?thesis
      using simple True by (simp add: freeze_simple)
  next
    case False
    then have cyc: "\<not> acyclic (set ?ps)"
      unfolding acyclic_numbers .
    then have lt: "visited_count ?n ?ps < ?n"
      using count by simp
    have "tg_edges g \<noteq> []"
      using cyc by (auto simp: acyclic_def)
    moreover obtain w where w: "dfs_roots ?ps (Suc ?n) [1..<Suc ?n] (\<lambda>_. 0) = Some (Inl w)" "is_cycle (set ?ps) w"
      using dfs_roots_finds [OF _ cyc, of ?n] proper by (auto simp: proper_pairs_def)
    moreover have "tg_nodes g \<noteq> []"
      using lt by auto
    ultimately have "freeze g = Some (Inl \<lparr>gve_reason = Cycle, gve_witness = map (\<lambda>i. NodeId (of_nat i)) w\<rparr>)"
      using lt simple by (simp add: freeze_simple cycle_witness_def invalid_graph_def del: upt_Suc)
    then show ?thesis
      using cycle_of_numbers [OF w(2)] False by simp
  qed
qed

text \<open>C21: Freezing a task graph is a decision procedure that always returns: the graph is accepted,
  unchanged, exactly when all its edges join two different nodes of its own, none is given twice and
  there is no cycle; a graph whose edges are simple but cyclic is refused with a witness that is a cycle
  of the graph, each of its nodes passed once and closed at its start.\<close>

theorem freeze_decides_acyclicity:
  "freeze g \<noteq> None \<and>
   (freeze g = Some (Inr g) \<longleftrightarrow> simple_edges g \<and> acyclic (edge_relation g)) \<and>
   (simple_edges g \<and> \<not> acyclic (edge_relation g) \<longrightarrow>
      (\<exists>w. freeze g = Some (Inl \<lparr>gve_reason = Cycle, gve_witness = w\<rparr>) \<and> is_cycle (edge_relation g) w)) \<and>
   (\<forall>h. freeze g = Some (Inr h) \<longrightarrow> h = g)"
  by (rule freeze_spec)

definition triangle :: TaskGraph where
  "triangle = fold (\<lambda>(u, v). add_edge (NodeId u) (NodeId v) RequireSuccess) [(1, 2), (2, 3), (3, 1)]
     (snd (emplace (Plain_node 0) (snd (emplace (Plain_node 1) (snd (emplace (Plain_node 2) empty_graph))))))"

theorem freeze_decides_acyclicity_witness:
  "\<exists>w. freeze triangle = Some (Inl \<lparr>gve_reason = Cycle, gve_witness = w\<rparr>) \<and> is_cycle (edge_relation triangle) w"
proof -
  have e: "tg_edges triangle = [\<lparr>edge_from = NodeId 1, edge_to = NodeId 2, edge_policy = RequireSuccess\<rparr>,
      \<lparr>edge_from = NodeId 2, edge_to = NodeId 3, edge_policy = RequireSuccess\<rparr>,
      \<lparr>edge_from = NodeId 3, edge_to = NodeId 1, edge_policy = RequireSuccess\<rparr>]" "length (tg_nodes triangle) = 3"
    by (simp_all add: triangle_def emplace_def append_node_def empty_graph_def add_edge_def Let_def)
  have "simple_edges triangle"
    by (simp add: simple_edges_def edge_relation_def own_node_def e)
  moreover have "\<not> acyclic (edge_relation triangle)"
  proof (rule is_cycle_cyclic)
    show "is_cycle (edge_relation triangle) [NodeId 1, NodeId 2, NodeId 3, NodeId 1]"
      by (simp add: is_cycle_def edge_relation_def e)
  qed
  ultimately show ?thesis
    using freeze_decides_acyclicity [of triangle] by blast
qed

end
