(* ===== verification/Graph_Run.thy ===== *)
theory Graph_Run
  imports Task_Graph Errors Runtime_State Task_Handle
begin

text \<open>
  Running a frozen task graph: \<open>src/graph/graph_shared_state.hpp\<close> (the state shared by the nodes of a
  run and the protocol of a node's end), \<open>src/graph/graph_runtime_port.hpp\<close> (the admission lease) and
  \<open>src/graph/graph_execution.cpp\<close>.  \<open>graph_run\<close> is the call that starts a run.  What the runtime's
  threads do with the run afterwards is a sequence of instructions per thread, one for each access to
  the shared state; \<open>graph_exec\<close> is the effect of one instruction and the instructions it leaves for
  the same thread.
\<close>

section \<open>The shared state\<close>

datatype GraphRunState = Graph_running | Graph_succeeded | Graph_failed | Graph_cancelled

record GraphReport =
  gr_run_id :: GraphRunId
  gr_total :: u64
  gr_succeeded :: u64
  gr_failed :: u64
  gr_cancelled :: u64
  gr_exceptions :: "(NodeId \<times> nat) list"

text \<open>A coroutine node has, besides, the block its awaits work on.\<close>

record node_entry =
  ne_id :: NodeId
  ne_task :: TaskId
  ne_invoker :: "NodeInvoker option"
  ne_priority :: Priority
  ne_deadline :: "TaskDeadline option"
  ne_disposition :: DeadlineDisposition
  ne_remaining :: u64
  ne_required_failed :: bool
  ne_successors :: "(NodeId \<times> EdgePolicy) list"
  ne_outcome :: TaskState
  ne_block :: "task_block option"

definition empty_entry :: node_entry where
  "empty_entry = \<lparr>ne_id = NodeId 0, ne_task = no_task, ne_invoker = None, ne_priority = Normal,
     ne_deadline = None, ne_disposition = No_disposition, ne_remaining = 0, ne_required_failed = False,
     ne_successors = [], ne_outcome = Ready, ne_block = None\<rparr>"

text \<open>The entries by index; index 0 is never used.\<close>

record GraphRunSharedState =
  gs_id :: GraphRunId
  gs_total :: u64
  gs_remaining :: u64
  gs_run_state :: GraphRunState
  gs_cancel_requested :: bool
  gs_failure_observed :: bool
  gs_report :: GraphReport
  gs_callbacks :: "nat option list"
  gs_entries :: "nat \<Rightarrow> node_entry"

definition new_graph_state :: "GraphRunId \<Rightarrow> u64 \<Rightarrow> GraphRunSharedState" where
  "new_graph_state gid n =
     \<lparr>gs_id = gid, gs_total = n, gs_remaining = n, gs_run_state = Graph_running,
      gs_cancel_requested = False, gs_failure_observed = False,
      gs_report = \<lparr>gr_run_id = gid, gr_total = n, gr_succeeded = 0, gr_failed = 0, gr_cancelled = 0,
                   gr_exceptions = []\<rparr>,
      gs_callbacks = [], gs_entries = (\<lambda>_. empty_entry)\<rparr>"

definition on_entry :: "nat \<Rightarrow> (node_entry \<Rightarrow> node_entry) \<Rightarrow> GraphRunSharedState \<Rightarrow> GraphRunSharedState" where
  "on_entry v f s = s\<lparr>gs_entries := (gs_entries s)(v := f (gs_entries s v))\<rparr>"

text \<open>Registering a callback on the run: those to call at once, and the state after.\<close>

definition graph_add_callback :: "nat option \<Rightarrow> GraphRunSharedState \<Rightarrow> nat list \<times> GraphRunSharedState" where
  "graph_add_callback cb s =
     (if gs_remaining s = 0 then (case cb of None \<Rightarrow> [] | Some c \<Rightarrow> [c], s)
      else ([], s\<lparr>gs_callbacks := gs_callbacks s @ [cb]\<rparr>))"

text \<open>The three critical parts of \<open>mark_node_terminal\<close>: the report, the count, the publication.\<close>

definition report_node :: "nat \<Rightarrow> TaskState \<Rightarrow> nat option \<Rightarrow> GraphReport \<Rightarrow> GraphReport" where
  "report_node v oc ex r =
     (case oc of
        Succeeded \<Rightarrow> r\<lparr>gr_succeeded := gr_succeeded r + 1\<rparr>
      | Failed \<Rightarrow>
          (let r1 = r\<lparr>gr_failed := gr_failed r + 1\<rparr>
           in case ex of
                None \<Rightarrow> r1
              | Some x \<Rightarrow> r1\<lparr>gr_exceptions := gr_exceptions r1 @ [(NodeId (of_nat v), x)]\<rparr>)
      | Cancelled \<Rightarrow> r\<lparr>gr_cancelled := gr_cancelled r + 1\<rparr>
      | _ \<Rightarrow> r)"

definition count_node :: "GraphRunSharedState \<Rightarrow> bool \<times> GraphRunSharedState" where
  "count_node s = (gs_remaining s = 1, s\<lparr>gs_remaining := gs_remaining s - 1\<rparr>)"

definition final_run_state :: "GraphReport \<Rightarrow> GraphRunState" where
  "final_run_state r =
     (if 0 < gr_failed r then Graph_failed
      else if 0 < gr_cancelled r then Graph_cancelled
      else Graph_succeeded)"

definition sort_exceptions :: "GraphReport \<Rightarrow> GraphReport" where
  "sort_exceptions r = r\<lparr>gr_exceptions := sort_key (\<lambda>p. node_value (fst p)) (gr_exceptions r)\<rparr>"

definition publish_run :: "GraphRunSharedState \<Rightarrow> nat option list \<times> GraphRunSharedState" where
  "publish_run s =
     (let r = sort_exceptions (gs_report s)
      in (gs_callbacks s, s\<lparr>gs_report := r, gs_run_state := final_run_state r, gs_callbacks := []\<rparr>))"

section \<open>Executing a run\<close>

datatype graph_task = Node_task nat | Resume_wrapper nat

text \<open>
  What a thread has still to do.  \<open>Do_start\<close> is the task of a node, \<open>Do_resume\<close> the wrapper around the
  resumption of a coroutine node, \<open>Do_check\<close> the test for its completion that follows each of its
  segments.  A node's end is \<open>Do_outcome\<close>, \<open>Do_report\<close>, \<open>Do_count\<close>, and for the last node
  \<open>Do_publish\<close> and the callbacks; then \<open>Do_trigger\<close> goes through the edges to the successors.
\<close>

datatype instr =
    Do_post nat | Do_start nat | Do_body nat | Do_segment nat | Do_resume nat | Do_check nat
  | Do_outcome nat TaskState "nat option" | Do_report nat TaskState "nat option"
  | Do_count | Do_publish | Do_call "nat option"
  | Do_trigger nat | Do_edge TaskState nat EdgePolicy | Do_take nat | Do_decide nat
  | Do_cancel_node nat

record graph_world =
  gw_state :: GraphRunSharedState
  gw_internal :: bool
  gw_posted :: "graph_task list"
  gw_suspended :: "nat list"
  gw_released :: nat
  gw_called :: "nat list"
  gw_process :: process

text \<open>What a step takes from its surroundings: the thread, the clock, what the user's code does.\<close>

record step_input =
  in_context :: thread_context
  in_now :: time
  in_duration :: u64
  in_outcome :: "unit outcome"
  in_suspends :: bool

definition on_state :: "(GraphRunSharedState \<Rightarrow> GraphRunSharedState) \<Rightarrow> graph_world \<Rightarrow> graph_world" where
  "on_state f w = w\<lparr>gw_state := f (gw_state w)\<rparr>"

definition on_process :: "(process \<Rightarrow> process) \<Rightarrow> graph_world \<Rightarrow> graph_world" where
  "on_process f w = w\<lparr>gw_process := f (gw_process w)\<rparr>"

abbreviation entry_of :: "graph_world \<Rightarrow> nat \<Rightarrow> node_entry" where
  "entry_of w v \<equiv> gs_entries (gw_state w) v"

fun terminal_state :: "'v outcome \<Rightarrow> TaskState" where
  "terminal_state (Returned _) = Succeeded"
| "terminal_state Threw_cancelled = Cancelled"
| "terminal_state (Threw _) = Failed"

fun thrown :: "'v outcome \<Rightarrow> nat option" where
  "thrown (Threw x) = Some x"
| "thrown _ = None"

definition is_coroutine_node :: "node_entry \<Rightarrow> bool" where
  "is_coroutine_node e = (case ne_invoker e of Some (Coroutine_node _) \<Rightarrow> True | _ \<Rightarrow> False)"

text \<open>The end of a node: its outcome is stored, then counted, then its successors are triggered.\<close>

definition finish_node :: "nat \<Rightarrow> TaskState \<Rightarrow> nat option \<Rightarrow> instr list" where
  "finish_node v oc ex = [Do_outcome v oc ex, Do_report v oc ex, Do_count, Do_trigger v]"

text \<open>\<open>post_node\<close>: a coroutine node gets the rescheduler of its wrapper and loses its frame to the task.\<close>

definition post_node :: "nat \<Rightarrow> graph_world \<Rightarrow> graph_world" where
  "post_node v w =
     (let w1 = on_state (on_entry v (\<lambda>e. e\<lparr>ne_block := map_option (set_rescheduler (Some v)) (ne_block e)\<rparr>)) w
      in w1\<lparr>gw_posted := gw_posted w1 @ [Node_task v]\<rparr>)"

definition judge_node_deadline :: "time \<Rightarrow> node_entry \<Rightarrow> node_entry" where
  "judge_node_deadline now e =
     (case ne_deadline e of
        Some dl \<Rightarrow>
          if ne_disposition e = No_disposition
          then e\<lparr>ne_disposition := if now \<le> time_point dl then Met else Missed\<rparr> else e
      | None \<Rightarrow> e)"

definition record_node_start :: "step_input \<Rightarrow> node_entry \<Rightarrow> process \<Rightarrow> process" where
  "record_node_start inp e p =
     (let p1 = (case ne_deadline e of
                  Some dl \<Rightarrow>
                    if ne_disposition e = No_disposition \<and> time_point dl < in_now inp
                    then record_metrics_deadline_start_lateness (in_context inp) (ne_task e)
                      (word_of_int (in_now inp - time_point dl)) p
                    else p
                | None \<Rightarrow> p)
      in record_metrics_first_start (in_context inp) (ne_task e)
           (if ne_deadline e \<noteq> None then Some (ne_disposition (judge_node_deadline (in_now inp) e)) else None) p1)"

fun record_node_end :: "thread_context \<Rightarrow> 'v outcome \<Rightarrow> TaskId \<Rightarrow> process \<Rightarrow> process" where
  "record_node_end ctx (Returned _) t = record_metrics_succeeded ctx t"
| "record_node_end ctx Threw_cancelled t = record_metrics_cancelled_cooperative ctx t"
| "record_node_end ctx (Threw _) t = record_metrics_failed ctx t"

text \<open>An operation on the block of a coroutine node, with the process it records its metrics in.\<close>

definition with_block :: "nat \<Rightarrow> (task_block \<Rightarrow> process \<Rightarrow> task_block \<times> process) \<Rightarrow> graph_world \<Rightarrow> graph_world" where
  "with_block v f w =
     (case ne_block (entry_of w v) of
        None \<Rightarrow> w
      | Some b \<Rightarrow>
          (case f b (gw_process w) of
             (b', p') \<Rightarrow> w\<lparr>gw_state := on_entry v (\<lambda>e. e\<lparr>ne_block := Some b'\<rparr>) (gw_state w), gw_process := p'\<rparr>))"

definition complete_block :: "step_input \<Rightarrow> task_block \<Rightarrow> process \<Rightarrow> task_block \<times> process" where
  "complete_block inp b p =
     snd (case in_outcome inp of
            Returned _ \<Rightarrow> succeed (in_context inp) (in_now inp) b p
          | Threw_cancelled \<Rightarrow> set_cancelled (in_context inp) (in_now inp) b p
          | Threw x \<Rightarrow> set_exception (in_context inp) (in_now inp) x b p)"

text \<open>A segment of a coroutine ends with its completion or with a suspension that something will end.\<close>

definition run_segment :: "step_input \<Rightarrow> nat \<Rightarrow> graph_world \<Rightarrow> graph_world" where
  "run_segment inp v w =
     (if in_suspends inp
      then (let w1 = with_block v (\<lambda>b p. transition_to_suspended (in_context inp) (mark_resume_handoff b) p) w
            in with_block v (\<lambda>b p. (publish_await_suspend b, p)) (w1\<lparr>gw_suspended := gw_suspended w1 @ [v]\<rparr>))
      else with_block v (complete_block inp) w)"

definition cancel_block :: "step_input \<Rightarrow> nat \<Rightarrow> graph_world \<Rightarrow> graph_world" where
  "cancel_block inp v = with_block v (\<lambda>b p. snd (request_cancel (in_context inp) (in_now inp) b p))"

fun graph_exec :: "step_input \<Rightarrow> instr \<Rightarrow> graph_world \<Rightarrow> instr list \<times> graph_world" where
  "graph_exec inp (Do_post v) w = ([], post_node v w)"
| "graph_exec inp (Do_start v) w =
     (if is_coroutine_node (entry_of w v) then
        ([Do_segment v, Do_check v], if gs_cancel_requested (gw_state w) then cancel_block inp v w else w)
      else if gs_cancel_requested (gw_state w) then (finish_node v Cancelled None, w)
      else ([Do_body v],
        on_state (on_entry v (judge_node_deadline (in_now inp)))
          (on_process (record_node_start inp (entry_of w v)) w)))"
| "graph_exec inp (Do_body v) w =
     (finish_node v (terminal_state (in_outcome inp)) (thrown (in_outcome inp)),
      on_process (\<lambda>p. record_node_end (in_context inp) (in_outcome inp) (ne_task (entry_of w v))
        (record_metrics_execution_segment (in_context inp) (ne_task (entry_of w v)) (in_duration inp) p)) w)"
| "graph_exec inp (Do_segment v) w = ([], run_segment inp v w)"
| "graph_exec inp (Do_resume v) w =
     ([Do_segment v, Do_check v],
      with_block v (\<lambda>b p. resume_prologue (in_context inp) (in_now inp) b p) w)"
| "graph_exec inp (Do_check v) w =
     ((case ne_block (entry_of w v) of
         None \<Rightarrow> []
       | Some b \<Rightarrow>
           if is_completed b
           then finish_node v (tcb_state b) (if tcb_state b = Failed then tcb_exception b else None)
           else []), w)"
| "graph_exec inp (Do_outcome v oc ex) w =
     ([], on_process (record_metrics_graph_node_terminal (in_context inp) (run_runtime (gs_id (gw_state w))))
        (on_state (on_entry v (\<lambda>e. e\<lparr>ne_outcome := oc\<rparr>)) w))"
| "graph_exec inp (Do_report v oc ex) w =
     ([], on_state (\<lambda>s. s\<lparr>gs_report := report_node v oc ex (gs_report s)\<rparr>) w)"
| "graph_exec inp Do_count w =
     (case count_node (gw_state w) of
        (True, s) \<Rightarrow> ([Do_publish],
          on_process (record_metrics_graph_run_completed (run_runtime (gs_id s))) (w\<lparr>gw_state := s\<rparr>))
      | (False, s) \<Rightarrow> ([], w\<lparr>gw_state := s\<rparr>))"
| "graph_exec inp Do_publish w =
     (case publish_run (gw_state w) of (cbs, s) \<Rightarrow> (map Do_call cbs, w\<lparr>gw_state := s\<rparr>))"
| "graph_exec inp (Do_call cb) w =
     ([], case cb of None \<Rightarrow> w | Some c \<Rightarrow> w\<lparr>gw_called := gw_called w @ [c]\<rparr>)"
| "graph_exec inp (Do_trigger v) w =
     (map (\<lambda>(s, pol). Do_edge (ne_outcome (entry_of w v)) (node_number s) pol) (ne_successors (entry_of w v)), w)"
| "graph_exec inp (Do_edge oc s pol) w =
     ([Do_take s],
      if pol = RequireSuccess \<and> oc \<noteq> Succeeded
      then on_state (on_entry s (\<lambda>e. e\<lparr>ne_required_failed := True\<rparr>)) w else w)"
| "graph_exec inp (Do_take s) w =
     ((if ne_remaining (entry_of w s) = 1 then [Do_decide s] else []),
      on_state (on_entry s (\<lambda>e. e\<lparr>ne_remaining := ne_remaining e - 1\<rparr>)) w)"
| "graph_exec inp (Do_decide s) w =
     (if ne_required_failed (entry_of w s) \<or> gs_cancel_requested (gw_state w)
      then (finish_node s Cancelled None,
        if gw_internal w then w else w\<lparr>gw_released := gw_released w + 1\<rparr>)
      else ([], post_node s w))"
| "graph_exec inp (Do_cancel_node v) w =
     ([], if is_coroutine_node (entry_of w v) then cancel_block inp v w else w)"

text \<open>
  A step of the threads, labelled with what it does: a thread executes its next instruction, a worker
  takes a posted task, a suspended coroutine's resumption is posted, some thread requests the
  cancellation of the run or registers a completion callback.
\<close>

datatype graph_label = Executed instr | Taken graph_task | Woken nat | Cancel_requested | Registered "nat option"

fun begin_task :: "graph_task \<Rightarrow> instr" where
  "begin_task (Node_task v) = Do_start v"
| "begin_task (Resume_wrapper v) = Do_resume v"

inductive graph_step ::
  "instr list list \<times> graph_world \<Rightarrow> graph_label \<Rightarrow> instr list list \<times> graph_world \<Rightarrow> bool" where
  Thread: "graph_step (ts, w) (Executed x) (ts[i := ys @ xs], w')"
    if "i < length ts" "ts ! i = x # xs" "graph_exec inp x w = (ys, w')"
| Take: "graph_step (ts, w) (Taken t) (ts @ [[begin_task t]], w\<lparr>gw_posted := remove1 t (gw_posted w)\<rparr>)"
    if "t \<in> set (gw_posted w)"
| Wake: "graph_step (ts, w) (Woken v)
      (ts, w\<lparr>gw_suspended := remove1 v (gw_suspended w), gw_posted := gw_posted w @ [Resume_wrapper v]\<rparr>)"
    if "v \<in> set (gw_suspended w)"
| Cancel: "graph_step (ts, w) Cancel_requested
      (ts @ [map Do_cancel_node [1..<Suc (unat (gs_total (gw_state w)))]],
       on_state (\<lambda>s. s\<lparr>gs_cancel_requested := True\<rparr>) w)"
| Register: "graph_step (ts, w) (Registered cb) (ts @ [map (Do_call \<circ> Some) calls], w\<lparr>gw_state := s\<rparr>)"
    if "graph_add_callback cb (gw_state w) = (calls, s)"

inductive graph_trace ::
  "instr list list \<times> graph_world \<Rightarrow> graph_label list \<Rightarrow> instr list list \<times> graph_world \<Rightarrow> bool" where
  Trace_nil: "graph_trace s [] s"
| Trace_snoc: "graph_trace s tr s1 \<Longrightarrow> graph_step s1 l s2 \<Longrightarrow> graph_trace s (tr @ [l]) s2"

section \<open>Starting a run\<close>

text \<open>The entries of the nodes, each with a task identity of the runtime; the allocation may raise.\<close>

definition node_settings :: "Priority \<Rightarrow> NodeData \<Rightarrow> invalid_argument + Priority \<times> TaskDeadline option" where
  "node_settings gp d =
     (case nd_options d of
        None \<Rightarrow> Inr (gp, None)
      | Some opts \<Rightarrow>
          (case validate_priority (priority opts) of
             Inl e \<Rightarrow> Inl e
           | Inr _ \<Rightarrow> Inr (priority opts, deadline opts)))"

definition node_block :: "nat \<Rightarrow> NodeInvoker \<Rightarrow> TaskId \<Rightarrow> Priority \<Rightarrow> TaskDeadline option \<Rightarrow> time \<Rightarrow> task_block option" where
  "node_block v i t prio dl now =
     (case i of
        Coroutine_node _ \<Rightarrow>
          Some (set_timer_functions (Some v) (Some v) (make_task_control_block t prio dl now))
      | _ \<Rightarrow> None)"

datatype graph_error =
  Graph_overflow overflow_error | Graph_option invalid_argument | Graph_rejected SubmissionError

fun materialize_nodes ::
  "RuntimeId \<Rightarrow> time \<Rightarrow> Priority \<Rightarrow> NodeData list \<Rightarrow> id_allocator \<Rightarrow> (nat \<Rightarrow> node_entry) \<Rightarrow>
     (graph_error + (nat \<Rightarrow> node_entry)) \<times> id_allocator" where
  "materialize_nodes rt now gp [] ids f = (Inr f, ids)"
| "materialize_nodes rt now gp (d # ds) ids f =
     (case node_settings gp d of
        Inl e \<Rightarrow> (Inl (Graph_option e), ids)
      | Inr (prio, dl) \<Rightarrow>
          (case allocate_task rt ids of
             Inl e \<Rightarrow> (Inl (Graph_overflow e), ids)
           | Inr (t, ids1) \<Rightarrow>
               (let v = node_number (nd_id d);
                    entry = (f v)\<lparr>ne_id := nd_id d, ne_task := t, ne_invoker := Some (nd_invoker d),
                      ne_priority := prio, ne_deadline := dl,
                      ne_block := node_block v (nd_invoker d) t prio dl now\<rparr>
                in materialize_nodes rt now gp ds ids1 (f(v := entry)))))"

definition add_dependency :: "GraphEdge \<Rightarrow> (nat \<Rightarrow> node_entry) \<Rightarrow> (nat \<Rightarrow> node_entry)" where
  "add_dependency e f =
     (let u = node_number (edge_from e); v = node_number (edge_to e);
          f1 = f(v := (f v)\<lparr>ne_remaining := ne_remaining (f v) + 1\<rparr>)
      in f1(u := (f1 u)\<lparr>ne_successors := ne_successors (f1 u) @ [(edge_to e, edge_policy e)]\<rparr>))"

definition materialize_edges :: "GraphEdge list \<Rightarrow> (nat \<Rightarrow> node_entry) \<Rightarrow> (nat \<Rightarrow> node_entry)" where
  "materialize_edges es f = fold add_dependency es f"

text \<open>The metrics of the runtime the port touches.\<close>

definition port_count :: "thread_context \<Rightarrow> counter \<Rightarrow> runtime \<Rightarrow> runtime" where
  "port_count ctx c r =
     (if level (rt_metrics r) \<noteq> Off then r\<lparr>rt_metrics := count_event ctx c (rt_metrics r)\<rparr> else r)"

definition record_graph_started :: "thread_context \<Rightarrow> runtime \<Rightarrow> runtime" where
  "record_graph_started ctx r =
     (if level (rt_metrics r) \<noteq> Off
      then let m = count_event ctx N_graph_runs_accepted (rt_metrics r)
           in r\<lparr>rt_metrics := m\<lparr>active_graph_runs := active_graph_runs m + 1\<rparr>\<rparr>
      else r)"

definition rollback_graph_started :: "u64 \<Rightarrow> runtime \<Rightarrow> runtime" where
  "rollback_graph_started n r =
     (let m = rt_metrics r
      in if level m = Off then r
         else r\<lparr>rt_metrics := m\<lparr>ready_tasks := ready_tasks m - min (ready_tasks m) n,
                               active_graph_runs := saturating_dec (active_graph_runs m)\<rparr>\<rparr>)"

text \<open>The lease: what its destructor does unless it was committed.\<close>

definition lease_rollback :: "u64 \<Rightarrow> bool \<Rightarrow> runtime \<Rightarrow> runtime" where
  "lease_rollback n is_internal r =
     (let r1 = rollback_graph_started n r in if is_internal then r1 else release_external_slots n r1)"

definition acquire_graph_slots ::
  "thread_context \<Rightarrow> u64 \<Rightarrow> bool \<Rightarrow> bool \<Rightarrow> time \<Rightarrow> (time \<times> env_step) list \<Rightarrow> runtime \<Rightarrow>
     (AdmissionDecision \<times> runtime) option" where
  "acquire_graph_slots ctx n block is_internal now es r =
     map_option (\<lambda>(d, a). (d, store_admission a r)) (acquire ctx n block is_internal now es (shared_admission r))"

fun rejection_of :: "AdmissionDecision \<Rightarrow> SubmissionError option" where
  "rejection_of Success = None"
| "rejection_of Stopping_decision = Some Rejected_stopping"
| "rejection_of Stopped_decision = Some Rejected_stopped"
| "rejection_of CapacityExhausted = Some Rejected_capacity"

definition graph_priority_of :: "TaskOptions option \<Rightarrow> bool \<Rightarrow> thread_locals \<Rightarrow> invalid_argument + Priority" where
  "graph_priority_of opts is_internal th =
     (case opts of
        Some o1 \<Rightarrow> (case validate_priority (priority o1) of Inl e \<Rightarrow> Inl e | Inr _ \<Rightarrow> Inr (priority o1))
      | None \<Rightarrow> Inr (if is_internal then tl_priority th else Normal))"

definition graph_roots :: "nat \<Rightarrow> (nat \<Rightarrow> node_entry) \<Rightarrow> nat list" where
  "graph_roots n f = filter (\<lambda>v. ne_remaining (f v) = 0) [1..<Suc n]"

text \<open>
  \<open>GraphExecution::run\<close>.  The result is \<open>None\<close> while the call waits for slots; otherwise an error or
  the threads and the world of the run, with the allocator and the runtime.  The calling thread is
  the first thread of the run, about to post the roots.
\<close>

definition graph_run ::
  "thread_locals \<Rightarrow> time \<Rightarrow> (time \<times> env_step) list \<Rightarrow> process \<Rightarrow> TaskOptions option \<Rightarrow> TaskGraph \<Rightarrow>
     id_allocator \<times> runtime \<Rightarrow>
     ((graph_error + instr list list \<times> graph_world) \<times> id_allocator \<times> runtime) option" where
  "graph_run th now env p opts g = (\<lambda>(ids, r0).
     (let ctx = tl_context th;
          r1 = port_count ctx N_graph_admission_attempts r0;
          n = of_nat (length (tg_nodes g)) :: u64
      in case allocate_graph_run (rt_id r1) ids of
           Inl e \<Rightarrow> Some (Inl (Graph_overflow e), ids, r1)
         | Inr (gid, ids1) \<Rightarrow>
             (let is_internal = (current_worker_runtime_id ctx = rt_id r1);
                  can_block = (current_worker_runtime_id ctx = no_runtime)
              in case graph_priority_of opts is_internal th of
                   Inl e \<Rightarrow> Some (Inl (Graph_option e), ids1, r1)
                 | Inr gp \<Rightarrow>
                     (case acquire_graph_slots ctx n can_block is_internal now env r1 of
                        None \<Rightarrow> None
                      | Some (d, r2) \<Rightarrow>
                          (case rejection_of d of
                             Some e \<Rightarrow> Some (Inl (Graph_rejected e), ids1, port_count ctx N_graph_runs_rejected r2)
                           | None \<Rightarrow>
                               (let r3 = record_graph_started ctx r2;
                                    s = new_graph_state gid n;
                                    world = (\<lambda>s. \<lparr>gw_state = s, gw_internal = is_internal, gw_posted = [],
                                      gw_suspended = [], gw_released = 0, gw_called = [], gw_process = p\<rparr>)
                                in if n = 0 then
                                     Some (Inr ([], world (s\<lparr>gs_run_state := Graph_succeeded\<rparr>)), ids1,
                                       lease_rollback n is_internal r3)
                                   else case materialize_nodes (rt_id r3) now gp (tg_nodes g) ids1 (gs_entries s) of
                                     (Inl e, ids2) \<Rightarrow> Some (Inl e, ids2, lease_rollback n is_internal r3)
                                   | (Inr f, ids2) \<Rightarrow>
                                       (let f1 = materialize_edges (tg_edges g) f
                                        in Some (Inr ([map Do_post (graph_roots (unat n) f1)],
                                             world (s\<lparr>gs_entries := f1\<rparr>)), ids2, r3))))))))"

section \<open>The handle\<close>

text \<open>\<open>GraphRun\<close>: queries on an empty handle raise.\<close>

definition invalid_run :: "handle_error + 'b" where
  "invalid_run = Inl (Logic_error ''operating on empty/invalid GraphRun'')"

definition graph_query :: "(GraphRunSharedState \<Rightarrow> 'b) \<Rightarrow> GraphRunSharedState option \<Rightarrow> handle_error + 'b" where
  "graph_query q h = (case h of None \<Rightarrow> invalid_run | Some s \<Rightarrow> Inr (q s))"

definition graph_run_id :: "GraphRunSharedState option \<Rightarrow> handle_error + GraphRunId" where
  "graph_run_id = graph_query gs_id"

definition graph_node_count :: "GraphRunSharedState option \<Rightarrow> handle_error + u64" where
  "graph_node_count = graph_query gs_total"

definition graph_state :: "GraphRunSharedState option \<Rightarrow> handle_error + GraphRunState" where
  "graph_state = graph_query gs_run_state"

definition graph_is_completed :: "GraphRunSharedState option \<Rightarrow> handle_error + bool" where
  "graph_is_completed = graph_query (\<lambda>s. gs_run_state s \<noteq> Graph_running)"

datatype GraphWaitResult = Graph_wait_completed | Graph_wait_timed_out

definition wait_result_of :: "GraphRunState \<Rightarrow> GraphWaitResult" where
  "wait_result_of st = (if st \<noteq> Graph_running then Graph_wait_completed else Graph_wait_timed_out)"

text \<open>
  \<open>wait_for\<close> on the thread executing a node of run \<open>cur\<close>: an error, an immediate answer, or a wait until
  the deadline, after which \<open>wait_result_of\<close> judges the state.
\<close>

datatype wait_decision = Answer GraphWaitResult | Wait_until time

definition graph_wait_for ::
  "GraphRunId \<Rightarrow> time \<Rightarrow> time \<Rightarrow> GraphRunSharedState option \<Rightarrow> handle_error + wait_decision" where
  "graph_wait_for cur now timeout h =
     (case h of
        None \<Rightarrow> invalid_run
      | Some s \<Rightarrow>
          if cur = gs_id s \<and> gs_id s \<noteq> no_graph_run
          then Inl (Logic_error ''cannot wait on own GraphRun inside its node execution'')
          else if gs_run_state s \<noteq> Graph_running then Inr (Answer Graph_wait_completed)
          else if timeout \<le> 0 then Inr (Answer (wait_result_of (gs_run_state s)))
          else Inr (Wait_until (now + timeout)))"

text \<open>What \<open>get_report\<close> does once its wait has returned.\<close>

definition read_report :: "GraphRunSharedState option \<Rightarrow> handle_error + GraphReport \<times> GraphRunSharedState" where
  "read_report = graph_query (\<lambda>s. (gs_report s, s\<lparr>gs_failure_observed := True\<rparr>))"

end
