(* ===== verification/Graph_Exec.thy ===== *)
theory Graph_Exec
  imports Graph_Run
begin

text \<open>
  The protocol of a graph run whose nodes are plain callables: the invariant that ties the counters of
  the shared state to what the threads have still to do, kept by every step of every interleaving.
\<close>

section \<open>Counting pending instructions\<close>

definition cnt :: "('a \<Rightarrow> bool) \<Rightarrow> 'a list \<Rightarrow> nat" where
  "cnt P xs = length (filter P xs)"

lemma cnt_simps [simp]:
  "cnt P [] = 0" "cnt P (x # xs) = (if P x then 1 else 0) + cnt P xs" "cnt P (xs @ ys) = cnt P xs + cnt P ys"
  by (simp_all add: cnt_def)

lemma cnt_map: "cnt P (map f xs) = cnt (\<lambda>x. P (f x)) xs"
  by (simp add: cnt_def filter_map o_def)

lemma cnt_eq_0: "cnt P xs = 0 \<longleftrightarrow> (\<forall>x \<in> set xs. \<not> P x)"
  by (induction xs) auto

lemma cnt_pos: "0 < cnt P xs \<longleftrightarrow> (\<exists>x \<in> set xs. P x)"
  by (induction xs) auto

lemma cnt_mono: "(\<And>x. x \<in> set xs \<Longrightarrow> P x \<Longrightarrow> Q x) \<Longrightarrow> cnt P xs \<le> cnt Q xs"
  by (induction xs) (auto simp: le_SucI)

lemma cnt_split: "cnt (\<lambda>x. P x \<or> Q x) xs + cnt (\<lambda>x. P x \<and> Q x) xs = cnt P xs + cnt Q xs"
  by (induction xs) auto

definition pending :: "instr list list \<Rightarrow> (instr \<Rightarrow> bool) \<Rightarrow> nat" where
  "pending ts P = cnt P (concat ts)"

lemma pending_add [simp]: "pending (ts @ [xs]) P = pending ts P + cnt P xs"
  by (simp add: pending_def)

lemma pending_step:
  "i < length ts \<Longrightarrow> ts ! i = x # xs \<Longrightarrow>
   pending (ts[i := ys @ xs]) P + (if P x then 1 else 0) = pending ts P + cnt P ys"
proof (induction ts arbitrary: i)
  case (Cons t ts)
  then show ?case by (cases i) (auto simp: pending_def)
qed simp

lemma pending_head: "i < length ts \<Longrightarrow> ts ! i = x # xs \<Longrightarrow> P x \<Longrightarrow> 0 < pending ts P"
  using pending_step [of i ts x xs "[]" P] by simp

lemma pending_0: "pending ts P = 0 \<longleftrightarrow> (\<forall>xs \<in> set ts. \<forall>x \<in> set xs. \<not> P x)"
  by (auto simp: pending_def cnt_eq_0)

lemma pending_pos: "0 < pending ts P \<longleftrightarrow> (\<exists>xs \<in> set ts. \<exists>x \<in> set xs. P x)"
  by (auto simp: pending_def cnt_pos)

fun owns :: "nat \<Rightarrow> instr \<Rightarrow> bool" where
  "owns v (Do_post u) = (u = v)"
| "owns v (Do_start u) = (u = v)"
| "owns v (Do_body u) = (u = v)"
| "owns v (Do_decide u) = (u = v)"
| "owns v (Do_outcome u oc ex) = (u = v)"
| "owns v _ = False"

text \<open>The instructions from which a node's body is still to be run, and those which presuppose that it may.\<close>

fun before_body :: "nat \<Rightarrow> instr \<Rightarrow> bool" where
  "before_body v (Do_post u) = (u = v)"
| "before_body v (Do_start u) = (u = v)"
| "before_body v (Do_body u) = (u = v)"
| "before_body v (Do_decide u) = (u = v)"
| "before_body v _ = False"

fun cleared :: "nat \<Rightarrow> instr \<Rightarrow> bool" where
  "cleared v (Do_post u) = (u = v)"
| "cleared v (Do_start u) = (u = v)"
| "cleared v (Do_body u) = (u = v)"
| "cleared v _ = False"

fun takes :: "nat \<Rightarrow> instr \<Rightarrow> bool" where
  "takes v (Do_edge oc u pol) = (u = v)"
| "takes v (Do_take u) = (u = v)"
| "takes v _ = False"

fun failing_edge :: "nat \<Rightarrow> instr \<Rightarrow> bool" where
  "failing_edge v (Do_edge oc u pol) = (u = v \<and> pol = RequireSuccess \<and> oc \<noteq> Succeeded)"
| "failing_edge v _ = False"

fun triggers :: "nat \<Rightarrow> instr \<Rightarrow> bool" where
  "triggers v (Do_trigger u) = (u = v)"
| "triggers v _ = False"

fun stores :: "nat \<Rightarrow> instr \<Rightarrow> bool" where
  "stores v (Do_outcome u oc ex) = (u = v)"
| "stores v _ = False"

fun stores_state :: "TaskState \<Rightarrow> instr \<Rightarrow> bool" where
  "stores_state oc (Do_outcome u oc' ex) = (oc' = oc)"
| "stores_state oc _ = False"

fun reports_state :: "TaskState \<Rightarrow> instr \<Rightarrow> bool" where
  "reports_state oc (Do_report u oc' ex) = (oc' = oc)"
| "reports_state oc _ = False"

fun any_outcome :: "instr \<Rightarrow> bool" where
  "any_outcome (Do_outcome u oc ex) = True"
| "any_outcome _ = False"

fun any_report :: "instr \<Rightarrow> bool" where
  "any_report (Do_report u oc ex) = True"
| "any_report _ = False"

definition final :: "TaskState \<Rightarrow> bool" where
  "final oc \<longleftrightarrow> oc = Succeeded \<or> oc = Failed \<or> oc = Cancelled"

lemma final_simps [simp]:
  "final Succeeded" "final Failed" "final Cancelled" "\<not> final Ready" "\<not> final TaskState.Running" "\<not> final Suspended"
  by (simp_all add: final_def)

lemma final_terminal [simp]: "final (terminal_state oc)"
  by (cases oc) simp_all

text \<open>An instruction of a run with plain nodes 1 to \<open>n\<close>.\<close>

fun proper :: "nat \<Rightarrow> instr \<Rightarrow> bool" where
  "proper n (Do_post v) = (v \<in> {1..n})"
| "proper n (Do_start v) = (v \<in> {1..n})"
| "proper n (Do_body v) = (v \<in> {1..n})"
| "proper n (Do_outcome v oc ex) = (v \<in> {1..n} \<and> final oc)"
| "proper n (Do_report v oc ex) = (v \<in> {1..n} \<and> final oc)"
| "proper n (Do_trigger v) = (v \<in> {1..n})"
| "proper n (Do_edge oc v pol) = (v \<in> {1..n})"
| "proper n (Do_take v) = (v \<in> {1..n})"
| "proper n (Do_decide v) = (v \<in> {1..n})"
| "proper n (Do_segment v) = False"
| "proper n (Do_resume v) = False"
| "proper n (Do_check v) = False"
| "proper n _ = True"

text \<open>The order in which a thread ends a node.\<close>

fun in_order :: "instr list \<Rightarrow> bool" where
  "in_order [] = True"
| "in_order (Do_outcome v oc ex # xs) = (in_order xs \<and> (\<exists>r. xs = Do_report v oc ex # Do_count # Do_trigger v # r))"
| "in_order (Do_report v oc ex # xs) = (in_order xs \<and> (\<exists>r. xs = Do_count # Do_trigger v # r))"
| "in_order (x # xs) = in_order xs"

lemma in_order_tail: "in_order (x # xs) \<Longrightarrow> in_order xs"
  by (cases x) auto

lemma in_order_finish [simp]: "in_order (finish_node v oc ex @ xs) = in_order xs"
  by (simp add: finish_node_def)

lemma in_order_map [simp]:
  "in_order (map Do_call cbs @ xs) = in_order xs"
  "in_order (map (\<lambda>(s, pol). Do_edge oc (node_number s) pol) ss @ xs) = in_order xs"
  "in_order (map Do_cancel_node vs) = True"
  "in_order (map (Do_call \<circ> f) ds) = True"
  "in_order (map Do_post vs) = True"
  by (induction cbs; simp) (induction ss; auto; fail | induction vs; simp; fail | induction ds; simp)+

lemma in_order_rest: "in_order (Do_outcome v oc ex # xs) \<Longrightarrow> \<exists>r. xs = Do_report v oc ex # Do_count # Do_trigger v # r \<and> in_order r"
  by auto

lemma in_order_stores: "in_order xs \<Longrightarrow> cnt (stores v) xs \<le> cnt (triggers v) xs"
proof (induction xs rule: length_induct)
  case (1 ys)
  show ?case
  proof (cases ys)
    case (Cons x xs)
    show ?thesis
    proof (cases "any_outcome x")
      case True
      then obtain u oc ex where x: "x = Do_outcome u oc ex"
        by (cases x) auto
      then obtain r where "xs = Do_report u oc ex # Do_count # Do_trigger u # r" "in_order r"
        using "1.prems" Cons in_order_rest by blast
      with "1.IH" Cons x show ?thesis by simp
    next
      case False
      have "cnt (stores v) xs \<le> cnt (triggers v) xs"
        using "1.IH" "1.prems" Cons in_order_tail by auto
      with False Cons show ?thesis
        by (cases x) auto
    qed
  qed simp
qed

lemma in_order_reports: "in_order xs \<Longrightarrow> cnt any_report xs \<le> cnt (\<lambda>x. x = Do_count) xs"
proof (induction xs rule: length_induct)
  case (1 ys)
  show ?case
  proof (cases ys)
    case (Cons x xs)
    show ?thesis
    proof (cases "any_report x")
      case True
      then obtain r where "xs = Do_count # r" "in_order r"
        using "1.prems" Cons by (cases x) auto
      with "1.IH" Cons True show ?thesis by (cases x) auto
    next
      case False
      have "cnt any_report xs \<le> cnt (\<lambda>x. x = Do_count) xs"
        using "1.IH" "1.prems" Cons in_order_tail by auto
      with False Cons show ?thesis
        by (cases x) auto
    qed
  qed simp
qed

lemma pending_stores:
  "\<forall>xs \<in> set ts. in_order xs \<Longrightarrow> pending ts (stores v) \<le> pending ts (triggers v)"
  by (induction ts) (auto simp: pending_def in_order_stores add_mono)

lemma pending_reports:
  "\<forall>xs \<in> set ts. in_order xs \<Longrightarrow> pending ts any_report \<le> pending ts (\<lambda>x. x = Do_count)"
  by (induction ts) (auto simp: pending_def in_order_reports add_mono)

end
