(* ===== verification/Graph_Invariant.thy ===== *)
theory Graph_Invariant
  imports Graph_Exec
begin

text \<open>
  The invariant of a graph run: for every node the dependencies still open, the one place its
  execution has reached, the reports and the count of the nodes not yet ended.
\<close>

section \<open>What one instruction changes\<close>

definition no_coroutines :: "graph_world \<Rightarrow> bool" where
  "no_coroutines w \<longleftrightarrow> (\<forall>v. \<not> is_coroutine_node (entry_of w v)) \<and> gw_suspended w = []"

lemma is_coroutine_node_cong: "ne_invoker e' = ne_invoker e \<Longrightarrow> is_coroutine_node e' = is_coroutine_node e"
  by (simp add: is_coroutine_node_def)

lemma judge_node_deadline_frame [simp]:
  "ne_outcome (judge_node_deadline now e) = ne_outcome e"
  "ne_remaining (judge_node_deadline now e) = ne_remaining e"
  "ne_required_failed (judge_node_deadline now e) = ne_required_failed e"
  "ne_successors (judge_node_deadline now e) = ne_successors e"
  "ne_invoker (judge_node_deadline now e) = ne_invoker e"
  by (simp_all add: judge_node_deadline_def split: option.split)

lemmas world_defs = on_state_def on_process_def on_entry_def post_node_def Let_def

text \<open>The execution of an instruction as a pair of what is left and the new world.\<close>

lemma exec_count:
  "graph_exec inp Do_count w =
     (if gs_remaining (gw_state w) = 1
      then ([Do_publish], on_process (record_metrics_graph_run_completed (run_runtime (gs_id (gw_state w))))
        (on_state (\<lambda>s. s\<lparr>gs_remaining := gs_remaining s - 1\<rparr>) w))
      else ([], on_state (\<lambda>s. s\<lparr>gs_remaining := gs_remaining s - 1\<rparr>) w))"
  by (simp add: count_node_def on_process_def on_state_def)

lemma exec_publish:
  "graph_exec inp Do_publish w =
     (map Do_call (gs_callbacks (gw_state w)),
      on_state (\<lambda>s. s\<lparr>gs_report := sort_exceptions (gs_report s), gs_run_state := final_run_state (gs_report s),
        gs_callbacks := []\<rparr>) w)"
  by (simp add: publish_run_def Let_def on_state_def final_run_state_def sort_exceptions_def)

definition exec_world :: "step_input \<Rightarrow> instr \<Rightarrow> graph_world \<Rightarrow> graph_world" where
  "exec_world inp x w = snd (graph_exec inp x w)"

fun is_plain :: "instr \<Rightarrow> bool" where
  "is_plain (Do_segment v) = False"
| "is_plain (Do_resume v) = False"
| "is_plain (Do_check v) = False"
| "is_plain _ = True"

lemma proper_plain: "proper n x \<Longrightarrow> is_plain x"
  by (cases x) auto

lemma post_node_frame [simp]:
  "ne_outcome (entry_of (post_node u w) v) = ne_outcome (entry_of w v)"
  "ne_remaining (entry_of (post_node u w) v) = ne_remaining (entry_of w v)"
  "ne_required_failed (entry_of (post_node u w) v) = ne_required_failed (entry_of w v)"
  "ne_successors (entry_of (post_node u w) v) = ne_successors (entry_of w v)"
  "ne_invoker (entry_of (post_node u w) v) = ne_invoker (entry_of w v)"
  "gw_posted (post_node u w) = gw_posted w @ [Node_task u]"
  "gw_suspended (post_node u w) = gw_suspended w" "gw_internal (post_node u w) = gw_internal w"
  "gw_called (post_node u w) = gw_called w"
  "gs_total (gw_state (post_node u w)) = gs_total (gw_state w)"
  "gs_cancel_requested (gw_state (post_node u w)) = gs_cancel_requested (gw_state w)"
  "gs_remaining (gw_state (post_node u w)) = gs_remaining (gw_state w)"
  "gs_report (gw_state (post_node u w)) = gs_report (gw_state w)"
  "gs_run_state (gw_state (post_node u w)) = gs_run_state (gw_state w)"
  "gs_callbacks (gw_state (post_node u w)) = gs_callbacks (gw_state w)"
  by (simp_all add: world_defs)

lemma exec_frame_world:
  assumes "is_plain x" and "no_coroutines w"
  shows "gs_total (gw_state (exec_world inp x w)) = gs_total (gw_state w)"
    and "ne_successors (entry_of (exec_world inp x w) v) = ne_successors (entry_of w v)"
    and "gs_cancel_requested (gw_state (exec_world inp x w)) = gs_cancel_requested (gw_state w)"
    and "gw_internal (exec_world inp x w) = gw_internal w"
    and "ne_invoker (entry_of (exec_world inp x w) v) = ne_invoker (entry_of w v)"
    and "gw_suspended (exec_world inp x w) = gw_suspended w"
  using assms
  by (cases x; simp add: no_coroutines_def exec_world_def exec_count exec_publish on_state_def on_process_def on_entry_def
      del: graph_exec.simps(9,10) split: option.split)+

lemmas exec_simps = no_coroutines_def exec_world_def exec_count exec_publish on_state_def on_process_def on_entry_def

lemma no_coroutines_exec: "is_plain x \<Longrightarrow> no_coroutines w \<Longrightarrow> no_coroutines (exec_world inp x w)"
  using exec_frame_world [of x w inp] by (auto simp: no_coroutines_def is_coroutine_node_def)

fun stored_outcome :: "instr \<Rightarrow> nat \<Rightarrow> TaskState \<Rightarrow> TaskState" where
  "stored_outcome (Do_outcome u oc ex) v old = (if v = u then oc else old)"
| "stored_outcome _ v old = old"

fun posted_by :: "instr \<Rightarrow> graph_world \<Rightarrow> graph_task list" where
  "posted_by (Do_post v) w = [Node_task v]"
| "posted_by (Do_decide v) w =
     (if ne_required_failed (entry_of w v) \<or> gs_cancel_requested (gw_state w) then [] else [Node_task v])"
| "posted_by _ w = []"

lemma exec_entry_world:
  assumes "is_plain x" and "no_coroutines w"
  shows "ne_outcome (entry_of (exec_world inp x w) v) = stored_outcome x v (ne_outcome (entry_of w v))"
    and "ne_remaining (entry_of (exec_world inp x w) v) =
      (if x = Do_take v then ne_remaining (entry_of w v) - 1 else ne_remaining (entry_of w v))"
    and "ne_required_failed (entry_of (exec_world inp x w) v) = (failing_edge v x \<or> ne_required_failed (entry_of w v))"
    and "gw_posted (exec_world inp x w) = gw_posted w @ posted_by x w"
  using assms
  by (cases x; auto simp add: exec_simps simp del: graph_exec.simps(9,10) split: option.split)+

fun reported_by :: "instr \<Rightarrow> GraphReport \<Rightarrow> GraphReport" where
  "reported_by (Do_report v oc ex) r = report_node v oc ex r"
| "reported_by Do_publish r = sort_exceptions r"
| "reported_by _ r = r"

fun called_by :: "instr \<Rightarrow> nat list" where
  "called_by (Do_call (Some c)) = [c]"
| "called_by _ = []"

lemma exec_state_world:
  assumes "is_plain x" and "no_coroutines w"
  shows "gs_remaining (gw_state (exec_world inp x w)) =
      (if x = Do_count then gs_remaining (gw_state w) - 1 else gs_remaining (gw_state w))"
    and "gs_report (gw_state (exec_world inp x w)) = reported_by x (gs_report (gw_state w))"
    and "gs_run_state (gw_state (exec_world inp x w)) =
      (if x = Do_publish then final_run_state (gs_report (gw_state w)) else gs_run_state (gw_state w))"
    and "gs_callbacks (gw_state (exec_world inp x w)) = (if x = Do_publish then [] else gs_callbacks (gw_state w))"
    and "gw_called (exec_world inp x w) = gw_called w @ called_by x"
  using assms
  by (cases x; auto simp add: exec_simps simp del: graph_exec.simps(9,10) split: option.split)+

fun next_instrs :: "step_input \<Rightarrow> instr \<Rightarrow> graph_world \<Rightarrow> instr list" where
  "next_instrs inp (Do_start v) w =
     (if gs_cancel_requested (gw_state w) then finish_node v Cancelled None else [Do_body v])"
| "next_instrs inp (Do_body v) w = finish_node v (terminal_state (in_outcome inp)) (thrown (in_outcome inp))"
| "next_instrs inp Do_count w = (if gs_remaining (gw_state w) = 1 then [Do_publish] else [])"
| "next_instrs inp Do_publish w = map Do_call (gs_callbacks (gw_state w))"
| "next_instrs inp (Do_trigger v) w =
     map (\<lambda>(s, pol). Do_edge (ne_outcome (entry_of w v)) (node_number s) pol) (ne_successors (entry_of w v))"
| "next_instrs inp (Do_edge oc s pol) w = [Do_take s]"
| "next_instrs inp (Do_take s) w = (if ne_remaining (entry_of w s) = 1 then [Do_decide s] else [])"
| "next_instrs inp (Do_decide s) w =
     (if ne_required_failed (entry_of w s) \<or> gs_cancel_requested (gw_state w) then finish_node s Cancelled None else [])"
| "next_instrs inp _ w = []"

lemma exec_plain:
  assumes "is_plain x" and "no_coroutines w"
  shows "graph_exec inp x w = (next_instrs inp x w, exec_world inp x w)"
  using assms
  by (cases x; simp add: exec_simps del: graph_exec.simps(9,10))

end
