(* ===== verification/Graph_Steps.thy ===== *)
theory Graph_Steps
  imports Graph_Invariant
begin

text \<open>
  The parts of the invariant of a graph run, each with the lemma that one instruction of a thread
  keeps it.  \<open>p\<close> counts the pending instructions of all threads; \<open>q\<close> counts those left when the
  executing thread's instruction is taken away, so that \<open>q\<close> with it is the state before and \<open>q\<close> with
  the instructions that replace it the state after.  \<open>T\<close> is the set of the nodes whose successors
  have been gone through.  An edge is a triple of two node numbers and its policy.
\<close>

type_synonym edge_triple = "nat \<times> nat \<times> EdgePolicy"

abbreviation e_from :: "edge_triple \<Rightarrow> nat" where "e_from e \<equiv> fst e"
abbreviation e_to :: "edge_triple \<Rightarrow> nat" where "e_to e \<equiv> fst (snd e)"
abbreviation e_policy :: "edge_triple \<Rightarrow> EdgePolicy" where "e_policy e \<equiv> snd (snd e)"

abbreviation outcome_of :: "graph_world \<Rightarrow> nat \<Rightarrow> TaskState" where
  "outcome_of w v \<equiv> ne_outcome (entry_of w v)"

definition graph_static :: "nat \<Rightarrow> edge_triple list \<Rightarrow> graph_world \<Rightarrow> bool" where
  "graph_static n es w \<longleftrightarrow> no_coroutines w \<and> n < 2 ^ 64 \<and> length es < 2 ^ 64 \<and>
     gs_total (gw_state w) = of_nat n \<and>
     (\<forall>e \<in> set es. e_from e \<in> {1..n} \<and> e_to e \<in> {1..n}) \<and>
     (\<forall>u \<in> {1..n}. map (\<lambda>(s, pol). (node_number s, pol)) (ne_successors (entry_of w u)) =
        map snd (filter (\<lambda>e. e_from e = u) es))"

lemma graph_staticD:
  assumes "graph_static n es w"
  shows "no_coroutines w" "n < 2 ^ 64" "length es < 2 ^ 64" "gs_total (gw_state w) = of_nat n"
    "e \<in> set es \<Longrightarrow> e_from e \<in> {1..n}" "e \<in> set es \<Longrightarrow> e_to e \<in> {1..n}"
    "u \<in> {1..n} \<Longrightarrow> map (\<lambda>(s, pol). (node_number s, pol)) (ne_successors (entry_of w u)) =
        map snd (filter (\<lambda>e. e_from e = u) es)"
  using assms by (auto simp: graph_static_def)

lemma static_exec: "is_plain x \<Longrightarrow> graph_static n es w \<Longrightarrow> graph_static n es (exec_world inp x w)"
  by (simp add: graph_static_def no_coroutines_exec exec_frame_world)

section \<open>Dependencies\<close>

definition open_deps :: "edge_triple list \<Rightarrow> nat set \<Rightarrow> ((instr \<Rightarrow> bool) \<Rightarrow> nat) \<Rightarrow> nat \<Rightarrow> nat" where
  "open_deps es T p v = cnt (\<lambda>e. e_to e = v \<and> e_from e \<notin> T) es + p (takes v)"

text \<open>The nodes gone through after an instruction, and the counts before and after it.\<close>

abbreviation through :: "instr \<Rightarrow> nat set \<Rightarrow> nat set" where
  "through x T \<equiv> (case x of Do_trigger u \<Rightarrow> insert u T | _ \<Rightarrow> T)"

abbreviation before :: "((instr \<Rightarrow> bool) \<Rightarrow> nat) \<Rightarrow> instr \<Rightarrow> (instr \<Rightarrow> bool) \<Rightarrow> nat" where
  "before q x \<equiv> (\<lambda>P. q P + of_bool (P x))"

abbreviation after :: "((instr \<Rightarrow> bool) \<Rightarrow> nat) \<Rightarrow> instr list \<Rightarrow> (instr \<Rightarrow> bool) \<Rightarrow> nat" where
  "after q ys \<equiv> (\<lambda>P. q P + cnt P ys)"

lemma cnt_successors:
  assumes "graph_static n es w" and "u \<in> {1..n}"
  shows "cnt P (map (\<lambda>(s, pol). Do_edge oc (node_number s) pol) (ne_successors (entry_of w u))) =
    cnt (\<lambda>e. e_from e = u \<and> P (Do_edge oc (e_to e) (e_policy e))) es"
proof -
  have "cnt P (map (\<lambda>(s, pol). Do_edge oc (node_number s) pol) (ne_successors (entry_of w u))) =
      cnt (\<lambda>(v, pol). P (Do_edge oc v pol)) (map (\<lambda>(s, pol). (node_number s, pol)) (ne_successors (entry_of w u)))"
    by (simp add: cnt_map case_prod_unfold)
  also have "\<dots> = cnt (\<lambda>(v, pol). P (Do_edge oc v pol)) (map snd (filter (\<lambda>e. e_from e = u) es))"
    using graph_staticD(7) [OF assms] by simp
  also have "\<dots> = cnt (\<lambda>e. e_from e = u \<and> P (Do_edge oc (e_to e) (e_policy e))) es"
    by (simp add: cnt_def filter_map o_def case_prod_unfold conj_commute)
  finally show ?thesis .
qed

lemma cnt_insert:
  "u \<notin> T \<Longrightarrow> cnt (\<lambda>e. e_to e = v \<and> e_from e \<notin> insert u T) es + cnt (\<lambda>e. e_from e = u \<and> e_to e = v) es =
     cnt (\<lambda>e. e_to e = v \<and> e_from e \<notin> T) es"
  by (induction es) auto

lemma cnt_finish [simp]:
  "cnt P (finish_node v oc ex) =
     of_bool (P (Do_outcome v oc ex)) + of_bool (P (Do_report v oc ex)) + of_bool (P Do_count) + of_bool (P (Do_trigger v))"
  by (simp add: finish_node_def)

lemma cnt_calls [simp]: "cnt P (map Do_call cbs) = cnt (\<lambda>c. P (Do_call c)) cbs"
  by (simp add: cnt_map)

lemma cnt_False [simp]: "cnt (\<lambda>x. False) xs = 0"
  by (simp add: cnt_def)

lemma open_deps_exec:
  assumes st: "graph_static n es w" and x: "proper n x" and T: "\<And>u. x = Do_trigger u \<Longrightarrow> u \<notin> T"
  shows "open_deps es (through x T) (after q (next_instrs inp x w)) v + of_bool (x = Do_take v) =
    open_deps es T (before q x) v"
proof (cases x)
  case (Do_trigger u)
  with x T have "u \<in> {1..n}" "u \<notin> T" by simp_all
  with Do_trigger show ?thesis
    using cnt_insert [of u T v es] by (simp add: open_deps_def cnt_successors [OF st])
qed (simp_all add: open_deps_def)

definition deps_inv :: "nat \<Rightarrow> edge_triple list \<Rightarrow> nat set \<Rightarrow> ((instr \<Rightarrow> bool) \<Rightarrow> nat) \<Rightarrow> graph_world \<Rightarrow> bool" where
  "deps_inv n es T p w \<longleftrightarrow> (\<forall>v \<in> {1..n}. ne_remaining (entry_of w v) = of_nat (open_deps es T p v) \<and>
     open_deps es T p v \<le> length es)"

lemma deps_exec:
  assumes st: "graph_static n es w" and x: "proper n x" and T: "\<And>u. x = Do_trigger u \<Longrightarrow> u \<notin> T"
    and i: "deps_inv n es T (before q x) w"
  shows "deps_inv n es (through x T) (after q (next_instrs inp x w)) (exec_world inp x w)"
proof -
  have "ne_remaining (entry_of (exec_world inp x w) v) =
      of_nat (open_deps es (through x T) (after q (next_instrs inp x w)) v) \<and>
      open_deps es (through x T) (after q (next_instrs inp x w)) v \<le> length es" if v: "v \<in> {1..n}" for v
  proof -
    note eq = open_deps_exec [OF st x T, where q = q and inp = inp and v = v]
    define d where "d = open_deps es T (before q x) v"
    define d' where "d' = open_deps es (through x T) (after q (next_instrs inp x w)) v"
    have "d' + of_bool (x = Do_take v) = d"
      unfolding d_def d'_def by (rule open_deps_exec [OF st x T])
    moreover have "ne_remaining (entry_of w v) = of_nat d" "d \<le> length es"
      using i v unfolding deps_inv_def d_def by blast+
    ultimately show ?thesis
      using exec_entry_world(2) [OF proper_plain [OF x] graph_staticD(1) [OF st], of inp v]
      unfolding d'_def [symmetric] by (cases "x = Do_take v") auto
  qed
  then show ?thesis by (simp add: deps_inv_def)
qed

text \<open>The last dependency is the one whose removal finds the counter at 1.\<close>

lemma last_dependency:
  assumes "graph_static n es w" and "deps_inv n es T p w" and "v \<in> {1..n}"
  shows "ne_remaining (entry_of w v) = 1 \<longleftrightarrow> open_deps es T p v = 1"
proof -
  have e: "ne_remaining (entry_of w v) = of_nat (open_deps es T p v)" "open_deps es T p v < 2 ^ 64"
    using assms graph_staticD(3) [OF assms(1)] by (auto simp: deps_inv_def intro: le_less_trans)
  then have "unat (ne_remaining (entry_of w v)) = open_deps es T p v"
    by (simp add: unat_of_nat_u64)
  then show ?thesis
    by (metis e(1) of_nat_1 unat_1)
qed

section \<open>Where a node is\<close>

text \<open>A node whose dependencies are gone is in one place: about to be run or skipped, or ended.\<close>

definition own_inv :: "nat \<Rightarrow> edge_triple list \<Rightarrow> nat set \<Rightarrow> ((instr \<Rightarrow> bool) \<Rightarrow> nat) \<Rightarrow> graph_world \<Rightarrow> bool" where
  "own_inv n es T p w \<longleftrightarrow> (\<forall>v \<in> {1..n}.
     p (owns v) + cnt (\<lambda>t. t = Node_task v) (gw_posted w) + of_bool (final (outcome_of w v)) =
     of_bool (open_deps es T p v = 0))"

lemma own_exec:
  assumes st: "graph_static n es w" and x: "proper n x" and T: "\<And>u. x = Do_trigger u \<Longrightarrow> u \<notin> T"
    and d: "deps_inv n es T (before q x) w" and i: "own_inv n es T (before q x) w"
  shows "own_inv n es (through x T) (after q (next_instrs inp x w)) (exec_world inp x w)"
proof -
  have "after q (next_instrs inp x w) (owns v) + cnt (\<lambda>t. t = Node_task v) (gw_posted (exec_world inp x w)) +
      of_bool (final (outcome_of (exec_world inp x w) v)) =
      of_bool (open_deps es (through x T) (after q (next_instrs inp x w)) v = 0)" if v: "v \<in> {1..n}" for v
  proof -
    note w' = exec_entry_world [OF proper_plain [OF x] graph_staticD(1) [OF st], of inp]
    define d1 where "d1 = open_deps es T (before q x) v"
    define d2 where "d2 = open_deps es (through x T) (after q (next_instrs inp x w)) v"
    have d12: "d2 + of_bool (x = Do_take v) = d1"
      unfolding d1_def d2_def by (rule open_deps_exec [OF st x T])
    have own: "q (owns v) + of_bool (owns v x) + cnt (\<lambda>t. t = Node_task v) (gw_posted w) +
        of_bool (final (outcome_of w v)) = of_bool (d1 = 0)"
      using i v unfolding own_inv_def d1_def by blast
    have last: "ne_remaining (entry_of w v) = 1 \<longleftrightarrow> d1 = 1"
      unfolding d1_def by (rule last_dependency [OF st d v])
    show ?thesis
      unfolding d2_def [symmetric]
      using own d12 last w' x
      by (cases x) (auto simp: of_bool_def cnt_successors [OF st] split: if_splits)
  qed
  then show ?thesis by (simp add: own_inv_def)
qed

definition trigger_inv :: "nat \<Rightarrow> nat set \<Rightarrow> ((instr \<Rightarrow> bool) \<Rightarrow> nat) \<Rightarrow> graph_world \<Rightarrow> bool" where
  "trigger_inv n T p w \<longleftrightarrow> T \<subseteq> {1..n} \<and>
     (\<forall>v \<in> {1..n}. of_bool (v \<in> T) + p (triggers v) = p (stores v) + of_bool (final (outcome_of w v)))"

text \<open>A node about to be ended has not ended yet.\<close>

lemma owner_facts:
  assumes "own_inv n es T p w" and "v \<in> {1..n}"
  shows "p (owns v) \<le> 1" and "0 < p (owns v) \<Longrightarrow> \<not> final (outcome_of w v)"
    and "0 < p (owns v) \<Longrightarrow> open_deps es T p v = 0" and "final (outcome_of w v) \<Longrightarrow> open_deps es T p v = 0"
    and "Node_task v \<in> set (gw_posted w) \<Longrightarrow> open_deps es T p v = 0"
proof -
  have e: "p (owns v) + cnt (\<lambda>t. t = Node_task v) (gw_posted w) + of_bool (final (outcome_of w v)) =
      of_bool (open_deps es T p v = 0)"
    using assms by (auto simp: own_inv_def)
  have "0 < cnt (\<lambda>t. t = Node_task v) (gw_posted w)" if "Node_task v \<in> set (gw_posted w)"
    using that by (auto simp: cnt_pos)
  with e show "p (owns v) \<le> 1" "0 < p (owns v) \<Longrightarrow> \<not> final (outcome_of w v)"
    "0 < p (owns v) \<Longrightarrow> open_deps es T p v = 0" "final (outcome_of w v) \<Longrightarrow> open_deps es T p v = 0"
    "Node_task v \<in> set (gw_posted w) \<Longrightarrow> open_deps es T p v = 0"
    by (auto simp: of_bool_def split: if_splits)
qed

lemma trigger_exec:
  assumes st: "graph_static n es w" and x: "proper n x"
    and own: "own_inv n es T (before q x) w" and i: "trigger_inv n T (before q x) w"
    and le: "\<And>v. q (stores v) \<le> q (triggers v)"
  shows "trigger_inv n (through x T) (after q (next_instrs inp x w)) (exec_world inp x w)"
    and "x = Do_trigger u \<Longrightarrow> u \<notin> T"
proof -
  note w' = exec_entry_world [OF proper_plain [OF x] graph_staticD(1) [OF st], of inp]
  have eq: "of_bool (v \<in> T) + q (triggers v) + of_bool (triggers v x) =
      q (stores v) + of_bool (stores v x) + of_bool (final (outcome_of w v))" if "v \<in> {1..n}" for v
    using i that unfolding trigger_inv_def by (auto simp: add.assoc)
  have one: "v \<notin> T \<and> final (outcome_of w v)" if "x = Do_trigger v" for v
  proof -
    have "v \<in> {1..n}" using x that by simp
    with eq [of v] le [of v] that show ?thesis
      by (auto simp: of_bool_def split: if_splits)
  qed
  then show "x = Do_trigger u \<Longrightarrow> u \<notin> T" by blast
  have fresh: "\<not> final (outcome_of w v)" if "x = Do_outcome v oc ex" for v oc ex
    using owner_facts(2) [OF own, of v] x that by simp
  have "of_bool (v \<in> through x T) + after q (next_instrs inp x w) (triggers v) =
      after q (next_instrs inp x w) (stores v) + of_bool (final (outcome_of (exec_world inp x w) v))"
    if v: "v \<in> {1..n}" for v
  proof (cases x)
    case (Do_trigger u)
    with eq [OF v] one [of u] w' x cnt_successors [OF st, of u] show ?thesis
      by (auto simp: of_bool_def split: if_splits)
  next
    case (Do_outcome u oc ex)
    with eq [OF v] fresh [of u] w' x show ?thesis
      by (auto simp: of_bool_def split: if_splits)
  qed (use eq [OF v] w' x in \<open>auto simp: of_bool_def split: if_splits\<close>)
  moreover have "through x T \<subseteq> {1..n}"
    using i x by (cases x) (auto simp: trigger_inv_def)
  ultimately show "trigger_inv n (through x T) (after q (next_instrs inp x w)) (exec_world inp x w)"
    by (simp add: trigger_inv_def)
qed

end
