(* ===== verification/Graph_Counts.thy ===== *)
theory Graph_Counts
  imports Graph_Steps
begin

text \<open>
  The counting parts of the invariant of a graph run: the report, the number of nodes not yet ended,
  the publication of the result, the completion callbacks, the admission slots, the failures passed
  along the edges and the bodies executed.
\<close>

section \<open>How many nodes end\<close>

lemma cnt_stores_sum:
  "\<forall>x \<in> set L. proper n x \<Longrightarrow> cnt any_outcome L = (\<Sum>v \<in> {1..n}. cnt (stores v) L)"
proof (induction L)
  case (Cons x L)
  have "(\<Sum>v \<in> {1..n}. if stores v x then 1 else (0::nat)) = of_bool (any_outcome x)"
  proof (cases x)
    case (Do_outcome u oc ex)
    then have "u \<in> {1..n}" using Cons.prems by simp
    with Do_outcome show ?thesis by simp
  qed simp_all
  moreover have "(\<Sum>v \<in> {1..n}. cnt (stores v) (x # L)) =
      (\<Sum>v \<in> {1..n}. if stores v x then 1 else 0) + (\<Sum>v \<in> {1..n}. cnt (stores v) L)"
    by (simp only: cnt_simps sum.distrib)
  moreover have "cnt any_outcome L = (\<Sum>v \<in> {1..n}. cnt (stores v) L)"
    using Cons by simp
  ultimately show ?case by simp
qed simp

lemma ended_card: fixes P :: "nat \<Rightarrow> bool" shows "card {v \<in> {1..n}. P v} = (\<Sum>v \<in> {1..n}. of_bool (P v))"
proof -
  have "{v \<in> {1..n}. P v} = {1..n} \<inter> {v. P v}" by blast
  then show ?thesis by simp
qed

lemma ends_bound:
  assumes own: "own_inv n es T (\<lambda>P. cnt P L) w" and L: "\<forall>x \<in> set L. proper n x"
  shows "cnt any_outcome L + card {v \<in> {1..n}. final (outcome_of w v)} \<le> n"
proof -
  have "cnt (stores v) L + of_bool (final (outcome_of w v)) \<le> 1" if "v \<in> {1..n}" for v
  proof -
    have "cnt (stores v) L \<le> cnt (owns v) L"
      by (rule cnt_mono) (auto elim: stores.elims)
    moreover have "cnt (owns v) L + of_bool (final (outcome_of w v)) \<le> 1"
      using own that unfolding own_inv_def by (auto simp: of_bool_def split: if_splits)
    ultimately show ?thesis by linarith
  qed
  then have "(\<Sum>v \<in> {1..n}. cnt (stores v) L + of_bool (final (outcome_of w v))) \<le> (\<Sum>v \<in> {1..n}. 1)"
    by (rule sum_mono)
  then show ?thesis
    unfolding ended_card cnt_stores_sum [OF L] sum.distrib by simp
qed

section \<open>The report\<close>

fun report_count :: "TaskState \<Rightarrow> GraphReport \<Rightarrow> u64" where
  "report_count Succeeded r = gr_succeeded r"
| "report_count Failed r = gr_failed r"
| "report_count Cancelled r = gr_cancelled r"
| "report_count _ r = 0"

definition ended_with :: "nat \<Rightarrow> graph_world \<Rightarrow> TaskState \<Rightarrow> nat set" where
  "ended_with n w oc = {v \<in> {1..n}. outcome_of w v = oc}"

lemma finite_ended_with [simp]: "finite (ended_with n w oc)"
  by (simp add: ended_with_def)

definition report_inv :: "nat \<Rightarrow> ((instr \<Rightarrow> bool) \<Rightarrow> nat) \<Rightarrow> graph_world \<Rightarrow> bool" where
  "report_inv n p w \<longleftrightarrow> (\<forall>oc. final oc \<longrightarrow>
     unat (report_count oc (gs_report (gw_state w))) + p (reports_state oc) =
     p (stores_state oc) + card (ended_with n w oc))"

lemma report_count_node:
  "final oc \<Longrightarrow> report_count oc' (report_node v oc ex r) = (if oc' = oc then report_count oc' r + 1 else report_count oc' r)"
  by (cases oc; cases oc'; cases ex) (simp_all add: report_node_def final_def)

lemma report_count_sort [simp]: "report_count oc (sort_exceptions r) = report_count oc r"
  by (cases oc) (simp_all add: sort_exceptions_def)

lemma stores_bound:
  assumes own: "own_inv n es T (\<lambda>P. cnt P L) w" and L: "\<forall>x \<in> set L. proper n x" and oc: "final oc"
  shows "cnt (stores_state oc) L + card (ended_with n w oc) \<le> n"
proof -
  have "cnt (stores_state oc) L \<le> cnt any_outcome L"
    by (rule cnt_mono) (auto elim: stores_state.elims)
  moreover have "card (ended_with n w oc) \<le> card {v \<in> {1..n}. final (outcome_of w v)}"
    using oc by (intro card_mono) (auto simp: ended_with_def)
  ultimately show ?thesis
    using ends_bound [OF own L] by linarith
qed

lemma ended_with_exec:
  assumes st: "graph_static n es w" and x: "proper n x" and fresh: "\<And>v oc ex. x = Do_outcome v oc ex \<Longrightarrow> \<not> final (outcome_of w v)"
    and oc: "final oc"
  shows "card (ended_with n (exec_world inp x w) oc) = card (ended_with n w oc) + of_bool (stores_state oc x)"
proof -
  note w' = exec_entry_world(1) [OF proper_plain [OF x] graph_staticD(1) [OF st], of inp]
  show ?thesis
  proof (cases "any_outcome x")
    case True
    then obtain u oc' ex where u: "x = Do_outcome u oc' ex" by (cases x) auto
    have nf: "outcome_of w u \<noteq> oc" using fresh [OF u] oc by auto
    have "ended_with n (exec_world inp x w) oc = (if oc' = oc then insert u (ended_with n w oc) else ended_with n w oc)"
      using nf x u w' [unfolded u] by (auto simp: ended_with_def)
    moreover have "u \<notin> ended_with n w oc" using nf by (simp add: ended_with_def)
    ultimately show ?thesis using u by simp
  next
    case False
    then have "stored_outcome x v (outcome_of w v) = outcome_of w v" "\<not> stores_state oc x" for v
      by (cases x; simp)+
    then show ?thesis by (simp add: ended_with_def w')
  qed
qed

lemma report_exec:
  assumes st: "graph_static n es w" and x: "proper n x" and L: "\<forall>x \<in> set L. proper n x"
    and own: "own_inv n es T (before (\<lambda>P. cnt P L) x) w"
    and i: "report_inv n (before (\<lambda>P. cnt P L) x) w"
  shows "report_inv n (after (\<lambda>P. cnt P L) (next_instrs inp x w)) (exec_world inp x w)"
proof -
  have own': "own_inv n es T (\<lambda>P. cnt P (x # L)) w"
    using own by (simp add: of_bool_def add.commute)
  have fresh: "\<not> final (outcome_of w v)" if "x = Do_outcome v oc ex" for v oc ex
    using owner_facts(2) [OF own, of v] x that by simp
  have "unat (report_count oc (gs_report (gw_state (exec_world inp x w)))) +
      after (\<lambda>P. cnt P L) (next_instrs inp x w) (reports_state oc) =
      after (\<lambda>P. cnt P L) (next_instrs inp x w) (stores_state oc) + card (ended_with n (exec_world inp x w) oc)"
    if oc: "final oc" for oc
  proof -
    have eq: "unat (report_count oc (gs_report (gw_state w))) + cnt (reports_state oc) L + of_bool (reports_state oc x) =
        cnt (stores_state oc) L + of_bool (stores_state oc x) + card (ended_with n w oc)"
      using i oc unfolding report_inv_def by (auto simp: add.assoc)
    have "\<forall>y \<in> set (x # L). proper n y" using x L by simp
    from stores_bound [OF own' this oc]
    have le: "cnt (stores_state oc) L + of_bool (stores_state oc x) + card (ended_with n w oc) \<le> n"
      by (simp add: of_bool_def split: if_splits)
    have e': "card (ended_with n (exec_world inp x w) oc) = card (ended_with n w oc) + of_bool (stores_state oc x)"
      by (rule ended_with_exec [OF st x _ oc]) (rule fresh)
    note s' = exec_state_world(2) [OF proper_plain [OF x] graph_staticD(1) [OF st], where inp = inp]
    show ?thesis
    proof (cases x)
      case (Do_report v oc' ex)
      have "unat (report_count oc (gs_report (gw_state w)) + 1) = unat (report_count oc (gs_report (gw_state w))) + 1" if "oc = oc'"
      proof -
        have "unat (report_count oc (gs_report (gw_state w))) < n"
          using eq le Do_report that by simp
        then have "report_count oc (gs_report (gw_state w)) \<noteq> u64_max"
          using graph_staticD(2) [OF st] by auto
        then show ?thesis by (simp add: unat_inc)
      qed
      with Do_report eq e' s' x show ?thesis
        by (auto simp: report_count_node)
    next
      case (Do_trigger u)
      with eq e' s' x show ?thesis by (simp add: cnt_successors [OF st])
    qed (use eq e' s' oc x in \<open>auto simp: of_bool_def split: if_splits\<close>)
  qed
  then show ?thesis by (simp add: report_inv_def)
qed

section \<open>The number of nodes not yet ended\<close>

definition ended :: "nat \<Rightarrow> graph_world \<Rightarrow> nat set" where
  "ended n w = {v \<in> {1..n}. final (outcome_of w v)}"

lemma finite_ended [simp]: "finite (ended n w)"
  by (simp add: ended_def)

lemma ended_exec:
  assumes st: "graph_static n es w" and x: "proper n x" and fresh: "\<And>v oc ex. x = Do_outcome v oc ex \<Longrightarrow> \<not> final (outcome_of w v)"
  shows "card (ended n (exec_world inp x w)) = card (ended n w) + of_bool (any_outcome x)"
proof -
  note w' = exec_entry_world(1) [OF proper_plain [OF x] graph_staticD(1) [OF st], of inp]
  show ?thesis
  proof (cases "any_outcome x")
    case True
    then obtain u oc' ex where u: "x = Do_outcome u oc' ex" by (cases x) auto
    have "ended n (exec_world inp x w) = insert u (ended n w)"
      using x u w' [unfolded u] by (auto simp: ended_def)
    moreover have "u \<notin> ended n w" using fresh [OF u] by (simp add: ended_def)
    ultimately show ?thesis using u by simp
  next
    case False
    then have "stored_outcome x v (outcome_of w v) = outcome_of w v" for v
      by (cases x; simp)
    then show ?thesis using False by (simp add: ended_def w')
  qed
qed

definition count_inv :: "nat \<Rightarrow> ((instr \<Rightarrow> bool) \<Rightarrow> nat) \<Rightarrow> graph_world \<Rightarrow> bool" where
  "count_inv n p w \<longleftrightarrow>
     unat (gs_remaining (gw_state w)) + card (ended n w) + p any_outcome = n + p (\<lambda>x. x = Do_count)"

lemma fresh_outcome:
  assumes "own_inv n es T (before q x) w" and "proper n x" and "x = Do_outcome v oc ex"
  shows "\<not> final (outcome_of w v)"
  using owner_facts(2) [OF assms(1), of v] assms(2,3) by simp

lemma count_exec:
  assumes st: "graph_static n es w" and x: "proper n x" and L: "\<forall>x \<in> set L. proper n x"
    and own: "own_inv n es T (before (\<lambda>P. cnt P L) x) w"
    and i: "count_inv n (before (\<lambda>P. cnt P L) x) w"
  shows "count_inv n (after (\<lambda>P. cnt P L) (next_instrs inp x w)) (exec_world inp x w)"
    and "x = Do_count \<Longrightarrow> gs_remaining (gw_state w) \<noteq> 0"
proof -
  have own': "own_inv n es T (\<lambda>P. cnt P (x # L)) w"
    using own by (simp add: of_bool_def add.commute)
  have "\<forall>y \<in> set (x # L). proper n y" using x L by simp
  from ends_bound [OF own' this]
  have le: "cnt any_outcome L + of_bool (any_outcome x) + card (ended n w) \<le> n"
    by (simp add: ended_def of_bool_def split: if_splits)
  have e': "card (ended n (exec_world inp x w)) = card (ended n w) + of_bool (any_outcome x)"
    by (rule ended_exec [OF st x]) (rule fresh_outcome [OF own x])
  have eq: "unat (gs_remaining (gw_state w)) + card (ended n w) + cnt any_outcome L + of_bool (any_outcome x) =
      n + cnt (\<lambda>x. x = Do_count) L + of_bool (x = Do_count)"
    using i by (simp add: count_inv_def add.assoc)
  note s' = exec_state_world(1) [OF proper_plain [OF x] graph_staticD(1) [OF st], of inp]
  show nz: "x = Do_count \<Longrightarrow> gs_remaining (gw_state w) \<noteq> 0"
    using eq le by auto
  show "count_inv n (after (\<lambda>P. cnt P L) (next_instrs inp x w)) (exec_world inp x w)"
  proof (cases x)
    case Do_count
    then have "unat (gs_remaining (gw_state w) - 1) + 1 = unat (gs_remaining (gw_state w))"
      using nz by (simp add: unat_dec unat_gt_0)
    with Do_count eq e' s' show ?thesis
      by (auto simp: count_inv_def)
  next
    case (Do_trigger u)
    with eq e' s' x show ?thesis by (simp add: cnt_successors [OF st] count_inv_def)
  qed (use eq e' s' x in \<open>auto simp: count_inv_def of_bool_def split: if_splits\<close>)
qed

section \<open>Publishing the result\<close>

definition publish_inv :: "((instr \<Rightarrow> bool) \<Rightarrow> nat) \<Rightarrow> graph_world \<Rightarrow> bool" where
  "publish_inv p w \<longleftrightarrow> p (\<lambda>x. x = Do_publish) + of_bool (gs_run_state (gw_state w) \<noteq> Graph_running) =
     of_bool (gs_remaining (gw_state w) = 0)"

definition result_inv :: "graph_world \<Rightarrow> bool" where
  "result_inv w \<longleftrightarrow> (gs_run_state (gw_state w) \<noteq> Graph_running \<longrightarrow>
     gs_run_state (gw_state w) = final_run_state (gs_report (gw_state w)) \<and>
     sorted (map (node_value \<circ> fst) (gr_exceptions (gs_report (gw_state w)))) \<and>
     gs_callbacks (gw_state w) = [])"

lemma final_run_state_not_running [simp]: "final_run_state r \<noteq> Graph_running"
  by (simp add: final_run_state_def)

lemma final_run_state_sort [simp]: "final_run_state (sort_exceptions r) = final_run_state r"
  by (simp add: final_run_state_def sort_exceptions_def)

lemma publish_exec:
  assumes st: "graph_static n es w" and x: "proper n x"
    and nz: "x = Do_count \<Longrightarrow> gs_remaining (gw_state w) \<noteq> 0"
    and i: "publish_inv (before q x) w"
  shows "publish_inv (after q (next_instrs inp x w)) (exec_world inp x w)"
proof -
  note s' = exec_state_world [OF proper_plain [OF x] graph_staticD(1) [OF st], of inp]
  show ?thesis
  proof (cases x)
    case (Do_trigger u)
    with i s' x show ?thesis by (simp add: cnt_successors [OF st] publish_inv_def)
  qed (use i s' x nz in \<open>auto simp: publish_inv_def of_bool_def split: if_splits\<close>)
qed

lemma result_exec:
  assumes st: "graph_static n es w" and x: "proper n x" and p: "publish_inv (before q x) w"
    and r: "any_report x \<Longrightarrow> gs_remaining (gw_state w) \<noteq> 0" and i: "result_inv w"
  shows "result_inv (exec_world inp x w)"
proof -
  note s' = exec_state_world [OF proper_plain [OF x] graph_staticD(1) [OF st], of inp]
  have run: "gs_run_state (gw_state w) = Graph_running" if "gs_remaining (gw_state w) \<noteq> 0"
    using p that by (auto simp: publish_inv_def of_bool_def split: if_splits)
  have srt: "sorted (map (node_value \<circ> fst) (gr_exceptions (sort_exceptions (gs_report (gw_state w)))))"
    by (simp add: sort_exceptions_def comp_def)
  show ?thesis
    using i s' r run srt by (cases x) (auto simp: result_inv_def)
qed

text \<open>While a report is pending its count is, so the number of nodes not yet ended is not zero.\<close>

lemma report_not_last:
  assumes own: "own_inv n es T (\<lambda>P. cnt P L) w" and L: "\<forall>x \<in> set L. proper n x"
    and c: "count_inv n (\<lambda>P. cnt P L) w" and le: "cnt any_report L \<le> cnt (\<lambda>x. x = Do_count) L"
    and x: "x \<in> set L" "any_report x"
  shows "gs_remaining (gw_state w) \<noteq> 0"
proof -
  have "0 < cnt any_report L" using x by (auto simp: cnt_pos)
  moreover have "cnt any_outcome L + card (ended n w) \<le> n"
    using ends_bound [OF own L] by (simp add: ended_def)
  ultimately show ?thesis
    using c le by (auto simp: count_inv_def)
qed

end
