(* ===== verification/Graph_Protocol.thy ===== *)
theory Graph_Protocol
  imports Graph_Counts
begin

text \<open>
  The remaining parts of the invariant of a graph run: completion callbacks, admission slots, failures
  passed along the edges and bodies executed, each kept by one instruction of a thread.
\<close>

section \<open>Completion callbacks\<close>

definition calls_inv :: "(nat \<Rightarrow> nat) \<Rightarrow> ((instr \<Rightarrow> bool) \<Rightarrow> nat) \<Rightarrow> graph_world \<Rightarrow> bool" where
  "calls_inv R p w \<longleftrightarrow> (\<forall>c. cnt (\<lambda>d. d = c) (gw_called w) + p (\<lambda>x. x = Do_call (Some c)) +
     cnt (\<lambda>d. d = Some c) (gs_callbacks (gw_state w)) = R c)"

lemma calls_exec:
  assumes st: "graph_static n es w" and x: "proper n x" and i: "calls_inv R (before q x) w"
  shows "calls_inv R (after q (next_instrs inp x w)) (exec_world inp x w)"
proof -
  note s' = exec_state_world [OF proper_plain [OF x] graph_staticD(1) [OF st], of inp]
  show ?thesis
  proof (cases x)
    case (Do_trigger u)
    with i s' x show ?thesis by (simp add: cnt_successors [OF st] calls_inv_def)
  next
    case (Do_call cb)
    with i s' show ?thesis by (cases cb) (auto simp: calls_inv_def add_ac of_bool_def split: if_splits)
  qed (use i s' x in \<open>auto simp: calls_inv_def add_ac split: if_splits\<close>)
qed

section \<open>Failures passed along the edges\<close>

definition failing_pred :: "edge_triple list \<Rightarrow> nat set \<Rightarrow> graph_world \<Rightarrow> nat \<Rightarrow> bool" where
  "failing_pred es T w v \<longleftrightarrow>
     (\<exists>e \<in> set es. e_to e = v \<and> e_policy e = RequireSuccess \<and> e_from e \<in> T \<and> outcome_of w (e_from e) \<noteq> Succeeded)"

definition fail_inv :: "nat \<Rightarrow> edge_triple list \<Rightarrow> nat set \<Rightarrow> ((instr \<Rightarrow> bool) \<Rightarrow> nat) \<Rightarrow> graph_world \<Rightarrow> bool" where
  "fail_inv n es T p w \<longleftrightarrow> (\<forall>v \<in> {1..n}.
     (ne_required_failed (entry_of w v) \<or> 0 < p (failing_edge v)) = failing_pred es T w v)"

lemma fail_exec:
  assumes st: "graph_static n es w" and x: "proper n x"
    and own: "own_inv n es T (before q x) w" and t: "trigger_inv n T (before q x) w"
    and le: "\<And>v. before q x (stores v) \<le> before q x (triggers v)"
    and i: "fail_inv n es T (before q x) w"
  shows "fail_inv n es (through x T) (after q (next_instrs inp x w)) (exec_world inp x w)"
proof -
  note w' = exec_entry_world [OF proper_plain [OF x] graph_staticD(1) [OF st], of inp]
  have "(ne_required_failed (entry_of (exec_world inp x w) v) \<or> 0 < after q (next_instrs inp x w) (failing_edge v)) =
      failing_pred es (through x T) (exec_world inp x w) v" if v: "v \<in> {1..n}" for v
  proof -
    have iv: "(ne_required_failed (entry_of w v) \<or> 0 < q (failing_edge v) \<or> failing_edge v x) = failing_pred es T w v"
      using i v by (auto simp: fail_inv_def of_bool_def split: if_splits)
    show ?thesis
    proof (cases x)
      case (Do_trigger u)
      then have "u \<in> {1..n}" using x by simp
      then have "0 < cnt (failing_edge v) (next_instrs inp x w) \<longleftrightarrow>
          (\<exists>e \<in> set es. e_to e = v \<and> e_policy e = RequireSuccess \<and> e_from e = u \<and> outcome_of w u \<noteq> Succeeded)"
        using Do_trigger by (auto simp: cnt_successors [OF st] cnt_pos)
      then show ?thesis
        using iv Do_trigger w' by (auto simp: failing_pred_def)
    next
      case (Do_outcome u oc ex)
      have "\<not> final (outcome_of w u)" "u \<in> {1..n}"
        using fresh_outcome [OF own x Do_outcome] x Do_outcome by simp_all
      then have "of_bool (u \<in> T) + before q x (triggers u) = before q x (stores u)"
        using t by (auto simp: trigger_inv_def)
      then have "u \<notin> T" using le [of u] by (auto simp: of_bool_def split: if_splits)
      then have "failing_pred es T (exec_world inp x w) v = failing_pred es T w v"
        using Do_outcome w'(1) unfolding failing_pred_def by (intro bex_cong) auto
      then show ?thesis using iv Do_outcome w' by simp
    next
      case (Do_edge oc s pol)
      have "failing_pred es T (exec_world inp x w) v = failing_pred es T w v"
        using Do_edge w'(1) by (simp add: failing_pred_def)
      then show ?thesis using iv Do_edge w' by auto
    qed (use iv w' in \<open>auto simp: failing_pred_def\<close>)
  qed
  then show ?thesis by (simp add: fail_inv_def)
qed

section \<open>Bodies\<close>

text \<open>\<open>B v\<close> is how often the body of \<open>v\<close> has been executed.\<close>

definition clear_inv :: "nat \<Rightarrow> edge_triple list \<Rightarrow> nat set \<Rightarrow> (nat \<Rightarrow> nat) \<Rightarrow> ((instr \<Rightarrow> bool) \<Rightarrow> nat) \<Rightarrow> graph_world \<Rightarrow> bool" where
  "clear_inv n es T B p w \<longleftrightarrow> (\<forall>v \<in> {1..n}. 0 < p (cleared v) \<or> Node_task v \<in> set (gw_posted w) \<or> 0 < B v \<longrightarrow>
     \<not> ne_required_failed (entry_of w v) \<and> open_deps es T p v = 0)"

abbreviation bodies :: "instr \<Rightarrow> (nat \<Rightarrow> nat) \<Rightarrow> nat \<Rightarrow> nat" where
  "bodies x B \<equiv> (\<lambda>v. B v + of_bool (x = Do_body v))"

lemma clear_exec:
  assumes st: "graph_static n es w" and x: "proper n x" and T: "\<And>u. x = Do_trigger u \<Longrightarrow> u \<notin> T"
    and own: "own_inv n es T (before q x) w" and i: "clear_inv n es T B (before q x) w"
  shows "clear_inv n es (through x T) (bodies x B) (after q (next_instrs inp x w)) (exec_world inp x w)"
proof -
  note w' = exec_entry_world [OF proper_plain [OF x] graph_staticD(1) [OF st], of inp]
  have "\<not> ne_required_failed (entry_of (exec_world inp x w) v) \<and>
      open_deps es (through x T) (after q (next_instrs inp x w)) v = 0"
    if v: "v \<in> {1..n}" and prem: "0 < after q (next_instrs inp x w) (cleared v) \<or>
      Node_task v \<in> set (gw_posted (exec_world inp x w)) \<or> 0 < bodies x B v" for v
  proof -
    define d1 where "d1 = open_deps es T (before q x) v"
    define d2 where "d2 = open_deps es (through x T) (after q (next_instrs inp x w)) v"
    have d12: "d2 + of_bool (x = Do_take v) = d1"
      unfolding d1_def d2_def by (rule open_deps_exec [OF st x T])
    have old: "\<not> ne_required_failed (entry_of w v) \<and> d1 = 0"
      if "0 < q (cleared v) + of_bool (cleared v x) \<or> Node_task v \<in> set (gw_posted w) \<or> 0 < B v"
      using i v that unfolding clear_inv_def d1_def by blast
    have fe: "\<not> failing_edge v x" if "d1 = 0"
      using that by (cases x) (auto simp: d1_def open_deps_def)
    have dec: "d1 = 0" if "x = Do_decide v"
      using owner_facts(3) [OF own v] that by (simp add: d1_def)
    have "\<not> ne_required_failed (entry_of w v) \<and> d1 = 0"
    proof (cases x)
      case (Do_trigger u)
      with prem x w' old show ?thesis by (auto simp: cnt_successors [OF st])
    next
      case (Do_decide u)
      with prem x w' old dec show ?thesis by (auto split: if_splits)
    qed (use prem w' old in \<open>auto simp: of_bool_def split: if_splits\<close>)
    with d12 fe w'(3) [of v] show ?thesis
      unfolding d2_def [symmetric] by auto
  qed
  then show ?thesis by (simp add: clear_inv_def)
qed

definition body_inv :: "nat \<Rightarrow> edge_triple list \<Rightarrow> nat set \<Rightarrow> (nat \<Rightarrow> nat) \<Rightarrow> ((instr \<Rightarrow> bool) \<Rightarrow> nat) \<Rightarrow> graph_world \<Rightarrow> bool" where
  "body_inv n es T B p w \<longleftrightarrow> (\<forall>v \<in> {1..n}.
     B v + p (before_body v) + cnt (\<lambda>t. t = Node_task v) (gw_posted w) \<le> of_bool (open_deps es T p v = 0))"

lemma body_exec:
  assumes st: "graph_static n es w" and x: "proper n x" and T: "\<And>u. x = Do_trigger u \<Longrightarrow> u \<notin> T"
    and d: "deps_inv n es T (before q x) w" and i: "body_inv n es T B (before q x) w"
  shows "body_inv n es (through x T) (bodies x B) (after q (next_instrs inp x w)) (exec_world inp x w)"
proof -
  note w' = exec_entry_world [OF proper_plain [OF x] graph_staticD(1) [OF st], of inp]
  have "bodies x B v + after q (next_instrs inp x w) (before_body v) +
      cnt (\<lambda>t. t = Node_task v) (gw_posted (exec_world inp x w)) \<le>
      of_bool (open_deps es (through x T) (after q (next_instrs inp x w)) v = 0)" if v: "v \<in> {1..n}" for v
  proof -
    define d1 where "d1 = open_deps es T (before q x) v"
    define d2 where "d2 = open_deps es (through x T) (after q (next_instrs inp x w)) v"
    have d12: "d2 + of_bool (x = Do_take v) = d1"
      unfolding d1_def d2_def by (rule open_deps_exec [OF st x T])
    have b: "B v + (q (before_body v) + of_bool (before_body v x)) + cnt (\<lambda>t. t = Node_task v) (gw_posted w) \<le> of_bool (d1 = 0)"
      using i v unfolding body_inv_def d1_def by blast
    have last: "ne_remaining (entry_of w v) = 1 \<longleftrightarrow> d1 = 1"
      unfolding d1_def by (rule last_dependency [OF st d v])
    show ?thesis
      unfolding d2_def [symmetric]
      using b d12 last w'(4) x
      by (cases x) (auto simp: of_bool_def cnt_successors [OF st] split: if_splits)
  qed
  then show ?thesis by (simp add: body_inv_def)
qed

fun returns_of :: "nat \<Rightarrow> instr \<Rightarrow> bool" where
  "returns_of v (Do_outcome u oc ex) = (u = v \<and> oc \<noteq> Cancelled)"
| "returns_of v _ = False"

definition ran_inv :: "nat \<Rightarrow> (nat \<Rightarrow> nat) \<Rightarrow> ((instr \<Rightarrow> bool) \<Rightarrow> nat) \<Rightarrow> graph_world \<Rightarrow> bool" where
  "ran_inv n B p w \<longleftrightarrow> (\<forall>v \<in> {1..n}. 0 < p (returns_of v) \<or> outcome_of w v = Succeeded \<or> outcome_of w v = Failed \<longrightarrow> 0 < B v)"

lemma ran_exec:
  assumes st: "graph_static n es w" and x: "proper n x" and i: "ran_inv n B (before q x) w"
  shows "ran_inv n (bodies x B) (after q (next_instrs inp x w)) (exec_world inp x w)"
proof -
  note w' = exec_entry_world [OF proper_plain [OF x] graph_staticD(1) [OF st], of inp]
  have "0 < bodies x B v"
    if v: "v \<in> {1..n}" and prem: "0 < after q (next_instrs inp x w) (returns_of v) \<or>
      outcome_of (exec_world inp x w) v = Succeeded \<or> outcome_of (exec_world inp x w) v = Failed" for v
  proof -
    have old: "0 < B v" if "0 < q (returns_of v) \<or> returns_of v x \<or> outcome_of w v = Succeeded \<or> outcome_of w v = Failed"
      using i v that by (auto simp: ran_inv_def of_bool_def split: if_splits)
    show ?thesis
    proof (cases x)
      case (Do_trigger u)
      with prem x w' old show ?thesis by (auto simp: cnt_successors [OF st])
    qed (use prem w' old x in \<open>auto simp: of_bool_def split: if_splits\<close>)
  qed
  then show ?thesis by (simp add: ran_inv_def)
qed

section \<open>Admission slots\<close>

text \<open>Every node holds a slot until its task is taken from the ready queues or the node is skipped.\<close>

fun at_gate :: "instr \<Rightarrow> bool" where
  "at_gate (Do_post v) = True"
| "at_gate (Do_decide v) = True"
| "at_gate _ = False"

definition slots_inv :: "nat \<Rightarrow> edge_triple list \<Rightarrow> nat set \<Rightarrow> nat \<Rightarrow> ((instr \<Rightarrow> bool) \<Rightarrow> nat) \<Rightarrow> graph_world \<Rightarrow> bool" where
  "slots_inv n es T k p w \<longleftrightarrow>
     (if gw_internal w then gw_released w = 0
      else gw_released w + k + p at_gate + length (gw_posted w) + card {v \<in> {1..n}. open_deps es T p v \<noteq> 0} = n)"

lemma exec_released:
  assumes "is_plain x" and "no_coroutines w"
  shows "gw_released (exec_world inp x w) = gw_released w +
    of_bool (\<not> gw_internal w \<and> (\<exists>v. x = Do_decide v \<and> (ne_required_failed (entry_of w v) \<or> gs_cancel_requested (gw_state w))))"
  using assms
  by (cases x; simp add: exec_simps post_node_def Let_def del: graph_exec.simps(9,10) split: option.split)

lemma slots_exec:
  assumes st: "graph_static n es w" and x: "proper n x" and T: "\<And>u. x = Do_trigger u \<Longrightarrow> u \<notin> T"
    and d: "deps_inv n es T (before q x) w" and i: "slots_inv n es T k (before q x) w"
  shows "slots_inv n es (through x T) k (after q (next_instrs inp x w)) (exec_world inp x w)"
proof -
  let ?p = "before q x" and ?p' = "after q (next_instrs inp x w)"
  note w' = exec_entry_world(4) [OF proper_plain [OF x] graph_staticD(1) [OF st], of inp]
    exec_released [OF proper_plain [OF x] graph_staticD(1) [OF st], of inp]
    exec_frame_world(4) [OF proper_plain [OF x] graph_staticD(1) [OF st], of inp]
  define D where "D = {v \<in> {1..n}. open_deps es T ?p v \<noteq> 0}"
  define D' where "D' = {v \<in> {1..n}. open_deps es (through x T) ?p' v \<noteq> 0}"
  have e: "open_deps es (through x T) ?p' v + of_bool (x = Do_take v) = open_deps es T ?p v" for v
    by (rule open_deps_exec [OF st x T])
  have last: "ne_remaining (entry_of w v) = 1 \<longleftrightarrow> open_deps es T ?p v = 1" if "v \<in> {1..n}" for v
    by (rule last_dependency [OF st d that])
  have fin: "finite D" by (simp add: D_def)
  have card: "card D' + of_bool (\<exists>v. x = Do_take v \<and> ne_remaining (entry_of w v) = 1) = card D"
  proof (cases "\<exists>v. x = Do_take v \<and> ne_remaining (entry_of w v) = 1")
    case True
    then obtain u where u: "x = Do_take u" "ne_remaining (entry_of w u) = 1" by blast
    then have un: "u \<in> {1..n}" using x by simp
    have one: "open_deps es T ?p u = 1"
      using last [OF un] u(2) by blast
    then have "open_deps es (through x T) ?p' u = 0"
      using e [of u] u(1) by simp
    moreover have "open_deps es (through x T) ?p' v = open_deps es T ?p v" if "v \<noteq> u" for v
      using e [of v] u(1) that by simp
    ultimately have "v \<in> D' \<longleftrightarrow> v \<in> D - {u}" for v
      unfolding D_def D'_def by (cases "v = u") simp_all
    then have "D' = D - {u}" by blast
    moreover have "u \<in> D"
      using one un unfolding D_def by simp
    ultimately have "Suc (card D') = card D"
      using card_Suc_Diff1 [OF fin] by simp
    moreover have "of_bool (\<exists>v. x = Do_take v \<and> ne_remaining (entry_of w v) = 1) = (1::nat)"
      using True by (simp only: of_bool_eq)
    ultimately show ?thesis by linarith
  next
    case False
    have z: "open_deps es (through x T) ?p' v = 0 \<longleftrightarrow> open_deps es T ?p v = 0" if v: "v \<in> {1..n}" for v
    proof (cases "x = Do_take v")
      case True
      then have "open_deps es T ?p v \<noteq> 1" "open_deps es T ?p v \<noteq> 0"
        using False last [OF v] e [of v] by auto
      then show ?thesis using e [of v] True by simp
    next
      case f: False
      then show ?thesis using e [of v] by simp
    qed
    have "v \<in> D' \<longleftrightarrow> v \<in> D" for v
      using z [of v] unfolding D_def D'_def mem_Collect_eq by argo
    then have "D' = D" by blast
    moreover have "of_bool (\<exists>v. x = Do_take v \<and> ne_remaining (entry_of w v) = 1) = (0::nat)"
      using False by (simp only: of_bool_eq)
    ultimately show ?thesis by (simp only: add_0_right)
  qed
  have i': "if gw_internal w then gw_released w = 0
      else gw_released w + k + (q at_gate + of_bool (at_gate x)) + length (gw_posted w) + card D = n"
    using i unfolding slots_inv_def D_def .
  have "if gw_internal (exec_world inp x w) then gw_released (exec_world inp x w) = 0
      else gw_released (exec_world inp x w) + k + ?p' at_gate + length (gw_posted (exec_world inp x w)) + card D' = n"
    using i' card w' x by (cases x) (auto simp: of_bool_def cnt_successors [OF st] split: if_splits)
  then show ?thesis
    unfolding slots_inv_def D'_def .
qed

end
