(* ===== verification/Graph_Reach.thy ===== *)
theory Graph_Reach
  imports Graph_Protocol
begin

text \<open>
  The invariant of a graph run put together over the history of a run, and its preservation by every
  step of \<open>graph_step\<close>.
\<close>

section \<open>The invariant\<close>

definition gone_through :: "graph_label list \<Rightarrow> nat set" where
  "gone_through tr = {v. Executed (Do_trigger v) \<in> set tr}"

definition body_count :: "graph_label list \<Rightarrow> nat \<Rightarrow> nat" where
  "body_count tr v = cnt (\<lambda>l. l = Executed (Do_body v)) tr"

definition registrations :: "graph_label list \<Rightarrow> nat \<Rightarrow> nat" where
  "registrations tr c = cnt (\<lambda>l. l = Registered (Some c)) tr"

definition tasks_taken :: "graph_label list \<Rightarrow> nat" where
  "tasks_taken tr = cnt (\<lambda>l. \<exists>v. l = Taken (Node_task v)) tr"

lemma history_nil [simp]:
  "gone_through [] = {}" "body_count [] v = 0" "registrations [] c = 0" "tasks_taken [] = 0"
  by (simp_all add: gone_through_def body_count_def registrations_def tasks_taken_def)

lemma history_executed [simp]:
  "gone_through (tr @ [Executed x]) = through x (gone_through tr)"
  "body_count (tr @ [Executed x]) = bodies x (body_count tr)"
  "registrations (tr @ [Executed x]) = registrations tr" "tasks_taken (tr @ [Executed x]) = tasks_taken tr"
  by (auto simp: gone_through_def body_count_def registrations_def tasks_taken_def of_bool_def split: instr.split)

lemma history_other [simp]:
  "\<forall>x. l \<noteq> Executed x \<Longrightarrow> gone_through (tr @ [l]) = gone_through tr"
  "\<forall>x. l \<noteq> Executed x \<Longrightarrow> body_count (tr @ [l]) = body_count tr"
  by (auto simp: gone_through_def body_count_def)

definition threads_inv :: "nat \<Rightarrow> instr list list \<Rightarrow> graph_world \<Rightarrow> bool" where
  "threads_inv n ts w \<longleftrightarrow> (\<forall>xs \<in> set ts. in_order xs \<and> (\<forall>x \<in> set xs. proper n x)) \<and>
     (\<forall>t \<in> set (gw_posted w). \<exists>v \<in> {1..n}. t = Node_task v)"

definition graph_inv :: "nat \<Rightarrow> edge_triple list \<Rightarrow> graph_label list \<Rightarrow> instr list list \<times> graph_world \<Rightarrow> bool" where
  "graph_inv n es tr = (\<lambda>(ts, w).
     graph_static n es w \<and> threads_inv n ts w \<and>
     deps_inv n es (gone_through tr) (pending ts) w \<and>
     own_inv n es (gone_through tr) (pending ts) w \<and>
     trigger_inv n (gone_through tr) (pending ts) w \<and>
     report_inv n (pending ts) w \<and> count_inv n (pending ts) w \<and>
     publish_inv (pending ts) w \<and> result_inv w \<and>
     calls_inv (registrations tr) (pending ts) w \<and>
     fail_inv n es (gone_through tr) (pending ts) w \<and>
     clear_inv n es (gone_through tr) (body_count tr) (pending ts) w \<and>
     body_inv n es (gone_through tr) (body_count tr) (pending ts) w \<and>
     ran_inv n (body_count tr) (pending ts) w \<and>
     slots_inv n es (gone_through tr) (tasks_taken tr) (pending ts) w)"

lemma graph_invD:
  assumes "graph_inv n es tr (ts, w)"
  shows "graph_static n es w" "threads_inv n ts w"
    "deps_inv n es (gone_through tr) (pending ts) w"
    "own_inv n es (gone_through tr) (pending ts) w"
    "trigger_inv n (gone_through tr) (pending ts) w"
    "report_inv n (pending ts) w" "count_inv n (pending ts) w"
    "publish_inv (pending ts) w" "result_inv w"
    "calls_inv (registrations tr) (pending ts) w"
    "fail_inv n es (gone_through tr) (pending ts) w"
    "clear_inv n es (gone_through tr) (body_count tr) (pending ts) w"
    "body_inv n es (gone_through tr) (body_count tr) (pending ts) w"
    "ran_inv n (body_count tr) (pending ts) w"
    "slots_inv n es (gone_through tr) (tasks_taken tr) (pending ts) w"
  using assms unfolding graph_inv_def by simp_all

section \<open>A thread's step\<close>

lemma proper_next:
  assumes "graph_static n es w" and "proper n x" and "y \<in> set (next_instrs inp x w)"
  shows "proper n y"
proof (cases x)
  case (Do_trigger u)
  then have u: "u \<in> {1..n}" using assms(2) by simp
  have "cnt (\<lambda>y. \<not> proper n y) (next_instrs inp x w) = 0"
    using graph_staticD(6) [OF assms(1)] Do_trigger u
    by (auto simp: cnt_successors [OF assms(1)] cnt_eq_0)
  with assms(3) show ?thesis by (auto simp: cnt_eq_0)
qed (use assms in \<open>auto simp: finish_node_def split: if_splits\<close>)

lemma in_order_next:
  "is_plain x \<Longrightarrow> in_order (x # xs) \<Longrightarrow> in_order (next_instrs inp x w @ xs)"
  by (cases x) auto

lemma threads_exec:
  assumes st: "graph_static n es w" and t: "threads_inv n ts w" and i: "i < length ts" "ts ! i = x # xs"
  shows "threads_inv n (ts[i := next_instrs inp x w @ xs]) (exec_world inp x w)" and "proper n x"
    and "threads_inv n (ts[i := xs]) w"
proof -
  have mem: "x # xs \<in> set ts"
    using i nth_mem by metis
  then have ord: "in_order (x # xs)" and prp: "\<forall>y \<in> set (x # xs). proper n y"
    using t unfolding threads_inv_def by blast+
  show px: "proper n x" using prp by simp
  note pl = proper_plain [OF px]
  have posted: "\<exists>v \<in> {1..n}. t = Node_task v" if "t \<in> set (gw_posted (exec_world inp x w))" for t
  proof -
    have "t \<in> set (gw_posted w) \<or> t \<in> set (posted_by x w)"
      using that exec_entry_world(4) [OF pl graph_staticD(1) [OF st], of inp] by simp
    moreover have "\<exists>v \<in> {1..n}. t = Node_task v" if "t \<in> set (posted_by x w)"
      using that px by (cases x) (auto split: if_splits)
    moreover have "\<exists>v \<in> {1..n}. t = Node_task v" if "t \<in> set (gw_posted w)"
      using that t unfolding threads_inv_def by blast
    ultimately show ?thesis by blast
  qed
  moreover have "in_order (next_instrs inp x w @ xs)"
    by (rule in_order_next [OF pl ord])
  moreover have "\<forall>y \<in> set (next_instrs inp x w @ xs). proper n y"
    using proper_next [OF st px] prp by auto
  ultimately show "threads_inv n (ts[i := next_instrs inp x w @ xs]) (exec_world inp x w)"
    using t set_update_subset_insert [of ts i "next_instrs inp x w @ xs"]
    unfolding threads_inv_def by blast
  have "in_order xs" "\<forall>y \<in> set xs. proper n y"
    using in_order_tail [OF ord] prp by simp_all
  then show "threads_inv n (ts[i := xs]) w"
    using t set_update_subset_insert [of ts i xs] unfolding threads_inv_def by blast
qed

lemma thread_step:
  assumes inv: "graph_inv n es tr (ts, w)" and i: "i < length ts" "ts ! i = x # xs"
    and e: "graph_exec inp x w = (ys, w')"
  shows "graph_inv n es (tr @ [Executed x]) (ts[i := ys @ xs], w')"
proof -
  note I = graph_invD [OF inv]
  note th = threads_exec [OF I(1,2) i]
  note px = th(2)
  have e': "ys = next_instrs inp x w" "w' = exec_world inp x w"
    using e exec_plain [OF proper_plain [OF px] graph_staticD(1) [OF I(1)], of inp] by simp_all
  define L where "L = concat (ts[i := xs])"
  have pb: "pending ts = before (\<lambda>P. cnt P L) x"
    using pending_step [OF i, of "[]"] by (auto simp: fun_eq_iff pending_def L_def of_bool_def split: if_splits)
  have pa: "pending (ts[i := ys @ xs]) = after (\<lambda>P. cnt P L) (next_instrs inp x w)"
  proof
    fix P
    show "pending (ts[i := ys @ xs]) P = after (\<lambda>P. cnt P L) (next_instrs inp x w) P"
      using pending_step [OF i, of ys P] pending_step [OF i, of "[]" P] e'(1) by (simp add: pending_def L_def)
  qed
  have L: "\<forall>y \<in> set L. proper n y" "\<forall>ys \<in> set (ts[i := xs]). in_order ys"
    using th(3) by (auto simp: L_def threads_inv_def)
  have ord: "\<forall>xs \<in> set ts. in_order xs"
    using I(2) by (simp add: threads_inv_def)
  have le: "cnt (stores v) L \<le> cnt (triggers v) L" for v
    using pending_stores [OF L(2), of v] by (simp add: pending_def L_def)
  have le2: "before (\<lambda>P. cnt P L) x (stores v) \<le> before (\<lambda>P. cnt P L) x (triggers v)" for v
    using pending_stores [OF ord, of v] unfolding pb .
  note J = I [unfolded pb]
  note T = trigger_exec [OF J(1) px J(4,5) le]
  have nz: "gs_remaining (gw_state w) \<noteq> 0" if "any_report x"
  proof -
    have px': "pending ts = (\<lambda>P. cnt P (x # L))"
      unfolding pb by (auto simp: of_bool_def)
    have "cnt any_report (x # L) \<le> cnt (\<lambda>x. x = Do_count) (x # L)"
      using pending_reports [OF ord] unfolding px' .
    then show ?thesis
      using report_not_last [OF I(4) [unfolded px'] _ I(7) [unfolded px'], of x] L(1) px that by simp
  qed
  show ?thesis
    unfolding graph_inv_def prod.case history_executed pa e'(2)
    using static_exec [OF proper_plain [OF px] J(1)] th(1) [folded e'(1)]
      deps_exec [OF J(1) px T(2) J(3)] own_exec [OF J(1) px T(2) J(3,4)] T(1)
      report_exec [OF J(1) px L(1) J(4) J(6)] count_exec [OF J(1) px L(1) J(4) J(7)]
      publish_exec [OF J(1) px count_exec(2) [OF J(1) px L(1) J(4) J(7)] J(8)]
      result_exec [OF J(1) px J(8) nz J(9)] calls_exec [OF J(1) px J(10)]
      fail_exec [OF J(1) px J(4,5) le2 J(11)] clear_exec [OF J(1) px T(2) J(4) J(12)]
      body_exec [OF J(1) px T(2) J(3) J(13)] ran_exec [OF J(1) px J(14)]
      slots_exec [OF J(1) px T(2) J(3) J(15)]
    by (intro conjI) (simp_all only: e'(1))
qed

section \<open>The other steps\<close>

lemma cnt_remove1: "t \<in> set xs \<Longrightarrow> cnt P (remove1 t xs) + of_bool (P t) = cnt P xs"
  by (induction xs) auto

lemma graph_static_cong:
  "gs_entries (gw_state w') = gs_entries (gw_state w) \<Longrightarrow> gw_suspended w' = gw_suspended w \<Longrightarrow>
   gs_total (gw_state w') = gs_total (gw_state w) \<Longrightarrow> graph_static n es w' = graph_static n es w"
  by (simp add: graph_static_def no_coroutines_def)

lemma open_deps_add:
  "(\<forall>y \<in> set ys. \<not> takes v y) \<Longrightarrow> open_deps es T (pending (ts @ [ys])) v = open_deps es T (pending ts) v"
  by (simp add: open_deps_def cnt_eq_0)

lemma failing_pred_cong:
  "gs_entries (gw_state w') = gs_entries (gw_state w) \<Longrightarrow> failing_pred es T w' v = failing_pred es T w v"
  by (simp add: failing_pred_def)

lemma ended_cong:
  "gs_entries (gw_state w') = gs_entries (gw_state w) \<Longrightarrow> ended n w' = ended n w"
  "gs_entries (gw_state w') = gs_entries (gw_state w) \<Longrightarrow> ended_with n w' oc = ended_with n w oc"
  by (simp_all add: ended_def ended_with_def)

lemma take_step:
  assumes inv: "graph_inv n es tr (ts, w)" and t: "t \<in> set (gw_posted w)"
  shows "graph_inv n es (tr @ [Taken t]) (ts @ [[begin_task t]], w\<lparr>gw_posted := remove1 t (gw_posted w)\<rparr>)"
proof -
  note I = graph_invD [OF inv]
  let ?w = "w\<lparr>gw_posted := remove1 t (gw_posted w)\<rparr>"
  obtain u where u: "u \<in> {1..n}" "t = Node_task u"
    using I(2) t unfolding threads_inv_def by blast
  let ?ts = "ts @ [[Do_start u]]"
  have same: "gs_entries (gw_state ?w) = gs_entries (gw_state w)" by simp
  have d: "open_deps es T (pending ?ts) v = open_deps es T (pending ts) v" for T v
    by (rule open_deps_add) simp
  have c: "cnt (\<lambda>s. s = Node_task v) (remove1 t (gw_posted w)) + of_bool (u = v) = cnt (\<lambda>s. s = Node_task v) (gw_posted w)" for v
    using cnt_remove1 [OF t, of "\<lambda>s. s = Node_task v"] u(2) by simp
  have len: "length (remove1 t (gw_posted w)) + 1 = length (gw_posted w)"
    using t by (metis One_nat_def Suc_pred' add.commute length_pos_if_in_set length_remove1 plus_1_eq_Suc)
  have fr: "gw_posted ?w = remove1 t (gw_posted w)" "gw_state ?w = gw_state w"
    by simp_all
  have m: "s \<in> set (gw_posted w)" if "s \<in> set (remove1 t (gw_posted w))" for s
    using that by (meson set_remove1_subset subsetD)
  have "threads_inv n ?ts ?w"
    using I(2) u(1) m unfolding threads_inv_def by auto
  moreover have "own_inv n es (gone_through tr) (pending ?ts) ?w"
    unfolding own_inv_def d
  proof
    fix v
    assume "v \<in> {1..n}"
    then have "pending ts (owns v) + cnt (\<lambda>t. t = Node_task v) (gw_posted w) + of_bool (final (outcome_of w v)) =
        of_bool (open_deps es (gone_through tr) (pending ts) v = 0)"
      using I(4) unfolding own_inv_def by blast
    moreover have "pending ?ts (owns v) = pending ts (owns v) + of_bool (u = v)" by simp
    ultimately show "pending ?ts (owns v) + cnt (\<lambda>t. t = Node_task v) (gw_posted ?w) + of_bool (final (outcome_of ?w v)) =
        of_bool (open_deps es (gone_through tr) (pending ts) v = 0)"
      unfolding fr using c [of v] by linarith
  qed
  moreover have "clear_inv n es (gone_through tr) (body_count tr) (pending ?ts) ?w"
    using I(12) m t u unfolding clear_inv_def d by (auto split: if_splits)
  moreover have "body_inv n es (gone_through tr) (body_count tr) (pending ?ts) ?w"
    unfolding body_inv_def d
  proof
    fix v
    assume "v \<in> {1..n}"
    then have "body_count tr v + pending ts (before_body v) + cnt (\<lambda>t. t = Node_task v) (gw_posted w) \<le>
        of_bool (open_deps es (gone_through tr) (pending ts) v = 0)"
      using I(13) unfolding body_inv_def by blast
    moreover have "pending ?ts (before_body v) = pending ts (before_body v) + of_bool (u = v)" by simp
    ultimately show "body_count tr v + pending ?ts (before_body v) + cnt (\<lambda>t. t = Node_task v) (gw_posted ?w) \<le>
        of_bool (open_deps es (gone_through tr) (pending ts) v = 0)"
      unfolding fr using c [of v] by linarith
  qed
  moreover have "slots_inv n es (gone_through tr) (Suc (tasks_taken tr)) (pending ?ts) ?w"
    using I(15) len unfolding slots_inv_def d by (auto split: if_splits)
  moreover have "begin_task t = Do_start u" "tasks_taken (tr @ [Taken t]) = Suc (tasks_taken tr)"
    using u(2) by (simp_all add: tasks_taken_def)
  ultimately show ?thesis
    using I unfolding graph_inv_def
    by (simp add: deps_inv_def d trigger_inv_def report_inv_def count_inv_def publish_inv_def result_inv_def
        calls_inv_def fail_inv_def ran_inv_def failing_pred_cong [OF same] ended_cong [OF same] registrations_def
        graph_static_def no_coroutines_def)
qed

lemma cancel_step:
  assumes inv: "graph_inv n es tr (ts, w)"
  shows "graph_inv n es (tr @ [Cancel_requested]) (ts @ [map Do_cancel_node vs], on_state (\<lambda>s. s\<lparr>gs_cancel_requested := True\<rparr>) w)"
proof -
  note I = graph_invD [OF inv]
  let ?w = "on_state (\<lambda>s. s\<lparr>gs_cancel_requested := True\<rparr>) w" and ?ts = "ts @ [map Do_cancel_node vs]"
  have same: "gs_entries (gw_state ?w) = gs_entries (gw_state w)" by (simp add: on_state_def)
  have d: "open_deps es T (pending ?ts) v = open_deps es T (pending ts) v" for T v
    by (rule open_deps_add) auto
  have frame: "gw_posted ?w = gw_posted w" "gw_called ?w = gw_called w" "gw_internal ?w = gw_internal w"
    "gw_released ?w = gw_released w" "gs_report (gw_state ?w) = gs_report (gw_state w)"
    "gs_remaining (gw_state ?w) = gs_remaining (gw_state w)" "gs_run_state (gw_state ?w) = gs_run_state (gw_state w)"
    "gs_callbacks (gw_state ?w) = gs_callbacks (gw_state w)"
    by (simp_all add: on_state_def)
  have "threads_inv n ?ts ?w"
    using I(2) unfolding threads_inv_def frame by auto
  moreover have "graph_static n es ?w"
    using I(1) graph_static_cong [OF same] by (simp add: on_state_def)
  moreover have "slots_inv n es (gone_through tr) (tasks_taken (tr @ [Cancel_requested])) (pending ?ts) ?w"
    using I(15) unfolding slots_inv_def d frame by (simp only: pending_add cnt_map tasks_taken_def cnt_simps at_gate.simps
        cnt_False graph_label.distinct ex_simps if_False add_0_right simp_thms)
  ultimately show ?thesis
    using I unfolding graph_inv_def
    by (simp add: deps_inv_def d own_inv_def trigger_inv_def report_inv_def count_inv_def publish_inv_def result_inv_def
        calls_inv_def fail_inv_def clear_inv_def body_inv_def ran_inv_def cnt_map
        failing_pred_cong [OF same] ended_cong [OF same] same frame registrations_def tasks_taken_def)
qed

lemma register_step:
  assumes inv: "graph_inv n es tr (ts, w)" and r: "graph_add_callback cb (gw_state w) = (calls, s)"
  shows "graph_inv n es (tr @ [Registered cb]) (ts @ [map (Do_call \<circ> Some) calls], w\<lparr>gw_state := s\<rparr>)"
proof -
  note I = graph_invD [OF inv]
  let ?w = "w\<lparr>gw_state := s\<rparr>" and ?ts = "ts @ [map (Do_call \<circ> Some) calls]"
  have same: "gs_entries (gw_state ?w) = gs_entries (gw_state w)"
    using r by (auto simp: graph_add_callback_def split: if_splits)
  have d: "open_deps es T (pending ?ts) v = open_deps es T (pending ts) v" for T v
    by (rule open_deps_add) auto
  have frame: "gs_total s = gs_total (gw_state w)" "gs_report s = gs_report (gw_state w)"
    "gs_remaining s = gs_remaining (gw_state w)" "gs_run_state s = gs_run_state (gw_state w)"
    "gs_entries s = gs_entries (gw_state w)" "gw_internal ?w = gw_internal w" "gw_released ?w = gw_released w"
    "gw_posted ?w = gw_posted w"
    using r by (auto simp: graph_add_callback_def split: if_splits)
  have "threads_inv n ?ts ?w"
    using I(2) unfolding threads_inv_def by auto
  moreover have "graph_static n es ?w"
    using I(1) graph_static_cong [OF same] frame by simp
  moreover have "calls_inv (registrations (tr @ [Registered cb])) (pending ?ts) ?w"
    using I(10) r by (auto simp: calls_inv_def graph_add_callback_def registrations_def cnt_map cnt_def split: if_splits option.splits)
  moreover have "slots_inv n es (gone_through tr) (tasks_taken (tr @ [Registered cb])) (pending ?ts) ?w"
    using I(15) unfolding slots_inv_def d frame by (simp only: pending_add cnt_map tasks_taken_def cnt_simps at_gate.simps
        comp_def cnt_False graph_label.distinct ex_simps if_False add_0_right simp_thms)
  moreover have "result_inv ?w"
  proof -
    have cb: "gs_callbacks s = []" if "gs_run_state (gw_state w) \<noteq> Graph_running"
    proof -
      have "gs_remaining (gw_state w) = 0"
        using I(8) that by (auto simp: publish_inv_def of_bool_def split: if_splits)
      then have "s = gw_state w"
        using r by (simp add: graph_add_callback_def)
      then show ?thesis
        using I(9) that unfolding result_inv_def by blast
    qed
    have "gw_state ?w = s" by simp
    then show ?thesis
      using I(9) cb unfolding result_inv_def frame(2,4) by (simp only: frame) blast
  qed
  moreover have p: "pending ?ts P = pending ts P" if "\<And>c. \<not> P (Do_call c)" for P
    using that by (simp add: cnt_map)
  moreover have "deps_inv n es (gone_through tr) (pending ?ts) ?w" "own_inv n es (gone_through tr) (pending ?ts) ?w"
    using I(3,4) unfolding deps_inv_def own_inv_def d by (simp_all add: p frame del: pending_add)
  moreover have "trigger_inv n (gone_through tr) (pending ?ts) ?w" "report_inv n (pending ?ts) ?w"
    "count_inv n (pending ?ts) ?w" "publish_inv (pending ?ts) ?w"
    using I(5-8) unfolding trigger_inv_def report_inv_def count_inv_def publish_inv_def ended_cong [OF same]
    by (simp_all add: p frame del: pending_add)
  moreover have "fail_inv n es (gone_through tr) (pending ?ts) ?w"
    "clear_inv n es (gone_through tr) (body_count tr) (pending ?ts) ?w"
    using I(11,12) unfolding fail_inv_def clear_inv_def d failing_pred_cong [OF same] by (simp_all add: p frame del: pending_add)
  moreover have "body_inv n es (gone_through tr) (body_count tr) (pending ?ts) ?w"
    "ran_inv n (body_count tr) (pending ?ts) ?w"
    using I(13,14) unfolding body_inv_def ran_inv_def d by (simp_all add: p frame del: pending_add)
  ultimately show ?thesis
    unfolding graph_inv_def by simp
qed

lemma graph_inv_step:
  assumes "graph_step s l s'" and "graph_inv n es tr s"
  shows "graph_inv n es (tr @ [l]) s'"
  using assms
proof (cases rule: graph_step.cases)
  case (Wake v w ts)
  with assms(2) graph_staticD(1) show ?thesis
    by (auto simp: graph_inv_def no_coroutines_def)
next
  case (Cancel ts w)
  with assms(2) show ?thesis by (simp only: cancel_step)
qed (auto intro: thread_step take_step register_step)

lemma graph_inv_trace:
  assumes "graph_trace s tr s'" and "graph_inv n es [] s"
  shows "graph_inv n es tr s'"
  using assms by (induction rule: graph_trace.induct) (auto intro: graph_inv_step)

end
