(* ===== verification/Graph_Start.thy ===== *)
theory Graph_Start
  imports Graph_Reach Graph_Validation
begin

text \<open>
  The state in which a run starts: the nodes and edges of a frozen graph laid out in the entries of the
  run satisfy the invariant of \<open>Graph_Reach\<close>.
\<close>

section \<open>Graphs as the builder makes them\<close>

inductive built :: "TaskGraph \<Rightarrow> bool" where
  Built_empty: "built empty_graph"
| Built_emplace: "built g \<Longrightarrow> built (snd (emplace i g))"
| Built_emplace_with: "built g \<Longrightarrow> emplace_with opts i g = Inr (v, g') \<Longrightarrow> built g'"
| Built_coroutine: "built g \<Longrightarrow> emplace_coroutine c g = Inr (v, g') \<Longrightarrow> built g'"
| Built_coroutine_with: "built g \<Longrightarrow> emplace_coroutine_with opts c g = Inr (v, g') \<Longrightarrow> built g'"
| Built_edge: "built g \<Longrightarrow> built (add_edge u v pol g)"

definition numbered :: "TaskGraph \<Rightarrow> bool" where
  "numbered g \<longleftrightarrow> (\<forall>i < length (tg_nodes g). nd_id (tg_nodes g ! i) = NodeId (of_nat (Suc i)))"

lemma numbered_append: "numbered g \<Longrightarrow> numbered (snd (append_node opts i g))"
  by (auto simp: numbered_def append_node_def Let_def nth_append less_Suc_eq)

lemma numbered_appended: "append_node opts i g = (v, g') \<Longrightarrow> numbered g \<Longrightarrow> numbered g'"
  using numbered_append [of g opts i] by simp

lemma built_numbered: "built g \<Longrightarrow> numbered g"
proof (induction rule: built.induct)
  case (Built_emplace_with g opts i v g')
  then show ?case
    by (auto dest: numbered_appended simp: emplace_with_def split: sum.splits)
next
  case (Built_coroutine g c v g')
  then show ?case
    by (auto dest: numbered_appended simp: emplace_coroutine_def split: option.splits)
next
  case (Built_coroutine_with g opts c v g')
  then show ?case
    by (auto dest: numbered_appended simp: emplace_coroutine_with_def split: option.splits sum.splits)
qed (simp_all add: numbered_append emplace_def, simp_all add: numbered_def empty_graph_def add_edge_def)

definition plain_nodes :: "TaskGraph \<Rightarrow> bool" where
  "plain_nodes g \<longleftrightarrow> (\<forall>d \<in> set (tg_nodes g). \<forall>c. nd_invoker d \<noteq> Coroutine_node c)"

definition edge_triples :: "TaskGraph \<Rightarrow> edge_triple list" where
  "edge_triples g = map (\<lambda>e. (node_number (edge_from e), node_number (edge_to e), edge_policy e)) (tg_edges g)"

section \<open>The entries of the nodes\<close>

lemma materialize_nodes_blank:
  assumes "materialize_nodes rt now gp ds ids f = (Inr f', ids')"
  shows "ne_remaining (f' v) = ne_remaining (f v) \<and> ne_successors (f' v) = ne_successors (f v) \<and>
    ne_required_failed (f' v) = ne_required_failed (f v) \<and> ne_outcome (f' v) = ne_outcome (f v)"
  using assms
  by (induction ds arbitrary: ids f) (auto simp: Let_def split: sum.splits prod.splits if_splits)

lemma materialize_nodes_plain:
  assumes "materialize_nodes rt now gp ds ids f = (Inr f', ids')"
    and "\<forall>v. \<not> is_coroutine_node (f v)" and "\<forall>d \<in> set ds. \<forall>c. nd_invoker d \<noteq> Coroutine_node c"
  shows "\<not> is_coroutine_node (f' v)"
  using assms
proof (induction ds arbitrary: ids f)
  case (Cons d ds)
  let ?u = "node_number (nd_id d)"
  from Cons.prems(1) obtain t prio dl ids1 where
    "materialize_nodes rt now gp ds ids1 (f(?u := (f ?u)\<lparr>ne_id := nd_id d, ne_task := t,
       ne_invoker := Some (nd_invoker d), ne_priority := prio, ne_deadline := dl,
       ne_block := node_block ?u (nd_invoker d) t prio dl now\<rparr>)) = (Inr f', ids')"
    by (auto simp: Let_def split: sum.splits prod.splits)
  moreover have "\<not> is_coroutine_node ((f ?u)\<lparr>ne_id := nd_id d, ne_task := t,
       ne_invoker := Some (nd_invoker d), ne_priority := prio, ne_deadline := dl,
       ne_block := node_block ?u (nd_invoker d) t prio dl now\<rparr>)"
    using Cons.prems(3) by (auto simp: is_coroutine_node_def split: NodeInvoker.split)
  ultimately show ?case
    using Cons.IH Cons.prems(2,3) by simp
qed simp

lemma add_dependency_entry:
  "ne_remaining (add_dependency e f v) = ne_remaining (f v) + (if node_number (edge_to e) = v then 1 else 0)"
  "ne_successors (add_dependency e f v) =
     ne_successors (f v) @ (if node_number (edge_from e) = v then [(edge_to e, edge_policy e)] else [])"
  "ne_required_failed (add_dependency e f v) = ne_required_failed (f v)"
  "ne_outcome (add_dependency e f v) = ne_outcome (f v)"
  "ne_invoker (add_dependency e f v) = ne_invoker (f v)"
  by (auto simp: add_dependency_def Let_def)

lemma materialize_edges_entry:
  "ne_remaining (materialize_edges es f v) = ne_remaining (f v) + of_nat (length (filter (\<lambda>e. node_number (edge_to e) = v) es))"
  "ne_successors (materialize_edges es f v) =
     ne_successors (f v) @ map (\<lambda>e. (edge_to e, edge_policy e)) (filter (\<lambda>e. node_number (edge_from e) = v) es)"
  "ne_required_failed (materialize_edges es f v) = ne_required_failed (f v)"
  "ne_outcome (materialize_edges es f v) = ne_outcome (f v)"
  "ne_invoker (materialize_edges es f v) = ne_invoker (f v)"
  by (induction es arbitrary: f) (auto simp: materialize_edges_def add_dependency_entry)

section \<open>The first state of a run\<close>

text \<open>What a successful call of \<open>graph_run\<close> returns.\<close>

lemma graph_run_state:
  assumes "graph_run th now env p opts g (ids, r) = Some (Inr (ts, w), ids', r')"
    and n: "n = length (tg_nodes g)" "n < 2 ^ 64"
  shows "gw_posted w = [] \<and> gw_suspended w = [] \<and> gw_released w = 0 \<and> gw_called w = [] \<and> gw_process w = p \<and>
    (\<exists>gid. if n = 0 then ts = [] \<and> gw_state w = (new_graph_state gid 0)\<lparr>gs_run_state := Graph_succeeded\<rparr>
      else (\<exists>rt gp ids1 ids2 f. materialize_nodes rt now gp (tg_nodes g) ids1 (\<lambda>_. empty_entry) = (Inr f, ids2) \<and>
        ts = [map Do_post (graph_roots n (materialize_edges (tg_edges g) f))] \<and>
        gw_state w = (new_graph_state gid (of_nat n))\<lparr>gs_entries := materialize_edges (tg_edges g) f\<rparr>))"
proof -
  have z: "(of_nat n :: u64) = 0 \<longleftrightarrow> n = 0" "unat (of_nat n :: u64) = n"
    using n(2) unat_of_nat_u64 [of n] by (auto simp: unat_eq_zero [symmetric])
  from assms(1) show ?thesis
    unfolding graph_run_def Let_def n(1) [symmetric]
    by (auto simp: z new_graph_state_def split: sum.splits option.splits prod.splits if_splits) blast+
qed

section \<open>The invariant holds at the start\<close>

text \<open>A run of a frozen graph of plain nodes, started by a call that was admitted.\<close>

definition started :: "TaskGraph \<Rightarrow> instr list list \<times> graph_world \<Rightarrow> bool" where
  "started g s \<longleftrightarrow> built g \<and> plain_nodes g \<and> freeze g = Some (Inr g) \<and>
     length (tg_nodes g) < 2 ^ 64 \<and> length (tg_edges g) < 2 ^ 64 \<and>
     (\<exists>th now env p opts ids r ids' r'. graph_run th now env p opts g (ids, r) = Some (Inr s, ids', r'))"

lemma edge_triples_range:
  assumes "freeze g = Some (Inr g)" and "e \<in> set (edge_triples g)"
  shows "e_from e \<in> {1..length (tg_nodes g)}" and "e_to e \<in> {1..length (tg_nodes g)}"
proof -
  have "simple_edges g" using freeze_spec [of g] assms(1) by blast
  then show "e_from e \<in> {1..length (tg_nodes g)}" "e_to e \<in> {1..length (tg_nodes g)}"
    using assms(2) by (auto simp: simple_edges_def edge_triples_def edge_relation_def own_node_def)
qed

lemma cnt_triples:
  "cnt (\<lambda>e. e_to e = v) (edge_triples g) = length (filter (\<lambda>e. node_number (edge_to e) = v) (tg_edges g))"
  by (simp add: cnt_def edge_triples_def filter_map o_def)

lemma successors_triples:
  "map (\<lambda>(s, pol). (node_number s, pol)) (map (\<lambda>e. (edge_to e, edge_policy e))
     (filter (\<lambda>e. node_number (edge_from e) = u) (tg_edges g))) =
   map snd (filter (\<lambda>e. e_from e = u) (edge_triples g))"
  by (simp add: edge_triples_def filter_map o_def)

lemma empty_start:
  assumes "gw_state w = (new_graph_state gid 0)\<lparr>gs_run_state := Graph_succeeded\<rparr>" and "gw_posted w = []"
    and "gw_suspended w = []" and "gw_released w = 0" and "gw_called w = []"
  shows "graph_inv 0 [] [] ([], w)"
proof -
  have "graph_static 0 [] w"
    using assms by (simp add: graph_static_def no_coroutines_def new_graph_state_def empty_entry_def is_coroutine_node_def)
  then show ?thesis
    using assms
    by (simp add: graph_inv_def threads_inv_def deps_inv_def own_inv_def trigger_inv_def report_inv_def count_inv_def
        publish_inv_def result_inv_def calls_inv_def fail_inv_def clear_inv_def body_inv_def ran_inv_def slots_inv_def
        pending_def new_graph_state_def ended_def ended_with_def final_run_state_def final_def)
qed

lemma cnt_distinct: "distinct xs \<Longrightarrow> cnt (\<lambda>u. u = v) xs = of_bool (v \<in> set xs)"
  by (induction xs) auto

lemma start_inv:
  assumes n: "n = length (tg_nodes g)" "n < 2 ^ 64" "n \<noteq> 0" and m: "length (tg_edges g) < 2 ^ 64"
    and fr: "freeze g = Some (Inr g)"
    and f: "\<And>v. ne_remaining (f v) = 0" "\<And>v. ne_successors (f v) = []" "\<And>v. \<not> ne_required_failed (f v)"
      "\<And>v. ne_outcome (f v) = Ready" "\<And>v. \<not> is_coroutine_node (f v)"
    and w: "gw_state w = (new_graph_state gid (of_nat n))\<lparr>gs_entries := materialize_edges (tg_edges g) f\<rparr>"
      "gw_posted w = []" "gw_suspended w = []" "gw_released w = 0" "gw_called w = []"
    and ts: "ts = [map Do_post (graph_roots n (materialize_edges (tg_edges g) f))]"
  shows "graph_inv n (edge_triples g) [] (ts, w)"
proof -
  let ?es = "edge_triples g" and ?f1 = "materialize_edges (tg_edges g) f"
  define roots where "roots = graph_roots n ?f1"
  define deg where "deg v = cnt (\<lambda>e. e_to e = v) ?es" for v
  have len: "length ?es < 2 ^ 64" using m by (simp add: edge_triples_def)
  have deg_le: "deg v \<le> length ?es" for v by (simp add: deg_def cnt_def)
  have entry: "ne_remaining (entry_of w v) = of_nat (deg v)" "ne_outcome (entry_of w v) = Ready"
    "\<not> ne_required_failed (entry_of w v)" for v
    using f by (simp_all add: w materialize_edges_entry deg_def cnt_triples)
  have zero: "ne_remaining (?f1 v) = 0 \<longleftrightarrow> deg v = 0" for v
  proof -
    have "unat (of_nat (deg v) :: u64) = deg v"
      by (rule unat_of_nat_u64 [OF le_less_trans [OF deg_le len]])
    then have "(of_nat (deg v) :: u64) = 0 \<longleftrightarrow> deg v = 0"
      unfolding unat_eq_zero [symmetric] by (simp only:)
    then show ?thesis
      using f by (simp add: materialize_edges_entry deg_def cnt_triples)
  qed
  have roots: "distinct roots" "set roots = {v \<in> {1..n}. deg v = 0}"
    by (auto simp: roots_def graph_roots_def zero simp del: upt_Suc)
  have ts': "ts = [map Do_post roots]" by (simp add: ts roots_def)
  have p: "pending ts P = cnt (\<lambda>v. P (Do_post v)) roots" for P
    by (simp add: ts' pending_def cnt_map)
  have pf: "pending ts P = 0" if "\<And>v. \<not> P (Do_post v)" for P
    by (simp add: p that)
  have open0: "open_deps ?es {} (pending ts) v = deg v" for v
    by (simp add: open_deps_def pf deg_def)
  have st: "graph_static n ?es w"
  proof -
    have "no_coroutines w"
      using f w is_coroutine_node_def by (simp add: no_coroutines_def is_coroutine_node_def materialize_edges_entry)
    moreover have "map (\<lambda>(s, pol). (node_number s, pol)) (ne_successors (entry_of w u)) =
        map snd (filter (\<lambda>e. e_from e = u) ?es)" for u
      using f successors_triples [of u g] by (simp add: w materialize_edges_entry)
    ultimately show ?thesis
      using edge_triples_range [OF fr] n len by (simp add: graph_static_def w new_graph_state_def)
  qed
  have th: "threads_inv n ts w"
    using roots(2) by (auto simp: threads_inv_def ts' w)
  have own: "own_inv n ?es {} (pending ts) w"
    using roots by (simp add: own_inv_def open0 p w(2) entry cnt_distinct)
  have none: "ended n w = {}" "ended_with n w oc = {v \<in> {1..n}. oc = Ready}" for oc
    by (auto simp: ended_def ended_with_def entry)
  have "report_inv n (pending ts) w"
    unfolding report_inv_def none
  proof (intro allI impI)
    fix oc assume "final oc"
    then show "unat (report_count oc (gs_report (gw_state w))) + pending ts (reports_state oc) =
        pending ts (stores_state oc) + card {v \<in> {1..n}. oc = Ready}"
      by (cases oc) (simp_all add: pf w new_graph_state_def)
  qed
  moreover have "slots_inv n ?es {} 0 (pending ts) w"
  proof -
    have "length roots = card {v \<in> {1..n}. deg v = 0}"
      using roots distinct_card by metis
    moreover have "card {v \<in> {1..n}. deg v = 0} + card {v \<in> {1..n}. deg v \<noteq> 0} = n"
    proof -
      have "card ({v \<in> {1..n}. deg v = 0} \<union> {v \<in> {1..n}. deg v \<noteq> 0}) =
          card {v \<in> {1..n}. deg v = 0} + card {v \<in> {1..n}. deg v \<noteq> 0}"
        by (rule card_Un_disjoint) auto
      moreover have "{v \<in> {1..n}. deg v = 0} \<union> {v \<in> {1..n}. deg v \<noteq> 0} = {1..n}" by blast
      ultimately show ?thesis by simp
    qed
    moreover have "pending ts at_gate = length roots" by (simp add: p cnt_def)
    ultimately show ?thesis unfolding slots_inv_def open0 w by simp
  qed
  moreover have "fail_inv n ?es {} (pending ts) w"
    by (simp add: fail_inv_def failing_pred_def pf entry)
  moreover have "clear_inv n ?es {} (body_count []) (pending ts) w"
    using roots by (simp add: clear_inv_def open0 p w(2) entry cnt_distinct)
  moreover have "body_inv n ?es {} (body_count []) (pending ts) w"
    using roots by (simp add: body_inv_def open0 p w(2) cnt_distinct)
  moreover have "publish_inv (pending ts) w" "count_inv n (pending ts) w"
  proof -
    have "(of_nat n :: u64) \<noteq> 0" "unat (of_nat n :: u64) = n"
      using n unat_of_nat_u64 [of n] by (auto simp: unat_eq_zero [symmetric])
    then show "publish_inv (pending ts) w" "count_inv n (pending ts) w"
      by (simp_all add: publish_inv_def count_inv_def none pf w new_graph_state_def)
  qed
  moreover have "deps_inv n ?es {} (pending ts) w"
    by (simp add: deps_inv_def open0 entry deg_le)
  moreover have "trigger_inv n {} (pending ts) w" "ran_inv n (body_count []) (pending ts) w"
    by (simp_all add: trigger_inv_def pf entry ran_inv_def)
  moreover have "result_inv w" "calls_inv (registrations []) (pending ts) w"
    by (simp_all add: result_inv_def calls_inv_def pf w new_graph_state_def)
  ultimately show ?thesis
    using st th own by (simp add: graph_inv_def)
qed

lemma started_inv:
  assumes "started g s"
  shows "graph_inv (length (tg_nodes g)) (edge_triples g) [] s"
proof -
  obtain ts w where s: "s = (ts, w)" by (cases s)
  let ?n = "length (tg_nodes g)"
  from assms obtain th now env p opts ids r ids' r' where
    run: "graph_run th now env p opts g (ids, r) = Some (Inr (ts, w), ids', r')" and
    g: "built g" "plain_nodes g" "freeze g = Some (Inr g)" "?n < 2 ^ 64" "length (tg_edges g) < 2 ^ 64"
    unfolding started_def s by blast
  note q = graph_run_state [OF run refl g(4)]
  show ?thesis
  proof (cases "?n = 0")
    case True
    then have "edge_triples g = []"
      using edge_triples_range [OF g(3)] by (cases "edge_triples g") auto
    then show ?thesis
      using q True s empty_start by auto
  next
    case False
    with q obtain gid rt gp ids1 ids2 f where
      mat: "materialize_nodes rt now gp (tg_nodes g) ids1 (\<lambda>_. empty_entry) = (Inr f, ids2)" and
      ts: "ts = [map Do_post (graph_roots ?n (materialize_edges (tg_edges g) f))]" and
      w: "gw_state w = (new_graph_state gid (of_nat ?n))\<lparr>gs_entries := materialize_edges (tg_edges g) f\<rparr>"
      by auto
    have b: "ne_remaining (f v) = 0" "ne_successors (f v) = []" "\<not> ne_required_failed (f v)" "ne_outcome (f v) = Ready" for v
      using materialize_nodes_blank [OF mat, of v] by (simp_all add: empty_entry_def)
    have c: "\<not> is_coroutine_node (f v)" for v
      using materialize_nodes_plain [OF mat] g(2) by (simp add: plain_nodes_def empty_entry_def is_coroutine_node_def)
    show ?thesis
      unfolding s using q by (intro start_inv [OF refl g(4) False g(5,3) b c w _ _ _ _ ts]) simp_all
  qed
qed

end
