(* ===== verification/Graph_Ends.thy ===== *)
theory Graph_Ends
  imports Graph_Start
begin

text \<open>
  A graph run ends: every step of the threads uses up some of a finite amount of work, and threads with
  nothing left to do have ended every node and published the result.
\<close>

section \<open>The work left\<close>

definition out_degree :: "edge_triple list \<Rightarrow> nat \<Rightarrow> nat" where
  "out_degree es v = cnt (\<lambda>e. e_from e = v) es"

fun instr_work :: "edge_triple list \<Rightarrow> instr \<Rightarrow> nat" where
  "instr_work es (Do_post v) = 9 + 2 * out_degree es v"
| "instr_work es (Do_start v) = 7 + 2 * out_degree es v"
| "instr_work es (Do_body v) = 6 + 2 * out_degree es v"
| "instr_work es (Do_decide v) = 9 + 2 * out_degree es v"
| "instr_work es (Do_trigger v) = 1 + 2 * out_degree es v"
| "instr_work es (Do_edge oc s pol) = 2"
| "instr_work es Do_count = 2"
| "instr_work es _ = 1"

definition total_work :: "edge_triple list \<Rightarrow> instr list \<Rightarrow> nat" where
  "total_work es xs = sum_list (map (instr_work es) xs)"

lemma total_work_simps [simp]:
  "total_work es [] = 0" "total_work es (x # xs) = instr_work es x + total_work es xs"
  "total_work es (xs @ ys) = total_work es xs + total_work es ys"
  by (simp_all add: total_work_def)

lemma total_work_step:
  "i < length ts \<Longrightarrow> ts ! i = x # xs \<Longrightarrow>
   total_work es (concat (ts[i := ys @ xs])) + instr_work es x = total_work es (concat ts) + total_work es ys"
proof (induction ts arbitrary: i)
  case (Cons t ts)
  then show ?case by (cases i) auto
qed simp

fun task_work :: "edge_triple list \<Rightarrow> graph_task \<Rightarrow> nat" where
  "task_work es (Node_task v) = 8 + 2 * out_degree es v"
| "task_work es (Resume_wrapper v) = 0"

text \<open>A node with open dependencies still has all its work before it.\<close>

definition waiting_work :: "nat \<Rightarrow> edge_triple list \<Rightarrow> (nat \<Rightarrow> bool) \<Rightarrow> nat" where
  "waiting_work n es W = (\<Sum>v \<in> {1..n}. if W v then 9 + 2 * out_degree es v else 0)"

definition work_left :: "nat \<Rightarrow> edge_triple list \<Rightarrow> graph_label list \<Rightarrow> instr list list \<times> graph_world \<Rightarrow> nat" where
  "work_left n es tr = (\<lambda>(ts, w).
     total_work es (concat ts) + sum_list (map (task_work es) (gw_posted w)) +
     waiting_work n es (\<lambda>v. open_deps es (gone_through tr) (pending ts) v \<noteq> 0) +
     length (gs_callbacks (gw_state w)))"

lemma finish_work [simp]: "total_work es (finish_node v oc ex) = 5 + 2 * out_degree es v"
  by (simp add: finish_node_def)

lemma successor_work:
  assumes "graph_static n es w" and "u \<in> {1..n}"
  shows "total_work es (map (\<lambda>(s, pol). Do_edge oc (node_number s) pol) (ne_successors (entry_of w u))) = 2 * out_degree es u"
proof -
  have "total_work es (map (\<lambda>(s, pol). Do_edge oc (node_number s) pol) ss) = 2 * length ss" for ss
    by (induction ss) auto
  moreover have "length (ne_successors (entry_of w u)) = out_degree es u"
    using arg_cong [OF graph_staticD(7) [OF assms], of length] by (simp add: out_degree_def cnt_def)
  ultimately show ?thesis by simp
qed

lemma waiting_work_exec:
  assumes st: "graph_static n es w" and x: "proper n x" and T: "\<And>u. x = Do_trigger u \<Longrightarrow> u \<notin> T"
    and d: "deps_inv n es T (before q x) w"
  shows "waiting_work n es (\<lambda>v. open_deps es (through x T) (after q (next_instrs inp x w)) v \<noteq> 0) +
    (case x of Do_take u \<Rightarrow> if ne_remaining (entry_of w u) = 1 then 9 + 2 * out_degree es u else 0 | _ \<Rightarrow> 0) =
    waiting_work n es (\<lambda>v. open_deps es T (before q x) v \<noteq> 0)"
proof -
  let ?W = "\<lambda>v. open_deps es T (before q x) v \<noteq> 0"
  let ?W' = "\<lambda>v. open_deps es (through x T) (after q (next_instrs inp x w)) v \<noteq> 0"
  let ?c = "\<lambda>v. 9 + 2 * out_degree es v"
  have e: "open_deps es (through x T) (after q (next_instrs inp x w)) v + of_bool (x = Do_take v) = open_deps es T (before q x) v" for v
    by (rule open_deps_exec [OF st x T])
  show ?thesis
  proof (cases "\<exists>u. x = Do_take u")
    case True
    then obtain u where u: "x = Do_take u" by blast
    then have un: "u \<in> {1..n}" using x by simp
    have other: "?W' v = ?W v" if "v \<noteq> u" for v
      using e [of v] that u by simp
    have one: "ne_remaining (entry_of w u) = 1 \<longleftrightarrow> open_deps es T (before q x) u = 1"
      by (rule last_dependency [OF st d un])
    have split: "waiting_work n es V = (if V u then ?c u else 0) + (\<Sum>v \<in> {1..n} - {u}. if V v then ?c v else 0)" for V
      unfolding waiting_work_def using un by (intro sum.remove) auto
    have "(\<Sum>v \<in> {1..n} - {u}. if ?W' v then ?c v else 0) = (\<Sum>v \<in> {1..n} - {u}. if ?W v then ?c v else 0)"
      using other by (intro sum.cong) auto
    moreover have "?W' u \<longleftrightarrow> open_deps es T (before q x) u \<noteq> 1" "?W u"
      using e [of u] u by auto
    ultimately show ?thesis
      using one u unfolding split [of ?W] split [of ?W'] by simp
  next
    case False
    then have same: "?W' v = ?W v" for v using e [of v] by auto
    have "?W' = ?W" by (rule ext) (rule same)
    moreover have "(case x of Do_take u \<Rightarrow> if ne_remaining (entry_of w u) = 1 then 9 + 2 * out_degree es u else 0 | _ \<Rightarrow> 0) = 0"
      using False by (cases x) auto
    ultimately show ?thesis by (simp only: add_0_right)
  qed
qed

text \<open>A thread's instruction uses up work.\<close>

lemma exec_work:
  assumes st: "graph_static n es w" and x: "proper n x" and pl: "is_plain x"
  shows "total_work es (next_instrs inp x w) + sum_list (map (task_work es) (posted_by x w)) +
    length (gs_callbacks (gw_state (exec_world inp x w))) + 1 \<le>
    instr_work es x + length (gs_callbacks (gw_state w)) +
    (case x of Do_take u \<Rightarrow> if ne_remaining (entry_of w u) = 1 then 9 + 2 * out_degree es u else 0 | _ \<Rightarrow> 0)"
proof -
  note s' = exec_state_world(4) [OF pl graph_staticD(1) [OF st], of inp]
  have calls: "total_work es (map Do_call cbs) = length cbs" for cbs
    by (induction cbs) auto
  show ?thesis
    using x s' by (cases x) (auto simp: calls successor_work [OF st])
qed

lemma work_balance:
  "a' + iw = a + tw \<Longrightarrow> wl + c = wl0 \<Longrightarrow> tw + sp + cb' + 1 \<le> iw + cb + c \<Longrightarrow>
   a' + (g + sp) + wl + cb' < a + g + wl0 + (cb :: nat)"
  by linarith

lemma thread_work:
  assumes inv: "graph_inv n es tr (ts, w)" and i: "i < length ts" "ts ! i = x # xs" and e: "graph_exec inp x w = (ys, w')"
  shows "work_left n es (tr @ [Executed x]) (ts[i := ys @ xs], w') < work_left n es tr (ts, w)"
proof -
  note I = graph_invD [OF inv]
  note th = threads_exec [OF I(1,2) i]
  note px = th(2)
  note pl = proper_plain [OF px]
  have e': "ys = next_instrs inp x w" "w' = exec_world inp x w"
    using e exec_plain [OF pl graph_staticD(1) [OF I(1)], of inp] by simp_all
  define L where "L = concat (ts[i := xs])"
  have pb: "pending ts = before (\<lambda>P. cnt P L) x"
    using pending_step [OF i, of "[]"] by (auto simp: fun_eq_iff pending_def L_def of_bool_def split: if_splits)
  have pa: "pending (ts[i := ys @ xs]) = after (\<lambda>P. cnt P L) (next_instrs inp x w)"
  proof
    fix P
    show "pending (ts[i := ys @ xs]) P = after (\<lambda>P. cnt P L) (next_instrs inp x w) P"
      using pending_step [OF i, of ys P] pending_step [OF i, of "[]" P] e'(1) by (simp add: pending_def L_def)
  qed
  have "\<forall>ys \<in> set (ts[i := xs]). in_order ys"
    using th(3) by (auto simp: threads_inv_def)
  then have le: "cnt (stores v) L \<le> cnt (triggers v) L" for v
    using pending_stores [of "ts[i := xs]" v] by (simp add: pending_def L_def)
  note J = I [unfolded pb]
  note T = trigger_exec [OF J(1) px J(4,5) le]
  note W = waiting_work_exec [OF J(1) px T(2) J(3), of inp]
  note p = exec_entry_world(4) [OF pl graph_staticD(1) [OF I(1)], of inp]
  show ?thesis
    unfolding work_left_def prod.case history_executed pa pb e'(2) p map_append sum_list_append
    by (rule work_balance [OF total_work_step [OF i] W exec_work [OF J(1) px pl, of inp, folded e'(1)]])
qed

lemma take_work:
  assumes inv: "graph_inv n es tr (ts, w)" and t: "t \<in> set (gw_posted w)"
  shows "work_left n es (tr @ [Taken t]) (ts @ [[begin_task t]], w\<lparr>gw_posted := remove1 t (gw_posted w)\<rparr>) <
    work_left n es tr (ts, w)"
proof -
  obtain v where v: "t = Node_task v"
    using graph_invD(2) [OF inv] t unfolding threads_inv_def by blast
  have "open_deps es T (pending (ts @ [[Do_start v]])) u = open_deps es T (pending ts) u" for T u
    by (rule open_deps_add) simp
  moreover have "sum_list (map (task_work es) (remove1 t (gw_posted w))) + task_work es t = sum_list (map (task_work es) (gw_posted w))"
    using t by (induction "gw_posted w" arbitrary: w) (simp_all add: sum_list_map_remove1 add.commute)
  ultimately show ?thesis
    by (simp add: work_left_def v)
qed

text \<open>What requests from outside the run add: a cancellation thread, or a callback.\<close>

lemma cancel_work:
  "work_left n es (tr @ [Cancel_requested]) (ts @ [map Do_cancel_node vs], on_state (\<lambda>s. s\<lparr>gs_cancel_requested := True\<rparr>) w) =
   work_left n es tr (ts, w) + length vs"
proof -
  have "open_deps es T (pending (ts @ [map Do_cancel_node vs])) u = open_deps es T (pending ts) u" for T u
    by (rule open_deps_add) auto
  moreover have "total_work es (map Do_cancel_node vs) = length vs"
    by (induction vs) auto
  ultimately show ?thesis
    by (simp add: work_left_def on_state_def)
qed

lemma register_work:
  assumes "graph_add_callback cb (gw_state w) = (calls, s)"
  shows "work_left n es (tr @ [Registered cb]) (ts @ [map (Do_call \<circ> Some) calls], w\<lparr>gw_state := s\<rparr>) \<le> work_left n es tr (ts, w) + 1"
proof -
  have "open_deps es T (pending (ts @ [map (Do_call \<circ> Some) calls])) u = open_deps es T (pending ts) u" for T u
    by (rule open_deps_add) auto
  moreover have "total_work es (map (Do_call \<circ> Some) calls) = length calls"
    by (induction calls) auto
  moreover have "length calls + length (gs_callbacks s) \<le> length (gs_callbacks (gw_state w)) + 1"
    using assms by (auto simp: graph_add_callback_def split: if_splits option.splits)
  ultimately show ?thesis
    by (simp add: work_left_def)
qed

text \<open>The steps of the threads, and what the environment may add.\<close>

fun worker_step :: "graph_label \<Rightarrow> bool" where
  "worker_step (Executed x) = True"
| "worker_step (Taken t) = True"
| "worker_step (Woken v) = True"
| "worker_step _ = False"

definition outside_work :: "nat \<Rightarrow> graph_label list \<Rightarrow> nat" where
  "outside_work n tr = n * cnt (\<lambda>l. l = Cancel_requested) tr + cnt (\<lambda>l. \<exists>cb. l = Registered cb) tr"

lemma step_work:
  assumes "graph_step s l s'" and "graph_inv n es tr s"
  shows "work_left n es (tr @ [l]) s' + of_bool (worker_step l) \<le> work_left n es tr s + outside_work n [l]"
  using assms
proof (cases rule: graph_step.cases)
  case (Thread i ts x xs inp w ys w')
  with thread_work [of n es tr ts w i x xs inp ys w'] assms(2) show ?thesis
    by (simp add: outside_work_def Suc_le_eq)
next
  case (Take t w ts)
  with take_work [of n es tr ts w t] assms(2) show ?thesis
    by (simp add: outside_work_def Suc_le_eq)
next
  case (Wake v w ts)
  with assms(2) graph_staticD(1) show ?thesis
    by (auto simp: graph_inv_def no_coroutines_def)
next
  case (Cancel ts w)
  have "unat (gs_total (gw_state w)) = n"
    using assms(2) graph_staticD(2,4) [of n es w] unat_of_nat_u64 [of n] unfolding Cancel(1) graph_inv_def by simp
  with Cancel show ?thesis
    by (simp add: cancel_work outside_work_def del: upt_Suc)
next
  case (Register cb w calls s ts)
  with register_work [OF Register(4), of n es tr ts] show ?thesis
    by (simp add: outside_work_def)
qed

lemma trace_work:
  assumes "graph_trace s tr s'" and "graph_inv n es [] s"
  shows "work_left n es tr s' + cnt worker_step tr \<le> work_left n es [] s + outside_work n tr"
  using assms
proof (induction rule: graph_trace.induct)
  case (Trace_snoc s tr s1 l s2)
  have "work_left n es (tr @ [l]) s2 + of_bool (worker_step l) \<le> work_left n es tr s1 + outside_work n [l]"
    using step_work [OF Trace_snoc(2)] graph_inv_trace [OF Trace_snoc(1)] Trace_snoc.prems by blast
  moreover have "outside_work n (tr @ [l]) = outside_work n tr + outside_work n [l]"
    by (simp add: outside_work_def algebra_simps)
  moreover have "cnt worker_step (tr @ [l]) = cnt worker_step tr + of_bool (worker_step l)"
    by simp
  ultimately show ?case
    using Trace_snoc.IH Trace_snoc.prems by linarith
qed (simp add: outside_work_def)

section \<open>Nothing left to do\<close>

definition quiescent :: "instr list list \<times> graph_world \<Rightarrow> bool" where
  "quiescent = (\<lambda>(ts, w). (\<forall>xs \<in> set ts. xs = []) \<and> gw_posted w = [] \<and> gw_suspended w = [])"

lemma quiescent_pending: "quiescent (ts, w) \<Longrightarrow> pending ts P = 0"
  by (auto simp: quiescent_def pending_0)

lemma quiescent_all_ended:
  assumes inv: "graph_inv n es tr (ts, w)" and q: "quiescent (ts, w)"
    and ac: "acyclic ((\<lambda>e. (e_from e, e_to e)) ` set es)" and v: "v \<in> {1..n}"
  shows "final (outcome_of w v)"
proof -
  note I = graph_invD [OF inv]
  note q0 = quiescent_pending [OF q]
  have through: "u \<in> gone_through tr \<longleftrightarrow> final (outcome_of w u)" if "u \<in> {1..n}" for u
    using I(5) that q0 by (auto simp: trigger_inv_def of_bool_def split: if_splits)
  have fin: "final (outcome_of w u) \<longleftrightarrow> cnt (\<lambda>e. e_to e = u \<and> e_from e \<notin> gone_through tr) es = 0" if "u \<in> {1..n}" for u
    using I(4) that q q0 by (auto simp: own_inv_def open_deps_def quiescent_def of_bool_def split: if_splits)
  have "wf ((\<lambda>e. (e_from e, e_to e)) ` set es)"
    using ac by (intro finite_acyclic_wf) auto
  then show ?thesis
    using v
  proof (induction v rule: wf_induct_rule)
    case (less v)
    have "e_from e \<in> gone_through tr" if "e \<in> set es" "e_to e = v" for e
      using less.IH [of "e_from e"] that graph_staticD(5) [OF I(1)] through by blast
    then show ?case
      using fin [OF less.prems] by (auto simp: cnt_eq_0)
  qed
qed

lemma quiescent_published:
  assumes inv: "graph_inv n es tr (ts, w)" and q: "quiescent (ts, w)"
    and ac: "acyclic ((\<lambda>e. (e_from e, e_to e)) ` set es)"
  shows "gs_run_state (gw_state w) \<noteq> Graph_running" and "gs_remaining (gw_state w) = 0"
proof -
  note I = graph_invD [OF inv]
  note q0 = quiescent_pending [OF q]
  have "ended n w = {1..n}"
    using quiescent_all_ended [OF inv q ac] by (auto simp: ended_def)
  then show r: "gs_remaining (gw_state w) = 0"
    using I(7) q0 by (simp add: count_inv_def unat_eq_zero)
  then show "gs_run_state (gw_state w) \<noteq> Graph_running"
    using I(8) q0 by (auto simp: publish_inv_def of_bool_def split: if_splits)
qed

lemma edges_acyclic:
  assumes "freeze g = Some (Inr g)"
  shows "acyclic ((\<lambda>e. (e_from e, e_to e)) ` set (edge_triples g))"
proof -
  have "acyclic (set (map edge_pair (tg_edges g)))"
    using assms freeze_spec [of g] acyclic_numbers by blast
  moreover have "(\<lambda>e. (e_from e, e_to e)) ` set (edge_triples g) = set (map edge_pair (tg_edges g))"
    by (force simp: edge_triples_def edge_pair_def)
  ultimately show ?thesis by simp
qed

end
