(* ===== verification/Graph_Claims.thy ===== *)
theory Graph_Claims
  imports Graph_Ends
begin

text \<open>The properties of graph runs, and scripts of steps to run concrete graphs with.\<close>

section \<open>Scripts\<close>

text \<open>A script chooses the next step: a thread's instruction, a posted task, a suspended coroutine.\<close>

datatype move = Exec nat step_input | Begin nat | Resume nat | Cancel_run | Register_callback "nat option"

fun play :: "move \<Rightarrow> instr list list \<times> graph_world \<Rightarrow> (graph_label \<times> instr list list \<times> graph_world) option" where
  "play (Exec i inp) (ts, w) =
     (if i < length ts then
        (case ts ! i of
           [] \<Rightarrow> None
         | x # xs \<Rightarrow> (case graph_exec inp x w of (ys, w') \<Rightarrow> Some (Executed x, ts[i := ys @ xs], w')))
      else None)"
| "play (Begin j) (ts, w) =
     (if j < length (gw_posted w) then
        (let t = gw_posted w ! j
         in Some (Taken t, ts @ [[begin_task t]], w\<lparr>gw_posted := remove1 t (gw_posted w)\<rparr>))
      else None)"
| "play (Resume v) (ts, w) =
     (if v \<in> set (gw_suspended w) then
        Some (Woken v, ts, w\<lparr>gw_suspended := remove1 v (gw_suspended w), gw_posted := gw_posted w @ [Resume_wrapper v]\<rparr>)
      else None)"
| "play Cancel_run (ts, w) =
     Some (Cancel_requested, ts @ [map Do_cancel_node [1..<Suc (unat (gs_total (gw_state w)))]],
       on_state (\<lambda>s. s\<lparr>gs_cancel_requested := True\<rparr>) w)"
| "play (Register_callback cb) (ts, w) =
     (case graph_add_callback cb (gw_state w) of
        (calls, s) \<Rightarrow> Some (Registered cb, ts @ [map (Do_call \<circ> Some) calls], w\<lparr>gw_state := s\<rparr>))"

lemma play_step: "play m s = Some (l, s') \<Longrightarrow> graph_step s l s'"
  by (cases s; cases m)
    (auto simp: Let_def split: if_splits list.splits prod.splits intro: graph_step.intros simp del: upt_Suc One_nat_def)

fun play_all :: "move list \<Rightarrow> graph_label list \<Rightarrow> instr list list \<times> graph_world \<Rightarrow>
    (graph_label list \<times> instr list list \<times> graph_world) option" where
  "play_all [] tr s = Some (tr, s)"
| "play_all (m # ms) tr s = (case play m s of None \<Rightarrow> None | Some (l, s') \<Rightarrow> play_all ms (tr @ [l]) s')"

lemma play_all_trace: "play_all ms tr s = Some (tr', s') \<Longrightarrow> graph_trace s0 tr s \<Longrightarrow> graph_trace s0 tr' s'"
proof (induction ms arbitrary: tr s)
  case (Cons m ms)
  then obtain l s1 where "play m s = Some (l, s1)" "play_all ms (tr @ [l]) s1 = Some (tr', s')"
    by (auto split: option.splits)
  then show ?case
    using Cons.IH [of "tr @ [l]" s1] Trace_snoc [OF Cons.prems(2)] play_step by blast
qed simp

section \<open>Bodies run once and in order\<close>

lemma trace_inv:
  "started g s \<Longrightarrow> graph_trace s tr s' \<Longrightarrow> graph_inv (length (tg_nodes g)) (edge_triples g) tr s'"
  by (rule graph_inv_trace [OF _ started_inv])


section \<open>The report\<close>

lemma in_order_outcomes: "in_order xs \<Longrightarrow> cnt any_outcome xs \<le> cnt (\<lambda>x. x = Do_count) xs"
proof (induction xs rule: length_induct)
  case (1 ys)
  show ?case
  proof (cases ys)
    case (Cons x xs)
    show ?thesis
    proof (cases "any_outcome x")
      case True
      then obtain u oc ex where x: "x = Do_outcome u oc ex"
        by (cases x) auto
      then obtain r where "xs = Do_report u oc ex # Do_count # Do_trigger u # r" "in_order r"
        using "1.prems" Cons in_order_rest by blast
      with "1.IH" Cons x show ?thesis by simp
    next
      case False
      have "cnt any_outcome xs \<le> cnt (\<lambda>x. x = Do_count) xs"
        using "1.IH" "1.prems" Cons in_order_tail by auto
      with False Cons show ?thesis by (cases x) auto
    qed
  qed simp
qed

lemma pending_outcomes:
  "\<forall>xs \<in> set ts. in_order xs \<Longrightarrow> pending ts any_outcome \<le> pending ts (\<lambda>x. x = Do_count)"
  by (induction ts) (auto simp: pending_def in_order_outcomes add_mono)

text \<open>Once the result is published nothing of a node's end is pending and every node has ended.\<close>

lemma published_complete:
  assumes inv: "graph_inv n es tr (ts, w)" and pub: "gs_run_state (gw_state w) \<noteq> Graph_running"
  shows "pending ts any_outcome = 0" and "pending ts any_report = 0" and "ended n w = {1..n}"
proof -
  note I = graph_invD [OF inv]
  have ord: "\<forall>xs \<in> set ts. in_order xs" and prp: "\<forall>x \<in> set (concat ts). proper n x"
    using I(2) by (auto simp: threads_inv_def)
  have rem: "gs_remaining (gw_state w) = 0"
    using I(8) pub by (auto simp: publish_inv_def of_bool_def split: if_splits)
  have "own_inv n es (gone_through tr) (\<lambda>P. cnt P (concat ts)) w"
    using I(4) by (simp add: pending_def [abs_def])
  from ends_bound [OF this prp]
  have le: "pending ts any_outcome + card (ended n w) \<le> n"
    by (simp add: pending_def ended_def)
  have eq: "card (ended n w) + pending ts any_outcome = n + pending ts (\<lambda>x. x = Do_count)"
    using I(7) rem by (simp add: count_inv_def)
  then have c0: "pending ts (\<lambda>x. x = Do_count) = 0" using le by linarith
  show o0: "pending ts any_outcome = 0" "pending ts any_report = 0"
    using pending_outcomes [OF ord] pending_reports [OF ord] c0 by simp_all
  have "card (ended n w) = card {1..n}" using eq o0 c0 by simp
  then show "ended n w = {1..n}"
    by (intro card_subset_eq) (auto simp: ended_def)
qed

lemma finals_partition:
  assumes "ended n w = {1..n}"
  shows "card (ended_with n w Succeeded) + card (ended_with n w Failed) + card (ended_with n w Cancelled) = n"
proof -
  let ?A = "ended_with n w Succeeded" and ?B = "ended_with n w Failed" and ?C = "ended_with n w Cancelled"
  have "{1..n} = (?A \<union> ?B) \<union> ?C"
    using assms by (auto simp: ended_def ended_with_def final_def)
  moreover have "card ((?A \<union> ?B) \<union> ?C) = card (?A \<union> ?B) + card ?C" "card (?A \<union> ?B) = card ?A + card ?B"
    by (intro card_Un_disjoint; auto simp: ended_with_def)+
  ultimately show ?thesis
    by (metis card_atLeastAtMost diff_Suc_1)
qed


section \<open>Runs end\<close>

lemma started_shape:
  assumes "started g (ts, w)"
  shows "(ts = [] \<or> (\<exists>roots. ts = [map Do_post roots])) \<and> gw_posted w = [] \<and> gs_callbacks (gw_state w) = [] \<and>
    gw_called w = [] \<and> gw_released w = 0"
proof -
  let ?n = "length (tg_nodes g)"
  from assms obtain th now env p opts ids r ids' r' where
    run: "graph_run th now env p opts g (ids, r) = Some (Inr (ts, w), ids', r')" and n: "?n < 2 ^ 64"
    unfolding started_def by blast
  note q = graph_run_state [OF run refl n]
  show ?thesis
  proof (cases "?n = 0")
    case True
    with q show ?thesis by (auto simp: new_graph_state_def)
  next
    case False
    with q obtain gid f where "ts = [map Do_post (graph_roots ?n (materialize_edges (tg_edges g) f))]"
      "gw_state w = (new_graph_state gid (of_nat ?n))\<lparr>gs_entries := materialize_edges (tg_edges g) f\<rparr>"
      by auto
    then have "\<exists>roots. ts = [map Do_post roots]" "gs_callbacks (gw_state w) = []"
      by (blast, simp add: new_graph_state_def)
    with q show ?thesis by blast
  qed
qed

lemma posts_work:
  "\<forall>u \<in> set roots. u \<in> {1..n} \<Longrightarrow>
   total_work es (map Do_post roots) = (\<Sum>v \<in> {1..n}. cnt (\<lambda>u. u = v) roots * (9 + 2 * out_degree es v))"
proof (induction roots)
  case (Cons u roots)
  have "(\<Sum>v \<in> {1..n}. cnt (\<lambda>u. u = v) (u # roots) * (9 + 2 * out_degree es v)) =
      (\<Sum>v \<in> {1..n}. (if u = v then 9 + 2 * out_degree es v else 0) + cnt (\<lambda>u. u = v) roots * (9 + 2 * out_degree es v))"
    by (rule sum.cong) auto
  also have "\<dots> = (\<Sum>v \<in> {1..n}. if u = v then 9 + 2 * out_degree es v else 0) +
      (\<Sum>v \<in> {1..n}. cnt (\<lambda>u. u = v) roots * (9 + 2 * out_degree es v))"
    by (rule sum.distrib)
  also have "(\<Sum>v \<in> {1..n}. if u = v then 9 + 2 * out_degree es v else 0) = 9 + 2 * out_degree es u"
    using Cons.prems by simp
  finally show ?case using Cons by simp
qed simp

lemma out_degree_sum:
  "\<forall>e \<in> set es. e_from e \<in> {1..n} \<Longrightarrow> (\<Sum>v \<in> {1..n}. out_degree es v) = length es"
proof (induction es)
  case (Cons e es)
  have "(\<Sum>v \<in> {1..n}. out_degree (e # es) v) = (\<Sum>v \<in> {1..n}. (if e_from e = v then 1 else 0) + out_degree es v)"
    by (rule sum.cong) (auto simp: out_degree_def)
  also have "\<dots> = (\<Sum>v \<in> {1..n}. if e_from e = v then 1 else 0) + (\<Sum>v \<in> {1..n}. out_degree es v)"
    by (rule sum.distrib)
  also have "(\<Sum>v \<in> {1..n}. if e_from e = v then 1 else 0) = (1::nat)"
    using Cons.prems by simp
  finally show ?case using Cons by simp
qed (simp add: out_degree_def)

lemma initial_work:
  assumes st: "started g (ts, w)" and n: "n = length (tg_nodes g)"
  shows "work_left n (edge_triples g) [] (ts, w) \<le> 9 * n + 2 * length (tg_edges g)"
proof -
  let ?es = "edge_triples g" and ?W = "\<lambda>v. open_deps (edge_triples g) {} (pending ts) v \<noteq> 0"
  let ?c = "\<lambda>v. 9 + 2 * out_degree ?es v"
  note I = graph_invD [OF started_inv [OF st, folded n]]
  obtain roots where ts: "concat ts = map Do_post roots"
    using started_shape [OF st] by (metis concat.simps append_Nil2 list.simps(8))
  have sh: "gw_posted w = []" "gs_callbacks (gw_state w) = []"
    using started_shape [OF st] by simp_all
  have "\<forall>x \<in> set (concat ts). proper n x"
    using I(2) by (auto simp: threads_inv_def)
  then have "\<forall>u \<in> set roots. u \<in> {1..n}" by (simp add: ts)
  note pw = posts_work [OF this, of ?es]
  have one: "cnt (\<lambda>u. u = v) roots * ?c v + (if ?W v then ?c v else 0) \<le> ?c v" if "v \<in> {1..n}" for v
  proof -
    have "pending ts (owns v) \<le> of_bool (\<not> ?W v)"
      using I(4) that unfolding own_inv_def by (metis add.assoc le_add1 history_nil(1))
    then have "cnt (\<lambda>u. u = v) roots \<le> of_bool (\<not> ?W v)"
      by (simp add: pending_def ts cnt_map)
    then show ?thesis by (auto simp: of_bool_def split: if_splits)
  qed
  have "work_left n ?es [] (ts, w) = (\<Sum>v \<in> {1..n}. cnt (\<lambda>u. u = v) roots * ?c v + (if ?W v then ?c v else 0))"
    by (simp only: work_left_def prod.case ts pw sh waiting_work_def history_nil list.map sum_list.Nil list.size
        sum.distrib add_0_right)
  also have "\<dots> \<le> (\<Sum>v \<in> {1..n}. ?c v)"
    using one by (rule sum_mono)
  also have "\<dots> = 9 * n + 2 * (\<Sum>v \<in> {1..n}. out_degree ?es v)"
    by (simp only: sum.distrib sum_distrib_left [symmetric]) simp
  also have "(\<Sum>v \<in> {1..n}. out_degree ?es v) = length (tg_edges g)"
  proof -
    have "\<forall>e \<in> set ?es. e_from e \<in> {1..n}"
      using graph_staticD(5) [OF I(1)] by blast
    moreover have "length ?es = length (tg_edges g)" by (simp add: edge_triples_def)
    ultimately show ?thesis using out_degree_sum by metis
  qed
  finally show ?thesis .
qed



section \<open>Runs of small graphs\<close>

definition idle_process :: process where
  "idle_process = \<lparr>registry = Map.empty, trace_log = []\<rparr>"

definition chain :: TaskGraph where
  "chain = add_edge (NodeId 1) (NodeId 2) RequireSuccess
     (snd (emplace (Plain_node 1) (snd (emplace (Plain_node 0) empty_graph))))"

definition first_state :: "TaskGraph \<Rightarrow> (instr list list \<times> graph_world) option" where
  "first_state g = (case graph_run idle_locals 0 [] idle_process None g (fresh_allocator, demo_runtime) of
     Some (Inr s, _) \<Rightarrow> Some s | _ \<Rightarrow> None)"

definition plays :: "TaskGraph \<Rightarrow> move list \<Rightarrow> (graph_label list \<times> instr list list \<times> graph_world) option" where
  "plays g ms = Option.bind (first_state g) (play_all ms [])"

lemma first_state_run:
  "first_state g = Some s \<Longrightarrow>
   \<exists>ids' r'. graph_run idle_locals 0 [] idle_process None g (fresh_allocator, demo_runtime) = Some (Inr s, ids', r')"
  by (auto simp: first_state_def split: option.splits prod.splits sum.splits)

lemma plays_trace:
  assumes "plays g ms = Some (tr, ts, w)"
  shows "\<exists>s. first_state g = Some s \<and> graph_trace s tr (ts, w)"
  using assms play_all_trace [OF _ Trace_nil] by (auto simp: plays_def bind_eq_Some_conv)

lemma chain_shape: "tg_edges chain = [\<lparr>edge_from = NodeId 1, edge_to = NodeId 2, edge_policy = RequireSuccess\<rparr>]"
  "map nd_invoker (tg_nodes chain) = [Plain_node 0, Plain_node 1]"
  by (simp_all add: chain_def emplace_def append_node_def empty_graph_def add_edge_def Let_def)

lemma chain_frozen: "freeze chain = Some (Inr chain)"
proof -
  have len: "length (tg_nodes chain) = 2"
    using arg_cong [OF chain_shape(2), of length] by simp
  have "edge_relation chain = {(NodeId 1, NodeId 2)}"
    by (simp add: edge_relation_def chain_shape)
  moreover have "acyclic {(NodeId 1, NodeId 2)}"
    by (simp add: acyclic_insert) (simp add: acyclic_def)
  moreover have "simple_edges chain"
    using calculation(1) len by (simp add: simple_edges_def own_node_def chain_shape)
  ultimately show ?thesis
    using freeze_spec [of chain] by simp
qed

lemma chain_starts:
  assumes "graph_run th now env p opts chain (ids, r) = Some (Inr s, ids', r')"
  shows "started chain s"
proof -
  have "built chain"
    unfolding chain_def by (intro Built_edge Built_emplace Built_empty)
  moreover have "plain_nodes chain"
  proof -
    have "nd_invoker d \<in> {Plain_node 0, Plain_node 1}" if "d \<in> set (tg_nodes chain)" for d
      using imageI [OF that, of nd_invoker] arg_cong [OF chain_shape(2), of set] by simp
    then show ?thesis by (fastforce simp: plain_nodes_def)
  qed
  moreover have "length (tg_nodes chain) = 2" "length (tg_edges chain) = 1"
    using arg_cong [OF chain_shape(2), of length] chain_shape(1) by simp_all
  ultimately show ?thesis
    using assms chain_frozen unfolding started_def by (simp, blast)
qed

lemma chain_started: "first_state chain = Some s \<Longrightarrow> started chain s"
  using first_state_run chain_starts by blast

definition returns :: step_input where
  "returns = \<lparr>in_context = foreign_thread, in_now = 0, in_duration = 0, in_outcome = Returned (), in_suspends = False\<rparr>"

definition throws :: step_input where
  "throws = returns\<lparr>in_outcome := Threw 5\<rparr>"

definition suspends :: step_input where
  "suspends = returns\<lparr>in_suspends := True\<rparr>"

text \<open>The first node of the chain fails, so the second is skipped; a callback is registered before.\<close>

definition chain_fails :: "move list" where
  "chain_fails = [Exec 0 throws, Register_callback (Some 9), Begin 0] @ replicate 15 (Exec 2 throws)"

definition chain_succeeds :: "move list" where
  "chain_succeeds = [Exec 0 returns, Begin 0] @ replicate 9 (Exec 1 returns) @ [Begin 0] @ replicate 7 (Exec 2 returns)"

lemma chain_fails_run:
  "case plays chain chain_fails of
     Some (tr, ts, w) \<Rightarrow> quiescent (ts, w) \<and> body_count tr 1 = 1 \<and> body_count tr 2 = 0 \<and> gs_run_state (gw_state w) = Graph_failed \<and>
       registrations tr 9 = 1 \<and> \<not> gw_internal w \<and> length tr = 18 \<and> gs_report (gw_state w) = \<lparr>gr_run_id = GraphRunId (RuntimeId 1) 1, gr_total = 2,
         gr_succeeded = 0, gr_failed = 1, gr_cancelled = 1, gr_exceptions = [(NodeId 1, 5)]\<rparr>
   | None \<Rightarrow> False"
  by code_simp

lemma chain_succeeds_run:
  "case plays chain chain_succeeds of
     Some (tr, ts, w) \<Rightarrow> body_count tr 2 = 1
   | None \<Rightarrow> False"
  by code_simp

definition solo :: TaskGraph where
  "solo = (case emplace_coroutine (Some 0) empty_graph of Inr (_, g) \<Rightarrow> g)"

definition twice :: "move list" where
  "twice = [Exec 0 returns, Begin 0, Exec 1 returns, Exec 1 suspends, Resume 1, Begin 0, Exec 2 returns, Exec 2 returns,
     Exec 2 returns, Exec 1 returns] @ replicate 5 (Exec 2 returns) @ replicate 4 (Exec 1 returns)"

lemma twice_run:
  "case plays solo twice of
     Some (tr, ts, w) \<Rightarrow> gr_total (gs_report (gw_state w)) = 1 \<and> gr_succeeded (gs_report (gw_state w)) = 2 \<and>
       gs_remaining (gw_state w) = u64_max \<and> cnt (\<lambda>l. l = Executed (Do_trigger 1)) tr = 2
   | None \<Rightarrow> False"
  by code_simp





text \<open>C35: The run of one coroutine node can end the node twice: the coroutine suspends, is resumed and
  completes on another thread before the thread that started it tests for its completion, and then both
  threads end the node.  Two successes are reported for a graph of one node, its successors are gone
  through twice, and the count of the nodes not yet ended wraps below zero.\<close>

theorem coroutine_node_ends_twice:
  "\<exists>ids' r' s tr ts w. graph_run idle_locals 0 [] idle_process None solo (fresh_allocator, demo_runtime) = Some (Inr s, ids', r') \<and>
     graph_trace s tr (ts, w) \<and> cnt (\<lambda>l. l = Executed (Do_trigger 1)) tr = 2 \<and>
     gr_total (gs_report (gw_state w)) = 1 \<and> gr_succeeded (gs_report (gw_state w)) = 2 \<and> gs_remaining (gw_state w) = u64_max"
proof -
  obtain tr ts w where p: "plays solo twice = Some (tr, ts, w)" "cnt (\<lambda>l. l = Executed (Do_trigger 1)) tr = 2"
    "gr_total (gs_report (gw_state w)) = 1" "gr_succeeded (gs_report (gw_state w)) = 2" "gs_remaining (gw_state w) = u64_max"
    using twice_run by (auto split: option.splits prod.splits)
  then obtain s where "first_state solo = Some s" "graph_trace s tr (ts, w)"
    using plays_trace by blast
  with p first_state_run show ?thesis by blast
qed

end
