(* ===== verification/Graph_Accounts.thy ===== *)
theory Graph_Accounts
  imports Graph_Claims
begin

text \<open>What a graph run does to the accounts of its runtime: the admission slots and the task gauges.\<close>

section \<open>Refused runs\<close>

lemma saturating_dec_inc: "saturating_dec (x + 1) = (x :: u64)" if "x \<noteq> u64_max"
  using that inc_not_zero [of x] by (simp add: saturating_dec_def)

text \<open>A run whose nodes cannot all be materialized gives back what it was admitted with.\<close>

definition graph_accounts :: "runtime \<Rightarrow> u64 \<times> u64 \<times> u64" where
  "graph_accounts r = (adm_pending (rt_admission r), ready_tasks (rt_metrics r), active_graph_runs (rt_metrics r))"

definition has_room :: "u64 \<Rightarrow> runtime \<Rightarrow> bool" where
  "has_room n r \<longleftrightarrow> unat (adm_pending (rt_admission r)) + unat n < 2 ^ 64 \<and>
     unat (ready_tasks (rt_metrics r)) + unat n < 2 ^ 64 \<and> active_graph_runs (rt_metrics r) \<noteq> u64_max"

lemma count_event_fields [simp]:
  "ready_tasks (count_event ctx c m) = ready_tasks m" "active_graph_runs (count_event ctx c m) = active_graph_runs m"
  "level (count_event ctx c m) = level m"
  by (simp_all add: count_event_def on_current_shard_def split: shard_choice.split)

lemma port_count_accounts [simp]: "graph_accounts (port_count ctx c r) = graph_accounts r" "has_room n (port_count ctx c r) = has_room n r"
  "level (rt_metrics (port_count ctx c r)) = level (rt_metrics r)" "rt_id (port_count ctx c r) = rt_id r"
  by (simp_all add: graph_accounts_def has_room_def port_count_def)

lemma acquire_success:
  assumes "acquire ctx n block i t [] a = Some (Success, a')"
  shows "a' = adm_accepted ctx n (if i then a else a\<lparr>adm_pending := adm_pending a + n\<rparr>)"
  using assms
  by (auto simp: acquire_def acquire_none_def admission_attempt_def Let_def split: if_splits prod.splits option.splits)

lemma acquire_refused:
  assumes "acquire ctx n block i t [] a = Some (d, a')" and "d \<noteq> Success"
  shows "\<exists>c. a' = adm_count ctx c a"
  using assms
  by (auto simp: acquire_def acquire_none_def admission_attempt_def Let_def split: if_splits prod.splits option.splits)

lemma adm_count_metrics:
  "ready_tasks (adm_metrics (adm_count ctx c a)) = ready_tasks (adm_metrics a)"
  "active_graph_runs (adm_metrics (adm_count ctx c a)) = active_graph_runs (adm_metrics a)"
  by (simp_all add: adm_count_def)

lemma adm_accepted_metrics:
  "ready_tasks (adm_metrics (adm_accepted ctx n a)) =
     (if level (adm_metrics a) \<noteq> Off then ready_tasks (adm_metrics a) + n else ready_tasks (adm_metrics a))"
  "active_graph_runs (adm_metrics (adm_accepted ctx n a)) = active_graph_runs (adm_metrics a)"
  "level (adm_metrics (adm_accepted ctx n a)) = level (adm_metrics a)"
  by (auto simp: adm_accepted_def Let_def on_current_shard_def split: shard_choice.split)

lemma slots_refused:
  assumes "acquire_graph_slots ctx n block i now [] r = Some (d, r')" and "d \<noteq> Success"
  shows "graph_accounts r' = graph_accounts r"
proof -
  obtain a where a: "acquire ctx n block i now [] (shared_admission r) = Some (d, a)" "r' = store_admission a r"
    using assms(1) by (auto simp: acquire_graph_slots_def)
  obtain c where "a = adm_count ctx c (shared_admission r)"
    using acquire_refused [OF a(1) assms(2)] by blast
  then show ?thesis
    by (simp add: a(2) graph_accounts_def store_admission_def adm_count_metrics shared_admission_def)
qed

lemma word_add_le: "n \<le> x + n" and word_add_diff: "x + n - min (x + n) n = x"
  if "unat (x :: u64) + unat n < 2 ^ 64"
proof -
  have "unat (x + n) = unat x + unat n"
    using that by (simp add: unat_word_ariths)
  then show "n \<le> x + n" by (simp add: word_le_nat_alt)
  then show "x + n - min (x + n) n = x" by (simp add: min_absorb2)
qed

lemma slots_rolled_back:
  assumes "acquire_graph_slots ctx n block i now [] r = Some (Success, r2)" and room: "has_room n r"
  shows "graph_accounts (lease_rollback n i (record_graph_started ctx r2)) = graph_accounts r"
proof -
  obtain a where a: "acquire ctx n block i now [] (shared_admission r) = Some (Success, a)" "r2 = store_admission a r"
    using assms(1) by (auto simp: acquire_graph_slots_def)
  note acc = acquire_success [OF a(1)]
  have m: "level (rt_metrics r2) = level (rt_metrics r)" "active_graph_runs (rt_metrics r2) = active_graph_runs (rt_metrics r)"
    "ready_tasks (rt_metrics r2) = (if level (rt_metrics r) \<noteq> Off then ready_tasks (rt_metrics r) + n else ready_tasks (rt_metrics r))"
    "adm_pending (rt_admission r2) = (if i then adm_pending (rt_admission r) else adm_pending (rt_admission r) + n)"
    by (auto simp: a(2) acc store_admission_def adm_accepted_metrics shared_admission_def)
  define r3 where "r3 = rollback_graph_started n (record_graph_started ctx r2)"
  have "ready_tasks (rt_metrics r3) = ready_tasks (rt_metrics r)"
    "active_graph_runs (rt_metrics r3) = active_graph_runs (rt_metrics r)" "rt_admission r3 = rt_admission r2"
    using room m word_add_diff [of "ready_tasks (rt_metrics r)" n] saturating_dec_inc [of "active_graph_runs (rt_metrics r)"]
    by (auto simp: r3_def rollback_graph_started_def record_graph_started_def Let_def has_room_def)
  moreover have "adm_pending (rt_admission (release_external_slots n r3)) = adm_pending (rt_admission r2) - n"
    "rt_metrics (release_external_slots n r3) = rt_metrics r3" if "\<not> i"
    using room m(4) that calculation(3) word_add_le [of "adm_pending (rt_admission r)" n]
    by (auto simp: release_external_slots_def store_admission_def shared_admission_def release_def has_room_def)
  ultimately show ?thesis
    using m(4) by (auto simp: lease_rollback_def Let_def graph_accounts_def r3_def [symmetric])
qed

text \<open>C28: A call that starts a graph run and raises, because the options are invalid, the admission
  refuses it or the runtime has no task identity left for a node, leaves the pending external slots and
  the gauges of ready tasks and active runs as they were.\<close>

theorem graph_run_failure_rolls_back:
  assumes "graph_run th now [] p opts g (ids, r) = Some (Inl e, ids', r')" and "has_room (of_nat (length (tg_nodes g))) r"
  shows "graph_accounts r' = graph_accounts r"
proof -
  let ?n = "of_nat (length (tg_nodes g)) :: u64" and ?r1 = "port_count (tl_context th) N_graph_admission_attempts r"
  have room: "has_room ?n ?r1"
    using assms(2) by simp
  have acc: "(d \<noteq> Success \<longrightarrow> graph_accounts r2 = graph_accounts r) \<and>
      (d = Success \<longrightarrow> graph_accounts (lease_rollback ?n i (record_graph_started (tl_context th) r2)) = graph_accounts r)"
    if "acquire_graph_slots (tl_context th) ?n block i now [] ?r1 = Some (d, r2)" for d r2 block i
    using slots_refused [OF that] slots_rolled_back [of "tl_context th" ?n block i now ?r1 r2] that room by simp
  have rej: "rejection_of d = None \<longleftrightarrow> d = Success" for d
    by (cases d) auto
  from assms(1) show ?thesis
    unfolding graph_run_def Let_def prod.case
    by (auto simp: rej split: sum.splits option.splits prod.splits if_splits dest!: acc)
qed

text \<open>The gauge of ready tasks of a runtime.\<close>

definition ready_gauge :: "RuntimeId \<Rightarrow> process \<Rightarrow> u64 option" where
  "ready_gauge rt p = map_option (ready_tasks \<circ> diag_metrics) (find_runtime_instance rt p)"

lemma ready_gauge_on_metrics:
  assumes "\<And>m. ready_tasks (f m) = ready_tasks m"
  shows "ready_gauge rt (on_metrics rt' f p) = ready_gauge rt p"
  using assms
  by (auto simp: ready_gauge_def on_metrics_def update_metrics_def find_runtime_instance_def split: option.splits)

lemma exec_process:
  assumes "is_plain x" and "no_coroutines w" and "\<And>v. x = Do_start v \<Longrightarrow> gs_cancel_requested (gw_state w)"
    and "\<And>v. x \<noteq> Do_body v"
  shows "ready_gauge rt (gw_process (exec_world inp x w)) = ready_gauge rt (gw_process w)"
  using assms
  by (cases x; simp add: exec_simps post_node_def Let_def record_metrics_graph_node_terminal_def
      record_metrics_graph_run_completed_def ready_gauge_on_metrics del: graph_exec.simps(9,10) split: option.split)


section \<open>Concrete runs\<close>

definition exhausted :: id_allocator where
  "exhausted = fresh_allocator\<lparr>task_seq := u64_max\<rparr>"

lemma exhausted_run:
  "case graph_run idle_locals 0 [] idle_process None chain (exhausted, demo_runtime) of
     Some (Inl e, ids, r) \<Rightarrow> e = Graph_overflow (Overflow_error ''TaskId sequence exhausted'') | _ \<Rightarrow> False"
  by code_simp

theorem graph_run_failure_rolls_back_witness:
  "\<exists>e ids' r'. graph_run idle_locals 0 [] idle_process None chain (exhausted, demo_runtime) = Some (Inl e, ids', r') \<and>
     graph_accounts r' = graph_accounts demo_runtime"
proof -
  obtain e ids' r' where r: "graph_run idle_locals 0 [] idle_process None chain (exhausted, demo_runtime) = Some (Inl e, ids', r')"
    using exhausted_run by (auto split: option.splits prod.splits sum.splits)
  have "length (tg_nodes chain) = 2"
    using arg_cong [OF chain_shape(2), of length] by simp
  then have "has_room (of_nat (length (tg_nodes chain))) demo_runtime"
    by (simp add: has_room_def) (simp add: demo_runtime_def new_runtime_def Let_def new_admission_def metrics_init_def)
  from graph_run_failure_rolls_back [OF r this] r show ?thesis by blast
qed

text \<open>A chain cancelled before its first node starts, in a process where its runtime has the gauge of
  two ready tasks that the admission of the chain gave it.\<close>

definition accounted :: process where
  "accounted = register_runtime_instance (RuntimeId 1)
     \<lparr>diag_runtime_id = RuntimeId 1, diag_metrics = (metrics_init Basic 2 (RuntimeId 1))\<lparr>ready_tasks := 2\<rparr>,
       diag_collector = None, diag_worker_slots = [], diag_external_slot = None\<rparr> idle_process"

definition chain_cancelled :: "move list" where
  "chain_cancelled = [Cancel_run, Exec 0 returns, Exec 1 returns, Exec 1 returns, Begin 0] @ replicate 13 (Exec 2 returns)"

fun runs_body :: "graph_label \<Rightarrow> bool" where
  "runs_body (Executed (Do_body v)) = True"
| "runs_body l = False"

lemma chain_cancelled_run:
  "case graph_run idle_locals 0 [] accounted None chain (fresh_allocator, demo_runtime) of
     Some (Inr s, _) \<Rightarrow> (case play_all chain_cancelled [] s of
       Some (tr, ts, w) \<Rightarrow> quiescent (ts, w) \<and>
         list_all (\<lambda>l. \<not> runs_body l) tr \<and> gs_run_state (gw_state w) = Graph_cancelled \<and>
         gr_cancelled (gs_report (gw_state w)) = 2
     | None \<Rightarrow> False)
   | _ \<Rightarrow> False"
  by code_simp


end
