(* ===== verification/Steal_Victims.thy ===== *)
theory Steal_Victims
  imports Prelude
begin

text \<open>
  The choice of the workers a thief probes (\<open>next_random\<close> and \<open>generate_steal_victims\<close> in
  \<open>src/runtime/scheduler.cpp\<close>): a prefix of a random permutation of the other workers.
\<close>

unbundle bit_operations_syntax

text \<open>The generator's value and its next state.\<close>

definition next_random :: "u64 \<Rightarrow> u64 \<times> u64" where
  "next_random s =
     (let s1 = s XOR drop_bit 12 s;
          s2 = s1 XOR push_bit 25 s1;
          s3 = s2 XOR drop_bit 27 s2
      in (s3 * 0x2545F4914F6CDD1D, s3))"

definition exchange :: "nat \<Rightarrow> nat \<Rightarrow> 'a list \<Rightarrow> 'a list" where
  "exchange i j xs = xs[i := xs ! j, j := xs ! i]"

text \<open>The loop from index \<open>i\<close> with \<open>k\<close> victims still to draw from \<open>num\<close> candidates.\<close>

fun draw_victims :: "nat \<Rightarrow> nat \<Rightarrow> nat \<Rightarrow> nat list \<Rightarrow> u64 \<Rightarrow> nat list \<times> u64" where
  "draw_victims num 0 i candidates rng = ([], rng)"
| "draw_victims num (Suc k) i candidates rng =
     (case next_random rng of
        (x, rng1) \<Rightarrow>
          (let j = i + unat (x mod of_nat (num - i));
               c = exchange i j candidates
           in case draw_victims num k (Suc i) c rng1 of (vs, rng2) \<Rightarrow> (c ! i # vs, rng2)))"

definition generate_steal_victims :: "nat \<Rightarrow> nat \<Rightarrow> nat \<Rightarrow> u64 \<Rightarrow> nat list \<times> u64" where
  "generate_steal_victims self_index worker_count probe_limit rng =
     (if worker_count \<le> 1 \<or> probe_limit = 0 then ([], rng)
      else
        (let num_candidates = worker_count - 1;
             k = min probe_limit num_candidates
         in draw_victims num_candidates k 0 (filter (\<lambda>i. i \<noteq> self_index) [0..<worker_count]) rng))"

section \<open>The generator keeps a nonzero state\<close>

lemma xor_eq_0: "(a :: u64) XOR b = 0 \<longleftrightarrow> a = b"
proof
  assume "a XOR b = 0"
  then have "a XOR (a XOR b) = a" by simp
  moreover have "a XOR (a XOR b) = b"
    by (simp only: xor.assoc [symmetric] xor_self_eq xor.left_neutral)
  ultimately show "a = b" by simp
qed simp

lemma shift_right_fixed: "x = drop_bit n x \<Longrightarrow> 0 < n \<Longrightarrow> (x :: u64) = 0"
proof -
  assume x: "x = drop_bit n x" and n: "0 < n"
  have "unat (drop_bit n x) = unat x div 2 ^ n"
    unfolding unat_drop_bit_eq by (rule drop_bit_eq_div)
  then have eq: "unat x = unat x div 2 ^ n" using x by metis
  have "unat x div 2 ^ n < unat x" if "unat x \<noteq> 0"
    by (rule div_less_dividend) (use that one_less_power [of "2 :: nat" n] n in linarith)+
  then have "unat x = 0" using eq by linarith
  then show "x = 0" by (simp add: unat_eq_0)
qed

lemma shift_left_fixed: "x = push_bit n x \<Longrightarrow> 0 < n \<Longrightarrow> (x :: u64) = 0"
proof (rule bit_word_eqI)
  fix i
  assume x: "x = push_bit n x" and n: "0 < n" and "i < LENGTH(64)"
  have "\<not> bit x i"
  proof (induction i rule: less_induct)
    case (less i)
    show ?case
    proof
      assume b: "bit x i"
      then have "bit (push_bit n x) i" using x by simp
      then have "n \<le> i" "bit x (i - n)" by (simp_all add: bit_push_bit_iff)
      then show False using less n by simp
    qed
  qed
  then show "bit x i = bit 0 i" by simp
qed

lemma next_random_nonzero: "s \<noteq> 0 \<Longrightarrow> snd (next_random s) \<noteq> 0"
proof -
  assume s: "s \<noteq> 0"
  have n: "a XOR drop_bit 12 a \<noteq> 0" "a XOR push_bit 25 a \<noteq> 0" "a XOR drop_bit 27 a \<noteq> 0" if "a \<noteq> 0" for a :: u64
    unfolding xor_eq_0 using that shift_right_fixed [of a 12] shift_left_fixed [of a 25] shift_right_fixed [of a 27]
    by (metis zero_less_numeral)+
  show ?thesis
    unfolding next_random_def Let_def snd_conv by (intro n s)
qed

lemma draw_victims_nonzero: "rng \<noteq> 0 \<Longrightarrow> snd (draw_victims num k i c rng) \<noteq> 0"
proof (induction k arbitrary: i c rng)
  case (Suc k)
  have "snd (next_random rng) \<noteq> 0" by (rule next_random_nonzero [OF Suc.prems])
  from Suc.IH [OF this] show ?case by (simp add: Let_def case_prod_beta)
qed simp

section \<open>The victims\<close>

lemma exchange_simps [simp]:
  "length (exchange i j xs) = length xs"
  "i < length xs \<Longrightarrow> j < length xs \<Longrightarrow> mset (exchange i j xs) = mset xs"
  "i < length xs \<Longrightarrow> j < length xs \<Longrightarrow> exchange i j xs ! i = xs ! j"
  by (simp_all add: exchange_def mset_swap nth_list_update)

lemma exchange_prefix: "k \<le> i \<Longrightarrow> k \<le> j \<Longrightarrow> take k (exchange i j xs) = take k xs"
  by (simp add: exchange_def)

text \<open>What is drawn from position \<open>i\<close> on extends the prefix already drawn to that of a permutation.\<close>

lemma draw_victims_prefix:
  assumes "draw_victims (length c) k i c rng = (vs, rng')" and "i + k \<le> length c" and "length c < 2 ^ 64"
  shows "\<exists>c'. mset c' = mset c \<and> take (i + k) c' = take i c @ vs"
  using assms
proof (induction k arbitrary: i c rng vs)
  case (Suc k)
  obtain x rng1 where x: "next_random rng = (x, rng1)" by fastforce
  define j where "j = i + unat (x mod of_nat (length c - i))"
  define d where "d = exchange i j c"
  have pos: "0 < length c - i" using Suc.prems(2) by simp
  have "unat (of_nat (length c - i) :: u64) = length c - i"
    using Suc.prems(3) by (simp add: unat_of_nat take_bit_nat_eq_self)
  then have "unat (x mod of_nat (length c - i)) < length c - i"
    using pos by (simp add: unat_mod_distrib)
  then have j: "i \<le> j" "j < length c"
    unfolding j_def using Suc.prems(2) by linarith+
  have d: "length d = length c" "mset d = mset c" "take i d = take i c"
    using j Suc.prems(2) by (simp_all add: d_def exchange_prefix)
  obtain us where us: "draw_victims (length d) k (Suc i) d rng1 = (us, rng')" "vs = d ! i # us"
    using Suc.prems(1) by (auto simp: x j_def [symmetric] d_def [symmetric] Let_def d split: prod.splits)
  then obtain c' where "mset c' = mset d" "take (Suc i + k) c' = take (Suc i) d @ us"
    using Suc.IH [OF us(1)] Suc.prems(2,3) d(1) by auto
  moreover have "take (Suc i) d = take i c @ [d ! i]"
    using d Suc.prems(2) by (simp add: take_Suc_conv_app_nth)
  ultimately show ?case using d us(2) by (intro exI [of _ c']) simp
qed auto

lemma draw_victims_length: "draw_victims num k i c rng = (vs, rng') \<Longrightarrow> length vs = k"
  by (induction num k i c rng arbitrary: vs rule: draw_victims.induct) (auto simp: Let_def split: prod.splits)

lemma candidates: "self < n \<Longrightarrow> length (filter (\<lambda>i. i \<noteq> self) [0..<n]) = n - 1"
proof -
  assume "self < n"
  then have "set (filter (\<lambda>i. i \<noteq> self) [0..<n]) = {0..<n} - {self}" by auto
  then have "card (set (filter (\<lambda>i. i \<noteq> self) [0..<n])) = n - 1"
    using \<open>self < n\<close> by simp
  then show ?thesis by (metis distinct_card distinct_filter distinct_upt)
qed

text \<open>A thief probes distinct workers other than itself, all of them existing, as many as its probe
  limit allows; with a limit of all other workers or more it probes every one of them exactly once;
  and its random generator never falls into the state zero, which it could not leave.\<close>

theorem steal_victims_distinct_others:
  assumes "generate_steal_victims self n limit rng = (vs, rng')" and "self < n" and "n < 2 ^ 64"
  shows "distinct vs \<and> set vs \<subseteq> {0..<n} - {self} \<and> length vs = min limit (n - 1) \<and>
    (n - 1 \<le> limit \<longrightarrow> set vs = {0..<n} - {self}) \<and> (rng \<noteq> 0 \<longrightarrow> rng' \<noteq> 0)"
proof (cases "n \<le> 1 \<or> limit = 0")
  case True
  with assms show ?thesis by (auto simp: generate_steal_victims_def)
next
  case False
  let ?c = "filter (\<lambda>i. i \<noteq> self) [0..<n]"
  have dr: "draw_victims (length ?c) (min limit (n - 1)) 0 ?c rng = (vs, rng')"
    using assms(1) False candidates [OF assms(2)] by (auto simp: generate_steal_victims_def Let_def)
  have "0 + min limit (n - 1) \<le> length ?c" "length ?c < 2 ^ 64"
    using candidates [OF assms(2)] assms(3) by linarith+
  from draw_victims_prefix [OF dr this] obtain c' where c': "mset c' = mset ?c" "take (min limit (n - 1)) c' = vs"
    by (auto simp del: mset_filter)
  have len: "length vs = min limit (n - 1)"
    by (rule draw_victims_length [OF dr])
  have c: "distinct c'" "set c' = {0..<n} - {self}" "length c' = n - 1"
  proof -
    show "distinct c'"
      unfolding mset_eq_imp_distinct_iff [OF c'(1)] by simp
    show "set c' = {0..<n} - {self}"
      unfolding mset_eq_setD [OF c'(1)] by auto
    show "length c' = n - 1"
      unfolding mset_eq_length [OF c'(1)] by (rule candidates [OF assms(2)])
  qed
  have "distinct vs"
    using c(1) unfolding c'(2) [symmetric] by (rule distinct_take)
  moreover have "set vs \<subseteq> {0..<n} - {self}"
    unfolding c'(2) [symmetric] c(2) [symmetric] by (rule set_take_subset)
  moreover have "n - 1 \<le> limit \<longrightarrow> set vs = {0..<n} - {self}"
    unfolding c'(2) [symmetric] c(2) [symmetric] using c(3) by (simp add: min_absorb2)
  moreover have "rng \<noteq> 0 \<longrightarrow> rng' \<noteq> 0"
    using draw_victims_nonzero [of rng "length ?c" "min limit (n - 1)" 0 ?c] dr by simp
  ultimately show ?thesis using len by (intro conjI)
qed

theorem steal_victims_distinct_others_witness:
  "\<exists>vs rng. generate_steal_victims 1 4 2 0x9E3779B97F4A7C15 = (vs, rng) \<and> distinct vs \<and> set vs \<subseteq> {0..<4} - {1} \<and>
     length vs = 2 \<and> rng \<noteq> 0"
proof -
  obtain vs rng where g: "generate_steal_victims 1 4 2 0x9E3779B97F4A7C15 = (vs, rng)" by fastforce
  from steal_victims_distinct_others [OF g] g show ?thesis by simp
qed

end
