(* ===== verification/Worker_Loop.thy ===== *)
theory Worker_Loop
  imports Runtime_State Steal_Victims Shutdown
begin

text \<open>
  The loop of a worker thread (\<open>run_worker_loop\<close> in \<open>src/runtime/worker_loop.cpp\<close>): claim, steal, park,
  execute, drain.  A worker is a program counter and the locals of the function; one step is one access
  to the shared state, or one call of a component's operation.  Holding \<open>lifecycle_mutex\<close> over several
  steps is a flag of the shared state, and a step that needs the mutex is refused while it is held.
\<close>

section \<open>Workers\<close>

text \<open>
  The flag of \<open>Draw\<close> and \<open>Probe\<close> says that the worker has already been parked in this round; that of
  \<open>Check_predicate\<close> and \<open>Woken\<close> that the wait has timed out; those of the tests hold what was read.
\<close>

datatype loop_pc =
    Enter | Fence | Head | First_local | Take_global | Second_local
  | Draw bool | Probe bool "nat list" | Spin | Announce | Observe | Lock_park
  | Check_predicate bool | Block | Blocked | Woken bool | Unpark | Park_timers | Park_global | Park_local
  | Relock | Stop_test | Test_resumes | Test_tasks | Test_timers bool | Test_claimed bool bool
  | Continue | Exit_notify | Exit
  | Dispatch | Body | Complete_claim | Announce_done | Leave | Left

record worker =
  wk_pc :: loop_pc
  wk_index :: nat
  wk_task :: "QueuedTask option"
  wk_consecutive :: nat
  wk_local_ci :: nat
  wk_global_ci :: nat
  wk_steal_ci :: nat
  wk_bursts :: "Priority \<Rightarrow> nat"
  wk_random :: u64
  wk_observed :: u64
  wk_next_wake :: "time option"
  wk_park_began :: time

definition new_worker :: "nat \<Rightarrow> worker" where
  "new_worker i = \<lparr>wk_pc = Enter, wk_index = i, wk_task = None, wk_consecutive = 0, wk_local_ci = 0,
     wk_global_ci = 0, wk_steal_ci = 0, wk_bursts = (\<lambda>_. 0), wk_random = 0, wk_observed = 0,
     wk_next_wake = None, wk_park_began = 0\<rparr>"

text \<open>
  The shared state: the runtime, the words of the await handshakes and the resume actions run by due
  timers, the tasks executed and cancelled so far, and how often the reaper was told to join.
\<close>

record loop_shared =
  ls_runtime :: runtime
  ls_words :: "nat \<Rightarrow> u8"
  ls_mutex :: bool
  ls_fired :: "nat list"
  ls_executed :: "task_facts list"
  ls_cancelled :: "task_facts list"
  ls_join_ready :: nat

definition on_runtime :: "(runtime \<Rightarrow> runtime) \<Rightarrow> loop_shared \<Rightarrow> loop_shared" where
  "on_runtime f s = s\<lparr>ls_runtime := f (ls_runtime s)\<rparr>"

definition worker_context :: "nat \<Rightarrow> worker \<Rightarrow> loop_shared \<Rightarrow> thread_context" where
  "worker_context k w s = \<lparr>current_worker_index = wk_index w,
     current_worker_runtime_id = rt_id (ls_runtime s), current_worker_impl = Some k\<rparr>"

text \<open>The clock, and whether the allocations of a claim succeed.\<close>

record loop_input =
  li_now :: time
  li_alloc :: bool

section \<open>The parts of a round\<close>

definition loop_metric :: "thread_context \<Rightarrow> counter \<Rightarrow> loop_shared \<Rightarrow> loop_shared" where
  "loop_metric ctx c = on_runtime (\<lambda>r. if level (rt_metrics r) \<noteq> Off
     then r\<lparr>rt_metrics := count_event ctx c (rt_metrics r)\<rparr> else r)"

definition loop_timers :: "thread_context \<Rightarrow> time \<Rightarrow> loop_shared \<Rightarrow> loop_shared" where
  "loop_timers ctx now s =
     (case process_due_timers ctx now (ls_runtime s) (ls_words s) of
        (acts, ws, r) \<Rightarrow> s\<lparr>ls_runtime := r, ls_words := ws, ls_fired := ls_fired s @ acts\<rparr>)"

text \<open>The claims, with the worker's calendar position and the effect on its locals.\<close>

definition loop_claim_local :: "nat \<Rightarrow> bool \<Rightarrow> worker \<Rightarrow> loop_shared \<Rightarrow> worker \<times> loop_shared" where
  "loop_claim_local k alloc w s =
     (let r = ls_runtime s
      in case claim_local (worker_context k w s) alloc (wk_index w) (wk_local_ci w) (rt_metrics r, rt_ready r) of
           (t, ci, m, q) \<Rightarrow>
             (w\<lparr>wk_task := t, wk_local_ci := ci,
                wk_consecutive := (if t = None then wk_consecutive w else wk_consecutive w + 1)\<rparr>,
              s\<lparr>ls_runtime := r\<lparr>rt_metrics := m, rt_ready := q\<rparr>\<rparr>))"

definition loop_claim_global :: "nat \<Rightarrow> worker \<Rightarrow> loop_shared \<Rightarrow> worker \<times> loop_shared" where
  "loop_claim_global k w s =
     (let r = ls_runtime s
      in case claim_global (worker_context k w s) (wk_global_ci w) (wk_bursts w) (rt_metrics r, rt_ready r) of
           (t, ci, bursts, m, q) \<Rightarrow>
             (let r1 = r\<lparr>rt_metrics := m, rt_ready := q\<rparr>
              in (w\<lparr>wk_task := t, wk_global_ci := ci, wk_bursts := bursts,
                    wk_consecutive := (if t = None then wk_consecutive w else 0)\<rparr>,
                  s\<lparr>ls_runtime := (case t of None \<Rightarrow> r1 | Some x \<Rightarrow> release_external_slot_after_claim x r1)\<rparr>)))"

definition loop_draw :: "worker \<Rightarrow> loop_shared \<Rightarrow> nat list \<times> worker" where
  "loop_draw w s =
     (let opts = rt_options (ls_runtime s)
      in case generate_steal_victims (wk_index w) (unat (worker_count opts)) (unat (steal_probe_limit opts)) (wk_random w) of
           (vs, rng) \<Rightarrow> (vs, w\<lparr>wk_random := rng\<rparr>))"

definition loop_probe :: "nat \<Rightarrow> nat \<Rightarrow> worker \<Rightarrow> loop_shared \<Rightarrow> worker \<times> loop_shared" where
  "loop_probe k victim w s =
     (let ctx = worker_context k w s;
          s1 = loop_metric ctx N_steal_attempts s
      in case steal_task victim (wk_steal_ci w) (rt_ready (ls_runtime s1)) of
           (t, ci, q) \<Rightarrow>
             (let s2 = on_runtime (\<lambda>r. r\<lparr>rt_ready := q\<rparr>) s1
              in if t = None
                 then (w\<lparr>wk_task := None, wk_steal_ci := ci\<rparr>, loop_metric ctx N_steal_failures s2)
                 else (w\<lparr>wk_task := t, wk_steal_ci := ci, wk_consecutive := 0\<rparr>, loop_metric ctx N_steal_successes s2)))"

text \<open>The predicate of the wait on \<open>work_cv\<close>.\<close>

definition park_predicate :: "worker \<Rightarrow> loop_shared \<Rightarrow> bool" where
  "park_predicate w s =
     (let r = ls_runtime s
      in if rt_stop_requested r then
           (let st = get_status r
            in state st = Stopped \<or> shutdown_mode st = Immediate \<or>
               any_queued_work (rt_ready r) \<or> (claimed (rt_ready r) = 0 \<and> \<not> has_timers r))
         else rt_work_epoch r \<noteq> wk_observed w \<or> any_queued_work (rt_ready r) \<or>
              \<not> local_empty (wk_index w) (rt_ready r))"

definition unpark_metrics :: "thread_context \<Rightarrow> time \<Rightarrow> worker \<Rightarrow> loop_shared \<Rightarrow> loop_shared" where
  "unpark_metrics ctx now w s =
     on_runtime (\<lambda>r. if level (rt_metrics r) = Detailed \<and> wk_park_began w \<le> now
         then r\<lparr>rt_metrics := record_duration ctx H_worker_park_duration (word_of_int (now - wk_park_began w)) (rt_metrics r)\<rparr>
         else r)
       (loop_metric ctx N_worker_wakes s)"

definition random_seed :: "nat \<Rightarrow> RuntimeId \<Rightarrow> u64" where
  "random_seed index rt =
     push_bit 32 (runtime_value rt) XOR of_nat (index + 1) XOR 0x9E3779B97F4A7C15"

section \<open>One step of a worker\<close>

abbreviation goto :: "loop_pc \<Rightarrow> worker \<Rightarrow> worker" where
  "goto pc w \<equiv> w\<lparr>wk_pc := pc\<rparr>"

definition burst_limit :: "loop_shared \<Rightarrow> nat" where
  "burst_limit s = unat (local_burst_limit (rt_options (ls_runtime s)))"

text \<open>After a claim: where to go on with a task and without one.\<close>

definition claimed_or :: "loop_pc \<Rightarrow> loop_pc \<Rightarrow> worker \<times> loop_shared \<Rightarrow> worker \<times> loop_shared" where
  "claimed_or found other = (\<lambda>(w, s). (goto (if wk_task w = None then other else found) w, s))"

text \<open>Entering the loop from the startup fence.\<close>

definition start_loop :: "worker \<Rightarrow> loop_shared \<Rightarrow> worker" where
  "start_loop w s = w\<lparr>wk_pc := Head, wk_task := None, wk_consecutive := 0, wk_local_ci := 0, wk_global_ci := 0,
     wk_steal_ci := 0, wk_bursts := (\<lambda>_. 0), wk_random := random_seed (wk_index w) (rt_id (ls_runtime s))\<rparr>"

fun free_step :: "nat \<Rightarrow> loop_input \<Rightarrow> loop_pc \<Rightarrow> worker \<Rightarrow> loop_shared \<Rightarrow> (worker \<times> loop_shared) option" where
  "free_step k inp Head w s =
     Some (goto First_local (w\<lparr>wk_task := None\<rparr>), loop_timers (worker_context k w s) (li_now inp) s)"
| "free_step k inp First_local w s =
     Some (if wk_consecutive w < burst_limit s
           then claimed_or Dispatch Take_global (loop_claim_local k (li_alloc inp) w s)
           else (goto Take_global w, s))"
| "free_step k inp Second_local w s =
     Some (claimed_or Dispatch (Draw False) (loop_claim_local k (li_alloc inp) w s))"
| "free_step k inp (Draw parked) w s =
     Some (case loop_draw w s of (vs, w') \<Rightarrow> (goto (Probe parked vs) w', s))"
| "free_step k inp (Probe parked []) w s = Some (goto (if parked then Relock else Spin) w, s)"
| "free_step k inp (Probe parked (v # vs)) w s =
     Some (claimed_or (if parked then Relock else Dispatch) (Probe parked vs) (loop_probe k v w s))"
| "free_step k inp Spin w s =
     Some (goto Announce w, loop_timers (worker_context k w s) (li_now inp) s)"
| "free_step k inp Announce w s =
     Some (goto Observe w, on_runtime (\<lambda>r. r\<lparr>rt_parked_workers := rt_parked_workers r + 1\<rparr>) s)"
| "free_step k inp Observe w s = Some (goto Lock_park (w\<lparr>wk_observed := rt_work_epoch (ls_runtime s)\<rparr>), s)"
| "free_step k inp Dispatch w s =
     (case wk_task w of
        None \<Rightarrow> None
      | Some t \<Rightarrow>
          Some (if shutdown_mode (get_status (ls_runtime s)) = Immediate \<and> \<not> is_resume_segment (qt_invoker t)
                then (goto Complete_claim w, s\<lparr>ls_cancelled := ls_cancelled s @ [qt_facts t]\<rparr>)
                else (goto Body w, s\<lparr>ls_executed := ls_executed s @ [qt_facts t]\<rparr>)))"
| "free_step k inp Body w s = Some (goto Complete_claim w, s)"
| "free_step k inp Complete_claim w s =
     Some (goto Announce_done (w\<lparr>wk_task := None\<rparr>), on_runtime (\<lambda>r. r\<lparr>rt_ready := complete_claim (rt_ready r)\<rparr>) s)"
| "free_step k inp Announce_done w s = Some (goto Head w, s)"
| "free_step k inp Leave w s =
     Some (goto Left w,
       (on_runtime (\<lambda>r. r\<lparr>rt_active_workers := rt_active_workers r - 1\<rparr>) s)
         \<lparr>ls_join_ready := ls_join_ready s + (if rt_active_workers (ls_runtime s) = 1 then 1 else 0)\<rparr>)"
| "free_step k inp _ w s = None"

text \<open>Steps that take the mutex; some keep it.\<close>

fun lock_step :: "nat \<Rightarrow> loop_input \<Rightarrow> loop_pc \<Rightarrow> worker \<Rightarrow> loop_shared \<Rightarrow> (worker \<times> loop_shared) option" where
  "lock_step k inp Enter w s =
     Some (goto Fence w, on_runtime (\<lambda>r. r\<lparr>rt_workers_ready := rt_workers_ready r + 1\<rparr>) s)"
| "lock_step k inp Fence w s =
     (let r = ls_runtime s
      in if rt_startup_done r \<or> rt_startup_failed r \<or> rt_stop_requested r
         then Some (if rt_startup_failed r \<or> (\<not> rt_startup_done r \<and> rt_stop_requested r)
                    then (goto Leave w, s) else (start_loop w s, s))
         else None)"
| "lock_step k inp Take_global w s =
     (case loop_claim_global k w s of
        (w', s') \<Rightarrow>
          Some (if wk_task w' \<noteq> None then (goto Dispatch w', s')
                else if burst_limit s \<le> wk_consecutive w' then (goto Second_local (w'\<lparr>wk_consecutive := 0\<rparr>), s')
                else (goto (Draw False) w', s')))"
| "lock_step k inp Lock_park w s =
     Some (goto (Check_predicate False) (w\<lparr>wk_next_wake := runtime_earliest_wake (ls_runtime s), wk_park_began := li_now inp\<rparr>),
       (loop_metric (worker_context k w s) N_worker_parks s)\<lparr>ls_mutex := True\<rparr>)"
| "lock_step k inp (Woken timed_out) w s = Some (goto (Check_predicate timed_out) w, s\<lparr>ls_mutex := True\<rparr>)"
| "lock_step k inp Relock w s = Some (goto Stop_test w, s\<lparr>ls_mutex := True\<rparr>)"
| "lock_step k inp _ w s = None"

text \<open>Steps made with the mutex held.\<close>

fun held_step :: "nat \<Rightarrow> loop_input \<Rightarrow> loop_pc \<Rightarrow> worker \<Rightarrow> loop_shared \<Rightarrow> (worker \<times> loop_shared) option" where
  "held_step k inp (Check_predicate timed_out) w s =
     Some (goto (if park_predicate w s \<or> timed_out then Unpark else Block) w, s)"
| "held_step k inp Block w s = Some (goto Blocked w, s\<lparr>ls_mutex := False\<rparr>)"
| "held_step k inp Unpark w s =
     Some (goto Park_timers w,
       on_runtime (\<lambda>r. r\<lparr>rt_parked_workers := rt_parked_workers r - 1\<rparr>)
         (unpark_metrics (worker_context k w s) (li_now inp) w s))"
| "held_step k inp Park_timers w s =
     Some (goto Park_global w, loop_timers (worker_context k w s) (li_now inp) s)"
| "held_step k inp Park_global w s = Some (claimed_or Stop_test Park_local (loop_claim_global k w s))"
| "held_step k inp Park_local w s =
     (case loop_claim_local k (li_alloc inp) w s of
        (w', s') \<Rightarrow> Some (if wk_task w' \<noteq> None then (goto Stop_test w', s')
                         else (goto (Draw True) w', s'\<lparr>ls_mutex := False\<rparr>)))"
| "held_step k inp Stop_test w s =
     Some (let st = get_status (ls_runtime s)
           in goto (if wk_task w \<noteq> None \<or> \<not> rt_stop_requested (ls_runtime s) then Continue
                    else if state st = Stopped then Exit
                    else if shutdown_mode st = Immediate then Test_resumes
                    else Test_tasks) w, s)"
| "held_step k inp Test_resumes w s =
     Some (goto (Test_claimed (any_resume_work_after_immediate_cleanup (rt_ready (ls_runtime s))) False) w, s)"
| "held_step k inp Test_tasks w s = Some (goto (Test_timers (any_queued_work (rt_ready (ls_runtime s)))) w, s)"
| "held_step k inp (Test_timers has_tasks) w s =
     Some (goto (Test_claimed has_tasks (has_timers (ls_runtime s))) w, s)"
| "held_step k inp (Test_claimed has_tasks with_timers) w s =
     Some (goto (if \<not> has_tasks \<and> claimed (rt_ready (ls_runtime s)) = 0 \<and> \<not> with_timers then Exit_notify else Continue) w, s)"
| "held_step k inp Exit_notify w s = Some (goto Exit w, s)"
| "held_step k inp Exit w s = Some (goto Leave w, s\<lparr>ls_mutex := False\<rparr>)"
| "held_step k inp Continue w s =
     Some (goto (if wk_task w \<noteq> None then Dispatch else Head) w, s\<lparr>ls_mutex := False\<rparr>)"
| "held_step k inp _ w s = None"

text \<open>Which steps need the mutex, and which call \<open>notify_all\<close> on \<open>work_cv\<close>.\<close>

fun takes_lock :: "loop_pc \<Rightarrow> bool" where
  "takes_lock Enter \<longleftrightarrow> True" | "takes_lock Fence \<longleftrightarrow> True" | "takes_lock Take_global \<longleftrightarrow> True"
| "takes_lock Lock_park \<longleftrightarrow> True" | "takes_lock (Woken t) \<longleftrightarrow> True" | "takes_lock Relock \<longleftrightarrow> True"
| "takes_lock _ \<longleftrightarrow> False"

fun holds_lock :: "loop_pc \<Rightarrow> bool" where
  "holds_lock (Check_predicate t) \<longleftrightarrow> True" | "holds_lock Block \<longleftrightarrow> True" | "holds_lock Unpark \<longleftrightarrow> True"
| "holds_lock Park_timers \<longleftrightarrow> True" | "holds_lock Park_global \<longleftrightarrow> True" | "holds_lock Park_local \<longleftrightarrow> True"
| "holds_lock Stop_test \<longleftrightarrow> True" | "holds_lock Test_resumes \<longleftrightarrow> True" | "holds_lock Test_tasks \<longleftrightarrow> True"
| "holds_lock (Test_timers b) \<longleftrightarrow> True" | "holds_lock (Test_claimed b c) \<longleftrightarrow> True" | "holds_lock Continue \<longleftrightarrow> True"
| "holds_lock Exit_notify \<longleftrightarrow> True" | "holds_lock Exit \<longleftrightarrow> True" | "holds_lock _ \<longleftrightarrow> False"

definition broadcasts :: "loop_pc \<Rightarrow> bool" where
  "broadcasts pc \<longleftrightarrow> pc = Announce_done \<or> pc = Exit_notify"

definition loop_step :: "nat \<Rightarrow> loop_input \<Rightarrow> worker \<Rightarrow> loop_shared \<Rightarrow> (worker \<times> loop_shared) option" where
  "loop_step k inp w s =
     (if holds_lock (wk_pc w) then held_step k inp (wk_pc w) w s
      else if takes_lock (wk_pc w) then (if ls_mutex s then None else lock_step k inp (wk_pc w) w s)
      else free_step k inp (wk_pc w) w s)"

end
