(* ===== verification/Worker_System.thy ===== *)
theory Worker_System
  imports Worker_Loop
begin

text \<open>
  The workers of one runtime running together with the rest of the process: any interleaving of their
  steps with submissions, publications and timer registrations from the tasks they execute and from
  other threads, with notifications, time-outs and spurious wake-ups of \<open>work_cv\<close>, with the startup
  and with the parts of a shutdown.
\<close>

section \<open>Steps\<close>

record loop_system =
  sy_shared :: loop_shared
  sy_workers :: "worker list"
  sy_notifying :: nat
  sy_admitted :: nat
  sy_published :: "task_facts list"

definition sy_runtime :: "loop_system \<Rightarrow> runtime" where
  "sy_runtime s = ls_runtime (sy_shared s)"

definition on_sy_runtime :: "(runtime \<Rightarrow> runtime) \<Rightarrow> loop_system \<Rightarrow> loop_system" where
  "on_sy_runtime f s = s\<lparr>sy_shared := on_runtime f (sy_shared s)\<rparr>"

definition wake :: "worker \<Rightarrow> worker" where
  "wake w = (if wk_pc w = Blocked then goto (Woken False) w else w)"

definition broadcast :: "loop_system \<Rightarrow> loop_system" where
  "broadcast s = s\<lparr>sy_workers := map wake (sy_workers s)\<rparr>"

definition initial_system :: "runtime \<Rightarrow> nat \<Rightarrow> loop_system" where
  "initial_system r n =
     \<lparr>sy_shared = \<lparr>ls_runtime = r\<lparr>rt_active_workers := n\<rparr>, ls_words = (\<lambda>_. 0), ls_mutex = False, ls_fired = [],
        ls_executed = [], ls_cancelled = [], ls_join_ready = 0\<rparr>,
      sy_workers = map new_worker [0..<n], sy_notifying = 0, sy_admitted = 0, sy_published = []\<rparr>"

text \<open>
  Where a publication or a timer comes from: the task a worker executes, or a thread outside, whose
  external publications are those of submissions admitted before.
\<close>

datatype loop_label =
    Work nat | Wake nat | Time_out nat | Notify | Broadcast
  | Post_from nat | Post_outside bool | Admit
  | Timer_from nat | Timer_outside | Timer_cancel
  | Startup bool | Status ShutdownMode | Raise_stop | Cleanup | Cancel_timers | Publish_stopped

inductive system_step :: "nat \<Rightarrow> loop_system \<Rightarrow> loop_label \<Rightarrow> loop_system \<Rightarrow> bool" for k where
  work: "i < length (sy_workers s) \<Longrightarrow> w = sy_workers s ! i \<Longrightarrow> loop_step k inp w (sy_shared s) = Some (w', sh) \<Longrightarrow>
    t = s\<lparr>sy_shared := sh, sy_workers := (sy_workers s)[i := w']\<rparr> \<Longrightarrow>
    system_step k s (Work i) (if broadcasts (wk_pc w) then broadcast t else t)"
| wake_up: "i < length (sy_workers s) \<Longrightarrow>
    system_step k s (Wake i) (s\<lparr>sy_workers := (sy_workers s)[i := wake (sy_workers s ! i)]\<rparr>)"
| time_out: "i < length (sy_workers s) \<Longrightarrow> w = sy_workers s ! i \<Longrightarrow> wk_pc w = Blocked \<Longrightarrow> wk_next_wake w = Some tp \<Longrightarrow>
    system_step k s (Time_out i) (s\<lparr>sy_workers := (sy_workers s)[i := goto (Woken True) w]\<rparr>)"
| notify: "0 < sy_notifying s \<Longrightarrow>
    (if \<exists>w \<in> set (sy_workers s). wk_pc w = Blocked
     then i < length (sy_workers s) \<and> wk_pc (sy_workers s ! i) = Blocked else True) \<Longrightarrow>
    t = s\<lparr>sy_notifying := sy_notifying s - 1\<rparr> \<Longrightarrow>
    system_step k s Notify (if i < length (sy_workers s) then t\<lparr>sy_workers := (sy_workers s)[i := wake (sy_workers s ! i)]\<rparr> else t)"
| notify_all: "system_step k s Broadcast (broadcast s)"
| post_from: "i < length (sy_workers s) \<Longrightarrow> w = sy_workers s ! i \<Longrightarrow> wk_pc w = Body \<Longrightarrow> iv_priority iv \<in> set named_priorities \<Longrightarrow>
    t = on_sy_runtime (publish_ready (worker_context k w (sy_shared s)) alloc k iv False) s \<Longrightarrow>
    system_step k s (Post_from i) (t\<lparr>sy_notifying := sy_notifying s + 1, sy_published := sy_published s @ [facts_of iv]\<rparr>)"
| post_outside: "current_worker_impl ctx \<noteq> Some k \<Longrightarrow> (ext \<Longrightarrow> 0 < sy_admitted s) \<Longrightarrow> iv_priority iv \<in> set named_priorities \<Longrightarrow>
    t = on_sy_runtime (publish_ready ctx alloc k iv ext) s \<Longrightarrow>
    system_step k s (Post_outside ext) (t\<lparr>sy_notifying := sy_notifying s + 1, sy_published := sy_published s @ [facts_of iv],
      sy_admitted := (if ext then sy_admitted s - 1 else sy_admitted s)\<rparr>)"
| admit: "current_worker_impl ctx \<noteq> Some k \<Longrightarrow>
    acquire ctx 1 block False now [] (shared_admission (sy_runtime s)) = Some (Success, a) \<Longrightarrow>
    system_step k s Admit ((on_sy_runtime (store_admission a) s)\<lparr>sy_admitted := sy_admitted s + 1\<rparr>)"
| timer_from: "i < length (sy_workers s) \<Longrightarrow> w = sy_workers s ! i \<Longrightarrow> wk_pc w = Body \<Longrightarrow>
    t = on_sy_runtime (\<lambda>r. snd (register_timer (worker_context k w (sy_shared s)) tp hs act r)) s \<Longrightarrow>
    system_step k s (Timer_from i) (t\<lparr>sy_notifying := sy_notifying s + 1\<rparr>)"
| timer_outside: "current_worker_impl ctx \<noteq> Some k \<Longrightarrow>
    t = on_sy_runtime (\<lambda>r. snd (register_timer ctx tp hs act r)) s \<Longrightarrow>
    system_step k s Timer_outside (t\<lparr>sy_notifying := sy_notifying s + 1\<rparr>)"
| timer_cancel: "system_step k s Timer_cancel (on_sy_runtime (cancel_timer ctx tid) s)"
| startup_done: "\<not> ls_mutex (sy_shared s) \<Longrightarrow> rt_workers_ready (sy_runtime s) = length (sy_workers s) \<Longrightarrow>
    system_step k s (Startup True) (on_sy_runtime (\<lambda>r. r\<lparr>rt_startup_done := True\<rparr>) s)"
| startup_failed: "\<not> ls_mutex (sy_shared s) \<Longrightarrow> \<not> rt_startup_done (sy_runtime s) \<Longrightarrow>
    system_step k s (Startup False) (on_sy_runtime (\<lambda>r. r\<lparr>rt_startup_failed := True, rt_stop_requested := True\<rparr>) s)"
| status: "m \<in> {Graceful, Immediate} \<Longrightarrow> shutdown_word m (rt_packed_status (sy_runtime s)) = Some v \<Longrightarrow>
    system_step k s (Status m) (on_sy_runtime (\<lambda>r. (bump_epoch r)\<lparr>rt_packed_status := v\<rparr>) s)"
| raise_stop: "\<not> ls_mutex (sy_shared s) \<Longrightarrow>
    system_step k s Raise_stop (on_sy_runtime (\<lambda>r. r\<lparr>rt_stop_requested := True\<rparr>) s)"
| cleanup: "\<not> ls_mutex (sy_shared s) \<Longrightarrow> shutdown_mode (get_status (sy_runtime s)) = Immediate \<Longrightarrow>
    cancel_all_unstarted (sy_runtime s) = (cs, r) \<Longrightarrow> sh = sy_shared s \<Longrightarrow>
    system_step k s Cleanup (s\<lparr>sy_shared := sh\<lparr>ls_runtime := r, ls_cancelled := ls_cancelled sh @ map facts_of cs\<rparr>\<rparr>)"
| cancel_timers: "shutdown_mode (get_status (sy_runtime s)) = Immediate \<Longrightarrow> sh = sy_shared s \<Longrightarrow>
    cancel_all_timers ctx (ls_runtime sh) (ls_words sh) = (acts, ws, r) \<Longrightarrow>
    system_step k s Cancel_timers (s\<lparr>sy_shared := sh\<lparr>ls_runtime := r, ls_words := ws, ls_fired := ls_fired sh @ acts\<rparr>\<rparr>)"
| publish_stopped: "\<forall>w \<in> set (sy_workers s). wk_pc w = Left \<Longrightarrow>
    system_step k s Publish_stopped (on_sy_runtime (\<lambda>r. r\<lparr>rt_packed_status :=
      pack Stopped (shutdown_mode (unpack (rt_packed_status r)))\<rparr>) s)"

inductive system_trace :: "nat \<Rightarrow> loop_system \<Rightarrow> loop_label list \<Rightarrow> loop_system \<Rightarrow> bool" for k s0 where
  trace_start: "system_trace k s0 [] s0"
| trace_snoc: "system_trace k s0 tr s \<Longrightarrow> system_step k s l t \<Longrightarrow> system_trace k s0 (tr @ [l]) t"

text \<open>A runtime as its constructor leaves it before the workers start.\<close>

definition fresh_runtime :: "nat \<Rightarrow> runtime \<Rightarrow> bool" where
  "fresh_runtime n r \<longleftrightarrow> (\<exists>i opts be. r = new_runtime i opts be \<and> validate_options opts = Inr () \<and>
     n = unat (worker_count opts))"

end
