(* ===== verification/Worker_Effects.thy ===== *)
theory Worker_Effects
  imports Worker_System
begin

text \<open>
  What one step of a worker does to the quantities the invariants speak of: the stock of tasks, the
  claims, the mutex and the counters of workers.
\<close>

section \<open>Quantities\<close>

abbreviation ls_ready :: "loop_shared \<Rightarrow> ReadyQueues" where
  "ls_ready s \<equiv> rt_ready (ls_runtime s)"

text \<open>The tasks settled or queued, and a claimed task that is neither executed nor cancelled yet.\<close>

definition stock :: "loop_shared \<Rightarrow> task_facts multiset" where
  "stock s = mset (ls_executed s) + mset (ls_cancelled s) + rq_facts (ls_ready s)"

definition awaiting :: "worker \<Rightarrow> task_facts multiset" where
  "awaiting w = (case wk_task w of None \<Rightarrow> {#} | Some t \<Rightarrow> if wk_pc w = Body \<or> wk_pc w = Complete_claim then {#} else {#qt_facts t#})"

definition has_claim :: "worker \<Rightarrow> nat" where
  "has_claim w = of_bool (wk_task w \<noteq> None)"

definition holding :: "worker \<Rightarrow> nat" where
  "holding w = of_bool (holds_lock (wk_pc w))"

fun parked_pc :: "loop_pc \<Rightarrow> bool" where
  "parked_pc Observe \<longleftrightarrow> True" | "parked_pc Lock_park \<longleftrightarrow> True" | "parked_pc (Check_predicate t) \<longleftrightarrow> True"
| "parked_pc Block \<longleftrightarrow> True" | "parked_pc Blocked \<longleftrightarrow> True" | "parked_pc (Woken t) \<longleftrightarrow> True"
| "parked_pc Unpark \<longleftrightarrow> True" | "parked_pc _ \<longleftrightarrow> False"

definition is_parked :: "worker \<Rightarrow> nat" where
  "is_parked w = of_bool (parked_pc (wk_pc w))"

definition is_active :: "worker \<Rightarrow> nat" where
  "is_active w = of_bool (wk_pc w \<noteq> Left)"

text \<open>What no step of a worker changes.\<close>

definition settings :: "loop_shared \<Rightarrow> SchedulerOptions \<times> u16 \<times> bool \<times> bool \<times> bool" where
  "settings s = (let r = ls_runtime s in (rt_options r, rt_packed_status r, rt_startup_done r, rt_startup_failed r, rt_stop_requested r))"

text \<open>Which locations carry a task, and how far the burst counter has got there.\<close>

fun may_carry :: "loop_pc \<Rightarrow> bool" where
  "may_carry Relock \<longleftrightarrow> True" | "may_carry Stop_test \<longleftrightarrow> True" | "may_carry Continue \<longleftrightarrow> True" | "may_carry _ \<longleftrightarrow> False"

fun must_carry :: "loop_pc \<Rightarrow> bool" where
  "must_carry Dispatch \<longleftrightarrow> True" | "must_carry Body \<longleftrightarrow> True" | "must_carry Complete_claim \<longleftrightarrow> True" | "must_carry _ \<longleftrightarrow> False"

fun searching :: "loop_pc \<Rightarrow> bool" where
  "searching (Draw b) \<longleftrightarrow> True" | "searching (Probe b vs) \<longleftrightarrow> True" | "searching Spin \<longleftrightarrow> True" | "searching Announce \<longleftrightarrow> True"
| "searching Park_timers \<longleftrightarrow> True" | "searching Park_global \<longleftrightarrow> True" | "searching Park_local \<longleftrightarrow> True"
| "searching pc \<longleftrightarrow> parked_pc pc"

definition worker_ok :: "nat \<Rightarrow> worker \<Rightarrow> bool" where
  "worker_ok L w \<longleftrightarrow>
     (must_carry (wk_pc w) \<longrightarrow> wk_task w \<noteq> None) \<and>
     (\<not> must_carry (wk_pc w) \<and> \<not> may_carry (wk_pc w) \<longrightarrow> wk_task w = None) \<and>
     wk_consecutive w \<le> L \<and> (searching (wk_pc w) \<or> wk_pc w = Second_local \<longrightarrow> wk_consecutive w < L)"

section \<open>Frames\<close>

lemma on_runtime_simps [simp]:
  "ls_runtime (on_runtime f s) = f (ls_runtime s)" "ls_words (on_runtime f s) = ls_words s" "ls_mutex (on_runtime f s) = ls_mutex s"
  "ls_fired (on_runtime f s) = ls_fired s" "ls_executed (on_runtime f s) = ls_executed s" "ls_cancelled (on_runtime f s) = ls_cancelled s"
  "ls_join_ready (on_runtime f s) = ls_join_ready s"
  by (simp_all add: on_runtime_def)

lemma settings_same [simp]:
  "settings (s\<lparr>ls_mutex := b\<rparr>) = settings s" "stock (s\<lparr>ls_mutex := b\<rparr>) = stock s"
  "settings (on_runtime (\<lambda>r. r\<lparr>rt_parked_workers := f r\<rparr>) s) = settings s"
  "stock (on_runtime (\<lambda>r. r\<lparr>rt_parked_workers := f r\<rparr>) s) = stock s"
  "has_timers (r\<lparr>rt_parked_workers := p\<rparr>) = has_timers r"
  "settings (on_runtime (\<lambda>r. r\<lparr>rt_active_workers := f r\<rparr>) s) = settings s"
  "stock (on_runtime (\<lambda>r. r\<lparr>rt_active_workers := f r\<rparr>) s) = stock s"
  "settings (on_runtime (\<lambda>r. r\<lparr>rt_workers_ready := f r\<rparr>) s) = settings s"
  "stock (on_runtime (\<lambda>r. r\<lparr>rt_workers_ready := f r\<rparr>) s) = stock s"
  "has_timers (r\<lparr>rt_active_workers := p\<rparr>) = has_timers r" "has_timers (r\<lparr>rt_workers_ready := p\<rparr>) = has_timers r"
  "settings (s\<lparr>ls_join_ready := p\<rparr>) = settings s" "stock (s\<lparr>ls_join_ready := p\<rparr>) = stock s"
  "settings (s\<lparr>ls_cancelled := xs\<rparr>) = settings s" "settings (s\<lparr>ls_executed := xs\<rparr>) = settings s"
  "stock (s\<lparr>ls_executed := ls_executed s @ [x]\<rparr>) = add_mset x (stock s)"
  "stock (s\<lparr>ls_cancelled := ls_cancelled s @ [x]\<rparr>) = add_mset x (stock s)"
  by (simp_all add: settings_def stock_def Let_def has_timers_def)

text \<open>What the observations depend on.\<close>

definition essence where
  "essence s = (settings s, ls_ready s, ls_mutex s, ls_executed s, ls_cancelled s, ls_join_ready s,
     rt_parked_workers (ls_runtime s), rt_active_workers (ls_runtime s), rt_workers_ready (ls_runtime s), rt_id (ls_runtime s))"

lemma essenceD:
  assumes "essence s = essence s'"
  shows "settings s = settings s'" "ls_ready s = ls_ready s'" "ls_mutex s = ls_mutex s'" "stock s = stock s'"
    "rt_parked_workers (ls_runtime s) = rt_parked_workers (ls_runtime s')"
    "rt_active_workers (ls_runtime s) = rt_active_workers (ls_runtime s')"
    "ls_join_ready s = ls_join_ready s'" "ls_executed s = ls_executed s'" "ls_cancelled s = ls_cancelled s'"
    "burst_limit s = burst_limit s'" "rt_workers_ready (ls_runtime s) = rt_workers_ready (ls_runtime s')"
  using assms by (simp_all add: essence_def stock_def settings_def Let_def burst_limit_def)

lemma has_timers_ready: "has_timers (r\<lparr>rt_ready := q\<rparr>) = has_timers r"
  by (simp add: has_timers_def)

lemma loop_metric_essence: "essence (loop_metric ctx c s) = essence s"
  "has_timers (ls_runtime (loop_metric ctx c s)) = has_timers (ls_runtime s)"
  by (simp_all add: loop_metric_def essence_def settings_def has_timers_def Let_def)

lemma unpark_metrics_essence: "essence (unpark_metrics ctx now w s) = essence s"
  "has_timers (ls_runtime (unpark_metrics ctx now w s)) = has_timers (ls_runtime s)"
  using loop_metric_essence [of ctx N_worker_wakes s]
  by (simp_all add: unpark_metrics_def essence_def settings_def has_timers_def Let_def)

lemma on_timers_fields:
  assumes "on_timers f r = (x, r')"
  shows "r' = r\<lparr>rt_timers := rt_timers r', rt_metrics := rt_metrics r'\<rparr>" "snd (f ((rt_timers r)\<lparr>tq_metrics := rt_metrics r\<rparr>)) = rt_timers r'"
  using assms by (auto simp: on_timers_def split: prod.splits)

lemma drain_empty: "tq_heap q = [] \<Longrightarrow> drain_while P q = ([], q)"
  by (simp add: drain_while.simps)

lemma due_keeps_empty: "tq_heap q = [] \<Longrightarrow> tq_heap (snd (collect_due ctx now q)) = []"
  by (simp add: collect_due_def drain_empty)

lemma all_keeps_empty: "tq_heap q = [] \<Longrightarrow> tq_heap (snd (timer_cancel_all ctx q)) = []"
  by (simp add: timer_cancel_all_def drain_empty)

lemma loop_timers_essence:
  shows "essence (loop_timers ctx now s) = essence s"
    and "has_timers (ls_runtime (loop_timers ctx now s)) \<Longrightarrow> has_timers (ls_runtime s)"
proof -
  obtain acts ws r where p: "process_due_timers ctx now (ls_runtime s) (ls_words s) = (acts, ws, r)"
    by (metis prod_cases3)
  then obtain ds where tq: "on_timers (collect_due ctx now) (ls_runtime s) = (ds, r)"
    by (auto simp: process_due_timers_def split: prod.splits)
  note f = on_timers_fields [OF tq]
  have s': "loop_timers ctx now s = s\<lparr>ls_runtime := r, ls_words := ws, ls_fired := ls_fired s @ acts\<rparr>"
    by (simp add: loop_timers_def p)
  show "essence (loop_timers ctx now s) = essence s"
    unfolding s' by (subst f(1)) (simp add: essence_def settings_def Let_def)
  show "has_timers (ls_runtime s)" if "has_timers (ls_runtime (loop_timers ctx now s))"
    using that f(2) due_keeps_empty [of "(rt_timers (ls_runtime s))\<lparr>tq_metrics := rt_metrics (ls_runtime s)\<rparr>" ctx now]
    by (auto simp: s' has_timers_def timers_empty_def)
qed

lemma release_slot_frame:
  "essence (s\<lparr>ls_runtime := release_external_slot_after_claim t r\<rparr>) = essence (s\<lparr>ls_runtime := r\<rparr>)"
  "has_timers (release_external_slot_after_claim t r) = has_timers r"
  by (simp_all add: release_external_slot_after_claim_def release_external_slots_def store_admission_def essence_def settings_def has_timers_def Let_def)

section \<open>Claims\<close>

lemma try_bands_claimed: "try_bands b global_claim ps (q, bs) = (r, q', bs') \<Longrightarrow> claimed q' = claimed q"
proof (induction ps arbitrary: q bs)
  case (Cons p ps)
  obtain x q1 b1 where g: "global_claim p (q, bs) = (x, q1, b1)" by (metis prod_cases3)
  then have "claimed q1 = claimed q"
    by (auto simp: global_claim_def split: option.splits prod.splits)
  with g Cons show ?case
    by (auto split: deque_result.splits if_splits)
qed simp

lemma claim_counts:
  "claim_global ctx ci b (m, q) = (t, ci', b', m', q') \<Longrightarrow> claimed q' = claimed q + of_bool (t \<noteq> None)"
  "claim_local ctx alloc i ci (m, q) = (t, ci', m', q') \<Longrightarrow> claimed q' = claimed q + of_bool (t \<noteq> None)"
  "steal_task i ci q = (t, ci', q') \<Longrightarrow> claimed q' = claimed q + of_bool (t \<noteq> None)"
proof -
  assume c: "claim_global ctx ci b (m, q) = (t, ci', b', m', q')"
  obtain r c1 q1 b1 where cal: "claim_by_calendar False global_claim ci (q, b) = (r, c1, q1, b1)" by (metis prod_cases4)
  have "claimed q1 = claimed q"
    using cal by (auto simp: claim_by_calendar_def Let_def simp del: try_bands.simps split: option.splits prod.splits dest: try_bands_claimed)
  then show "claimed q' = claimed q + of_bool (t \<noteq> None)"
    using c cal by (auto simp: claim_global_def split: option.splits)
next
  assume "claim_local ctx alloc i ci (m, q) = (t, ci', m', q')"
  then show "claimed q' = claimed q + of_bool (t \<noteq> None)"
    by (auto simp: claim_local_def split: option.splits prod.splits if_splits)
next
  assume "steal_task i ci q = (t, ci', q')"
  then show "claimed q' = claimed q + of_bool (t \<noteq> None)"
    by (auto simp: steal_task_def split: option.splits prod.splits if_splits)
qed

definition carried :: "worker \<Rightarrow> task_facts multiset" where
  "carried w = (case wk_task w of None \<Rightarrow> {#} | Some t \<Rightarrow> {#qt_facts t#})"

text \<open>What is the same before and after, whatever happens to the queues and the mutex.\<close>

definition same_rest :: "loop_shared \<Rightarrow> loop_shared \<Rightarrow> bool" where
  "same_rest s s' \<longleftrightarrow> settings s' = settings s \<and> ls_join_ready s' = ls_join_ready s \<and>
     rt_parked_workers (ls_runtime s') = rt_parked_workers (ls_runtime s) \<and>
     rt_active_workers (ls_runtime s') = rt_active_workers (ls_runtime s) \<and>
     (has_timers (ls_runtime s') \<longrightarrow> has_timers (ls_runtime s))"

definition claim_effect :: "worker \<Rightarrow> loop_shared \<Rightarrow> worker \<Rightarrow> loop_shared \<Rightarrow> bool" where
  "claim_effect w s w' s' \<longleftrightarrow> rq_inv (ls_ready s') \<and> stock s = stock s' + carried w' \<and>
     claimed (ls_ready s') = claimed (ls_ready s) + has_claim w' \<and> ls_mutex s' = ls_mutex s \<and>
     wk_index w' = wk_index w \<and> rq_facts (ls_ready s') \<subseteq># rq_facts (ls_ready s) \<and> same_rest s s'"

lemma settle_claim:
  assumes "rq_inv q'" and "rq_tasks q = (case t of None \<Rightarrow> rq_tasks q' | Some x \<Rightarrow> add_mset x (rq_tasks q'))"
    and "claimed q' = claimed q + of_bool (t \<noteq> None)"
    and "wk_task w' = t" "wk_index w' = wk_index w" and "ls_ready s = q"
    and "essence s' = essence (on_runtime (\<lambda>r. r\<lparr>rt_ready := q'\<rparr>) s)"
    and "has_timers (ls_runtime s') \<Longrightarrow> has_timers (ls_runtime s)"
  shows "claim_effect w s w' s'"
proof -
  have "stock s = stock (on_runtime (\<lambda>r. r\<lparr>rt_ready := q'\<rparr>) s) + carried w'"
    using assms(2,4,6) by (auto simp: stock_def rq_facts_def carried_def split: option.splits)
  moreover have "rq_facts q' \<subseteq># rq_facts q"
    using assms(2) by (auto simp: rq_facts_def split: option.splits)
  ultimately show ?thesis
    using assms essenceD [OF assms(7)]
    by (simp add: claim_effect_def same_rest_def has_claim_def settings_def Let_def)
qed

lemma loop_claim_global_effect:
  assumes "loop_claim_global k w s = (w', s')" and inv: "rq_inv (ls_ready s)"
  shows "claim_effect w s w' s' \<and> wk_pc w' = wk_pc w \<and> wk_consecutive w' = (if wk_task w' = None then wk_consecutive w else 0)"
proof -
  obtain t ci b m q where c: "claim_global (worker_context k w s) (wk_global_ci w) (wk_bursts w)
      (rt_metrics (ls_runtime s), rt_ready (ls_runtime s)) = (t, ci, b, m, q)" by (metis prod_cases5)
  note law = claim_global_law [OF inv c]
  have w': "wk_task w' = t" "wk_index w' = wk_index w" "wk_pc w' = wk_pc w" "wk_consecutive w' = (if t = None then wk_consecutive w else 0)"
    and s': "s' = s\<lparr>ls_runtime := (case t of None \<Rightarrow> (ls_runtime s)\<lparr>rt_metrics := m, rt_ready := q\<rparr>
        | Some x \<Rightarrow> release_external_slot_after_claim x ((ls_runtime s)\<lparr>rt_metrics := m, rt_ready := q\<rparr>))\<rparr>"
    using assms(1) c by (auto simp: loop_claim_global_def Let_def)
  have "essence (s\<lparr>ls_runtime := (ls_runtime s)\<lparr>rt_metrics := m, rt_ready := q\<rparr>\<rparr>) = essence (on_runtime (\<lambda>r. r\<lparr>rt_ready := q\<rparr>) s)"
    by (simp add: essence_def settings_def Let_def)
  then have "essence s' = essence (on_runtime (\<lambda>r. r\<lparr>rt_ready := q\<rparr>) s)"
    by (simp add: s' release_slot_frame split: option.split)
  moreover have "has_timers (ls_runtime s') = has_timers (ls_runtime s)"
    by (simp add: s' release_slot_frame split: option.split) (simp add: has_timers_def)
  ultimately have "claim_effect w s w' s'"
    using settle_claim [of q "ls_ready s" t w' w s s'] law claim_counts(1) [OF c] w'(1,2) by (auto split: option.splits)
  with w' show ?thesis by simp
qed

lemma loop_claim_local_effect:
  assumes "loop_claim_local k alloc w s = (w', s')" and inv: "rq_inv (ls_ready s)"
  shows "claim_effect w s w' s' \<and> wk_pc w' = wk_pc w \<and>
    wk_consecutive w' = (if wk_task w' = None then wk_consecutive w else wk_consecutive w + 1)"
proof -
  obtain t ci m q where c: "claim_local (worker_context k w s) alloc (wk_index w) (wk_local_ci w)
      (rt_metrics (ls_runtime s), rt_ready (ls_runtime s)) = (t, ci, m, q)" by (metis prod_cases4)
  note law = local_claim_law [OF inv claim_local_queues [OF c]]
  have w': "wk_task w' = t" "wk_index w' = wk_index w" "wk_pc w' = wk_pc w"
      "wk_consecutive w' = (if t = None then wk_consecutive w else wk_consecutive w + 1)"
    and s': "s' = s\<lparr>ls_runtime := (ls_runtime s)\<lparr>rt_metrics := m, rt_ready := q\<rparr>\<rparr>"
    using assms(1) c by (auto simp: loop_claim_local_def Let_def)
  have "essence s' = essence (on_runtime (\<lambda>r. r\<lparr>rt_ready := q\<rparr>) s)" "has_timers (ls_runtime s') = has_timers (ls_runtime s)"
    by (simp_all add: s' essence_def settings_def Let_def has_timers_def)
  then have "claim_effect w s w' s'"
    using settle_claim [of q "ls_ready s" t w' w s s'] law claim_counts(2) [OF c] w'(1,2) by (auto split: option.splits)
  with w' show ?thesis by simp
qed

lemma loop_probe_effect:
  assumes "loop_probe k v w s = (w', s')" and inv: "rq_inv (ls_ready s)"
  shows "claim_effect w s w' s' \<and> wk_pc w' = wk_pc w \<and>
    wk_consecutive w' = (if wk_task w' = None then wk_consecutive w else 0)"
proof -
  let ?s1 = "loop_metric (worker_context k w s) N_steal_attempts s"
  have r1: "ls_ready ?s1 = ls_ready s" by (rule essenceD(2) [OF loop_metric_essence(1)])
  obtain t ci q where c: "steal_task v (wk_steal_ci w) (ls_ready s) = (t, ci, q)" by (metis prod_cases3)
  then have "local_claim False True v (wk_steal_ci w) (ls_ready s) = (t, ci, q)" by (simp add: local_claim_def)
  note law = local_claim_law [OF inv this]
  define m where "m = (if t = None then N_steal_failures else N_steal_successes)"
  have w': "wk_task w' = t" "wk_index w' = wk_index w" "wk_pc w' = wk_pc w" "wk_consecutive w' = (if t = None then wk_consecutive w else 0)"
    and s': "s' = loop_metric (worker_context k w s) m (on_runtime (\<lambda>r. r\<lparr>rt_ready := q\<rparr>) ?s1)"
    using assms(1) c by (auto simp: loop_probe_def Let_def r1 m_def split: if_splits)
  have "essence (on_runtime (\<lambda>r. r\<lparr>rt_ready := q\<rparr>) ?s1) = essence (on_runtime (\<lambda>r. r\<lparr>rt_ready := q\<rparr>) s)"
    using loop_metric_essence(1) [of "worker_context k w s" N_steal_attempts s]
    by (simp add: essence_def settings_def Let_def)
  then have "essence s' = essence (on_runtime (\<lambda>r. r\<lparr>rt_ready := q\<rparr>) s)"
    by (simp add: s' loop_metric_essence(1))
  moreover have "has_timers (ls_runtime s') = has_timers (ls_runtime s)"
    by (simp add: s' loop_metric_essence(2) has_timers_ready)
  ultimately have "claim_effect w s w' s'"
    using settle_claim [of q "ls_ready s" t w' w s s'] law claim_counts(3) [OF c] w'(1,2) by (auto split: option.splits)
  with w' show ?thesis by simp
qed

section \<open>Steps\<close>

definition step_effect :: "worker \<Rightarrow> loop_shared \<Rightarrow> worker \<Rightarrow> loop_shared \<Rightarrow> bool" where
  "step_effect w s w' s' \<longleftrightarrow> rq_inv (ls_ready s') \<and> stock s + awaiting w = stock s' + awaiting w' \<and>
     claimed (ls_ready s') + has_claim w = claimed (ls_ready s) + has_claim w' \<and>
     of_bool (ls_mutex s') + holding w = of_bool (ls_mutex s) + holding w' \<and>
     rt_parked_workers (ls_runtime s') + is_parked w = rt_parked_workers (ls_runtime s) + is_parked w' \<and>
     rt_active_workers (ls_runtime s') + is_active w = rt_active_workers (ls_runtime s) + is_active w' \<and>
     settings s' = settings s \<and> (has_timers (ls_runtime s') \<longrightarrow> has_timers (ls_runtime s)) \<and>
     rq_facts (ls_ready s') \<subseteq># rq_facts (ls_ready s) \<and>
     ls_join_ready s' = ls_join_ready s + of_bool (wk_pc w = Leave \<and> rt_active_workers (ls_runtime s) = 1) \<and>
     wk_index w' = wk_index w"

lemmas worker_defs = has_claim_def holding_def is_parked_def is_active_def awaiting_def carried_def worker_ok_def

text \<open>A step that leaves everything alone but the program counter and the timers.\<close>

lemma idle_effect:
  assumes "essence s' = essence s" and "has_timers (ls_runtime s') \<Longrightarrow> has_timers (ls_runtime s)" and "rq_inv (ls_ready s)"
    and "wk_task w' = wk_task w" "wk_index w' = wk_index w" "awaiting w' = awaiting w"
    and "holds_lock (wk_pc w') = holds_lock (wk_pc w)" "parked_pc (wk_pc w') = parked_pc (wk_pc w)"
    and "wk_pc w' \<noteq> Left" "wk_pc w \<noteq> Left" "wk_pc w \<noteq> Leave"
  shows "step_effect w s w' s'"
  using assms essenceD [OF assms(1)]
  by (simp add: step_effect_def has_claim_def holding_def is_parked_def is_active_def)

lemma claim_step:
  assumes "claim_effect w s w1 s'" and "wk_task w = None" and "wk_task w' = wk_task w1" "wk_index w' = wk_index w1"
    and "holds_lock (wk_pc w') = holds_lock (wk_pc w)" "parked_pc (wk_pc w') = parked_pc (wk_pc w)"
    and "wk_pc w' \<noteq> Left" "wk_pc w \<noteq> Left" "wk_pc w \<noteq> Leave" "wk_pc w' \<noteq> Body" "wk_pc w' \<noteq> Complete_claim"
  shows "step_effect w s w' s'"
  using assms
  by (cases "wk_task w1") (simp_all add: step_effect_def claim_effect_def same_rest_def worker_defs)

lemma free_step_effect:
  assumes st: "free_step k inp (wk_pc w) w s = Some (w', s')" and pc: "\<not> holds_lock (wk_pc w)" "\<not> takes_lock (wk_pc w)"
    and ok: "worker_ok (burst_limit s) w" and inv: "rq_inv (ls_ready s)"
    and counts: "has_claim w \<le> claimed (ls_ready s)" "is_active w \<le> rt_active_workers (ls_runtime s)"
  shows "step_effect w s w' s' \<and> worker_ok (burst_limit s) w'"
proof (cases "wk_pc w")
  case Head
  then show ?thesis
    using st ok inv loop_timers_essence [of "worker_context k w s" "li_now inp" s]
    by (auto intro!: idle_effect simp: worker_defs)
next
  case First_local
  obtain w1 s1 where c: "loop_claim_local k (li_alloc inp) w s = (w1, s1)" by fastforce
  note e = loop_claim_local_effect [OF c inv]
  show ?thesis
  proof (cases "wk_consecutive w < burst_limit s")
    case True
    then show ?thesis
      using st ok First_local c e by (auto intro!: claim_step [of w s w1] simp: claimed_or_def worker_ok_def split: if_splits)
  next
    case False
    then show ?thesis
      using st ok inv First_local by (auto intro!: idle_effect simp: worker_defs)
  qed
next
  case Second_local
  obtain w1 s1 where c: "loop_claim_local k (li_alloc inp) w s = (w1, s1)" by fastforce
  note e = loop_claim_local_effect [OF c inv]
  then show ?thesis
    using st ok Second_local c by (auto intro!: claim_step [of w s w1] simp: claimed_or_def worker_ok_def split: if_splits)
next
  case (Draw b)
  then show ?thesis
    using st ok inv by (auto intro!: idle_effect simp: worker_defs loop_draw_def Let_def split: prod.splits)
next
  case (Probe b vs)
  show ?thesis
  proof (cases vs)
    case Nil
    then show ?thesis
      using st ok inv Probe by (cases b) (auto intro!: idle_effect simp: worker_defs)
  next
    case (Cons v us)
    obtain w1 s1 where c: "loop_probe k v w s = (w1, s1)" by fastforce
    note e = loop_probe_effect [OF c inv]
    then show ?thesis
      using st ok Probe Cons c by (auto intro!: claim_step [of w s w1] simp: claimed_or_def worker_ok_def split: if_splits)
  qed
next
  case Spin
  then show ?thesis
    using st ok inv loop_timers_essence [of "worker_context k w s" "li_now inp" s]
    by (auto intro!: idle_effect simp: worker_defs)
next
  case Announce
  have "w' = goto Observe w" "s' = on_runtime (\<lambda>r. r\<lparr>rt_parked_workers := rt_parked_workers r + 1\<rparr>) s"
    using st by (simp_all add: Announce)
  then show ?thesis
    using ok inv by (simp add: step_effect_def worker_defs Announce)
next
  case Observe
  then show ?thesis
    using st ok inv by (auto intro!: idle_effect simp: worker_defs)
next
  case Dispatch
  then obtain t where t: "wk_task w = Some t" using ok by (auto simp: worker_ok_def)
  consider "w' = goto Complete_claim w" "s' = s\<lparr>ls_cancelled := ls_cancelled s @ [qt_facts t]\<rparr>"
    | "w' = goto Body w" "s' = s\<lparr>ls_executed := ls_executed s @ [qt_facts t]\<rparr>"
    using st by (auto simp: Dispatch t split: if_splits)
  then show ?thesis
    using ok inv by cases (simp_all add: step_effect_def worker_defs Dispatch t)
next
  case Body
  then show ?thesis
    using st ok inv by (auto intro!: idle_effect simp: worker_defs split: option.splits)
next
  case Complete_claim
  then obtain t where t: "wk_task w = Some t" using ok by (auto simp: worker_ok_def)
  let ?s = "on_runtime (\<lambda>r. r\<lparr>rt_ready := complete_claim (rt_ready r)\<rparr>) s"
  have "claimed (ls_ready ?s) + 1 = claimed (ls_ready s)"
    using counts(1) by (simp add: has_claim_def t complete_claim_def)
  moreover have "stock ?s = stock s" "settings ?s = settings s" "has_timers (ls_runtime ?s) = has_timers (ls_runtime s)"
    by (simp_all add: stock_def settings_def Let_def has_timers_def complete_claim_inv)
  moreover have "w' = goto Announce_done (w\<lparr>wk_task := None\<rparr>)" "s' = ?s"
    using st by (simp_all add: Complete_claim)
  ultimately show ?thesis
    using ok inv by (simp add: step_effect_def worker_defs Complete_claim t complete_claim_inv)
next
  case Announce_done
  then show ?thesis
    using st ok inv by (auto intro!: idle_effect simp: worker_defs)
next
  case Leave
  have "w' = goto Left w" "s' = (on_runtime (\<lambda>r. r\<lparr>rt_active_workers := rt_active_workers r - 1\<rparr>) s)
      \<lparr>ls_join_ready := ls_join_ready s + (if rt_active_workers (ls_runtime s) = 1 then 1 else 0)\<rparr>"
    using st by (simp_all add: Leave)
  then show ?thesis
    using ok inv counts by (simp add: step_effect_def worker_defs Leave)
qed (use st pc in simp_all)

lemma lock_step_effect:
  assumes st: "lock_step k inp (wk_pc w) w s = Some (w', s')" and pc: "takes_lock (wk_pc w)" "\<not> ls_mutex s"
    and ok: "worker_ok (burst_limit s) w" and L: "0 < burst_limit s" and inv: "rq_inv (ls_ready s)"
  shows "step_effect w s w' s' \<and> worker_ok (burst_limit s) w'"
proof (cases "wk_pc w")
  case Enter
  have "w' = goto Fence w" "s' = on_runtime (\<lambda>r. r\<lparr>rt_workers_ready := rt_workers_ready r + 1\<rparr>) s"
    using st by (simp_all add: Enter)
  then show ?thesis
    using ok inv by (simp add: step_effect_def worker_defs Enter)
next
  case Fence
  have "step_effect w s (goto Leave w) s \<and> worker_ok (burst_limit s) (goto Leave w)"
    using ok inv by (simp add: step_effect_def worker_defs Fence)
  moreover have "step_effect w s (start_loop w s) s \<and> worker_ok (burst_limit s) (start_loop w s)"
    using ok inv by (simp add: step_effect_def worker_defs start_loop_def Fence)
  moreover have "s' = s \<and> (w' = goto Leave w \<or> w' = start_loop w s)"
    using st by (auto simp: Fence Let_def split: if_splits)
  ultimately show ?thesis by blast
next
  case Take_global
  obtain w1 s1 where c: "loop_claim_global k w s = (w1, s1)" by fastforce
  note e = loop_claim_global_effect [OF c inv]
  show ?thesis
  proof (cases "wk_task w1")
    case None
    then show ?thesis
      using st ok L Take_global c e by (auto intro!: claim_step [of w s w1] simp: worker_ok_def split: if_splits)
  next
    case (Some t)
    then show ?thesis
      using st ok Take_global c e by (auto intro!: claim_step [of w s w1] simp: worker_ok_def)
  qed
next
  case Lock_park
  have "essence (loop_metric (worker_context k w s) N_worker_parks s) = essence s" by (rule loop_metric_essence)
  note e = essenceD [OF this] loop_metric_essence(2) [of "worker_context k w s" N_worker_parks s]
  obtain tp where "w' = goto (Check_predicate False) (w\<lparr>wk_next_wake := tp, wk_park_began := li_now inp\<rparr>)"
      "s' = (loop_metric (worker_context k w s) N_worker_parks s)\<lparr>ls_mutex := True\<rparr>"
    using st by (auto simp: Lock_park)
  then show ?thesis
    using ok inv pc e by (simp add: step_effect_def worker_defs Lock_park)
next
  case (Woken t)
  have "w' = goto (Check_predicate t) w" "s' = s\<lparr>ls_mutex := True\<rparr>"
    using st by (simp_all add: Woken)
  then show ?thesis
    using ok inv pc by (simp add: step_effect_def worker_defs Woken)
next
  case Relock
  have "w' = goto Stop_test w" "s' = s\<lparr>ls_mutex := True\<rparr>"
    using st by (simp_all add: Relock)
  then show ?thesis
    using ok inv pc by (cases "wk_task w") (simp_all add: step_effect_def worker_defs Relock)
qed (use st pc in simp_all)

lemma held_step_effect:
  assumes st: "held_step k inp (wk_pc w) w s = Some (w', s')" and pc: "holds_lock (wk_pc w)" "ls_mutex s"
    and ok: "worker_ok (burst_limit s) w" and inv: "rq_inv (ls_ready s)"
    and counts: "is_parked w \<le> rt_parked_workers (ls_runtime s)"
  shows "step_effect w s w' s' \<and> worker_ok (burst_limit s) w'"
proof (cases "wk_pc w")
  case (Check_predicate t)
  then show ?thesis
    using st ok inv by (auto intro!: idle_effect simp: worker_defs split: if_splits)
next
  case Block
  have "w' = goto Blocked w" "s' = s\<lparr>ls_mutex := False\<rparr>"
    using st by (simp_all add: Block)
  then show ?thesis
    using ok inv pc by (simp add: step_effect_def worker_defs Block)
next
  case Unpark
  have "essence (unpark_metrics (worker_context k w s) (li_now inp) w s) = essence s" by (rule unpark_metrics_essence)
  note e = essenceD [OF this] unpark_metrics_essence(2) [of "worker_context k w s" "li_now inp" w s]
  have "w' = goto Park_timers w" "s' = on_runtime (\<lambda>r. r\<lparr>rt_parked_workers := rt_parked_workers r - 1\<rparr>)
      (unpark_metrics (worker_context k w s) (li_now inp) w s)"
    using st by (simp_all add: Unpark)
  then show ?thesis
    using ok inv pc counts e by (simp add: step_effect_def worker_defs Unpark)
next
  case Park_timers
  then show ?thesis
    using st ok inv loop_timers_essence [of "worker_context k w s" "li_now inp" s]
    by (auto intro!: idle_effect simp: worker_defs)
next
  case Park_global
  obtain w1 s1 where c: "loop_claim_global k w s = (w1, s1)" by fastforce
  note e = loop_claim_global_effect [OF c inv]
  show ?thesis
    using st ok Park_global c e by (auto intro!: claim_step [of w s w1] simp: claimed_or_def worker_ok_def split: if_splits)
next
  case Park_local
  obtain w1 s1 where c: "loop_claim_local k (li_alloc inp) w s = (w1, s1)" by fastforce
  note e = loop_claim_local_effect [OF c inv]
  show ?thesis
  proof (cases "wk_task w1")
    case (Some t)
    then show ?thesis
      using st ok Park_local c e by (auto intro!: claim_step [of w s w1] simp: worker_ok_def)
  next
    case None
    have "step_effect w s (goto Park_timers w1) s1"
      using ok Park_local e None by (auto intro!: claim_step [of w s w1] simp: worker_ok_def)
    moreover have "w' = goto (Draw True) w1" "s' = s1\<lparr>ls_mutex := False\<rparr>"
      using st by (simp_all add: Park_local c None)
    ultimately show ?thesis
      using ok e None pc Park_local by (simp add: step_effect_def claim_effect_def worker_defs)
  qed
next
  case Stop_test
  obtain pc where "w' = goto pc w" "s' = s" "pc = Continue \<or> wk_task w = None \<and> pc \<in> {Exit, Test_resumes, Test_tasks}"
    using st by (auto simp: Stop_test Let_def)
  then show ?thesis
    using Stop_test ok inv by (auto intro!: idle_effect simp: worker_defs split: option.split)
next
  case Exit
  have "w' = goto Leave w" "s' = s\<lparr>ls_mutex := False\<rparr>"
    using st by (simp_all add: Exit)
  then show ?thesis
    using ok inv pc by (simp add: step_effect_def worker_defs Exit)
next
  case Continue
  have "w' = goto (if wk_task w \<noteq> None then Dispatch else Head) w" "s' = s\<lparr>ls_mutex := False\<rparr>"
    using st by (simp_all add: Continue)
  then show ?thesis
    using ok inv pc by (cases "wk_task w") (simp_all add: step_effect_def worker_defs Continue)
next
  case (Test_claimed a b)
  then show ?thesis
    using st ok inv by (auto intro!: idle_effect simp: worker_defs split: if_splits)
qed (use st pc ok inv in \<open>auto intro!: idle_effect simp: worker_defs\<close>)

text \<open>Every step of a worker, with the counters at least as large as its own share.\<close>

lemma loop_step_effect:
  assumes "loop_step k inp w s = Some (w', s')" and "worker_ok (burst_limit s) w" and "0 < burst_limit s"
    and "rq_inv (ls_ready s)" and "has_claim w \<le> claimed (ls_ready s)" "is_active w \<le> rt_active_workers (ls_runtime s)"
    and "is_parked w \<le> rt_parked_workers (ls_runtime s)" "holding w \<le> of_bool (ls_mutex s)"
  shows "step_effect w s w' s' \<and> worker_ok (burst_limit s) w'"
proof (cases "holds_lock (wk_pc w)")
  case True
  then have "ls_mutex s" using assms(8) by (cases "ls_mutex s") (simp_all add: holding_def)
  then show ?thesis
    using held_step_effect [of k inp w s w' s'] assms True by (auto simp: loop_step_def)
next
  case False
  then show ?thesis
    using lock_step_effect [of k inp w s w' s'] free_step_effect [of k inp w s w' s'] assms
    by (auto simp: loop_step_def split: if_splits)
qed

end
