(* ===== verification/Worker_Invariant.thy ===== *)
theory Worker_Invariant
  imports Worker_Effects
begin

text \<open>The invariant of the system of workers: what is counted, and who holds what.\<close>

section \<open>Sums over the workers\<close>

definition worker_sum :: "(worker \<Rightarrow> 'a :: comm_monoid_add) \<Rightarrow> worker list \<Rightarrow> 'a" where
  "worker_sum f ws = sum_list (map f ws)"

lemma sum_list_swap:
  "i < length xs \<Longrightarrow> sum_list (map f (xs[i := y])) + f (xs ! i) = sum_list (map f xs) + (f y :: 'a :: comm_monoid_add)"
proof (induction xs arbitrary: i)
  case (Cons v xs)
  show ?case
  proof (cases i)
    case 0
    then show ?thesis by (simp add: ac_simps)
  next
    case (Suc j)
    then show ?thesis using Cons.IH [of j] Cons.prems by (simp add: add.assoc)
  qed
qed simp

lemma total_update: "i < length ws \<Longrightarrow> worker_sum f (ws[i := w]) + f (ws ! i) = worker_sum f ws + (f w :: 'a :: comm_monoid_add)"
  unfolding worker_sum_def by (rule sum_list_swap)

lemma total_part: "i < length ws \<Longrightarrow> f (ws ! i) \<le> (worker_sum f ws :: nat)"
  unfolding worker_sum_def by (rule member_le_sum_list) simp_all

lemma total_keep:
  assumes "i < length ws" and "f w = f (ws ! i)"
  shows "worker_sum f (ws[i := w]) = (worker_sum f ws :: 'a :: cancel_comm_monoid_add)"
  using total_update [OF assms(1), of f w] unfolding assms(2) by (rule add_right_imp_eq)

lemma wake_simps [simp]:
  "awaiting (wake w) = awaiting w" "has_claim (wake w) = has_claim w" "holding (wake w) = holding w"
  "is_parked (wake w) = is_parked w" "is_active (wake w) = is_active w" "wk_index (wake w) = wk_index w"
  "worker_ok L (wake w) = worker_ok L w" "wk_consecutive (wake w) = wk_consecutive w"
  by (auto simp: wake_def worker_defs split: option.split)

lemma timed_out_simps:
  assumes "wk_pc w = Blocked"
  shows "awaiting (goto (Woken True) w) = awaiting w" "has_claim (goto (Woken True) w) = has_claim w"
    "holding (goto (Woken True) w) = holding w" "is_parked (goto (Woken True) w) = is_parked w"
    "is_active (goto (Woken True) w) = is_active w" "worker_ok L (goto (Woken True) w) = worker_ok L w"
  using assms by (auto simp: worker_defs split: option.split)

lemma total_wake: "(\<And>w. f (wake w) = f w) \<Longrightarrow> worker_sum f (map wake ws) = worker_sum f ws"
  by (induction ws) (simp_all add: worker_sum_def)

section \<open>The invariant\<close>

text \<open>
  \<open>x\<close> stands for what the waits that help hold beside the workers themselves: how many claims, and which
  tasks claimed and not begun.  Without such waits it is nothing.
\<close>

definition loop_inv_beside :: "nat \<times> task_facts multiset \<Rightarrow> nat \<Rightarrow> loop_shared \<Rightarrow> worker list \<Rightarrow> task_facts list \<Rightarrow> bool" where
  "loop_inv_beside x L sh ws pub \<longleftrightarrow>
     (\<forall>w \<in> set ws. worker_ok L w) \<and> (\<forall>i < length ws. wk_index (ws ! i) = i) \<and> burst_limit sh = L \<and> rq_inv (ls_ready sh) \<and>
     mset pub = stock sh + worker_sum awaiting ws + snd x \<and> claimed (ls_ready sh) = worker_sum has_claim ws + fst x \<and>
     of_bool (ls_mutex sh) = worker_sum holding ws \<and> rt_parked_workers (ls_runtime sh) = worker_sum is_parked ws \<and>
     rt_active_workers (ls_runtime sh) = worker_sum is_active ws \<and>
     ls_join_ready sh = of_bool (worker_sum is_active ws = 0)"

definition sy_inv_beside :: "nat \<times> task_facts multiset \<Rightarrow> nat \<Rightarrow> loop_system \<Rightarrow> bool" where
  "sy_inv_beside x L s \<longleftrightarrow> loop_inv_beside x L (sy_shared s) (sy_workers s) (sy_published s)"

abbreviation nothing_beside :: "nat \<times> task_facts multiset" where
  "nothing_beside \<equiv> (0, {#})"

abbreviation loop_inv :: "nat \<Rightarrow> loop_shared \<Rightarrow> worker list \<Rightarrow> task_facts list \<Rightarrow> bool" where
  "loop_inv \<equiv> loop_inv_beside nothing_beside"

abbreviation sy_inv :: "nat \<Rightarrow> loop_system \<Rightarrow> bool" where
  "sy_inv \<equiv> sy_inv_beside nothing_beside"

lemmas loop_inv_def = loop_inv_beside_def [of nothing_beside, simplified]

lemmas sy_inv_def = sy_inv_beside_def [of nothing_beside]

lemma loop_invD:
  assumes "loop_inv_beside x L sh ws pub" and "i < length ws"
  shows "worker_ok L (ws ! i)" "burst_limit sh = L" "rq_inv (ls_ready sh)" "has_claim (ws ! i) \<le> claimed (ls_ready sh)"
    "holding (ws ! i) \<le> of_bool (ls_mutex sh)" "is_parked (ws ! i) \<le> rt_parked_workers (ls_runtime sh)"
    "is_active (ws ! i) \<le> rt_active_workers (ls_runtime sh)"
  using assms total_part [of i ws has_claim] total_part [of i ws holding] total_part [of i ws is_parked]
    total_part [of i ws is_active]
  by (simp_all add: loop_inv_beside_def)

lemma burst_limit_settings: "settings s' = settings s \<Longrightarrow> burst_limit s' = burst_limit s"
  by (simp add: settings_def burst_limit_def Let_def)

lemma balance: "a + b = c + d \<Longrightarrow> c = e \<Longrightarrow> f + b = e + d \<Longrightarrow> a = (f :: 'a :: cancel_comm_monoid_add)"
  by (metis add_right_cancel)

lemma left_only_from_leave:
  assumes "loop_step k inp w s = Some (w', s')" and "wk_pc w' = Left"
  shows "wk_pc w = Leave"
proof (cases "wk_pc w")
  case (Probe b vs)
  with assms show ?thesis
    by (cases vs) (auto simp: loop_step_def claimed_or_def split: if_splits prod.splits)
qed (use assms in \<open>auto simp: loop_step_def claimed_or_def start_loop_def loop_draw_def Let_def split: if_splits prod.splits option.splits\<close>)

lemma loop_inv_work:
  assumes inv: "loop_inv_beside x L sh ws pub" and i: "i < length ws" and st: "loop_step k inp (ws ! i) sh = Some (w', sh')" and L: "0 < L"
  shows "loop_inv_beside x L sh' (ws[i := w']) pub"
proof -
  note d = loop_invD [OF inv i]
  have e: "step_effect (ws ! i) sh w' sh'" "worker_ok L w'"
    using loop_step_effect [OF st] d L by simp_all
  have u: "worker_sum f (ws[i := w']) + f (ws ! i) = worker_sum f ws + f w'" for f :: "worker \<Rightarrow> nat"
    by (rule total_update [OF i])
  have ua: "worker_sum awaiting (ws[i := w']) + awaiting (ws ! i) = worker_sum awaiting ws + awaiting w'"
    by (rule total_update [OF i])
  have "\<forall>w \<in> set (ws[i := w']). worker_ok L w"
    using inv e(2) set_update_subset_insert [of ws i w'] unfolding loop_inv_beside_def by blast
  moreover have "\<forall>j < length (ws[i := w']). wk_index (ws[i := w'] ! j) = j"
    using inv e(1) i by (auto simp: loop_inv_beside_def step_effect_def nth_list_update)
  moreover have "mset pub = stock sh' + worker_sum awaiting (ws[i := w']) + snd x"
  proof -
    have "stock sh + awaiting (ws ! i) = stock sh' + awaiting w'" "mset pub = stock sh + worker_sum awaiting ws + snd x"
      using e(1) inv by (simp_all add: step_effect_def loop_inv_beside_def)
    then have "mset pub + awaiting (ws ! i) = (stock sh' + worker_sum awaiting (ws[i := w']) + snd x) + awaiting (ws ! i)"
      using ua by (metis add.assoc add.commute)
    then show ?thesis by (rule add_right_imp_eq)
  qed
  moreover have "claimed (ls_ready sh') = worker_sum has_claim (ws[i := w']) + fst x"
    using e(1) inv u [of has_claim] unfolding step_effect_def loop_inv_beside_def by linarith
  moreover have "of_bool (ls_mutex sh') = worker_sum holding (ws[i := w'])"
    using e(1) inv u [of holding] unfolding step_effect_def loop_inv_beside_def by linarith
  moreover have "rt_parked_workers (ls_runtime sh') = worker_sum is_parked (ws[i := w'])"
    using e(1) inv u [of is_parked] unfolding step_effect_def loop_inv_beside_def by linarith
  moreover have "rt_active_workers (ls_runtime sh') = worker_sum is_active (ws[i := w'])"
    using e(1) inv u [of is_active] unfolding step_effect_def loop_inv_beside_def by linarith
  moreover have "burst_limit sh' = L" "rq_inv (ls_ready sh')"
    using e(1) d(2) burst_limit_settings [of sh' sh] by (simp_all add: step_effect_def)
  moreover have "ls_join_ready sh' = of_bool (worker_sum is_active (ws[i := w']) = 0)"
  proof -
    have act: "worker_sum is_active ws = rt_active_workers (ls_runtime sh)" "is_active (ws ! i) \<le> worker_sum is_active ws"
      using inv total_part [OF i, of is_active] by (simp_all add: loop_inv_beside_def)
    show ?thesis
    proof (cases "wk_pc (ws ! i) = Leave")
      case True
      then have "wk_pc w' = Left" using st by (auto simp: loop_step_def)
      then show ?thesis
        using True act e(1) inv u [of is_active] by (auto simp: step_effect_def loop_inv_beside_def is_active_def)
    next
      case False
      have "wk_pc (ws ! i) \<noteq> Left" using st by (auto simp: loop_step_def)
      moreover have "wk_pc w' \<noteq> Left" using st False left_only_from_leave by blast
      ultimately show ?thesis
        using False act e(1) inv u [of is_active] by (auto simp: step_effect_def loop_inv_beside_def is_active_def)
    qed
  qed
  ultimately show ?thesis unfolding loop_inv_beside_def by blast
qed

text \<open>Changes of the workers that only wake one, or time one out.\<close>

lemma loop_inv_turn:
  assumes inv: "loop_inv_beside x L sh ws pub" and i: "i < length ws"
    and same: "awaiting w = awaiting (ws ! i)" "has_claim w = has_claim (ws ! i)" "holding w = holding (ws ! i)"
      "is_parked w = is_parked (ws ! i)" "is_active w = is_active (ws ! i)" "worker_ok L w = worker_ok L (ws ! i)" "wk_index w = wk_index (ws ! i)"
  shows "loop_inv_beside x L sh (ws[i := w]) pub"
proof -
  have "\<forall>v \<in> set (ws[i := w]). worker_ok L v"
    using loop_invD(1) [OF inv i] inv same(6) set_update_subset_insert [of ws i w] unfolding loop_inv_beside_def by blast
  then show ?thesis
    using inv i same by (auto simp: loop_inv_beside_def total_keep nth_list_update)
qed

lemma loop_inv_broadcast: "loop_inv_beside x L sh ws pub \<Longrightarrow> loop_inv_beside x L sh (map wake ws) pub"
  by (simp add: loop_inv_beside_def total_wake)

text \<open>Changes of the runtime that leave the queues alone, and publications.\<close>

definition neutral :: "loop_shared \<Rightarrow> loop_shared \<Rightarrow> bool" where
  "neutral sh sh' \<longleftrightarrow> rt_options (ls_runtime sh') = rt_options (ls_runtime sh) \<and> ls_ready sh' = ls_ready sh \<and>
     rt_parked_workers (ls_runtime sh') = rt_parked_workers (ls_runtime sh) \<and>
     rt_active_workers (ls_runtime sh') = rt_active_workers (ls_runtime sh) \<and> ls_mutex sh' = ls_mutex sh \<and> ls_join_ready sh' = ls_join_ready sh \<and>
     ls_executed sh' = ls_executed sh \<and> ls_cancelled sh' = ls_cancelled sh"

lemma loop_inv_neutral: "loop_inv_beside x L sh ws pub \<Longrightarrow> neutral sh sh' \<Longrightarrow> loop_inv_beside x L sh' ws pub"
  by (simp add: loop_inv_beside_def neutral_def stock_def burst_limit_def)

lemma publish_ready_frame:
  "rt_options (publish_ready ctx alloc k i ext r) = rt_options r"
  "rt_parked_workers (publish_ready ctx alloc k i ext r) = rt_parked_workers r"
  "rt_active_workers (publish_ready ctx alloc k i ext r) = rt_active_workers r"
  "rt_packed_status (publish_ready ctx alloc k i ext r) = rt_packed_status r"
  "rt_stop_requested (publish_ready ctx alloc k i ext r) = rt_stop_requested r"
  "rt_startup_done (publish_ready ctx alloc k i ext r) = rt_startup_done r"
  "rt_startup_failed (publish_ready ctx alloc k i ext r) = rt_startup_failed r"
  "has_timers (publish_ready ctx alloc k i ext r) = has_timers r"
  by (simp_all add: publish_ready_def bump_epoch_def Let_def has_timers_def split: prod.split)

lemma publish_ready_claimed:
  assumes "rq_inv (rt_ready r)" and "iv_priority i \<in> set named_priorities"
  shows "claimed (rt_ready (publish_ready ctx alloc k i ext r)) = claimed (rt_ready r)"
proof -
  define ul where "ul = (\<not> ext \<and> current_worker_impl ctx = Some k \<and> current_worker_runtime_id ctx = rt_id r \<and>
    current_worker_index ctx < length (local_queues (rt_ready r)))"
  obtain m q where p: "publish ctx alloc (Some i) ext ul (current_worker_index ctx) (rt_metrics r, rt_ready r) = (m, q)"
    by fastforce
  show ?thesis
    using publish_law [OF assms p] p by (simp add: publish_ready_def bump_epoch_def Let_def ul_def)
qed

lemma loop_inv_publish:
  assumes "loop_inv_beside x L sh ws pub" and "iv_priority i \<in> set named_priorities"
  shows "loop_inv_beside x L (on_runtime (publish_ready ctx alloc k i ext) sh) ws (pub @ [facts_of i])"
proof -
  have inv: "rq_inv (ls_ready sh)" using assms(1) by (simp add: loop_inv_beside_def)
  show ?thesis
    using assms publish_ready_law [OF inv assms(2), of ctx alloc k ext] publish_ready_claimed [OF inv assms(2), of ctx alloc k ext]
    by (simp add: loop_inv_beside_def stock_def burst_limit_def publish_ready_frame)
qed

section \<open>Every run keeps it\<close>

lemma cancel_all_unstarted_frame:
  assumes "cancel_all_unstarted r = (cs, r')" and "rq_inv (rt_ready r)"
  shows "rq_inv (rt_ready r') \<and> claimed (rt_ready r') = claimed (rt_ready r) \<and>
    rq_facts (rt_ready r) = mset (map facts_of cs) + rq_facts (rt_ready r') \<and> rt_options r' = rt_options r \<and>
    rt_parked_workers r' = rt_parked_workers r \<and> rt_active_workers r' = rt_active_workers r \<and>
    rt_timers r' = rt_timers r \<and> rt_packed_status r' = rt_packed_status r \<and> rt_stop_requested r' = rt_stop_requested r"
proof -
  obtain a q where c: "cancel_unstarted (shared_admission r) (rt_ready r) = (cs, a, q)" "r' = (store_admission a r)\<lparr>rt_ready := q\<rparr>"
    using assms(1) by (auto simp: cancel_all_unstarted_def split: prod.splits)
  show ?thesis
    using cancel_unstarted_law [OF assms(2) c(1)] by (simp add: c(2) store_admission_def)
qed

lemma timer_neutral:
  assumes "on_timers f r = (x, r')"
  shows "neutral (sh\<lparr>ls_runtime := r\<rparr>) (sh\<lparr>ls_runtime := r'\<rparr>)"
  by (subst on_timers_fields(1) [OF assms]) (simp add: neutral_def)

lemma register_timer_neutral: "neutral sh (on_runtime (\<lambda>r. snd (register_timer ctx tp hs act r)) sh)"
proof -
  obtain y r1 where o1: "on_timers (\<lambda>q. case timer_add ctx tp hs act q of (tid, earliest, q') \<Rightarrow> ((tid, earliest), q')) (ls_runtime sh) = (y, r1)"
    by fastforce
  show ?thesis
    using timer_neutral [OF o1, of sh] o1
    by (auto simp: register_timer_def neutral_def bump_epoch_def split: prod.split)
qed

lemma system_step_inv:
  assumes "sy_inv_beside x L s" and "system_step k s l t" and "0 < L"
  shows "sy_inv_beside x L t"
  using assms(2)
proof cases
  case (work i w inp w' sh t')
  have "loop_inv_beside x L sh ((sy_workers s)[i := w']) (sy_published s)"
    using loop_inv_work [OF assms(1) [unfolded sy_inv_beside_def]] work assms(3) by blast
  then show ?thesis
    using work loop_inv_broadcast by (cases "broadcasts (wk_pc w)") (simp_all add: sy_inv_beside_def broadcast_def)
next
  case (wake_up i)
  then show ?thesis
    using loop_inv_turn [OF assms(1) [unfolded sy_inv_beside_def], of i "wake (sy_workers s ! i)"] by (simp add: sy_inv_beside_def)
next
  case (time_out i w tp)
  then show ?thesis
    using loop_inv_turn [OF assms(1) [unfolded sy_inv_beside_def], of i "goto (Woken True) w"] timed_out_simps
    by (simp add: sy_inv_beside_def)
next
  case (notify i t')
  then show ?thesis
    using assms(1) loop_inv_turn [OF assms(1) [unfolded sy_inv_beside_def], of i "wake (sy_workers s ! i)"]
    by (auto simp: sy_inv_beside_def)
next
  case notify_all
  then show ?thesis
    using assms(1) loop_inv_broadcast by (simp add: sy_inv_beside_def broadcast_def)
next
  case (post_from i w iv t' alloc)
  then show ?thesis
    using loop_inv_publish [OF assms(1) [unfolded sy_inv_beside_def], of iv] by (simp add: sy_inv_beside_def on_sy_runtime_def)
next
  case (post_outside ctx ext iv t' alloc)
  then show ?thesis
    using loop_inv_publish [OF assms(1) [unfolded sy_inv_beside_def], of iv] by (simp add: sy_inv_beside_def on_sy_runtime_def)
next
  case (cleanup cs r sh)
  have inv: "loop_inv_beside x L (sy_shared s) (sy_workers s) (sy_published s)" using assms(1) by (simp add: sy_inv_beside_def)
  then have "rq_inv (rt_ready (sy_runtime s))" by (simp add: loop_inv_beside_def sy_runtime_def)
  from cancel_all_unstarted_frame [OF _ this, of cs r] cleanup
  have c: "rq_inv (rt_ready r) \<and> claimed (rt_ready r) = claimed (rt_ready (sy_runtime s)) \<and>
      rq_facts (rt_ready (sy_runtime s)) = mset (map facts_of cs) + rq_facts (rt_ready r) \<and>
      rt_options r = rt_options (sy_runtime s) \<and> rt_parked_workers r = rt_parked_workers (sy_runtime s) \<and>
      rt_active_workers r = rt_active_workers (sy_runtime s)" by simp
  let ?sh = "(sy_shared s)\<lparr>ls_runtime := r, ls_cancelled := ls_cancelled (sy_shared s) @ map facts_of cs\<rparr>"
  have "stock ?sh = stock (sy_shared s)" "burst_limit ?sh = burst_limit (sy_shared s)"
    using c by (simp_all add: stock_def burst_limit_def sy_runtime_def ac_simps)
  then have "loop_inv_beside x L ?sh (sy_workers s) (sy_published s)"
    using inv c by (simp add: loop_inv_beside_def sy_runtime_def)
  then show ?thesis
    using cleanup by (simp add: sy_inv_beside_def)
next
  case (cancel_timers sh ctx acts ws r)
  obtain ds where "on_timers (timer_cancel_all ctx) (ls_runtime sh) = (ds, r)"
    using cancel_timers by (auto simp: cancel_all_timers_def split: prod.splits)
  then have "neutral sh (sh\<lparr>ls_runtime := r, ls_words := ws, ls_fired := ls_fired sh @ acts\<rparr>)"
    using timer_neutral [of _ "ls_runtime sh" ds r sh] by (simp add: neutral_def)
  then show ?thesis
    using assms(1) cancel_timers loop_inv_neutral by (simp add: sy_inv_beside_def)
next
  case (timer_from i w t' tp hs act)
  then show ?thesis
    using assms(1) loop_inv_neutral [OF _ register_timer_neutral] by (simp add: sy_inv_beside_def on_sy_runtime_def)
next
  case (timer_outside ctx t' tp hs act)
  then show ?thesis
    using assms(1) loop_inv_neutral [OF _ register_timer_neutral] by (simp add: sy_inv_beside_def on_sy_runtime_def)
next
  case (timer_cancel ctx tid)
  obtain y r1 where "on_timers (\<lambda>q. ((), timer_cancel ctx tid q)) (ls_runtime (sy_shared s)) = (y, r1)" by (rule prod.exhaust)
  from timer_neutral [OF this, of "sy_shared s"] this
  have "neutral (sy_shared s) (on_runtime (cancel_timer ctx tid) (sy_shared s))"
    by (simp add: neutral_def cancel_timer_def)
  then show ?thesis
    using assms(1) timer_cancel loop_inv_neutral by (simp add: sy_inv_beside_def on_sy_runtime_def)
qed (use assms(1) in \<open>auto intro!: loop_inv_neutral [of x L "sy_shared s"] simp: sy_inv_beside_def on_sy_runtime_def neutral_def store_admission_def bump_epoch_def\<close>)

lemma sum_of_new:
  "worker_sum has_claim (map new_worker xs) = 0" "worker_sum holding (map new_worker xs) = 0"
  "worker_sum is_parked (map new_worker xs) = 0" "worker_sum awaiting (map new_worker xs) = {#}"
  "worker_sum is_active (map new_worker xs) = length xs"
  by (induction xs) (simp_all add: worker_sum_def worker_defs new_worker_def)

lemma fresh_inv:
  assumes "fresh_runtime n r"
  shows "sy_inv (unat (local_burst_limit (rt_options r))) (initial_system r n)" and "0 < n" and "0 < unat (local_burst_limit (rt_options r))"
proof -
  obtain i opts be where r: "r = new_runtime i opts be" "validate_options opts = Inr ()" "n = unat (worker_count opts)"
    using assms by (auto simp: fresh_runtime_def)
  have lim: "worker_count opts \<noteq> 0" "local_burst_limit opts \<noteq> 0"
    using r(2) by (auto simp: validate_options_def split: if_splits)
  then show "0 < n" "0 < unat (local_burst_limit (rt_options r))"
    by (simp_all add: r(1,3) new_runtime_def Let_def unat_gt_0)
  show "sy_inv (unat (local_burst_limit (rt_options r))) (initial_system r n)"
    using sum_of_new [of "[0..<n]"] \<open>0 < n\<close> rq_new
    by (auto simp: sy_inv_def loop_inv_def initial_system_def worker_ok_def new_worker_def burst_limit_def stock_def r(1) new_runtime_def Let_def new_ready_queues_def)
qed

lemma trace_sy_inv:
  assumes "fresh_runtime n r" and "system_trace k (initial_system r n) tr s"
  shows "sy_inv (unat (local_burst_limit (rt_options r))) s"
  using assms(2)
  by (induction rule: system_trace.induct) (auto intro: fresh_inv [OF assms(1)] system_step_inv)

end
