(* ===== verification/Worker_Drain.thy ===== *)
theory Worker_Drain
  imports Worker_Invariant
begin

text \<open>
  What a graceful stop achieves: when the workers have all left their loops, nothing is queued, no
  timer is pending, and every task published has been executed.
\<close>

section \<open>Graceful runs\<close>

text \<open>
  Runs in which the startup succeeds, the stop is graceful and comes after the startup, and no thread
  outside publishes a task or registers a timer once the stop flag is up.
\<close>

fun calm :: "loop_label \<Rightarrow> loop_system \<Rightarrow> bool" where
  "calm (Startup ok) s \<longleftrightarrow> ok"
| "calm (Status m) s \<longleftrightarrow> m \<noteq> Immediate"
| "calm Raise_stop s \<longleftrightarrow> rt_startup_done (sy_runtime s)"
| "calm (Post_outside ext) s \<longleftrightarrow> \<not> rt_stop_requested (sy_runtime s)"
| "calm Timer_outside s \<longleftrightarrow> \<not> rt_stop_requested (sy_runtime s)"
| "calm _ s \<longleftrightarrow> True"

inductive calm_trace :: "nat \<Rightarrow> loop_system \<Rightarrow> loop_system \<Rightarrow> bool" for k s0 where
  calm_start: "calm_trace k s0 s0"
| calm_step: "calm_trace k s0 s \<Longrightarrow> system_step k s l t \<Longrightarrow> calm l s \<Longrightarrow> calm_trace k s0 t"

section \<open>Workers that have seen nothing left\<close>

fun in_tail :: "loop_pc \<Rightarrow> bool" where
  "in_tail Test_tasks \<longleftrightarrow> True" | "in_tail (Test_timers a) \<longleftrightarrow> True" | "in_tail (Test_claimed a b) \<longleftrightarrow> True"
| "in_tail Exit_notify \<longleftrightarrow> True" | "in_tail Exit \<longleftrightarrow> True" | "in_tail Leave \<longleftrightarrow> True" | "in_tail Left \<longleftrightarrow> True"
| "in_tail _ \<longleftrightarrow> False"

fun past_tasks :: "loop_pc \<Rightarrow> bool" where
  "past_tasks (Test_timers a) \<longleftrightarrow> \<not> a" | "past_tasks (Test_claimed a b) \<longleftrightarrow> \<not> a"
| "past_tasks Exit_notify \<longleftrightarrow> True" | "past_tasks Exit \<longleftrightarrow> True" | "past_tasks Leave \<longleftrightarrow> True" | "past_tasks Left \<longleftrightarrow> True"
| "past_tasks _ \<longleftrightarrow> False"

fun past_timers :: "loop_pc \<Rightarrow> bool" where
  "past_timers (Test_claimed a b) \<longleftrightarrow> \<not> b"
| "past_timers Exit_notify \<longleftrightarrow> True" | "past_timers Exit \<longleftrightarrow> True" | "past_timers Leave \<longleftrightarrow> True" | "past_timers Left \<longleftrightarrow> True"
| "past_timers _ \<longleftrightarrow> False"

lemma past_in_tail: "past_tasks pc \<Longrightarrow> in_tail pc" "past_timers pc \<Longrightarrow> in_tail pc"
  by (cases pc; simp)+

definition going_on :: "loop_shared \<Rightarrow> bool" where
  "going_on sh \<longleftrightarrow> (let r = ls_runtime sh in \<not> rt_startup_failed r \<and> (rt_stop_requested r \<longrightarrow> rt_startup_done r) \<and>
     state (get_status r) \<noteq> Stopped \<and> shutdown_mode (get_status r) \<noteq> Immediate)"

lemma claimed_or_pc: "claimed_or a b p = (w', s') \<Longrightarrow> (wk_pc w' = a \<or> wk_pc w' = b) \<and> s' = snd p"
  by (auto simp: claimed_or_def split: prod.splits if_splits)

lemma cancelled_frames:
  "ls_cancelled (snd (loop_claim_local k al w s)) = ls_cancelled s" "ls_cancelled (snd (loop_claim_global k w s)) = ls_cancelled s"
  "ls_cancelled (snd (loop_probe k v w s)) = ls_cancelled s" "ls_cancelled (loop_timers ctx now s) = ls_cancelled s"
  "ls_cancelled (loop_metric ctx c s) = ls_cancelled s" "ls_cancelled (unpark_metrics ctx now w s) = ls_cancelled s"
  by (auto simp: loop_claim_local_def loop_claim_global_def loop_probe_def loop_timers_def loop_metric_def unpark_metrics_def Let_def
      split: prod.splits)

lemma free_step_tail:
  assumes "free_step k inp (wk_pc w) w s = Some (w', s')" and "going_on s"
  shows "(in_tail (wk_pc w') \<longrightarrow> in_tail (wk_pc w)) \<and> (past_tasks (wk_pc w') \<longrightarrow> past_tasks (wk_pc w)) \<and>
    (past_timers (wk_pc w') \<longrightarrow> past_timers (wk_pc w)) \<and> wk_pc w' \<noteq> Test_resumes \<and> ls_cancelled s' = ls_cancelled s"
proof (cases "wk_pc w")
  case First_local
  then show ?thesis
    using assms(1) by (auto simp: cancelled_frames split: if_splits dest!: claimed_or_pc)
next
  case Second_local
  then show ?thesis
    using assms(1) by (auto simp: cancelled_frames dest!: claimed_or_pc)
next
  case (Draw b)
  then show ?thesis
    using assms(1) by (auto simp: loop_draw_def Let_def split: prod.splits)
next
  case (Probe b vs)
  then show ?thesis
    using assms(1) by (cases vs) (auto simp: cancelled_frames split: if_splits dest!: claimed_or_pc)
next
  case Dispatch
  then show ?thesis
    using assms by (auto simp: going_on_def Let_def split: option.splits)
qed (use assms(1) in \<open>auto simp: cancelled_frames\<close>)

lemma lock_step_tail:
  assumes "lock_step k inp (wk_pc w) w s = Some (w', s')" and "going_on s"
  shows "\<not> in_tail (wk_pc w') \<and> \<not> past_tasks (wk_pc w') \<and> \<not> past_timers (wk_pc w') \<and> wk_pc w' \<noteq> Test_resumes \<and>
    ls_cancelled s' = ls_cancelled s"
proof (cases "wk_pc w")
  case Fence
  then show ?thesis
    using assms by (auto simp: going_on_def start_loop_def Let_def split: if_splits)
next
  case Take_global
  obtain w1 s1 where c: "loop_claim_global k w s = (w1, s1)" by (rule prod.exhaust)
  then have "ls_cancelled s1 = ls_cancelled s" using cancelled_frames(2) [of k w s] by simp
  then show ?thesis
    using assms(1) Take_global c by (auto split: if_splits)
qed (use assms(1) in \<open>auto simp: cancelled_frames\<close>)

lemma held_step_tail:
  assumes "held_step k inp (wk_pc w) w s = Some (w', s')" and "going_on s" and "wk_pc w \<noteq> Test_resumes"
  shows "(in_tail (wk_pc w') \<longrightarrow> in_tail (wk_pc w) \<or> rt_stop_requested (ls_runtime s)) \<and>
    (past_tasks (wk_pc w') \<longrightarrow> past_tasks (wk_pc w) \<or> \<not> any_queued_work (ls_ready s)) \<and>
    (past_timers (wk_pc w') \<longrightarrow> past_timers (wk_pc w) \<or> \<not> has_timers (ls_runtime s)) \<and>
    wk_pc w' \<noteq> Test_resumes \<and> ls_cancelled s' = ls_cancelled s"
proof (cases "wk_pc w")
  case Park_global
  then show ?thesis
    using assms(1) by (auto simp: cancelled_frames dest!: claimed_or_pc)
next
  case Park_local
  obtain w1 s1 where c: "loop_claim_local k (li_alloc inp) w s = (w1, s1)" by (rule prod.exhaust)
  then have "ls_cancelled s1 = ls_cancelled s" using cancelled_frames(1) [of k "li_alloc inp" w s] by simp
  then show ?thesis
    using assms(1) Park_local c by (auto split: if_splits)
next
  case Stop_test
  then show ?thesis
    using assms by (auto simp: going_on_def Let_def split: if_splits)
qed (use assms(1,3) in \<open>auto simp: cancelled_frames split: if_splits\<close>)

text \<open>What a step that takes a worker into its tail has seen.\<close>

lemma tail_step:
  assumes "loop_step k inp w s = Some (w', s')" and "going_on s" and "wk_pc w \<noteq> Test_resumes"
  shows "(in_tail (wk_pc w') \<longrightarrow> in_tail (wk_pc w) \<or> rt_stop_requested (ls_runtime s)) \<and>
    (past_tasks (wk_pc w') \<longrightarrow> past_tasks (wk_pc w) \<or> \<not> any_queued_work (ls_ready s)) \<and>
    (past_timers (wk_pc w') \<longrightarrow> past_timers (wk_pc w) \<or> \<not> has_timers (ls_runtime s)) \<and>
    wk_pc w' \<noteq> Test_resumes \<and> ls_cancelled s' = ls_cancelled s"
  using assms held_step_tail [of k inp w s w' s'] lock_step_tail [of k inp w s w' s'] free_step_tail [of k inp w s w' s']
  by (simp add: loop_step_def split: if_splits)

section \<open>The invariant of graceful runs\<close>

definition drain_inv :: "loop_system \<Rightarrow> bool" where
  "drain_inv s \<longleftrightarrow> (let r = sy_runtime s; ws = sy_workers s in
     \<not> rt_startup_failed r \<and> (rt_stop_requested r \<longrightarrow> rt_startup_done r) \<and> shutdown_mode (get_status r) \<noteq> Immediate \<and>
     (state (get_status r) = Stopped \<longrightarrow> (\<forall>w \<in> set ws. wk_pc w = Left)) \<and>
     (\<forall>w \<in> set ws. wk_pc w \<noteq> Test_resumes \<and> (in_tail (wk_pc w) \<longrightarrow> rt_stop_requested r)) \<and>
     ls_cancelled (sy_shared s) = [] \<and> ws \<noteq> [] \<and>
     (rq_facts (rt_ready r) \<noteq> {#} \<longrightarrow> (\<exists>w \<in> set ws. \<not> past_tasks (wk_pc w))) \<and>
     (has_timers r \<longrightarrow> (\<exists>w \<in> set ws. \<not> past_timers (wk_pc w))))"

lemma wake_pc [simp]: "in_tail (wk_pc (wake w)) = in_tail (wk_pc w)" "past_tasks (wk_pc (wake w)) = past_tasks (wk_pc w)"
  "past_timers (wk_pc (wake w)) = past_timers (wk_pc w)" "wk_pc (wake w) = Left \<longleftrightarrow> wk_pc w = Left"
  "wk_pc (wake w) = Test_resumes \<longleftrightarrow> wk_pc w = Test_resumes"
  by (simp_all add: wake_def)

lemma ball_update: "(\<forall>v \<in> set ws. P v) \<Longrightarrow> P w \<Longrightarrow> \<forall>v \<in> set (ws[i := w]). P v"
  using set_update_subset_insert [of ws i w] by blast

lemma bex_update:
  assumes "\<exists>v \<in> set ws. P v" and "i < length ws" and "P (ws ! i) \<Longrightarrow> P w"
  shows "\<exists>v \<in> set (ws[i := w]). P v"
proof -
  obtain j where j: "j < length ws" "P (ws ! j)" using assms(1) by (auto simp: in_set_conv_nth)
  then have "P (ws[i := w] ! j)" using assms(2,3) by (cases "j = i") simp_all
  with j(1) show ?thesis by (metis length_list_update nth_mem)
qed

lemma rq_facts_work: "rq_inv q \<Longrightarrow> any_queued_work q \<longleftrightarrow> rq_facts q \<noteq> {#}"
  by (simp add: any_queued_work_iff rq_facts_def)

text \<open>Changing one worker into one with the same tests, or all of them.\<close>

lemma drain_turn:
  assumes "drain_inv s" and "i < length (sy_workers s)"
    and "in_tail (wk_pc w) = in_tail (wk_pc (sy_workers s ! i))" "past_tasks (wk_pc w) = past_tasks (wk_pc (sy_workers s ! i))"
    "past_timers (wk_pc w) = past_timers (wk_pc (sy_workers s ! i))" "wk_pc w \<noteq> Test_resumes"
    "wk_pc (sy_workers s ! i) = Left \<Longrightarrow> wk_pc w = Left"
  shows "drain_inv (s\<lparr>sy_workers := (sy_workers s)[i := w]\<rparr>)"
proof -
  let ?ws = "(sy_workers s)[i := w]"
  have mem: "sy_workers s ! i \<in> set (sy_workers s)" using assms(2) by simp
  have d: "\<forall>v \<in> set (sy_workers s). wk_pc v \<noteq> Test_resumes \<and> (in_tail (wk_pc v) \<longrightarrow> rt_stop_requested (sy_runtime s))"
    "state (get_status (sy_runtime s)) = Stopped \<Longrightarrow> \<forall>v \<in> set (sy_workers s). wk_pc v = Left"
    "rq_facts (rt_ready (sy_runtime s)) \<noteq> {#} \<Longrightarrow> \<exists>v \<in> set (sy_workers s). \<not> past_tasks (wk_pc v)"
    "has_timers (sy_runtime s) \<Longrightarrow> \<exists>v \<in> set (sy_workers s). \<not> past_timers (wk_pc v)"
    using assms(1) unfolding drain_inv_def Let_def by blast+
  have "\<forall>v \<in> set ?ws. wk_pc v \<noteq> Test_resumes \<and> (in_tail (wk_pc v) \<longrightarrow> rt_stop_requested (sy_runtime s))"
    by (rule ball_update [OF d(1)]) (use d(1) mem assms(3,6) in auto)
  moreover have "\<forall>v \<in> set ?ws. wk_pc v = Left" if "state (get_status (sy_runtime s)) = Stopped"
    by (rule ball_update [OF d(2) [OF that]]) (use d(2) [OF that] mem assms(7) in auto)
  moreover have "\<exists>v \<in> set ?ws. \<not> past_tasks (wk_pc v)" if "rq_facts (rt_ready (sy_runtime s)) \<noteq> {#}"
    by (rule bex_update [OF d(3) [OF that] assms(2)]) (use assms(4) in simp)
  moreover have "\<exists>v \<in> set ?ws. \<not> past_timers (wk_pc v)" if "has_timers (sy_runtime s)"
    by (rule bex_update [OF d(4) [OF that] assms(2)]) (use assms(5) in simp)
  moreover have "sy_runtime (s\<lparr>sy_workers := ?ws\<rparr>) = sy_runtime s" "sy_shared (s\<lparr>sy_workers := ?ws\<rparr>) = sy_shared s"
    "sy_workers (s\<lparr>sy_workers := ?ws\<rparr>) = ?ws" "?ws \<noteq> []"
    using assms(2) by (auto simp: sy_runtime_def)
  ultimately show ?thesis
    using assms(1) unfolding drain_inv_def Let_def by presburger
qed

lemma drain_broadcast: "drain_inv s \<Longrightarrow> drain_inv (broadcast s)"
  by (simp add: drain_inv_def broadcast_def sy_runtime_def Let_def) blast

text \<open>Changing the runtime.\<close>

lemma drain_runtime:
  assumes "drain_inv s" and "sy_workers t = sy_workers s" and "ls_cancelled (sy_shared t) = ls_cancelled (sy_shared s)"
    and "rt_startup_failed (sy_runtime t) = rt_startup_failed (sy_runtime s)"
    and "rt_stop_requested (sy_runtime t) \<longrightarrow> rt_startup_done (sy_runtime t)"
    and "rt_stop_requested (sy_runtime s) \<longrightarrow> rt_stop_requested (sy_runtime t)"
    and "shutdown_mode (get_status (sy_runtime t)) \<noteq> Immediate"
    and "state (get_status (sy_runtime t)) = Stopped \<longrightarrow> (\<forall>w \<in> set (sy_workers s). wk_pc w = Left)"
    and "rq_facts (rt_ready (sy_runtime t)) \<noteq> {#} \<longrightarrow>
       rq_facts (rt_ready (sy_runtime s)) \<noteq> {#} \<or> (\<exists>w \<in> set (sy_workers s). \<not> past_tasks (wk_pc w))"
    and "has_timers (sy_runtime t) \<longrightarrow> has_timers (sy_runtime s) \<or> (\<exists>w \<in> set (sy_workers s). \<not> past_timers (wk_pc w))"
  shows "drain_inv t"
proof -
  have d: "\<forall>w \<in> set (sy_workers s). wk_pc w \<noteq> Test_resumes \<and> (in_tail (wk_pc w) \<longrightarrow> rt_stop_requested (sy_runtime s))"
    "\<not> rt_startup_failed (sy_runtime s)" "ls_cancelled (sy_shared s) = []" "sy_workers s \<noteq> []"
    "rq_facts (rt_ready (sy_runtime s)) \<noteq> {#} \<longrightarrow> (\<exists>w \<in> set (sy_workers s). \<not> past_tasks (wk_pc w))"
    "has_timers (sy_runtime s) \<longrightarrow> (\<exists>w \<in> set (sy_workers s). \<not> past_timers (wk_pc w))"
    using assms(1) unfolding drain_inv_def Let_def by blast+
  then show ?thesis
    unfolding drain_inv_def Let_def assms(2,3,4) using assms(5-10) by (intro conjI) blast+
qed

lemma drain_work:
  assumes inv: "drain_inv s" and sy: "sy_inv L s" and L: "0 < L" and i: "i < length (sy_workers s)"
    and st: "loop_step k inp (sy_workers s ! i) (sy_shared s) = Some (w', sh)"
  shows "drain_inv (s\<lparr>sy_shared := sh, sy_workers := (sy_workers s)[i := w']\<rparr>)"
proof -
  let ?w = "sy_workers s ! i" and ?ws = "(sy_workers s)[i := w']"
  have mem: "?w \<in> set (sy_workers s)" using i by simp
  note d = loop_invD [OF sy [unfolded sy_inv_def] i]
  have e: "step_effect ?w (sy_shared s) w' sh"
    using loop_step_effect [OF st] d L by simp
  have set': "settings sh = settings (sy_shared s)" using e by (simp add: step_effect_def)
  have left: "wk_pc ?w \<noteq> Left" using st by (auto simp: loop_step_def)
  have D: "\<forall>v \<in> set (sy_workers s). wk_pc v \<noteq> Test_resumes \<and> (in_tail (wk_pc v) \<longrightarrow> rt_stop_requested (sy_runtime s))"
    "state (get_status (sy_runtime s)) = Stopped \<Longrightarrow> \<forall>v \<in> set (sy_workers s). wk_pc v = Left"
    "rq_facts (rt_ready (sy_runtime s)) \<noteq> {#} \<Longrightarrow> \<exists>v \<in> set (sy_workers s). \<not> past_tasks (wk_pc v)"
    "has_timers (sy_runtime s) \<Longrightarrow> \<exists>v \<in> set (sy_workers s). \<not> past_timers (wk_pc v)"
    "\<not> rt_startup_failed (sy_runtime s)" "rt_stop_requested (sy_runtime s) \<longrightarrow> rt_startup_done (sy_runtime s)"
    "shutdown_mode (get_status (sy_runtime s)) \<noteq> Immediate" "ls_cancelled (sy_shared s) = []"
    using inv unfolding drain_inv_def Let_def by blast+
  have ns: "state (get_status (sy_runtime s)) \<noteq> Stopped" using D(2) left mem by blast
  then have "going_on (sy_shared s)" using D by (simp add: going_on_def Let_def sy_runtime_def)
  note t = tail_step [OF st this bspec [OF D(1) mem, THEN conjunct1]]
  have r: "rt_startup_failed (ls_runtime sh) = rt_startup_failed (sy_runtime s)" "rt_startup_done (ls_runtime sh) = rt_startup_done (sy_runtime s)"
    "rt_stop_requested (ls_runtime sh) = rt_stop_requested (sy_runtime s)" "get_status (ls_runtime sh) = get_status (sy_runtime s)"
    using set' by (simp_all add: settings_def Let_def sy_runtime_def get_status_def)
  have "\<forall>v \<in> set ?ws. wk_pc v \<noteq> Test_resumes \<and> (in_tail (wk_pc v) \<longrightarrow> rt_stop_requested (sy_runtime s))"
    by (rule ball_update [OF D(1)]) (use D(1) mem t in \<open>auto simp: sy_runtime_def\<close>)
  moreover have "\<exists>v \<in> set ?ws. \<not> past_tasks (wk_pc v)" if q: "rq_facts (ls_ready sh) \<noteq> {#}"
  proof -
    have "rq_facts (ls_ready (sy_shared s)) \<noteq> {#}" using q e by (auto simp: step_effect_def)
    moreover from this have "any_queued_work (ls_ready (sy_shared s))" using rq_facts_work [OF d(3)] by simp
    ultimately show ?thesis
      using bex_update [OF D(3) i, of w'] t by (auto simp: sy_runtime_def)
  qed
  moreover have "\<exists>v \<in> set ?ws. \<not> past_timers (wk_pc v)" if q: "has_timers (ls_runtime sh)"
  proof -
    have "has_timers (ls_runtime (sy_shared s))" using q e by (auto simp: step_effect_def)
    then show ?thesis
      using bex_update [OF D(4) i, of w'] t by (auto simp: sy_runtime_def)
  qed
  moreover have "?ws \<noteq> []" "ls_cancelled sh = []" using i t D(8) by auto
  ultimately show ?thesis
    using ns D(5-7) r unfolding drain_inv_def Let_def by (simp add: sy_runtime_def)
qed

lemma length_heap_bubble_up [simp]: "length (tq_heap (bubble_up i q)) = length (tq_heap q)"
  by (induction i q rule: bubble_up.induct) (subst bubble_up.simps, simp)

lemma cancel_keeps_empty: "tq_heap q = [] \<Longrightarrow> tq_heap (timer_cancel ctx tid q) = []"
  by (auto simp: timer_cancel_def Let_def simp flip: length_0_conv split: option.split)

lemma cancel_timer_frame:
  "has_timers (cancel_timer ctx tid r) \<Longrightarrow> has_timers r" "rt_ready (cancel_timer ctx tid r) = rt_ready r"
  "rt_startup_failed (cancel_timer ctx tid r) = rt_startup_failed r" "rt_startup_done (cancel_timer ctx tid r) = rt_startup_done r"
  "rt_stop_requested (cancel_timer ctx tid r) = rt_stop_requested r" "rt_packed_status (cancel_timer ctx tid r) = rt_packed_status r"
  using cancel_keeps_empty [of "(rt_timers r)\<lparr>tq_metrics := rt_metrics r\<rparr>" ctx tid]
  by (auto simp: cancel_timer_def on_timers_def has_timers_def timers_empty_def)

lemma register_timer_frame:
  "rt_ready (snd (register_timer ctx tp hs act r)) = rt_ready r"
  "rt_startup_failed (snd (register_timer ctx tp hs act r)) = rt_startup_failed r"
  "rt_startup_done (snd (register_timer ctx tp hs act r)) = rt_startup_done r"
  "rt_stop_requested (snd (register_timer ctx tp hs act r)) = rt_stop_requested r"
  "rt_packed_status (snd (register_timer ctx tp hs act r)) = rt_packed_status r"
  by (auto simp: register_timer_def on_timers_def bump_epoch_def split: prod.split)

lemma shutdown_word_calm:
  assumes "shutdown_word m v = Some v'" and "m \<noteq> Immediate" and "m \<in> {Graceful, Immediate}"
  shows "shutdown_mode (unpack v') = m \<and> state (unpack v') = Stopping"
  using assms by (auto simp: shutdown_word_def Let_def unpack_pack named_state_def named_mode_def split: if_splits)

lemma mode_kept: "shutdown_mode (unpack (pack st (shutdown_mode (unpack v)))) = shutdown_mode (unpack v)"
proof -
  have "shutdown_mode (unpack (pack a m)) = shutdown_mode (unpack (pack b m))" for a b m
    by (simp add: unpack_def packed_low_byte)
  from this [of st "shutdown_mode (unpack v)" "state (unpack v)"] show ?thesis by (simp add: pack_unpack)
qed

lemma drain_step:
  assumes inv: "drain_inv s" and sy: "sy_inv L s" and L: "0 < L" and st: "system_step k s l t" and calm: "calm l s"
  shows "drain_inv t"
proof -
  have D: "rt_stop_requested (sy_runtime s) \<longrightarrow> rt_startup_done (sy_runtime s)" "shutdown_mode (get_status (sy_runtime s)) \<noteq> Immediate"
    "state (get_status (sy_runtime s)) = Stopped \<longrightarrow> (\<forall>w \<in> set (sy_workers s). wk_pc w = Left)" "sy_workers s \<noteq> []"
    "\<forall>w \<in> set (sy_workers s). wk_pc w \<noteq> Test_resumes \<and> (in_tail (wk_pc w) \<longrightarrow> rt_stop_requested (sy_runtime s))"
    using inv unfolding drain_inv_def Let_def by blast+
  have out: "\<exists>w \<in> set (sy_workers s). \<not> past_tasks (wk_pc w) \<and> \<not> past_timers (wk_pc w)" if "\<not> rt_stop_requested (sy_runtime s)"
    using D(4,5) that past_in_tail by (metis list.set_intros(1) neq_Nil_conv)
  have from_body: "\<exists>v \<in> set (sy_workers s). \<not> past_tasks (wk_pc v) \<and> \<not> past_timers (wk_pc v)"
    if "i < length (sy_workers s)" "wk_pc (sy_workers s ! i) = Body" for i
    by (rule bexI [OF _ nth_mem [OF that(1)]]) (simp add: that(2))
  note rt = drain_runtime [OF inv]
  show ?thesis
    using st
  proof cases
    case (work i w inp w' sh t')
    then show ?thesis
      using drain_work [OF inv sy L] drain_broadcast by (cases "broadcasts (wk_pc w)") simp_all
  next
    case (wake_up i)
    then show ?thesis
      using drain_turn [OF inv, of i "wake (sy_workers s ! i)"] D(5) by (auto simp: wake_def)
  next
    case (time_out i w tp)
    then show ?thesis
      using drain_turn [OF inv, of i "goto (Woken True) w"] by auto
  next
    case (notify i t')
    have d: "drain_inv t'"
      using inv notify by (simp add: drain_inv_def sy_runtime_def)
    have "drain_inv (t'\<lparr>sy_workers := (sy_workers t')[i := wake (sy_workers t' ! i)]\<rparr>)" if "i < length (sy_workers t')"
      using drain_turn [OF d that, of "wake (sy_workers t' ! i)"] D(5) that notify by (auto simp: wake_def)
    then show ?thesis using notify d by simp
  next
    case notify_all
    then show ?thesis using drain_broadcast [OF inv] by simp
  next
    case (post_from i w iv t' alloc)
    then show ?thesis
      using from_body D by (intro rt) (auto simp: sy_runtime_def on_sy_runtime_def publish_ready_frame get_status_def)
  next
    case (post_outside ctx ext iv t' alloc)
    then show ?thesis
      using out calm D by (intro rt) (auto simp: sy_runtime_def on_sy_runtime_def publish_ready_frame get_status_def)
  next
    case (timer_from i w t' tp hs act)
    then show ?thesis
      using from_body D by (intro rt) (auto simp: sy_runtime_def on_sy_runtime_def register_timer_frame get_status_def)
  next
    case (timer_outside ctx t' tp hs act)
    then show ?thesis
      using out calm D by (intro rt) (auto simp: sy_runtime_def on_sy_runtime_def register_timer_frame get_status_def)
  next
    case (timer_cancel ctx tid)
    then show ?thesis
      using D by (intro rt) (auto simp: sy_runtime_def on_sy_runtime_def cancel_timer_frame get_status_def)
  next
    case (status m v)
    have v: "shutdown_mode (unpack v) \<noteq> Immediate" "state (unpack v) \<noteq> Stopped"
      using status calm shutdown_word_calm [of m "rt_packed_status (sy_runtime s)" v] by auto
    have "sy_runtime t = (bump_epoch (sy_runtime s))\<lparr>rt_packed_status := v\<rparr>" "sy_workers t = sy_workers s"
      "ls_cancelled (sy_shared t) = ls_cancelled (sy_shared s)"
      using status by (simp_all add: sy_runtime_def on_sy_runtime_def)
    then show ?thesis
      using D(1) v by (intro rt) (simp_all add: bump_epoch_def get_status_def has_timers_def)
  next
    case cleanup
    then show ?thesis using D(2) by simp
  next
    case cancel_timers
    then show ?thesis using D(2) by simp
  next
    case publish_stopped
    have "sy_runtime t = (sy_runtime s)\<lparr>rt_packed_status := pack Stopped (shutdown_mode (unpack (rt_packed_status (sy_runtime s))))\<rparr>"
      "sy_workers t = sy_workers s" "ls_cancelled (sy_shared t) = ls_cancelled (sy_shared s)"
      using publish_stopped by (simp_all add: sy_runtime_def on_sy_runtime_def)
    then show ?thesis
      using D publish_stopped by (intro rt) (simp_all add: get_status_def has_timers_def mode_kept)
  next
    case (admit ctx block now a)
    then show ?thesis
      using D by (intro rt) (auto simp: sy_runtime_def on_sy_runtime_def store_admission_def has_timers_def get_status_def)
  qed (use D calm in \<open>(intro rt; simp add: sy_runtime_def on_sy_runtime_def get_status_def has_timers_def)+\<close>)
qed

lemma drain_initial: "fresh_runtime n r \<Longrightarrow> drain_inv (initial_system r n)"
  using fresh_inv(2) [of n r]
  by (auto simp: fresh_runtime_def drain_inv_def initial_system_def sy_runtime_def new_runtime_def Let_def new_worker_def
      get_status_def unpack_pack named_state_def named_mode_def)

lemma calm_trace_inv:
  assumes "fresh_runtime n r" and "calm_trace k (initial_system r n) s"
  shows "sy_inv (unat (local_burst_limit (rt_options r))) s \<and> drain_inv s"
  using assms(2)
proof (induction rule: calm_trace.induct)
  case calm_start
  show ?case using fresh_inv(1) [OF assms(1)] drain_initial [OF assms(1)] by simp
next
  case (calm_step s l t)
  then show ?case
    using system_step_inv drain_step fresh_inv(3) [OF assms(1)] by blast
qed

end
