(* ===== verification/Worker_Claims.thy ===== *)
theory Worker_Claims
  imports Worker_Drain
begin

text \<open>The properties of the worker loop.\<close>

section \<open>What is conserved and counted\<close>

text \<open>C3: Whatever the interleaving of the workers with everything else, no task is lost, executed twice
  or both executed and cancelled: the tasks published are exactly those executed, those cancelled, those
  still queued and those a worker has claimed but not yet begun or cancelled, each once; and the number
  of unfinished claims that the stop tests read is the number of workers that hold a task.\<close>

theorem worker_tasks_settled_once:
  assumes "fresh_runtime n r" and "system_trace k (initial_system r n) tr s"
  shows "mset (sy_published s) = mset (ls_executed (sy_shared s)) + mset (ls_cancelled (sy_shared s)) +
      rq_facts (rt_ready (sy_runtime s)) + (\<Sum>w \<leftarrow> sy_workers s. awaiting w) \<and>
    claimed (rt_ready (sy_runtime s)) = length (filter (\<lambda>w. wk_task w \<noteq> None) (sy_workers s))"
proof -
  note inv = trace_sy_inv [OF assms]
  have "worker_sum has_claim ws = length (filter (\<lambda>w. wk_task w \<noteq> None) ws)" for ws
    by (induction ws) (simp_all add: worker_sum_def has_claim_def)
  then show ?thesis
    using inv by (simp add: sy_inv_def loop_inv_def stock_def sy_runtime_def worker_sum_def)
qed

text \<open>C13: At most one worker is ever inside a critical section of \<open>lifecycle_mutex\<close>; the counter of parked
  workers, which the snapshots show, and the counter of active workers are exact in every state; and the
  reaper is told to join exactly once, when the last worker has left.\<close>

theorem worker_counters_exact:
  assumes "fresh_runtime n r" and "system_trace k (initial_system r n) tr s"
  shows "length (filter (\<lambda>w. holds_lock (wk_pc w)) (sy_workers s)) = of_bool (ls_mutex (sy_shared s)) \<and>
    rt_parked_workers (sy_runtime s) = length (filter (\<lambda>w. parked_pc (wk_pc w)) (sy_workers s)) \<and>
    rt_active_workers (sy_runtime s) = length (filter (\<lambda>w. wk_pc w \<noteq> Left) (sy_workers s)) \<and>
    ls_join_ready (sy_shared s) = of_bool (\<forall>w \<in> set (sy_workers s). wk_pc w = Left)"
proof -
  note inv = trace_sy_inv [OF assms]
  have "worker_sum holding ws = length (filter (\<lambda>w. holds_lock (wk_pc w)) ws)"
    "worker_sum is_parked ws = length (filter (\<lambda>w. parked_pc (wk_pc w)) ws)"
    "worker_sum is_active ws = length (filter (\<lambda>w. wk_pc w \<noteq> Left) ws)" for ws
    by (induction ws) (simp_all add: worker_sum_def worker_defs)
  then show ?thesis
    using inv by (simp add: sy_inv_def loop_inv_def sy_runtime_def filter_empty_conv)
qed

section \<open>The local burst\<close>

text \<open>
  A part of a run in which worker \<open>i\<close> does not look at the global queue, with the number of tasks it
  claims from its own.
\<close>

definition claims_locally :: "nat \<Rightarrow> loop_label \<Rightarrow> loop_system \<Rightarrow> loop_system \<Rightarrow> bool" where
  "claims_locally i l s t \<longleftrightarrow> l = Work i \<and> wk_pc (sy_workers s ! i) \<in> {First_local, Second_local, Park_local} \<and>
     wk_task (sy_workers t ! i) \<noteq> None"

inductive local_stretch :: "nat \<Rightarrow> nat \<Rightarrow> loop_system \<Rightarrow> nat \<Rightarrow> loop_system \<Rightarrow> bool" for k i s0 where
  stretch_start: "local_stretch k i s0 0 s0"
| stretch_step: "local_stretch k i s0 m s \<Longrightarrow> system_step k s l t \<Longrightarrow>
    (l = Work i \<Longrightarrow> wk_pc (sy_workers s ! i) \<notin> {Take_global, Park_global}) \<Longrightarrow>
    local_stretch k i s0 (m + of_bool (claims_locally i l s t)) t"

fun unclaimed_pc :: "loop_pc \<Rightarrow> bool" where
  "unclaimed_pc Enter \<longleftrightarrow> True" | "unclaimed_pc Fence \<longleftrightarrow> True" | "unclaimed_pc Second_local \<longleftrightarrow> True"
| "unclaimed_pc pc \<longleftrightarrow> searching pc"

definition stretch_ok :: "nat \<Rightarrow> worker \<Rightarrow> bool" where
  "stretch_ok m w \<longleftrightarrow> m \<le> wk_consecutive w \<and> (unclaimed_pc (wk_pc w) \<longrightarrow> m = 0)"

lemma local_claim_locals: "loop_claim_local k al w s = (w', s') \<Longrightarrow>
    wk_consecutive w' = (if wk_task w' = None then wk_consecutive w else wk_consecutive w + 1)"
  by (auto simp: loop_claim_local_def Let_def split: prod.splits)

lemma stretch_work:
  assumes st: "loop_step k inp w s = Some (w', s')" and ok: "stretch_ok m w" and pc: "wk_pc w \<notin> {Take_global, Park_global}"
    and task: "wk_pc w \<in> {First_local, Second_local, Park_local} \<longrightarrow> wk_task w = None"
  shows "stretch_ok (m + of_bool (wk_pc w \<in> {First_local, Second_local, Park_local} \<and> wk_task w' \<noteq> None)) w'"
proof (cases "wk_pc w")
  case First_local
  obtain w1 s1 where c: "loop_claim_local k (li_alloc inp) w s = (w1, s1)" by (rule prod.exhaust)
  show ?thesis
    using st ok First_local local_claim_locals [OF c] c task
    by (auto simp: loop_step_def claimed_or_def stretch_ok_def split: if_splits)
next
  case Second_local
  obtain w1 s1 where c: "loop_claim_local k (li_alloc inp) w s = (w1, s1)" by (rule prod.exhaust)
  show ?thesis
    using st ok Second_local local_claim_locals [OF c] c
    by (auto simp: loop_step_def claimed_or_def stretch_ok_def split: if_splits)
next
  case Park_local
  obtain w1 s1 where c: "loop_claim_local k (li_alloc inp) w s = (w1, s1)" by (rule prod.exhaust)
  show ?thesis
    using st ok Park_local local_claim_locals [OF c] c
    by (auto simp: loop_step_def stretch_ok_def split: if_splits)
next
  case (Draw b)
  then show ?thesis
    using st ok by (auto simp: loop_step_def stretch_ok_def loop_draw_def Let_def split: prod.splits)
next
  case (Probe b vs)
  then show ?thesis
    using st ok by (cases vs) (auto simp: loop_step_def stretch_ok_def loop_probe_def claimed_or_def Let_def split: prod.splits if_splits)
next
  case Fence
  then show ?thesis
    using st ok by (auto simp: loop_step_def stretch_ok_def start_loop_def Let_def split: if_splits)
next
  case Stop_test
  then show ?thesis
    using st ok by (auto simp: loop_step_def stretch_ok_def Let_def split: if_splits)
qed (use st ok pc in \<open>auto simp: loop_step_def stretch_ok_def split: if_splits option.splits\<close>)

lemma stretch_wake: "stretch_ok m (wake w) = stretch_ok m w" "wk_pc w = Blocked \<Longrightarrow> stretch_ok m w \<Longrightarrow> stretch_ok m (goto (Woken True) w)"
  by (simp_all add: stretch_ok_def wake_def)

text \<open>What any step does to worker \<open>i\<close>: its own step, or nothing but a wake-up.\<close>

lemma step_on_worker:
  assumes "system_step k s l t" and "i < length (sy_workers s)"
  shows "length (sy_workers t) = length (sy_workers s) \<and>
    (if l = Work i then \<exists>inp w' sh. loop_step k inp (sy_workers s ! i) (sy_shared s) = Some (w', sh) \<and> sy_workers t ! i \<in> {w', wake w'}
     else sy_workers t ! i \<in> {sy_workers s ! i, wake (sy_workers s ! i)} \<or>
       wk_pc (sy_workers s ! i) = Blocked \<and> sy_workers t ! i = goto (Woken True) (sy_workers s ! i))"
  using assms(1)
proof cases
  case (work j w inp w' sh t')
  then show ?thesis
    using assms(2) by (cases "j = i"; cases "broadcasts (wk_pc w)") (auto simp: broadcast_def)
next
  case (wake_up j)
  then show ?thesis using assms(2) by (cases "j = i") auto
next
  case (time_out j w tp)
  then show ?thesis using assms(2) by (cases "j = i") auto
next
  case (notify j t')
  then show ?thesis using assms(2) by (cases "j < length (sy_workers s)"; cases "j = i") auto
qed (use assms(2) in \<open>auto simp: broadcast_def on_sy_runtime_def\<close>)

lemma stretch_inv:
  assumes "fresh_runtime n r" and "system_trace k (initial_system r n) tr s0" and "i < n"
    and "local_stretch k i s0 m s" and "length (sy_workers s0) = n"
  shows "length (sy_workers s) = n \<and> (\<exists>tr'. system_trace k (initial_system r n) tr' s) \<and> stretch_ok m (sy_workers s ! i)"
  using assms(4)
proof (induction rule: local_stretch.induct)
  case stretch_start
  then show ?case using assms(2,5) by (auto simp: stretch_ok_def)
next
  case (stretch_step m s l t)
  then obtain tr' where tr: "system_trace k (initial_system r n) tr' s" and len: "length (sy_workers s) = n"
    and ok: "stretch_ok m (sy_workers s ! i)" by blast
  have i: "i < length (sy_workers s)" using assms(3) len by simp
  note on = step_on_worker [OF stretch_step.hyps(2) i]
  have "worker_ok (unat (local_burst_limit (rt_options r))) (sy_workers s ! i)"
    using trace_sy_inv [OF assms(1) tr] i by (simp add: sy_inv_def loop_inv_def)
  then have task: "wk_pc (sy_workers s ! i) \<in> {First_local, Second_local, Park_local} \<longrightarrow> wk_task (sy_workers s ! i) = None"
    by (auto simp: worker_ok_def)
  have "stretch_ok (m + of_bool (claims_locally i l s t)) (sy_workers t ! i)"
  proof (cases "l = Work i")
    case True
    then obtain inp w' sh where w: "loop_step k inp (sy_workers s ! i) (sy_shared s) = Some (w', sh)" "sy_workers t ! i \<in> {w', wake w'}"
      using on by auto
    have "wk_task (sy_workers t ! i) = wk_task w'" using w(2) by (auto simp: wake_def)
    then show ?thesis
      using stretch_work [OF w(1) ok _ task] stretch_step.hyps(3) [OF True] w(2) True stretch_wake(1)
      by (auto simp: claims_locally_def)
  next
    case False
    then show ?thesis
      using on ok stretch_wake by (auto simp: claims_locally_def)
  qed
  then show ?case using on len trace_snoc [OF tr stretch_step.hyps(2)] by auto
qed

text \<open>C28: A worker cannot starve the global queue with its own: in any part of a run in which it does not
  look at the global queue it claims at most \<open>local_burst_limit\<close> tasks from its local queue.\<close>

theorem local_burst_bounded:
  assumes "fresh_runtime n r" and "system_trace k (initial_system r n) tr s0" and "i < n"
    and "local_stretch k i s0 m s"
  shows "m \<le> unat (local_burst_limit (rt_options r))"
proof -
  have len: "length (sy_workers t) = n" if "system_trace k (initial_system r n) tr t" for tr t
    using that
  proof (induction rule: system_trace.induct)
    case trace_start
    show ?case by (simp add: initial_system_def)
  next
    case (trace_snoc tr s l t)
    then show ?case using step_on_worker [OF trace_snoc.hyps(2), of 0] fresh_inv(2) [OF assms(1)] by simp
  qed
  obtain tr' where t: "length (sy_workers s) = n" "system_trace k (initial_system r n) tr' s" "stretch_ok m (sy_workers s ! i)"
    using stretch_inv [OF assms(1-4) len [OF assms(2)]] by blast
  have "worker_ok (unat (local_burst_limit (rt_options r))) (sy_workers s ! i)"
    using trace_sy_inv [OF assms(1) t(2)] t(1) assms(3) by (simp add: sy_inv_def loop_inv_def)
  then show ?thesis
    using t(3) by (auto simp: worker_ok_def stretch_ok_def)
qed

section \<open>The graceful stop\<close>

lemma worker_sum_0: "(\<And>w. w \<in> set ws \<Longrightarrow> f w = 0) \<Longrightarrow> worker_sum f ws = (0 :: 'a :: comm_monoid_add)"
  by (induction ws) (simp_all add: worker_sum_def)


section \<open>Concrete runs\<close>

text \<open>The clock stands still and allocations succeed.\<close>

datatype sys_move = Go nat nat | Do_notify | Do_post TaskInvoker | Do_spawn nat TaskInvoker | Do_admit | Do_start | Do_status ShutdownMode | Do_stop | Do_stopped

definition quiet_input :: loop_input where
  "quiet_input = \<lparr>li_now = 0, li_alloc = True\<rparr>"

fun go_on :: "nat \<Rightarrow> nat \<Rightarrow> nat \<Rightarrow> loop_system \<Rightarrow> (loop_label list \<times> loop_system) option" where
  "go_on k i 0 s = Some ([], s)"
| "go_on k i (Suc m) s =
     (if i < length (sy_workers s) then
        (case loop_step k quiet_input (sy_workers s ! i) (sy_shared s) of
           None \<Rightarrow> None
         | Some (w', sh) \<Rightarrow>
             (let t = s\<lparr>sy_shared := sh, sy_workers := (sy_workers s)[i := w']\<rparr>
              in case go_on k i m (if broadcasts (wk_pc (sy_workers s ! i)) then broadcast t else t) of
                   None \<Rightarrow> None | Some (ls, u) \<Rightarrow> Some (Work i # ls, u)))
      else None)"

fun sys_play :: "nat \<Rightarrow> sys_move \<Rightarrow> loop_system \<Rightarrow> (loop_label list \<times> loop_system) option" where
  "sys_play k (Go i m) s = go_on k i m s"
| "sys_play k Do_notify s =
     (if 0 < sy_notifying s \<and> list_all (\<lambda>w. wk_pc w \<noteq> Blocked) (sy_workers s)
      then Some ([Notify], s\<lparr>sy_notifying := sy_notifying s - 1\<rparr>) else None)"
| "sys_play k (Do_post iv) s =
     (if 0 < sy_admitted s \<and> iv_priority iv \<in> set named_priorities
      then Some ([Post_outside True], (on_sy_runtime (publish_ready foreign_thread True k iv True) s)
        \<lparr>sy_notifying := sy_notifying s + 1, sy_published := sy_published s @ [facts_of iv], sy_admitted := sy_admitted s - 1\<rparr>)
      else None)"
| "sys_play k (Do_spawn i iv) s =
     (if i < length (sy_workers s) \<and> wk_pc (sy_workers s ! i) = Body \<and> iv_priority iv \<in> set named_priorities
      then Some ([Post_from i], (on_sy_runtime (publish_ready (worker_context k (sy_workers s ! i) (sy_shared s)) True k iv False) s)
        \<lparr>sy_notifying := sy_notifying s + 1, sy_published := sy_published s @ [facts_of iv]\<rparr>)
      else None)"
| "sys_play k Do_admit s =
     (case acquire foreign_thread 1 False False 0 [] (shared_admission (sy_runtime s)) of
        Some (d, a) \<Rightarrow> if d = Success then Some ([Admit], (on_sy_runtime (store_admission a) s)\<lparr>sy_admitted := sy_admitted s + 1\<rparr>) else None
      | None \<Rightarrow> None)"
| "sys_play k Do_start s =
     (if \<not> ls_mutex (sy_shared s) \<and> rt_workers_ready (sy_runtime s) = length (sy_workers s)
      then Some ([Startup True], on_sy_runtime (\<lambda>r. r\<lparr>rt_startup_done := True\<rparr>) s) else None)"
| "sys_play k (Do_status m) s =
     (if m = Graceful \<or> m = Immediate
      then case shutdown_word m (rt_packed_status (sy_runtime s)) of
             None \<Rightarrow> None | Some v \<Rightarrow> Some ([Status m], on_sy_runtime (\<lambda>r. (bump_epoch r)\<lparr>rt_packed_status := v\<rparr>) s)
      else None)"
| "sys_play k Do_stop s =
     (if ls_mutex (sy_shared s) then None else Some ([Raise_stop], on_sy_runtime (\<lambda>r. r\<lparr>rt_stop_requested := True\<rparr>) s))"
| "sys_play k Do_stopped s =
     (if list_all (\<lambda>w. wk_pc w = Left) (sy_workers s)
      then Some ([Publish_stopped], on_sy_runtime (\<lambda>r. r\<lparr>rt_packed_status := pack Stopped (shutdown_mode (unpack (rt_packed_status r)))\<rparr>) s)
      else None)"

fun sys_plays :: "nat \<Rightarrow> sys_move list \<Rightarrow> loop_system \<Rightarrow> (loop_label list \<times> loop_system) option" where
  "sys_plays k [] s = Some ([], s)"
| "sys_plays k (m # ms) s =
     (case sys_play k m s of
        None \<Rightarrow> None
      | Some (ls, t) \<Rightarrow> (case sys_plays k ms t of None \<Rightarrow> None | Some (ls', u) \<Rightarrow> Some (ls @ ls', u)))"

text \<open>What the moves do is closed under any property that steps preserve, or calm steps when the moves are.\<close>

fun calm_move :: "sys_move \<Rightarrow> loop_system \<Rightarrow> bool" where
  "calm_move (Do_status m) s \<longleftrightarrow> m \<noteq> Immediate"
| "calm_move Do_stop s \<longleftrightarrow> rt_startup_done (sy_runtime s)"
| "calm_move (Do_post iv) s \<longleftrightarrow> \<not> rt_stop_requested (sy_runtime s)"
| "calm_move _ s \<longleftrightarrow> True"

fun calm_moves :: "nat \<Rightarrow> sys_move list \<Rightarrow> loop_system \<Rightarrow> bool" where
  "calm_moves k [] s \<longleftrightarrow> True"
| "calm_moves k (m # ms) s \<longleftrightarrow> calm_move m s \<and> (case sys_play k m s of None \<Rightarrow> True | Some (ls, t) \<Rightarrow> calm_moves k ms t)"

definition step_closed :: "nat \<Rightarrow> bool \<Rightarrow> (loop_label list \<Rightarrow> loop_system \<Rightarrow> bool) \<Rightarrow> bool" where
  "step_closed k strict R \<longleftrightarrow>
     (\<forall>tr s l t. R tr s \<longrightarrow> system_step k s l t \<longrightarrow> (strict \<longrightarrow> calm l s) \<longrightarrow> R (tr @ [l]) t)"

lemma step_closedD: "step_closed k strict R \<Longrightarrow> R tr s \<Longrightarrow> system_step k s l t \<Longrightarrow> (strict \<longrightarrow> calm l s) \<Longrightarrow> R (tr @ [l]) t"
  unfolding step_closed_def by blast

lemma go_on_closed: "step_closed k strict R \<Longrightarrow> go_on k i m s = Some (ls, t) \<Longrightarrow> R tr s \<Longrightarrow> R (tr @ ls) t"
proof (induction m arbitrary: s ls tr)
  case (Suc m)
  then obtain w' sh ls' where i: "i < length (sy_workers s)"
    and st: "loop_step k quiet_input (sy_workers s ! i) (sy_shared s) = Some (w', sh)"
    and g: "go_on k i m (if broadcasts (wk_pc (sy_workers s ! i)) then broadcast (s\<lparr>sy_shared := sh, sy_workers := (sy_workers s)[i := w']\<rparr>)
        else s\<lparr>sy_shared := sh, sy_workers := (sy_workers s)[i := w']\<rparr>) = Some (ls', t)" "ls = Work i # ls'"
    by (auto simp: Let_def split: if_splits option.splits prod.splits)
  show ?case
    using Suc.IH [OF Suc.prems(1) g(1) step_closedD [OF Suc.prems(1,3) work [OF i refl st refl]]] by (simp add: g(2))
qed simp

lemma sys_play_step:
  assumes "sys_play k m s = Some (ls, t)" and "\<And>i n. m \<noteq> Go i n" and "calm_move m s \<or> \<not> strict"
  shows "\<exists>l. ls = [l] \<and> system_step k s l t \<and> (strict \<longrightarrow> calm l s)"
proof (cases m)
  case Do_notify
  then have "system_step k s Notify (if length (sy_workers s) < length (sy_workers s) then
      (s\<lparr>sy_notifying := sy_notifying s - 1\<rparr>)\<lparr>sy_workers := (sy_workers s)[length (sy_workers s) := wake (sy_workers s ! length (sy_workers s))]\<rparr>
      else s\<lparr>sy_notifying := sy_notifying s - 1\<rparr>)"
    using assms(1) by (intro notify) (auto simp: list_all_iff split: if_splits)
  with assms(1) Do_notify show ?thesis by (auto split: if_splits)
next
  case (Do_post iv)
  then show ?thesis
    using assms post_outside [of foreign_thread k True s iv "on_sy_runtime (publish_ready foreign_thread True k iv True) s" True]
    by (auto simp: foreign_thread_def split: if_splits)
next
  case (Do_spawn i iv)
  then show ?thesis
    using assms(1) post_from [of i s "sy_workers s ! i" iv
        "on_sy_runtime (publish_ready (worker_context k (sy_workers s ! i) (sy_shared s)) True k iv False) s" k True]
    by (auto split: if_splits)
next
  case Do_admit
  then show ?thesis
    using assms(1) admit [of foreign_thread k False 0 s] by (auto simp: foreign_thread_def split: if_splits option.splits prod.splits)
next
  case (Do_status sm)
  then show ?thesis
    using assms status [of sm s _ k] by (auto split: if_splits option.splits)
next
  case Do_start
  then show ?thesis using assms(1) startup_done [of s k] by (auto split: if_splits)
next
  case Do_stop
  then show ?thesis using assms raise_stop [of s k] by (auto split: if_splits)
next
  case Do_stopped
  then show ?thesis using assms(1) publish_stopped [of s k] by (auto split: if_splits simp: list_all_iff)
qed (use assms(2) in simp)

lemma sys_play_closed:
  assumes R: "step_closed k strict R" and p: "sys_play k m s = Some (ls, t)" and "calm_move m s \<or> \<not> strict" and "R tr s"
  shows "R (tr @ ls) t"
proof (cases "\<exists>i n. m = Go i n")
  case True
  then show ?thesis using go_on_closed [OF R] p assms(4) by auto
next
  case False
  then show ?thesis using sys_play_step [OF p _ assms(3)] step_closedD [OF R assms(4)] by blast
qed

lemma sys_plays_closed:
  assumes R: "step_closed k strict R"
  shows "sys_plays k ms s = Some (ls, t) \<Longrightarrow> calm_moves k ms s \<or> \<not> strict \<Longrightarrow> R tr s \<Longrightarrow> R (tr @ ls) t"
proof (induction ms arbitrary: s ls tr)
  case (Cons m ms)
  then obtain l1 s1 l2 where p: "sys_play k m s = Some (l1, s1)" "sys_plays k ms s1 = Some (l2, t)" "ls = l1 @ l2"
    by (auto split: option.splits prod.splits)
  have r: "R (tr @ l1) s1"
    using sys_play_closed [OF R p(1) _ Cons.prems(3)] Cons.prems(2) by auto
  have "calm_moves k ms s1 \<or> \<not> strict"
    using Cons.prems(2) p(1) by auto
  from Cons.IH [OF p(2) this r] show ?case by (simp add: p(3))
qed simp

lemma sys_plays_trace:
  assumes "sys_plays k ms s = Some (ls, t)"
  shows "system_trace k s ls t"
proof -
  have "step_closed k False (system_trace k s)" unfolding step_closed_def using trace_snoc by blast
  from sys_plays_closed [OF this assms _ trace_start] show ?thesis by simp
qed

lemma calm_plays_trace:
  assumes "sys_plays k ms s = Some (ls, t)" and "calm_moves k ms s"
  shows "calm_trace k s t"
proof -
  have "step_closed k True (\<lambda>_. calm_trace k s)" unfolding step_closed_def using calm_step by blast
  from sys_plays_closed [OF this assms(1)] assms(2) calm_start show ?thesis by simp
qed

definition one_worker :: loop_system where
  "one_worker = initial_system (new_runtime (RuntimeId 1) (default_scheduler_options 1) Locked) 1"

lemma one_worker_fresh: "fresh_runtime 1 (new_runtime (RuntimeId 1) (default_scheduler_options 1) Locked)"
  unfolding fresh_runtime_def
  by (intro exI [of _ "RuntimeId 1"] exI [of _ "default_scheduler_options 1"] exI [of _ Locked])
    (simp add: default_scheduler_options_def validate_options_def recommended_worker_count_def)

definition a_task :: TaskInvoker where
  "a_task = Envelope \<lparr>tf_task = 7, tf_priority = Normal, tf_deadline = None, tf_resume = False, tf_coroutine_node = False\<rparr>"

definition lost_wakeup :: "sys_move list" where
  "lost_wakeup = [Go 0 1, Do_start, Go 0 11, Do_admit, Do_post a_task, Do_notify, Go 0 1]"

lemma lost_wakeup_run:
  "case sys_plays 0 lost_wakeup one_worker of
     None \<Rightarrow> False
   | Some (tr, s) \<Rightarrow> (case sy_workers s of [w] \<Rightarrow> wk_pc w = Blocked \<and> wk_next_wake w = None \<and> park_predicate w (sy_shared s) | _ \<Rightarrow> False) \<and>
       sy_notifying s = 0 \<and> any_queued_work (rt_ready (sy_runtime s)) \<and> \<not> rt_stop_requested (sy_runtime s)"
  by code_simp

text \<open>C32: A notification can be lost.  A publication does not take \<open>lifecycle_mutex\<close>, so it can fall between
  a worker's test of the wait predicate and its wait: the only worker then sleeps without a time-out,
  no notification is on its way, and a task that was admitted and published stays queued although the
  predicate the worker waits for holds.\<close>

theorem parked_worker_misses_task:
  "\<exists>r n tr s w. fresh_runtime n r \<and> system_trace 0 (initial_system r n) tr s \<and> sy_workers s = [w] \<and> wk_pc w = Blocked \<and>
     wk_next_wake w = None \<and> sy_notifying s = 0 \<and> any_queued_work (rt_ready (sy_runtime s)) \<and> park_predicate w (sy_shared s) \<and>
     \<not> rt_stop_requested (sy_runtime s)"
proof -
  obtain tr s where p: "sys_plays 0 lost_wakeup one_worker = Some (tr, s)"
    using lost_wakeup_run by (auto split: option.splits)
  with lost_wakeup_run obtain w where "sy_workers s = [w]" "wk_pc w = Blocked" "wk_next_wake w = None" "park_predicate w (sy_shared s)"
    "sy_notifying s = 0" "any_queued_work (rt_ready (sy_runtime s))" "\<not> rt_stop_requested (sy_runtime s)"
    by (auto split: list.splits)
  moreover have "system_trace 0 one_worker tr s"
    by (rule sys_plays_trace [OF p])
  ultimately show ?thesis
    using one_worker_fresh unfolding one_worker_def by blast
qed

text \<open>A submission admitted while the runtime was running, published after a graceful stop.\<close>

definition late_publication :: "sys_move list" where
  "late_publication = [Go 0 1, Do_start, Go 0 2, Do_admit, Do_status Graceful, Do_stop, Go 0 23, Do_stopped, Do_post a_task]"

lemma late_publication_run:
  "case sys_plays 0 late_publication one_worker of
     None \<Rightarrow> False
   | Some (tr, s) \<Rightarrow> list_all (\<lambda>w. wk_pc w = Left) (sy_workers s) \<and> get_status (sy_runtime s) = \<lparr>state = Stopped, shutdown_mode = Graceful\<rparr> \<and>
       sy_published s = [facts_of a_task] \<and> ls_executed (sy_shared s) = [] \<and> ls_cancelled (sy_shared s) = [] \<and>
       adm_pending (rt_admission (sy_runtime s)) = 1 \<and> list_all (\<lambda>l. l \<noteq> Status Immediate) tr"
  by code_simp


text \<open>A task submitted and executed, then a graceful stop.\<close>

definition serve_and_stop :: "sys_move list" where
  "serve_and_stop = [Go 0 1, Do_start, Go 0 2, Do_admit, Do_post a_task, Do_notify, Go 0 6, Do_status Graceful, Do_stop, Go 0 24]"

lemma serve_and_stop_run:
  "case sys_plays 0 serve_and_stop one_worker of
     None \<Rightarrow> False
   | Some (tr, s) \<Rightarrow> list_all (\<lambda>w. wk_pc w = Left) (sy_workers s) \<and> ls_executed (sy_shared s) = [facts_of a_task] \<and>
       calm_moves 0 serve_and_stop one_worker"
  by code_simp


text \<open>A worker that executes a task which publishes another, and claims that one next.\<close>

definition busy_worker :: "sys_move list" where
  "busy_worker = [Go 0 1, Do_start, Go 0 2, Do_admit, Do_post a_task, Do_notify, Go 0 3, Do_spawn 0 a_task]"

lemma busy_worker_run:
  "case sys_plays 0 busy_worker one_worker of
     None \<Rightarrow> False
   | Some (tr, s) \<Rightarrow> sy_published s = [facts_of a_task, facts_of a_task] \<and> ls_executed (sy_shared s) = [facts_of a_task] \<and>
       length (filter (\<lambda>w. wk_pc w \<noteq> Left) (sy_workers s)) = 1"
  by code_simp

theorem worker_tasks_settled_once_witness:
  "\<exists>tr s. system_trace 0 one_worker tr s \<and> length (sy_published s) = 2 \<and> claimed (rt_ready (sy_runtime s)) = length (filter (\<lambda>w. wk_task w \<noteq> None) (sy_workers s))"
proof -
  obtain tr s where p: "sys_plays 0 busy_worker one_worker = Some (tr, s)"
    using busy_worker_run by (auto split: option.splits)
  with busy_worker_run have "length (sy_published s) = 2" by simp
  moreover have tr: "system_trace 0 one_worker tr s" by (rule sys_plays_trace [OF p])
  ultimately show ?thesis
    using worker_tasks_settled_once [OF one_worker_fresh tr [unfolded one_worker_def]] by blast
qed

theorem worker_counters_exact_witness:
  "\<exists>tr s. system_trace 0 one_worker tr s \<and> rt_active_workers (sy_runtime s) = 1 \<and> ls_join_ready (sy_shared s) = 0"
proof -
  obtain tr s where p: "sys_plays 0 busy_worker one_worker = Some (tr, s)"
    using busy_worker_run by (auto split: option.splits)
  with busy_worker_run have f: "length (filter (\<lambda>w. wk_pc w \<noteq> Left) (sy_workers s)) = 1" by simp
  have tr: "system_trace 0 one_worker tr s" by (rule sys_plays_trace [OF p])
  have "filter (\<lambda>w. wk_pc w \<noteq> Left) (sy_workers s) \<noteq> []" using f by (metis list.size(3) zero_neq_one)
  then have "\<not> (\<forall>w \<in> set (sy_workers s). wk_pc w = Left)" by (auto simp: filter_empty_conv)
  then have "rt_active_workers (sy_runtime s) = 1 \<and> ls_join_ready (sy_shared s) = 0"
    using worker_counters_exact [OF one_worker_fresh tr [unfolded one_worker_def]] f by simp
  with tr show ?thesis by blast
qed

text \<open>The worker's own steps, as long as it stays away from the global queue.\<close>

fun go_stretch :: "nat \<Rightarrow> nat \<Rightarrow> nat \<Rightarrow> loop_system \<Rightarrow> (nat \<times> loop_system) option" where
  "go_stretch k i 0 s = Some (0, s)"
| "go_stretch k i (Suc m) s =
     (case go_stretch k i m s of
        None \<Rightarrow> None
      | Some (c, t) \<Rightarrow>
          if wk_pc (sy_workers t ! i) = Take_global \<or> wk_pc (sy_workers t ! i) = Park_global then None
          else (case go_on k i 1 t of None \<Rightarrow> None | Some (ls, u) \<Rightarrow> Some (c + of_bool (claims_locally i (Work i) t u), u)))"

lemma go_stretch_stretch: "go_stretch k i m s = Some (c, t) \<Longrightarrow> local_stretch k i s c t"
proof (induction m arbitrary: c t)
  case 0
  then show ?case by (simp add: stretch_start)
next
  case (Suc m)
  then obtain c' t' ls where g: "go_stretch k i m s = Some (c', t')" "go_on k i 1 t' = Some (ls, t)"
    "c = c' + of_bool (claims_locally i (Work i) t' t)" "wk_pc (sy_workers t' ! i) \<notin> {Take_global, Park_global}"
    by (auto simp del: go_on.simps split: option.splits prod.splits if_splits)
  then obtain w' sh where i: "i < length (sy_workers t')" and st: "loop_step k quiet_input (sy_workers t' ! i) (sy_shared t') = Some (w', sh)"
    and t: "t = (if broadcasts (wk_pc (sy_workers t' ! i)) then broadcast (t'\<lparr>sy_shared := sh, sy_workers := (sy_workers t')[i := w']\<rparr>)
        else t'\<lparr>sy_shared := sh, sy_workers := (sy_workers t')[i := w']\<rparr>)"
    by (auto simp: Let_def split: if_splits option.splits prod.splits)
  have "system_step k t' (Work i) t"
    unfolding t by (rule work [OF i refl st refl])
  with stretch_step [OF Suc.IH [OF g(1)]] g(3,4) show ?case by simp
qed

lemma busy_worker_stretch:
  "case sys_plays 0 busy_worker one_worker of
     None \<Rightarrow> False
   | Some (tr, s) \<Rightarrow> (case go_stretch 0 0 5 s of None \<Rightarrow> False | Some (c, t) \<Rightarrow> c = 1)"
  by code_simp

theorem local_burst_bounded_witness:
  "\<exists>tr s t. system_trace 0 one_worker tr s \<and> local_stretch 0 0 s 1 t \<and>
     1 \<le> unat (local_burst_limit (rt_options (new_runtime (RuntimeId 1) (default_scheduler_options 1) Locked)))"
proof -
  obtain tr s t where p: "sys_plays 0 busy_worker one_worker = Some (tr, s)" and g: "go_stretch 0 0 5 s = Some (1, t)"
    using busy_worker_stretch by (auto split: option.splits prod.splits)
  have tr: "system_trace 0 one_worker tr s" by (rule sys_plays_trace [OF p])
  note st = go_stretch_stretch [OF g]
  show ?thesis
    using local_burst_bounded [OF one_worker_fresh tr [unfolded one_worker_def] _ st] tr st by auto
qed

end
