(* ===== verification/Trace_Collector.thy ===== *)
theory Trace_Collector
  imports Trace_Event "HOL-Library.Product_Lexorder"
begin

text \<open>
  The trace collector of \<open>src/observability/trace_collector.cpp\<close>: producer slots, per-producer
  ticket buffers that drop the newest event when full, capture generations, and the immutable
  snapshot a capture stops with.  Shared pointers to generations are indices into the list of
  generations ever created; a slot pointer is its index, which the code keeps stable.
\<close>

section \<open>State\<close>

record TraceBuffer =
  buf_capacity :: u64
  buf_slots :: "TraceEvent list"
  next_ticket :: u64
  buf_dropped :: u64

record TraceGeneration =
  gen_options :: TraceOptions
  gen_mask :: TraceCategory
  gen_origin :: time
  gen_active :: bool

record TraceSlot =
  slot_kind :: TraceProducerKind
  slot_runtime_id :: RuntimeId
  slot_worker_index :: u32
  slot_producer_id :: u64
  slot_entry :: "(nat \<times> TraceBuffer) option"

record TraceCollector =
  col_slots :: "TraceSlot list"
  col_generations :: "TraceGeneration list"
  col_current :: "nat option"
  next_producer_id :: u64
  col_external_slot :: "nat option"
  col_reaper_slot :: "nat option"

record ProducerReport =
  rep_producer_id :: u64
  rep_kind :: TraceProducerKind
  rep_capacity :: u64
  rep_dropped_events :: u64

record TraceSnapshot =
  snap_origin :: time
  snap_categories :: TraceCategory
  snap_producers :: "ProducerReport list"
  snap_events :: "TraceEvent list"
  snap_total_dropped :: u64

record TraceCapture =
  cap_generation :: "nat option"
  cap_closed :: bool
  cap_result :: "TraceSnapshot option"

datatype trace_error = Logic_error string | Invalid_trace_options string | Length_error string

definition empty_collector :: TraceCollector where
  "empty_collector = \<lparr>col_slots = [], col_generations = [], col_current = None,
     next_producer_id = 1, col_external_slot = None, col_reaper_slot = None\<rparr>"

definition capacity_for_kind :: "TraceOptions \<Rightarrow> TraceProducerKind \<Rightarrow> u64" where
  "capacity_for_kind opts k =
     (case k of Worker \<Rightarrow> opt_events_per_worker opts
      | ExternalControl \<Rightarrow> opt_external_control_events opts
      | Reaper \<Rightarrow> opt_events_per_reaper_producer opts)"

definition new_buffer :: "u64 \<Rightarrow> TraceBuffer" where
  "new_buffer cap = \<lparr>buf_capacity = cap, buf_slots = replicate (unat cap) blank_event,
     next_ticket = 0, buf_dropped = 0\<rparr>"

definition recording_locked :: "TraceCollector \<Rightarrow> bool" where
  "recording_locked c =
     (case col_current c of None \<Rightarrow> False | Some g \<Rightarrow> gen_active (col_generations c ! g))"

section \<open>Producer slots\<close>

definition open_slot_locked ::
  "TraceProducerKind \<Rightarrow> RuntimeId \<Rightarrow> u32 \<Rightarrow> bool \<Rightarrow> TraceCollector \<Rightarrow> nat \<times> TraceCollector" where
  "open_slot_locked k rt widx singleton c =
     (case (if singleton
            then (if k = ExternalControl then col_external_slot c else col_reaper_slot c)
            else None) of
        Some existing \<Rightarrow> (existing, c)
      | None \<Rightarrow>
          (let entry = (case col_current c of
                 Some g \<Rightarrow>
                   if recording_locked c
                   then Some (g, new_buffer (capacity_for_kind (gen_options (col_generations c ! g)) k))
                   else None
               | None \<Rightarrow> None);
               slot = \<lparr>slot_kind = k, slot_runtime_id = rt, slot_worker_index = widx,
                       slot_producer_id = next_producer_id c, slot_entry = entry\<rparr>;
               raw = length (col_slots c);
               c' = c\<lparr>col_slots := col_slots c @ [slot], next_producer_id := next_producer_id c + 1\<rparr>
           in (raw, (if k = ExternalControl then c'\<lparr>col_external_slot := Some raw\<rparr>
                     else if k = Reaper then c'\<lparr>col_reaper_slot := Some raw\<rparr>
                     else c'))))"

fun open_workers :: "RuntimeId \<Rightarrow> nat \<Rightarrow> nat \<Rightarrow> TraceCollector \<Rightarrow> nat list \<times> TraceCollector" where
  "open_workers rt w 0 c = ([], c)"
| "open_workers rt w (Suc n) c =
     (case open_slot_locked Worker rt (of_nat w) False c of (s, c1) \<Rightarrow>
      case open_workers rt (Suc w) n c1 of (ss, c2) \<Rightarrow> (s # ss, c2))"

text \<open>The worker slots and the external slot of a runtime that attaches.\<close>

definition trace_attach_runtime ::
  "RuntimeId \<Rightarrow> nat \<Rightarrow> TraceCollector \<Rightarrow> nat list \<times> nat \<times> TraceCollector" where
  "trace_attach_runtime rt workers c =
     (case open_slot_locked Reaper rt 0 True c of (_, c1) \<Rightarrow>
      case open_slot_locked ExternalControl rt 0 True c1 of (ext, c2) \<Rightarrow>
      case open_workers rt 0 workers c2 of (ws, c3) \<Rightarrow> (ws, ext, c3))"

definition trace_open_worker_producer :: "RuntimeId \<Rightarrow> u32 \<Rightarrow> TraceCollector \<Rightarrow> nat \<times> TraceCollector" where
  "trace_open_worker_producer rt widx = open_slot_locked Worker rt widx False"

definition trace_open_external_producer :: "TraceCollector \<Rightarrow> nat \<times> TraceCollector" where
  "trace_open_external_producer = open_slot_locked ExternalControl no_runtime 0 True"

definition trace_open_reaper_producer :: "TraceCollector \<Rightarrow> nat \<times> TraceCollector" where
  "trace_open_reaper_producer = open_slot_locked Reaper no_runtime 0 True"

section \<open>Captures\<close>

text \<open>\<open>__builtin_mul_overflow\<close> and \<open>__builtin_add_overflow\<close> on \<open>std::size_t\<close>.\<close>

definition add_part :: "u64 \<Rightarrow> u64 \<Rightarrow> u64 \<Rightarrow> u64 option" where
  "add_part tot cnt cap =
     (if 2 ^ 64 \<le> unat cnt * unat cap then None
      else if 2 ^ 64 \<le> unat tot + unat (cnt * cap) then None
      else Some (tot + cnt * cap))"

definition count_kind :: "TraceProducerKind \<Rightarrow> TraceSlot list \<Rightarrow> u64" where
  "count_kind k ss = of_nat (length (filter (\<lambda>s. slot_kind s = k) ss))"

definition total_buffer_slots :: "TraceOptions \<Rightarrow> TraceSlot list \<Rightarrow> u64 option" where
  "total_buffer_slots opts ss =
     (case add_part 0 (count_kind Worker ss) (opt_events_per_worker opts) of
        None \<Rightarrow> None
      | Some t1 \<Rightarrow>
          (case add_part t1 (count_kind ExternalControl ss) (opt_external_control_events opts) of
             None \<Rightarrow> None
           | Some t2 \<Rightarrow> add_part t2 (count_kind Reaper ss) (opt_events_per_reaper_producer opts)))"

definition start_capture ::
  "TraceOptions \<Rightarrow> time \<Rightarrow> TraceCollector \<Rightarrow> trace_error + (TraceCapture \<times> TraceCollector)" where
  "start_capture opts now c =
     (if recording_locked c then
        Inl (Logic_error ''TraceCollector already has an active capture generation'')
      else if opt_events_per_worker opts = 0 \<or> opt_external_control_events opts = 0 \<or>
              opt_events_per_reaper_producer opts = 0 then
        Inl (Invalid_trace_options ''TraceOptions capacities must be greater than 0'')
      else if opt_categories opts AND NOT Cat_All \<noteq> 0 then
        Inl (Invalid_trace_options ''TraceOptions::categories contains unknown bits'')
      else case total_buffer_slots opts (col_slots c) of
        None \<Rightarrow> Inl (Length_error ''TraceOptions total buffer size overflows'')
      | Some _ \<Rightarrow>
          (let g = length (col_generations c);
               generation = \<lparr>gen_options = opts, gen_mask = opt_categories opts, gen_origin = now,
                             gen_active = True\<rparr>;
               prepare = (\<lambda>s. s\<lparr>slot_entry :=
                            Some (g, new_buffer (capacity_for_kind opts (slot_kind s)))\<rparr>)
           in Inr (\<lparr>cap_generation = Some g, cap_closed = False, cap_result = None\<rparr>,
                   c\<lparr>col_slots := map prepare (col_slots c),
                     col_generations := col_generations c @ [generation],
                     col_current := Some g\<rparr>)))"

definition deactivate :: "nat \<Rightarrow> TraceCollector \<Rightarrow> TraceCollector" where
  "deactivate g c =
     c\<lparr>col_generations := (col_generations c)[g := (col_generations c ! g)\<lparr>gen_active := False\<rparr>]\<rparr>"

definition committed :: "TraceBuffer \<Rightarrow> nat" where
  "committed b = min (unat (next_ticket b)) (unat (buf_capacity b))"

text \<open>The slots that hold a buffer of generation \<open>g\<close>, in slot order.\<close>

definition buffers_of :: "nat \<Rightarrow> TraceCollector \<Rightarrow> (TraceSlot \<times> TraceBuffer) list" where
  "buffers_of g c =
     concat (map (\<lambda>s. case slot_entry s of
                        Some (g', b) \<Rightarrow> if g' = g then [(s, b)] else []
                      | None \<Rightarrow> []) (col_slots c))"

definition report_of :: "TraceSlot \<times> TraceBuffer \<Rightarrow> ProducerReport" where
  "report_of = (\<lambda>(s, b). \<lparr>rep_producer_id = slot_producer_id s, rep_kind = slot_kind s,
     rep_capacity = buf_capacity b, rep_dropped_events = buf_dropped b\<rparr>)"

definition stop_capture ::
  "TraceCapture \<Rightarrow> TraceCollector \<Rightarrow> TraceSnapshot option \<times> TraceCapture \<times> TraceCollector" where
  "stop_capture cap c =
     (let cap' = cap\<lparr>cap_generation := None, cap_closed := True\<rparr>
      in case cap_generation cap of
           None \<Rightarrow> (None, cap', c)
         | Some g \<Rightarrow>
             if col_current c \<noteq> Some g then (None, cap', c)
             else
               (let c1 = deactivate g c; bs = buffers_of g c1; gen = col_generations c1 ! g
                in (Some \<lparr>snap_origin = gen_origin gen, snap_categories = gen_mask gen,
                          snap_producers = map report_of bs,
                          snap_events = concat (map (\<lambda>(s, b). take (committed b) (buf_slots b)) bs),
                          snap_total_dropped = (\<Sum>(s, b)\<leftarrow>bs. buf_dropped b)\<rparr>,
                    cap', c1\<lparr>col_current := None\<rparr>)))"

text \<open>
  \<open>TraceCapture::stop\<close>: the snapshot a closed capture already has is shared.  \<open>None\<close> in the result
  is the empty snapshot.
\<close>

definition capture_stop ::
  "TraceCapture option \<Rightarrow> TraceCollector \<Rightarrow>
     trace_error + (TraceSnapshot option \<times> TraceCapture \<times> TraceCollector)" where
  "capture_stop cap_opt c =
     (case cap_opt of
        None \<Rightarrow> Inl (Logic_error ''TraceCapture::stop called on empty/moved-from capture'')
      | Some cap \<Rightarrow>
          if cap_closed cap then
            (case cap_result cap of
               Some r \<Rightarrow> Inr (Some r, cap, c)
             | None \<Rightarrow> Inl (Logic_error ''TraceCapture generation was discarded''))
          else
            (case stop_capture cap c of (snap, cap', c') \<Rightarrow>
               Inr (snap, cap'\<lparr>cap_closed := True, cap_result := snap\<rparr>, c')))"

definition abort_capture :: "TraceCapture \<Rightarrow> TraceCollector \<Rightarrow> TraceCapture \<times> TraceCollector" where
  "abort_capture cap c =
     (if cap_closed cap then (cap, c)
      else
        (let cap' = cap\<lparr>cap_generation := None, cap_closed := True\<rparr>
         in case cap_generation cap of
              None \<Rightarrow> (cap', c)
            | Some g \<Rightarrow>
                if col_current c \<noteq> Some g then (cap', c)
                else (cap', (deactivate g c)\<lparr>col_current := None\<rparr>)))"

section \<open>Emission\<close>

definition trace_timestamp :: "time \<Rightarrow> time \<Rightarrow> u64" where
  "trace_timestamp now origin = (if origin \<le> now then word_of_int (now - origin) else 0)"

definition stamp ::
  "TraceGeneration \<Rightarrow> u64 \<Rightarrow> TraceCategory \<Rightarrow> time \<Rightarrow> u64 \<Rightarrow> TraceEvent \<Rightarrow> TraceEvent" where
  "stamp gen pid cat now ticket e =
     e\<lparr>ev_schema_version := 1,
       ev_category := ucast (cat AND 0xFFFF),
       ev_timestamp_ns := trace_timestamp now (gen_origin gen),
       ev_producer_id := pid,
       ev_local_sequence := ticket\<rparr>"

text \<open>The write of one event once it has its ticket: drop-newest when the buffer is full.\<close>

definition buffer_emit :: "(u64 \<Rightarrow> TraceEvent) \<Rightarrow> TraceBuffer \<Rightarrow> TraceBuffer" where
  "buffer_emit stamped b =
     (let ticket = next_ticket b; b' = b\<lparr>next_ticket := next_ticket b + 1\<rparr>
      in if buf_capacity b \<le> ticket then b'\<lparr>buf_dropped := buf_dropped b + 1\<rparr>
         else b'\<lparr>buf_slots := (buf_slots b)[unat ticket := stamped ticket]\<rparr>)"

definition emit_event ::
  "nat \<Rightarrow> TraceCategory \<Rightarrow> TraceEvent \<Rightarrow> time \<Rightarrow> TraceCollector \<Rightarrow> TraceCollector" where
  "emit_event slot cat e now c =
     (case col_current c of
        None \<Rightarrow> c
      | Some g \<Rightarrow>
          if \<not> gen_active (col_generations c ! g) then c
          else (case slot_entry (col_slots c ! slot) of
                  None \<Rightarrow> c
                | Some (g', b) \<Rightarrow>
                    if g' \<noteq> g then c
                    else if gen_mask (col_generations c ! g) AND cat = 0 then c
                    else
                      (let s = col_slots c ! slot;
                           b' = buffer_emit
                             (\<lambda>t. stamp (col_generations c ! g) (slot_producer_id s) cat now t e) b
                       in c\<lparr>col_slots := (col_slots c)[slot := s\<lparr>slot_entry := Some (g, b')\<rparr>]\<rparr>)))"

definition trace_emit ::
  "nat option \<Rightarrow> TraceCategory \<Rightarrow> u16 \<Rightarrow> RuntimeId \<Rightarrow> u32 \<Rightarrow> u64 \<Rightarrow> time \<Rightarrow> TraceCollector \<Rightarrow> TraceCollector"
  where
  "trace_emit slot cat k rt wid tid now c =
     (case slot of
        None \<Rightarrow> c
      | Some i \<Rightarrow> emit_event i cat
          (blank_event\<lparr>ev_kind := k, ev_runtime_id := runtime_value rt, ev_worker_id := wid,
            ev_task_id := tid\<rparr>) now c)"

definition trace_emit_desc ::
  "nat option \<Rightarrow> TraceEmitDesc \<Rightarrow> time \<Rightarrow> TraceCollector \<Rightarrow> TraceCollector" where
  "trace_emit_desc slot d now c =
     (case slot of
        None \<Rightarrow> c
      | Some i \<Rightarrow> emit_event i (category_for_kind (d_kind d)) (event_of_desc d) now c)"

definition event_key :: "TraceEvent \<Rightarrow> u64 \<times> u64 \<times> u64" where
  "event_key e = (ev_timestamp_ns e, ev_producer_id e, ev_local_sequence e)"

text \<open>The comparator of the code is the lexicographic order of the keys; the sort is stable.\<close>

definition trace_ordered_events :: "TraceSnapshot option \<Rightarrow> TraceEvent list" where
  "trace_ordered_events snap =
     sort_key event_key (case snap of None \<Rightarrow> [] | Some d \<Rightarrow> snap_events d)"

section \<open>A buffer is a log\<close>

text \<open>
  Abstractly a producer keeps the log of the events it accepted: the buffer holds its first
  \<open>capacity\<close> entries, counts the others, and its ticket is the length of the log.
\<close>

definition buffer_of :: "u64 \<Rightarrow> TraceEvent list \<Rightarrow> TraceBuffer" where
  "buffer_of cap l =
     \<lparr>buf_capacity = cap,
      buf_slots = take (unat cap) l @ replicate (unat cap - length l) blank_event,
      next_ticket = of_nat (length l),
      buf_dropped = of_nat (length l - unat cap)\<rparr>"

lemma new_buffer_of: "new_buffer cap = buffer_of cap []"
  by (simp add: new_buffer_def buffer_of_def)

lemma buffer_emit_log:
  assumes "length l < 2 ^ 64"
  shows "buffer_emit f (buffer_of cap l) = buffer_of cap (l @ [f (of_nat (length l))])"
proof -
  have ticket: "unat (of_nat (length l) :: u64) = length l"
    using assms by (simp add: unat_of_nat take_bit_nat_eq_self)
  show ?thesis
  proof (cases "unat cap \<le> length l")
    case True
    then have "cap \<le> of_nat (length l)"
      by (simp add: word_le_nat_alt ticket)
    moreover have "length l + 1 - unat cap = Suc (length l - unat cap)"
      using True by simp
    ultimately show ?thesis
      using True by (simp add: buffer_emit_def buffer_of_def Let_def algebra_simps)
  next
    case False
    then have "\<not> cap \<le> of_nat (length l)"
      by (simp add: word_le_nat_alt ticket)
    moreover obtain k where "unat cap - length l = Suc k"
      using False by (metis diff_is_0_eq not0_implies_Suc)
    moreover from this have "unat cap - Suc (length l) = k" by simp
    ultimately show ?thesis
      using False by (simp add: buffer_emit_def buffer_of_def Let_def ticket list_update_append
          algebra_simps)
  qed
qed

lemma committed_buffer_of:
  assumes "length l < 2 ^ 64"
  shows "take (committed (buffer_of cap l)) (buf_slots (buffer_of cap l)) = take (unat cap) l"
proof -
  have "unat (of_nat (length l) :: u64) = length l"
    using assms by (simp add: unat_of_nat take_bit_nat_eq_self)
  then show ?thesis
    by (simp add: committed_def buffer_of_def min_def)
qed

section \<open>A capture is a family of logs\<close>

type_synonym emission = "nat \<times> TraceCategory \<times> TraceEvent \<times> time"

definition emit_all :: "emission list \<Rightarrow> TraceCollector \<Rightarrow> TraceCollector" where
  "emit_all es c = fold (\<lambda>(i, cat, e, now). emit_event i cat e now) es c"

lemma col_current_emit_all [simp]: "col_current (emit_all es c) = col_current c"
proof (induction es arbitrary: c)
  case (Cons x es)
  moreover have "col_current (emit_event i cat e now c) = col_current c" for i cat e now
    by (simp add: emit_event_def Let_def split: option.splits)
  ultimately show ?case
    by (cases x) (simp add: emit_all_def)
qed (simp add: emit_all_def)

lemma stop_capture_Some:
  assumes "cap_generation cap = Some g" and "col_current c = Some g"
  shows "\<exists>snap cap' c'. stop_capture cap c = (Some snap, cap', c')"
  using assms by (simp add: stop_capture_def Let_def)

definition with_logs ::
  "nat \<Rightarrow> TraceOptions \<Rightarrow> (nat \<Rightarrow> TraceEvent list) \<Rightarrow> TraceCollector \<Rightarrow> TraceCollector" where
  "with_logs g opts L c =
     c\<lparr>col_slots := map (\<lambda>i. (col_slots c ! i)\<lparr>slot_entry :=
          Some (g, buffer_of (capacity_for_kind opts (slot_kind (col_slots c ! i))) (L i))\<rparr>)
        [0..<length (col_slots c)]\<rparr>"

definition accepted :: "TraceCategory \<Rightarrow> nat \<Rightarrow> emission list \<Rightarrow> emission list" where
  "accepted m i es = filter (\<lambda>(j, cat, e, now). j = i \<and> m AND cat \<noteq> 0) es"

definition producer_log :: "TraceGeneration \<Rightarrow> u64 \<Rightarrow> nat \<Rightarrow> emission list \<Rightarrow> TraceEvent list" where
  "producer_log gen pid i es =
     map (\<lambda>(k, (j, cat, e, now)). stamp gen pid cat now (of_nat k) e)
       (enumerate 0 (accepted (gen_mask gen) i es))"

lemma producer_log_snoc:
  "producer_log gen pid i (es @ [(j, cat, e, now)]) = producer_log gen pid i es @
     (if j = i \<and> gen_mask gen AND cat \<noteq> 0
      then [stamp gen pid cat now (of_nat (length (producer_log gen pid i es))) e] else [])"
  by (simp add: producer_log_def accepted_def enumerate_append_eq)

lemma length_producer_log_le: "length (producer_log gen pid i es) \<le> length es"
  by (simp add: producer_log_def accepted_def)

lemma length_with_logs [simp]: "length (col_slots (with_logs g opts L c)) = length (col_slots c)"
  by (simp add: with_logs_def)

lemma with_logs_simps [simp]:
  "col_current (with_logs g opts L c) = col_current c"
  "col_generations (with_logs g opts L c) = col_generations c"
  "i < length (col_slots c) \<Longrightarrow> col_slots (with_logs g opts L c) ! i =
     (col_slots c ! i)\<lparr>slot_entry :=
        Some (g, buffer_of (capacity_for_kind opts (slot_kind (col_slots c ! i))) (L i))\<rparr>"
  by (simp_all add: with_logs_def)

lemma emit_with_logs:
  assumes "col_current c = Some g" and "gen_active (col_generations c ! g)"
    and "i < length (col_slots c)" and "length (L i) < 2 ^ 64"
  shows "emit_event i cat e now (with_logs g opts L c) =
    with_logs g opts
      (if gen_mask (col_generations c ! g) AND cat = 0 then L
       else L(i := L i @ [stamp (col_generations c ! g) (slot_producer_id (col_slots c ! i)) cat now
                            (of_nat (length (L i))) e])) c"
proof (cases "gen_mask (col_generations c ! g) AND cat = 0")
  case True
  with assms show ?thesis
    by (simp add: emit_event_def)
next
  case False
  let ?gen = "col_generations c ! g"
  let ?x = "stamp ?gen (slot_producer_id (col_slots c ! i)) cat now (of_nat (length (L i))) e"
  have "emit_event i cat e now (with_logs g opts L c) =
      (with_logs g opts L c)\<lparr>col_slots := (col_slots (with_logs g opts L c))[i := (col_slots c ! i)\<lparr>slot_entry :=
         Some (g, buffer_of (capacity_for_kind opts (slot_kind (col_slots c ! i))) (L i @ [?x]))\<rparr>]\<rparr>"
    using assms False by (simp add: emit_event_def Let_def buffer_emit_log)
  also have "\<dots> = with_logs g opts (L(i := L i @ [?x])) c"
    using assms(3) by (auto simp: with_logs_def map_upt_update intro!: TraceCollector.fold_congs)
  finally show ?thesis using False by simp
qed

lemma emit_all_with_logs:
  assumes "col_current c = Some g" and "gen_active (col_generations c ! g)"
    and "\<forall>(i, _) \<in> set es. i < length (col_slots c)" and "length es < 2 ^ 64"
  shows "emit_all es (with_logs g opts (\<lambda>_. []) c) =
    with_logs g opts (\<lambda>i. producer_log (col_generations c ! g) (slot_producer_id (col_slots c ! i)) i es) c"
  using assms(3,4)
proof (induction es rule: rev_induct)
  case Nil
  then show ?case by (simp add: emit_all_def producer_log_def accepted_def)
next
  case (snoc x es)
  obtain i cat e now where x: "x = (i, cat, e, now)" by (cases x)
  let ?gen = "col_generations c ! g"
  let ?L = "\<lambda>i. producer_log ?gen (slot_producer_id (col_slots c ! i)) i es"
  from snoc have IH: "emit_all es (with_logs g opts (\<lambda>_. []) c) = with_logs g opts ?L c" by simp
  have i: "i < length (col_slots c)" using snoc.prems x by simp
  have l: "length (?L i) < 2 ^ 64"
    using snoc.prems length_producer_log_le [of ?gen "slot_producer_id (col_slots c ! i)" i es] by simp
  have "emit_all (es @ [x]) (with_logs g opts (\<lambda>_. []) c) = emit_event i cat e now (with_logs g opts ?L c)"
    using IH by (simp add: emit_all_def x)
  also have "\<dots> = with_logs g opts
      (\<lambda>j. producer_log ?gen (slot_producer_id (col_slots c ! j)) j (es @ [x])) c"
    unfolding emit_with_logs [of c g i ?L cat e now opts, OF assms(1,2) i l]
    by (rule arg_cong [where f = "\<lambda>M. with_logs g opts M c"])
      (auto simp: x producer_log_snoc)
  finally show ?case .
qed

lemma start_capture_logs:
  assumes "start_capture opts now c = Inr (cap, c1)"
  shows "\<exists>g. cap = \<lparr>cap_generation = Some g, cap_closed = False, cap_result = None\<rparr> \<and>
    col_current c1 = Some g \<and> g < length (col_generations c1) \<and>
    col_generations c1 ! g = \<lparr>gen_options = opts, gen_mask = opt_categories opts, gen_origin = now,
      gen_active = True\<rparr> \<and>
    c1 = with_logs g opts (\<lambda>_. []) c1"
proof -
  let ?g = "length (col_generations c)"
  let ?prep = "\<lambda>s. s\<lparr>slot_entry := Some (?g, buffer_of (capacity_for_kind opts (slot_kind s)) [])\<rparr>"
  have cap: "cap = \<lparr>cap_generation = Some ?g, cap_closed = False, cap_result = None\<rparr>"
    and c1: "c1 = c\<lparr>col_slots := map ?prep (col_slots c),
      col_generations := col_generations c @ [\<lparr>gen_options = opts, gen_mask = opt_categories opts,
        gen_origin = now, gen_active = True\<rparr>],
      col_current := Some ?g\<rparr>"
    using assms by (simp_all add: start_capture_def Let_def new_buffer_of split: if_splits option.splits)
  have "with_logs ?g opts (\<lambda>_. []) c1 = c1\<lparr>col_slots := map ?prep (col_slots c1)\<rparr>"
    by (simp add: with_logs_def map_upt_nth [where f = ?prep, symmetric])
  also have "\<dots> = c1"
    by (simp add: c1)
  finally show ?thesis
    by (simp add: cap c1)
qed

lemma buffers_of_with_logs:
  "buffers_of g (with_logs g opts L c) =
     map (\<lambda>i. ((col_slots c ! i)\<lparr>slot_entry :=
                 Some (g, buffer_of (capacity_for_kind opts (slot_kind (col_slots c ! i))) (L i))\<rparr>,
               buffer_of (capacity_for_kind opts (slot_kind (col_slots c ! i))) (L i)))
       [0..<length (col_slots c)]"
proof -
  have "concat (map (\<lambda>s. case slot_entry s of
            Some (g', b) \<Rightarrow> if g' = g then [(s, b)] else [] | None \<Rightarrow> [])
          (map (\<lambda>i. f i\<lparr>slot_entry := Some (g, h i)\<rparr>) is)) =
        map (\<lambda>i. (f i\<lparr>slot_entry := Some (g, h i)\<rparr>, h i)) is"
    for f :: "nat \<Rightarrow> TraceSlot" and h and "is" :: "nat list"
    by (induction "is") auto
  from this [where f = "\<lambda>i. col_slots c ! i"] show ?thesis
    by (simp add: buffers_of_def with_logs_def del: map_map)
qed

lemma buffers_of_deactivate: "buffers_of g (deactivate g' c) = buffers_of g c"
  by (simp add: buffers_of_def deactivate_def)

section \<open>Admission of a capture\<close>

lemma unat_count_kind:
  assumes "length ss < 2 ^ 64"
  shows "unat (count_kind k ss) = length (filter (\<lambda>s. slot_kind s = k) ss)"
proof -
  have "length (filter (\<lambda>s. slot_kind s = k) ss) < 2 ^ 64"
    using assms length_filter_le le_less_trans by blast
  then show ?thesis
    by (simp add: count_kind_def unat_of_nat take_bit_nat_eq_self)
qed

lemma add_part_Some:
  "add_part t n cap = Some r \<longleftrightarrow>
     unat t + unat n * unat cap < 2 ^ 64 \<and> unat r = unat t + unat n * unat cap"
proof -
  have mul: "unat (n * cap) = unat n * unat cap" if "unat n * unat cap < 2 ^ 64"
    using that by (simp add: unat_word_ariths)
  have add: "unat (t + n * cap) = unat t + unat n * unat cap"
    if "unat t + unat n * unat cap < 2 ^ 64"
    using that mul by (simp add: unat_word_ariths)
  show ?thesis
    using mul add by (auto simp: add_part_def word_unat_eq_iff not_le)
qed

lemma add_part_None: "add_part t n cap = None \<longleftrightarrow> 2 ^ 64 \<le> unat t + unat n * unat cap"
proof -
  have "unat (n * cap) = unat n * unat cap" if "unat n * unat cap < 2 ^ 64"
    using that by (simp add: unat_word_ariths)
  then show ?thesis
    by (auto simp: add_part_def)
qed

definition requested_slots :: "TraceOptions \<Rightarrow> TraceSlot list \<Rightarrow> nat" where
  "requested_slots opts ss =
     length (filter (\<lambda>s. slot_kind s = Worker) ss) * unat (opt_events_per_worker opts) +
     length (filter (\<lambda>s. slot_kind s = ExternalControl) ss) * unat (opt_external_control_events opts) +
     length (filter (\<lambda>s. slot_kind s = Reaper) ss) * unat (opt_events_per_reaper_producer opts)"

lemma total_buffer_slots_None:
  assumes "length ss < 2 ^ 64"
  shows "total_buffer_slots opts ss = None \<longleftrightarrow> 2 ^ 64 \<le> requested_slots opts ss"
proof (cases "add_part 0 (count_kind Worker ss) (opt_events_per_worker opts)")
  case None
  then have "2 ^ 64 \<le> requested_slots opts ss"
    using assms by (simp add: add_part_None requested_slots_def unat_count_kind)
  with None show ?thesis
    by (simp add: total_buffer_slots_def)
next
  case (Some t1)
  then have t1: "unat t1 = length (filter (\<lambda>s. slot_kind s = Worker) ss) * unat (opt_events_per_worker opts)"
    using assms by (simp add: add_part_Some unat_count_kind)
  show ?thesis
  proof (cases "add_part t1 (count_kind ExternalControl ss) (opt_external_control_events opts)")
    case None
    then have "2 ^ 64 \<le> requested_slots opts ss"
      using assms t1 by (simp add: add_part_None requested_slots_def unat_count_kind)
    with None Some show ?thesis
      by (simp add: total_buffer_slots_def)
  next
    case (Some t2)
    then have "unat t2 = unat t1 + length (filter (\<lambda>s. slot_kind s = ExternalControl) ss) *
        unat (opt_external_control_events opts)"
      using assms by (simp add: add_part_Some unat_count_kind)
    then show ?thesis
      using assms \<open>add_part 0 _ _ = Some t1\<close> Some t1
      by (simp add: total_buffer_slots_def add_part_None requested_slots_def unat_count_kind)
  qed
qed

section \<open>Unique keys\<close>

lemma producer_log_keys:
  assumes "length es < 2 ^ 64" and "k < length (producer_log gen pid i es)"
  shows "ev_producer_id (producer_log gen pid i es ! k) = pid \<and>
     ev_local_sequence (producer_log gen pid i es ! k) = of_nat k"
  using assms(2)
  by (auto simp: producer_log_def stamp_def nth_enumerate_eq split: prod.splits)

lemma distinct_producer_log_keys:
  assumes "length es < 2 ^ 64"
  shows "distinct (map event_key (producer_log gen pid i es))"
proof -
  let ?l = "producer_log gen pid i es"
  have "event_key (?l ! a) \<noteq> event_key (?l ! b)" if "a < length ?l" "b < length ?l" "a \<noteq> b" for a b
  proof -
    have "a < 2 ^ 64" "b < 2 ^ 64"
      using that assms length_producer_log_le [of gen pid i es] by linarith+
    then have "(of_nat a :: u64) \<noteq> of_nat b"
      using \<open>a \<noteq> b\<close> by (simp add: word_unat_eq_iff unat_of_nat take_bit_nat_eq_self)
    then show ?thesis
      using that producer_log_keys [OF assms] by (simp add: event_key_def)
  qed
  then show ?thesis
    by (simp add: distinct_conv_nth)
qed

lemma distinct_concat_keys:
  assumes "distinct (map pid is)" and "\<And>i. i \<in> set is \<Longrightarrow> distinct (map event_key (f i))"
    and "\<And>i e. i \<in> set is \<Longrightarrow> e \<in> set (f i) \<Longrightarrow> ev_producer_id e = pid i"
  shows "distinct (map event_key (concat (map f is)))"
  using assms
proof (induction "is")
  case Nil
  then show ?case by simp
next
  case (Cons i "is")
  have "event_key e \<noteq> event_key e'" if "e \<in> set (f i)" "i' \<in> set is" "e' \<in> set (f i')" for e e' i'
    using that Cons.prems by (fastforce simp: event_key_def)
  moreover have "distinct (map event_key (concat (map f is)))"
    using Cons by simp
  ultimately show ?case
    using Cons.prems(2) [of i] unfolding map_concat by (simp add: image_iff disjoint_iff) metis
qed

section \<open>Properties\<close>

text \<open>
  C22: A capture records, for every producer, exactly the first \<open>capacity\<close> events it emitted in the
  enabled categories, in emission order and stamped with consecutive local sequence numbers, counts
  every later one as dropped, and leaves the collector stopped with the snapshot as its result,
  whatever the other producers emitted in between.
\<close>

theorem capture_is_bounded_log:
  assumes "start_capture opts t0 c = Inr (cap, c1)"
    and "\<forall>(i, _) \<in> set es. i < length (col_slots c1)"
    and "length es < 2 ^ 64"
  shows "\<exists>snap cap' c2. capture_stop (Some cap) (emit_all es c1) = Inr (Some snap, cap', c2) \<and>
    (let gen = \<lparr>gen_options = opts, gen_mask = opt_categories opts, gen_origin = t0, gen_active = True\<rparr>;
         log = (\<lambda>i. producer_log gen (slot_producer_id (col_slots c1 ! i)) i es);
         room = (\<lambda>i. capacity_for_kind opts (slot_kind (col_slots c1 ! i)))
     in snap_events snap = concat (map (\<lambda>i. take (unat (room i)) (log i)) [0..<length (col_slots c1)]) \<and>
        map rep_dropped_events (snap_producers snap) =
          map (\<lambda>i. of_nat (length (log i) - unat (room i))) [0..<length (col_slots c1)] \<and>
        snap_total_dropped snap = (\<Sum>r\<leftarrow>snap_producers snap. rep_dropped_events r)) \<and>
    \<not> recording_locked c2 \<and> cap_result cap' = Some snap"
proof -
  from start_capture_logs [OF assms(1)] obtain g where
    cap: "cap = \<lparr>cap_generation = Some g, cap_closed = False, cap_result = None\<rparr>"
    and cur: "col_current c1 = Some g" and g: "g < length (col_generations c1)"
    and gen: "col_generations c1 ! g = \<lparr>gen_options = opts, gen_mask = opt_categories opts,
      gen_origin = t0, gen_active = True\<rparr>"
    and c1: "c1 = with_logs g opts (\<lambda>_. []) c1"
    by blast
  define L where "L = (\<lambda>i. producer_log (col_generations c1 ! g) (slot_producer_id (col_slots c1 ! i)) i es)"
  have act: "gen_active (col_generations c1 ! g)" by (simp add: gen)
  have em: "emit_all es c1 = with_logs g opts L c1"
    using emit_all_with_logs [OF cur act assms(2,3), where opts = opts]
    unfolding L_def c1 [symmetric] .
  have len: "length (L i) < 2 ^ 64" for i
    using assms(3) length_producer_log_le le_less_trans unfolding L_def by blast
  show ?thesis
    by (simp add: em capture_stop_def stop_capture_def cap cur Let_def buffers_of_deactivate
        buffers_of_with_logs o_def committed_buffer_of [OF len] recording_locked_def report_of_def)
      (simp add: buffer_of_def L_def gen)
qed

definition demo_options :: TraceOptions where
  "demo_options = \<lparr>opt_events_per_worker = 1, opt_external_control_events = 2,
     opt_events_per_reaper_producer = 1, opt_categories = Cat_Default\<rparr>"

definition demo_collector :: TraceCollector where
  "demo_collector = snd (snd (trace_attach_runtime (RuntimeId 1) 1 empty_collector))"

lemmas demo_defs = demo_options_def demo_collector_def trace_attach_runtime_def empty_collector_def
  open_slot_locked_def recording_locked_def

theorem capture_is_bounded_log_witness:
  "\<exists>cap c1 snap cap' c2. start_capture demo_options 0 demo_collector = Inr (cap, c1) \<and>
     capture_stop (Some cap) (emit_all [(2, TaskLifecycle, blank_event, 5), (2, TaskLifecycle, blank_event, 6)] c1) =
       Inr (Some snap, cap', c2) \<and>
     cap_result cap' = Some snap"
proof -
  have st: "total_buffer_slots demo_options (col_slots demo_collector) = Some 4"
    by (simp add: total_buffer_slots_def add_part_def count_kind_def demo_defs Let_def)
  obtain cap c1 where r: "start_capture demo_options 0 demo_collector = Inr (cap, c1)"
    using st by (simp add: start_capture_def Let_def demo_defs category_defs)
  have n: "length (col_slots c1) = 3"
    using r st by (auto simp: start_capture_def Let_def demo_defs split: if_splits)
  show ?thesis
    using capture_is_bounded_log
      [OF r, of "[(2, TaskLifecycle, blank_event, 5), (2, TaskLifecycle, blank_event, 6)]"] n r
    by auto
qed

text \<open>
  A capture starts exactly when no capture is recording, every capacity is positive, the
  categories are known and the number of event slots of all producers together fits \<open>std::size_t\<close>;
  the overflow test on machine words decides the last condition exactly.
\<close>

theorem start_capture_accepts_iff:
  assumes "length (col_slots c) < 2 ^ 64"
  shows "(\<exists>r. start_capture opts now c = Inr r) \<longleftrightarrow>
    \<not> recording_locked c \<and>
    opt_events_per_worker opts \<noteq> 0 \<and> opt_external_control_events opts \<noteq> 0 \<and>
    opt_events_per_reaper_producer opts \<noteq> 0 \<and>
    opt_categories opts AND NOT Cat_All = 0 \<and>
    requested_slots opts (col_slots c) < 2 ^ 64"
proof (cases "total_buffer_slots opts (col_slots c)")
  case None
  then show ?thesis
    using total_buffer_slots_None [OF assms, of opts] by (auto simp: start_capture_def)
next
  case (Some t)
  then have "requested_slots opts (col_slots c) < 2 ^ 64"
    using total_buffer_slots_None [OF assms, of opts] by simp
  with Some show ?thesis
    by (simp add: start_capture_def Let_def)
qed

theorem start_capture_accepts_iff_witness:
  "(\<exists>r. start_capture demo_options 0 empty_collector = Inr r) \<and>
   \<not> (\<exists>r. start_capture (demo_options\<lparr>opt_categories := 0x800\<rparr>) 0 empty_collector = Inr r)"
  using start_capture_accepts_iff [of empty_collector demo_options 0]
    start_capture_accepts_iff [of empty_collector "demo_options\<lparr>opt_categories := 0x800\<rparr>" 0]
  by (simp add: demo_options_def empty_collector_def recording_locked_def category_defs
      requested_slots_def)

text \<open>
  The export order of a capture is canonical: the events of a snapshot have pairwise distinct
  keys, the ordered list is a permutation of them sorted by (timestamp, producer, sequence), and any
  other arrangement of the same events is ordered to the same list.
\<close>

theorem capture_order_canonical:
  assumes "start_capture opts t0 c = Inr (cap, c1)"
    and "\<forall>(i, _) \<in> set es. i < length (col_slots c1)" and "length es < 2 ^ 64"
    and "distinct (map slot_producer_id (col_slots c1))"
    and "stop_capture cap (emit_all es c1) = (Some snap, cap', c2)"
    and "mset other = mset (snap_events snap)"
  shows "distinct (map event_key (snap_events snap)) \<and>
    mset (trace_ordered_events (Some snap)) = mset (snap_events snap) \<and>
    sorted (map event_key (trace_ordered_events (Some snap))) \<and>
    trace_ordered_events (Some (snap\<lparr>snap_events := other\<rparr>)) = trace_ordered_events (Some snap)"
proof -
  from start_capture_logs [OF assms(1)] obtain g where
    cap: "cap = \<lparr>cap_generation = Some g, cap_closed = False, cap_result = None\<rparr>"
    and cur: "col_current c1 = Some g" and g: "g < length (col_generations c1)"
    and gen: "gen_active (col_generations c1 ! g)"
    and c1: "c1 = with_logs g opts (\<lambda>_. []) c1"
    by force
  define L where "L = (\<lambda>i. producer_log (col_generations c1 ! g) (slot_producer_id (col_slots c1 ! i)) i es)"
  have em: "emit_all es c1 = with_logs g opts L c1"
    using emit_all_with_logs [OF cur gen assms(2,3), where opts = opts]
    unfolding L_def c1 [symmetric] .
  have len: "length (L i) < 2 ^ 64" for i
    using assms(3) length_producer_log_le le_less_trans unfolding L_def by blast
  define f where
    "f = (\<lambda>i. take (unat (capacity_for_kind opts (slot_kind (col_slots c1 ! i)))) (L i))"
  have ev: "snap_events snap = concat (map f [0..<length (col_slots c1)])"
    using assms(5) by (auto simp: em stop_capture_def cap cur Let_def buffers_of_deactivate
        buffers_of_with_logs o_def committed_buffer_of [OF len] f_def)
  have keys: "distinct (map event_key (snap_events snap))"
    unfolding ev
  proof (rule distinct_concat_keys)
    show "distinct (map (\<lambda>i. slot_producer_id (col_slots c1 ! i)) [0..<length (col_slots c1)])"
      using assms(4) by (simp add: map_upt_nth)
    show "distinct (map event_key (f i))" for i
      using distinct_producer_log_keys [OF assms(3)]
      by (simp add: f_def L_def flip: take_map)
    show "ev_producer_id e = slot_producer_id (col_slots c1 ! i)" if "e \<in> set (f i)" for i e
    proof -
      from that have "e \<in> set (L i)" by (auto simp: f_def dest: in_set_takeD)
      then show ?thesis
        using producer_log_keys [OF assms(3)] by (auto simp: L_def in_set_conv_nth)
    qed
  qed
  have dk: "distinct (map event_key xs)" if "mset xs = mset (snap_events snap)" for xs
    using keys that by (metis mset_eq_imp_distinct_iff mset_map)
  have inj: "inj_on event_key (set (snap_events snap))"
    using keys by (simp add: distinct_map)
  have "sort_key event_key other = sort_key event_key (snap_events snap)"
  proof (rule map_sorted_distinct_set_unique)
    show "inj_on event_key (set (sort_key event_key other) \<union> set (sort_key event_key (snap_events snap)))"
      using inj assms(6) by (metis mset_eq_setD set_sort sup.idem)
    show "distinct (map event_key (sort_key event_key other))"
      by (rule dk) (simp add: assms(6))
    show "distinct (map event_key (sort_key event_key (snap_events snap)))"
      by (rule dk) simp
    show "set (sort_key event_key other) = set (sort_key event_key (snap_events snap))"
      using assms(6) by (metis mset_eq_setD set_sort)
  qed simp_all
  with keys show ?thesis
    by (simp add: trace_ordered_events_def)
qed

theorem capture_order_canonical_witness:
  "\<exists>cap c1 snap. start_capture demo_options 0 demo_collector = Inr (cap, c1) \<and>
     fst (stop_capture cap (emit_all [(2, TaskLifecycle, blank_event, 5)] c1)) = Some snap \<and>
     sorted (map event_key (trace_ordered_events (Some snap)))"
proof -
  have st: "total_buffer_slots demo_options (col_slots demo_collector) = Some 4"
    by (simp add: total_buffer_slots_def add_part_def count_kind_def demo_defs Let_def)
  obtain cap c1 where r: "start_capture demo_options 0 demo_collector = Inr (cap, c1)"
    using st by (simp add: start_capture_def Let_def demo_defs category_defs)
  let ?es = "[(2, TaskLifecycle, blank_event, 5)] :: emission list"
  have n: "length (col_slots c1) = 3" and d: "distinct (map slot_producer_id (col_slots c1))"
    using r st by (auto simp: start_capture_def Let_def demo_defs split: if_splits)
  obtain snap cap' c2 where s: "stop_capture cap (emit_all ?es c1) = (Some snap, cap', c2)"
    using start_capture_logs [OF r] stop_capture_Some [of cap _ "emit_all ?es c1"] by force
  show ?thesis
    using capture_order_canonical [OF r _ _ d s refl] n r s by auto
qed

text \<open>
  A capture restricted to the category \<open>StealSuccess\<close> records nothing: no event kind maps to that
  category, so emitting any descriptor leaves the collector unchanged.
\<close>

theorem steal_success_category_never_records:
  assumes "\<forall>g. col_current c = Some g \<longrightarrow> gen_mask (col_generations c ! g) = Cat_StealSuccess"
  shows "trace_emit_desc slot d now c = c"
proof -
  have "Cat_StealSuccess AND category_for_kind k = 0" for k
    by (cases k) (simp_all add: category_defs)
  with assms show ?thesis
    by (auto simp: trace_emit_desc_def emit_event_def split: option.splits)
qed

theorem steal_success_category_never_records_witness:
  "\<exists>cap c1. start_capture (demo_options\<lparr>opt_categories := Cat_StealSuccess\<rparr>) 0 demo_collector = Inr (cap, c1) \<and>
     recording_locked c1 \<and>
     trace_emit_desc (Some 2) (blank_desc\<lparr>d_kind := StealSuccess\<rparr>) 9 c1 = c1"
proof -
  let ?o = "demo_options\<lparr>opt_categories := Cat_StealSuccess\<rparr>"
  have st: "total_buffer_slots ?o (col_slots demo_collector) = Some 4"
    by (simp add: total_buffer_slots_def add_part_def count_kind_def demo_defs Let_def)
  obtain cap c1 where r: "start_capture ?o 0 demo_collector = Inr (cap, c1)"
    using st by (simp add: start_capture_def Let_def demo_defs category_defs)
  have "\<forall>g. col_current c1 = Some g \<longrightarrow> gen_mask (col_generations c1 ! g) = Cat_StealSuccess"
    and "recording_locked c1"
    using r st by (auto simp: start_capture_def Let_def recording_locked_def split: if_splits)
  then show ?thesis
    using steal_success_category_never_records [of c1 "Some 2" "blank_desc\<lparr>d_kind := StealSuccess\<rparr>" 9] r
    by blast
qed

end
