(* ===== verification/Json.thy ===== *)
theory Json
  imports Prelude "HOL-Library.Monad_Syntax"
begin

text \<open>
  The JSON texts a trace export is meant to be: values, a printer, and a reader that is lenient about
  numbers and white space.  The reader takes a bound on the depth of its recursion; the length of the
  text is always enough.  \<open>read_show\<close> is the round trip.
\<close>

section \<open>Numbers\<close>

text \<open>\<open>std::to_string\<close> of an unsigned integer.\<close>

definition digit :: "nat \<Rightarrow> char" where
  "digit n = char_of (48 + n)"

fun nat_string :: "nat \<Rightarrow> string" where
  "nat_string n = (if n < 10 then [digit n] else nat_string (n div 10) @ [digit (n mod 10)])"

declare nat_string.simps [simp del]

definition is_digit :: "char \<Rightarrow> bool" where
  "is_digit c \<longleftrightarrow> 48 \<le> (of_char c :: nat) \<and> (of_char c :: nat) \<le> 57"

definition digits_value :: "nat \<Rightarrow> string \<Rightarrow> nat" where
  "digits_value = foldl (\<lambda>a c. 10 * a + (of_char c - 48))"

lemma of_char_digit [simp]: "n < 10 \<Longrightarrow> (of_char (digit n) :: nat) = 48 + n"
  by (simp add: digit_def)

lemma is_digit_digit [simp]: "n < 10 \<Longrightarrow> is_digit (digit n)"
  by (simp add: is_digit_def)

lemma digits_value_simps [simp]:
  "digits_value a [] = a" "digits_value a (c # cs) = digits_value (10 * a + (of_char c - 48)) cs"
  "digits_value a (xs @ ys) = digits_value (digits_value a xs) ys"
  by (simp_all add: digits_value_def)

lemma nat_string_value: "digits_value 0 (nat_string n) = n"
proof (induction n rule: nat_string.induct)
  case (1 n)
  then show ?case
    by (subst nat_string.simps) (simp add: mod_less_divisor)
qed

lemma nat_string_digits: "list_all is_digit (nat_string n)"
proof (induction n rule: nat_string.induct)
  case (1 n)
  then show ?case
    by (subst nat_string.simps) simp
qed

lemma nat_string_nonempty [simp]: "nat_string n \<noteq> []"
  by (subst nat_string.simps) simp

section \<open>Strings\<close>

definition hex_digits :: string where
  "hex_digits = ''0123456789abcdef''"

definition hex_value :: "char \<Rightarrow> nat" where
  "hex_value c = (if is_digit c then of_char c - 48 else of_char c - 87)"

lemma hex_value_digit [simp]: "i < 16 \<Longrightarrow> hex_value (hex_digits ! i) = i"
proof -
  have "\<forall>i \<in> set [0..<16]. hex_value (hex_digits ! i) = i"
    by code_simp
  then show "i < 16 \<Longrightarrow> hex_value (hex_digits ! i) = i" by simp
qed

abbreviation quote :: char where "quote \<equiv> CHR 0x22"
abbreviation backslash :: char where "backslash \<equiv> CHR 0x5C"

text \<open>One character inside a JSON string, as \<open>append_json_string\<close> writes it.\<close>

definition escape :: "char \<Rightarrow> string" where
  "escape c =
     (if c = quote then [backslash, quote]
      else if c = backslash then [backslash, backslash]
      else if c = CHR 0x0A then [backslash, CHR ''n'']
      else if c = CHR 0x0D then [backslash, CHR ''r'']
      else if c = CHR 0x09 then [backslash, CHR ''t'']
      else if (of_char c :: nat) < 32 then
        backslash # ''u00'' @ [hex_digits ! (of_char c div 16), hex_digits ! (of_char c mod 16)]
      else [c])"

fun read_chars :: "string \<Rightarrow> (string \<times> string) option" where
  "read_chars [] = None"
| "read_chars (c # r) =
     (if c = quote then Some ([], r)
      else if c \<noteq> backslash then
        (if (of_char c :: nat) < 32 then None else map_option (apfst (Cons c)) (read_chars r))
      else (case r of
          [] \<Rightarrow> None
        | e # r1 \<Rightarrow>
            if e = quote \<or> e = backslash \<or> e = CHR ''/'' then map_option (apfst (Cons e)) (read_chars r1)
            else if e = CHR ''n'' then map_option (apfst (Cons (CHR 0x0A))) (read_chars r1)
            else if e = CHR ''r'' then map_option (apfst (Cons (CHR 0x0D))) (read_chars r1)
            else if e = CHR ''t'' then map_option (apfst (Cons (CHR 0x09))) (read_chars r1)
            else if e = CHR ''u'' then
              (case r1 of
                 a # b # c1 # c2 # r2 \<Rightarrow>
                   if a = CHR ''0'' \<and> b = CHR ''0'' then
                     map_option (apfst (Cons (char_of (16 * hex_value c1 + hex_value c2)))) (read_chars r2)
                   else None
               | _ \<Rightarrow> None)
            else None))"

lemma read_escape: "read_chars (escape c @ r) = map_option (apfst (Cons c)) (read_chars r)"
proof -
  have split: "char_of (16 * (of_char c div 16) + of_char c mod 16) = c" if "(of_char c :: nat) < 32"
    by (metis char_of_char div_mult_mod_eq mult.commute)
  have "(of_char c :: nat) div 16 < 16" if "(of_char c :: nat) < 32"
    using that by (simp add: less_mult_imp_div_less)
  then show ?thesis
    by (auto simp: escape_def split)
qed

definition show_string :: "string \<Rightarrow> string" where
  "show_string t = quote # concat (map escape t) @ [quote]"

lemma read_chars_shown: "read_chars (concat (map escape t) @ quote # r) = Some (t, r)"
  by (induction t) (simp_all add: read_escape)

section \<open>Values\<close>

datatype json = JStr string | JNum nat string | JBool bool | JObj fields | JArr items
  and fields = No_field | Field string json fields
  and items = No_item | Item json items

fun show_json :: "json \<Rightarrow> string"
  and show_fields :: "fields \<Rightarrow> string"
  and show_items :: "items \<Rightarrow> string" where
  "show_json (JStr t) = show_string t"
| "show_json (JNum a f) = nat_string a @ (if f = [] then [] else CHR ''.'' # f)"
| "show_json (JBool b) = (if b then ''true'' else ''false'')"
| "show_json (JObj fs) = CHR ''{'' # show_fields fs @ ''}''"
| "show_json (JArr is) = CHR ''['' # show_items is @ '']''"
| "show_fields No_field = []"
| "show_fields (Field k v fs) =
     show_string k @ '':'' @ show_json v @ (if fs = No_field then [] else '','') @ show_fields fs"
| "show_items No_item = []"
| "show_items (Item v is) = show_json v @ (if is = No_item then [] else '','') @ show_items is"

fun field_list :: "fields \<Rightarrow> (string \<times> json) list" where
  "field_list No_field = []"
| "field_list (Field k v fs) = (k, v) # field_list fs"

definition skip_space :: "string \<Rightarrow> string" where
  "skip_space = dropWhile (\<lambda>c. c \<in> {CHR '' '', CHR 0x0A, CHR 0x0D, CHR 0x09})"

definition expect :: "char \<Rightarrow> string \<Rightarrow> string option" where
  "expect c s = (case skip_space s of [] \<Rightarrow> None | d # r \<Rightarrow> if d = c then Some r else None)"

definition read_number :: "string \<Rightarrow> (json \<times> string) option" where
  "read_number s =
     (let ds = takeWhile is_digit s; r = dropWhile is_digit s
      in if ds = [] then None
         else case r of
           c # r1 \<Rightarrow>
             if c = CHR ''.'' then Some (JNum (digits_value 0 ds) (takeWhile is_digit r1), dropWhile is_digit r1)
             else Some (JNum (digits_value 0 ds) [], r)
         | [] \<Rightarrow> Some (JNum (digits_value 0 ds) [], []))"

fun read_value :: "nat \<Rightarrow> string \<Rightarrow> (json \<times> string) option"
  and read_fields :: "nat \<Rightarrow> string \<Rightarrow> (fields \<times> string) option"
  and read_items :: "nat \<Rightarrow> string \<Rightarrow> (items \<times> string) option" where
  "read_value 0 s = None"
| "read_value (Suc n) s =
     (let t = skip_space s
      in if take 1 t = [quote] then map_option (apfst JStr) (read_chars (drop 1 t))
         else if take 1 t = ''{'' then
           (case expect (CHR ''}'') (drop 1 t) of
              Some r \<Rightarrow> Some (JObj No_field, r)
            | None \<Rightarrow> map_option (apfst JObj) (read_fields n (drop 1 t)))
         else if take 1 t = ''['' then
           (case expect (CHR '']'') (drop 1 t) of
              Some r \<Rightarrow> Some (JArr No_item, r)
            | None \<Rightarrow> map_option (apfst JArr) (read_items n (drop 1 t)))
         else if take 4 t = ''true'' then Some (JBool True, drop 4 t)
         else if take 5 t = ''false'' then Some (JBool False, drop 5 t)
         else read_number t)"
| "read_fields 0 s = None"
| "read_fields (Suc n) s =
     do {
       r1 \<leftarrow> expect quote s;
       (k, r2) \<leftarrow> read_chars r1;
       r3 \<leftarrow> expect (CHR '':'') r2;
       (v, r4) \<leftarrow> read_value n r3;
       (case expect (CHR '','') r4 of
          Some r5 \<Rightarrow> map_option (apfst (Field k v)) (read_fields n r5)
        | None \<Rightarrow> map_option (\<lambda>r5. (Field k v No_field, r5)) (expect (CHR ''}'') r4))
     }"
| "read_items 0 s = None"
| "read_items (Suc n) s =
     do {
       (v, r1) \<leftarrow> read_value n s;
       (case expect (CHR '','') r1 of
          Some r2 \<Rightarrow> map_option (apfst (Item v)) (read_items n r2)
        | None \<Rightarrow> map_option (\<lambda>r2. (Item v No_item, r2)) (expect (CHR '']'') r1))
     }"

text \<open>A text is a JSON document when one value is all it holds.\<close>

definition is_json_document :: "nat \<Rightarrow> string \<Rightarrow> bool" where
  "is_json_document n s =
     (case read_value n s of None \<Rightarrow> False | Some (v, r) \<Rightarrow> skip_space r = [])"

section \<open>Reading what was printed\<close>

fun ok_json :: "json \<Rightarrow> bool" and ok_fields :: "fields \<Rightarrow> bool" and ok_items :: "items \<Rightarrow> bool" where
  "ok_json (JNum a f) \<longleftrightarrow> list_all is_digit f"
| "ok_json (JObj fs) \<longleftrightarrow> ok_fields fs"
| "ok_json (JArr is) \<longleftrightarrow> ok_items is"
| "ok_json (JStr t) \<longleftrightarrow> True"
| "ok_json (JBool b) \<longleftrightarrow> True"
| "ok_fields No_field \<longleftrightarrow> True"
| "ok_fields (Field k v fs) \<longleftrightarrow> ok_json v \<and> ok_fields fs"
| "ok_items No_item \<longleftrightarrow> True"
| "ok_items (Item v is) \<longleftrightarrow> ok_json v \<and> ok_items is"

definition ends_value :: "string \<Rightarrow> bool" where
  "ends_value r \<longleftrightarrow> (case r of [] \<Rightarrow> True | c # _ \<Rightarrow> \<not> is_digit c \<and> c \<noteq> CHR ''.'')"

definition is_space :: "char \<Rightarrow> bool" where
  "is_space c \<longleftrightarrow> c \<in> {CHR '' '', CHR 0x0A, CHR 0x0D, CHR 0x09}"

lemma skip_space_simps [simp]:
  "skip_space [] = []" "is_space c \<Longrightarrow> skip_space (c # r) = skip_space r"
  "\<not> is_space c \<Longrightarrow> skip_space (c # r) = c # r"
  by (auto simp: skip_space_def is_space_def)

lemma digit_not_space: "is_digit c \<Longrightarrow> \<not> is_space c"
  by (auto simp: is_digit_def is_space_def)

lemma expect_simps [simp]:
  "expect c [] = None" "is_space d \<Longrightarrow> expect c (d # r) = expect c r"
  "\<not> is_space d \<Longrightarrow> expect c (d # r) = (if d = c then Some r else None)"
  by (simp_all add: expect_def)

lemma space_chars [simp]:
  "\<not> is_space quote" "\<not> is_space (CHR '','')" "\<not> is_space (CHR '':'')" "\<not> is_space (CHR ''}'')" "\<not> is_space (CHR '']'')"
  "\<not> is_space (CHR ''{'')" "\<not> is_space (CHR ''['')" "\<not> is_space (CHR ''t'')" "\<not> is_space (CHR ''f'')" "is_space (CHR 0x0A)"
  by (simp_all add: is_space_def)

lemma ends_value_chars [simp]:
  "ends_value (CHR '','' # r)" "ends_value (CHR ''}'' # r)" "ends_value (CHR '']'' # r)" "ends_value []" "ends_value (CHR 0x0A # r)"
  by (simp_all add: ends_value_def is_digit_def)

lemma takeWhile_digits:
  assumes "list_all is_digit ds" and "r = [] \<or> \<not> is_digit (hd r)"
  shows "takeWhile is_digit (ds @ r) = ds" "dropWhile is_digit (ds @ r) = r"
proof -
  have "takeWhile is_digit r = []" "dropWhile is_digit r = r"
    using assms(2) by (cases r; simp)+
  then show "takeWhile is_digit (ds @ r) = ds" "dropWhile is_digit (ds @ r) = r"
    using assms(1) by (simp_all add: list_all_iff takeWhile_append2 dropWhile_append2)
qed

lemma read_number_shown:
  assumes "list_all is_digit f" and "ends_value r"
  shows "read_number (show_json (JNum a f) @ r) = Some (JNum a f, r)"
proof -
  have r: "r = [] \<or> \<not> is_digit (hd r)" "r = [] \<or> hd r \<noteq> CHR ''.''"
    using assms(2) by (auto simp: ends_value_def split: list.splits)
  have dot: "\<not> is_digit (CHR ''.'')" by (simp add: is_digit_def)
  show ?thesis
  proof (cases "f = []")
    case True
    have "read_number (nat_string a @ r) = Some (JNum a [], r)"
      unfolding read_number_def Let_def takeWhile_digits [OF nat_string_digits r(1), of a]
      using r(2) by (cases r) (simp_all add: nat_string_value)
    with True show ?thesis by simp
  next
    case False
    then show ?thesis
      using takeWhile_digits [OF nat_string_digits, of "CHR ''.'' # f @ r" a] takeWhile_digits [OF assms(1) r(1)] dot
      by (simp add: read_number_def nat_string_value)
  qed
qed

lemma nat_string_head: obtains c cs where "nat_string n = c # cs" "is_digit c"
  using nat_string_digits [of n] by (cases "nat_string n") auto

lemma show_json_head:
  obtains c cs where "show_json v = c # cs" "\<not> is_space c" "c \<noteq> CHR '']''"
proof (cases v)
  case (JNum a f)
  obtain c cs where c: "nat_string a = c # cs" "is_digit c" by (rule nat_string_head)
  moreover from c(2) have "c \<noteq> CHR '']''" by (auto simp: is_digit_def)
  ultimately show ?thesis
    using JNum that [of c] by (simp add: digit_not_space)
next
  case (JBool b)
  with that show ?thesis by (cases b) auto
qed (use that in \<open>auto simp: show_string_def\<close>)

lemma digit_no_bracket:
  "is_digit c \<Longrightarrow> c \<noteq> quote \<and> c \<noteq> CHR ''{'' \<and> c \<noteq> CHR ''['' \<and> c \<noteq> CHR ''t'' \<and> c \<noteq> CHR ''f''"
  by (auto simp: is_digit_def)

lemma show_fields_head: "fs \<noteq> No_field \<Longrightarrow> \<exists>r. show_fields fs = quote # r"
  by (cases fs) (auto simp: show_string_def)

lemma show_items_head: "is \<noteq> No_item \<Longrightarrow> \<exists>c r. show_items is = c # r \<and> \<not> is_space c \<and> c \<noteq> CHR '']''"
proof (cases "is")
  case (Item v js)
  obtain c cs where "show_json v = c # cs" "\<not> is_space c" "c \<noteq> CHR '']''" by (rule show_json_head)
  with Item show ?thesis by simp
qed simp

lemma read_show:
  "ok_json v \<Longrightarrow> length (show_json v) \<le> n \<Longrightarrow> ends_value r \<Longrightarrow> read_value n (show_json v @ r) = Some (v, r)"
  "ok_fields fs \<Longrightarrow> fs \<noteq> No_field \<Longrightarrow> length (show_fields fs) \<le> n \<Longrightarrow>
     read_fields n (show_fields fs @ CHR ''}'' # r) = Some (fs, r)"
  "ok_items is \<Longrightarrow> is \<noteq> No_item \<Longrightarrow> length (show_items is) < n \<Longrightarrow>
     read_items n (show_items is @ CHR '']'' # r) = Some (is, r)"
proof (induction v and fs and "is" arbitrary: n r and n r and n r rule: show_json_show_fields_show_items.induct)
  case (1 t)
  then show ?case
    by (cases n) (simp_all add: show_string_def read_chars_shown)
next
  case (2 a f)
  then obtain m where n: "n = Suc m" by (cases n) auto
  obtain c cs where c: "nat_string a = c # cs" "is_digit c" by (rule nat_string_head)
  then show ?case
    using read_number_shown [of f r a] 2(1,3) n digit_no_bracket [OF c(2)] by (simp add: digit_not_space)
next
  case (3 b)
  then show ?case by (cases n) (auto split: if_splits)
next
  case (4 fs)
  then obtain m where n: "n = Suc m" by (cases n) auto
  show ?case
  proof (cases "fs = No_field")
    case False
    with show_fields_head obtain q where "show_fields fs = quote # q" by blast
    with 4 n False show ?thesis by simp
  qed (use n in simp)
next
  case (5 "is")
  then obtain m where n: "n = Suc m" by (cases n) auto
  show ?case
  proof (cases "is = No_item")
    case False
    with show_items_head obtain c q where "show_items is = c # q" "\<not> is_space c" "c \<noteq> CHR '']''" by blast
    with 5 n False show ?thesis by simp
  qed (use n in simp)
next
  case (7 k v fs)
  then obtain m where n: "n = Suc m" by (cases n) auto
  have v: "read_value m (show_json v @ CHR '','' # q) = Some (v, CHR '','' # q)"
    "read_value m (show_json v @ CHR ''}'' # q) = Some (v, CHR ''}'' # q)" for q
    using 7(1,3,5) n by (simp_all add: show_string_def)
  show ?case
  proof (cases "fs = No_field")
    case True
    then show ?thesis using v n by (simp add: show_string_def read_chars_shown)
  next
    case False
    then have "read_fields m (show_fields fs @ CHR ''}'' # r) = Some (fs, r)"
      using 7(2,3,5) n by (simp add: show_string_def)
    with False show ?thesis using v n by (simp add: show_string_def read_chars_shown)
  qed
next
  case (9 v "is")
  then obtain m where n: "n = Suc m" by (cases n) auto
  have v: "read_value m (show_json v @ CHR '','' # q) = Some (v, CHR '','' # q)"
    "read_value m (show_json v @ CHR '']'' # q) = Some (v, CHR '']'' # q)" for q
    using 9(1,3,5) n by (simp_all split: if_splits)
  show ?case
  proof (cases "is = No_item")
    case True
    then show ?thesis using v n by simp
  next
    case False
    then have "read_items m (show_items is @ CHR '']'' # r) = Some (is, r)"
      using 9(2,3,5) n by simp
    with False show ?thesis using v n by simp
  qed
qed simp_all

lemma bind_mono:
  assumes "Option.bind a f = Some y" and "\<And>x. a = Some x \<Longrightarrow> a' = Some x" and "\<And>x. a = Some x \<Longrightarrow> f x = Some y \<Longrightarrow> f' x = Some y"
  shows "Option.bind a' f' = Some y"
  using assms by (cases a) auto

lemma bind_mono_pair:
  assumes "Option.bind a (\<lambda>(u, w). f u w) = Some y" and "\<And>x. a = Some x \<Longrightarrow> a' = Some x"
    and "\<And>u w. a = Some (u, w) \<Longrightarrow> f u w = Some y \<Longrightarrow> f' u w = Some y"
  shows "Option.bind a' (\<lambda>(u, w). f' u w) = Some y"
  using assms by (cases a) auto

lemma read_value_obj:
  "skip_space s = CHR ''{'' # q \<Longrightarrow> read_value (Suc n) s =
     (case expect (CHR ''}'') q of Some r \<Rightarrow> Some (JObj No_field, r) | None \<Rightarrow> map_option (apfst JObj) (read_fields n q))"
  by (simp split: option.split)

lemma read_value_arr:
  "skip_space s = CHR ''['' # q \<Longrightarrow> read_value (Suc n) s =
     (case expect (CHR '']'') q of Some r \<Rightarrow> Some (JArr No_item, r) | None \<Rightarrow> map_option (apfst JArr) (read_items n q))"
  by (simp split: option.split)

lemma read_value_flat:
  "take 1 (skip_space s) \<noteq> ''{'' \<Longrightarrow> take 1 (skip_space s) \<noteq> ''['' \<Longrightarrow> read_value (Suc n) s = read_value (Suc m) s"
  by (simp only: read_value.simps Let_def if_False)

text \<open>A larger bound changes nothing, so a printed value is read as itself or not at all.\<close>

lemma read_mono:
  "read_value n s = Some x \<Longrightarrow> n \<le> m \<Longrightarrow> read_value m s = Some x"
  "read_fields n s = Some y \<Longrightarrow> n \<le> m \<Longrightarrow> read_fields m s = Some y"
  "read_items n s = Some z \<Longrightarrow> n \<le> m \<Longrightarrow> read_items m s = Some z"
proof (induction n s and n s and n s arbitrary: x m and y m and z m rule: read_value_read_fields_read_items.induct)
  case (2 n s)
  then obtain m' where m: "m = Suc m'" "n \<le> m'" by (cases m) auto
  consider (obj) q where "skip_space s = CHR ''{'' # q" | (arr) q where "skip_space s = CHR ''['' # q"
    | (flat) "take 1 (skip_space s) \<noteq> ''{''" "take 1 (skip_space s) \<noteq> ''[''"
    by (cases "skip_space s") auto
  then show ?case
  proof cases
    case obj
    note eqs = read_value_obj [OF obj]
    show ?thesis
    proof (cases "expect (CHR ''}'') q")
      case None
      with 2(3) obtain y where y: "read_fields n q = Some y" "x = apfst JObj y"
        unfolding eqs by auto
      have "read_fields m' q = Some y"
        using 2(1) [OF refl _ _ _ _ m(2), of y] y(1) obj None by simp
      with y None show ?thesis unfolding m(1) eqs by simp
    next
      case (Some r)
      with 2(3) show ?thesis unfolding m(1) eqs by simp
    qed
  next
    case arr
    note eqs = read_value_arr [OF arr]
    show ?thesis
    proof (cases "expect (CHR '']'') q")
      case None
      with 2(3) obtain y where y: "read_items n q = Some y" "x = apfst JArr y"
        unfolding eqs by auto
      have "read_items m' q = Some y"
        using 2(2) [OF refl _ _ _ _ _ m(2), of y] y(1) arr None by simp
      with y None show ?thesis unfolding m(1) eqs by simp
    next
      case (Some r)
      with 2(3) show ?thesis unfolding m(1) eqs by simp
    qed
  next
    case flat
    from read_value_flat [OF flat, of n m'] 2(3) m(1) show ?thesis by argo
  qed
next
  case (4 n s)
  from \<open>Suc n \<le> m\<close> obtain m' where m: "m = Suc m'" "n \<le> m'" by (cases m) auto
  have later: "(case expect (CHR '','') r of
      Some r5 \<Rightarrow> map_option (apfst (Field k v)) (read_fields m' r5)
    | None \<Rightarrow> map_option (\<lambda>r5. (Field k v No_field, r5)) (expect (CHR ''}'') r)) = Some y"
    if "expect quote s = Some r1" "read_chars r1 = Some (k, r2)" "expect (CHR '':'') r2 = Some r3" "read_value n r3 = Some (v, r)"
      and res: "(case expect (CHR '','') r of
        Some r5 \<Rightarrow> map_option (apfst (Field k v)) (read_fields n r5)
      | None \<Rightarrow> map_option (\<lambda>r5. (Field k v No_field, r5)) (expect (CHR ''}'') r)) = Some y" for r1 k r2 r3 v r
  proof (cases "expect (CHR '','') r")
    case (Some r5)
    with res obtain q where "read_fields n r5 = Some q" "y = apfst (Field k v) q" by auto
    with 4(2) [OF that(1,2) refl that(3,4) refl Some _ m(2)] Some show ?thesis by simp
  qed (use res in simp)
  show ?case
    using 4(3) unfolding m(1) read_fields.simps
    apply (rule bind_mono)
     apply assumption
    apply (rule bind_mono_pair, assumption, assumption)
    apply (rule bind_mono, assumption, assumption)
    apply (rule bind_mono_pair, assumption)
     apply (rule 4(1) [OF _ _ refl _ _ m(2)], assumption+)
    apply (rule later, assumption+)
    done
next
  case (6 n s)
  from \<open>Suc n \<le> m\<close> obtain m' where m: "m = Suc m'" "n \<le> m'" by (cases m) auto
  have later: "(case expect (CHR '','') r of
      Some r2 \<Rightarrow> map_option (apfst (Item v)) (read_items m' r2)
    | None \<Rightarrow> map_option (\<lambda>r2. (Item v No_item, r2)) (expect (CHR '']'') r)) = Some z"
    if "read_value n s = Some (v, r)"
      and res: "(case expect (CHR '','') r of
        Some r2 \<Rightarrow> map_option (apfst (Item v)) (read_items n r2)
      | None \<Rightarrow> map_option (\<lambda>r2. (Item v No_item, r2)) (expect (CHR '']'') r)) = Some z" for v r
  proof (cases "expect (CHR '','') r")
    case (Some r2)
    with res obtain q where "read_items n r2 = Some q" "z = apfst (Item v) q" by auto
    with 6(2) [OF that(1) refl Some _ m(2)] Some show ?thesis by simp
  qed (use res in simp)
  show ?case
    using 6(3) unfolding m(1) read_items.simps
    apply (rule bind_mono_pair)
     apply (rule 6(1) [OF _ m(2)], assumption)
    apply (rule later, assumption+)
    done
qed simp_all

lemma read_shown_value:
  assumes "read_value n (show_json v @ r) = Some x" and "ok_json v" and "ends_value r"
  shows "x = (v, r)"
proof -
  let ?m = "max n (length (show_json v))"
  have "read_value ?m (show_json v @ r) = Some x"
    using read_mono(1) [OF assms(1)] by simp
  moreover have "read_value ?m (show_json v @ r) = Some (v, r)"
    using read_show(1) [OF assms(2) _ assms(3)] by simp
  ultimately show ?thesis by simp
qed

lemma read_value_space [simp]: "is_space c \<Longrightarrow> read_value n (c # s) = read_value n s"
  by (cases n) simp_all

lemma read_items_space [simp]: "is_space c \<Longrightarrow> read_items n (c # s) = read_items n s"
  by (cases n) simp_all

section \<open>Lists of members\<close>

primrec fields_of :: "(string \<times> json) list \<Rightarrow> fields" where
  "fields_of [] = No_field"
| "fields_of (m # ms) = Field (fst m) (snd m) (fields_of ms)"

definition show_tail :: "(string \<times> json) list \<Rightarrow> string" where
  "show_tail ms = concat (map (\<lambda>(k, v). CHR '','' # show_string k @ CHR '':'' # show_json v) ms)"

lemma show_tail_simps [simp]:
  "show_tail [] = []" "show_tail (xs @ ys) = show_tail xs @ show_tail ys"
  "show_tail ((k, v) # ms) = CHR '','' # show_string k @ CHR '':'' # show_json v @ show_tail ms"
  by (simp_all add: show_tail_def)

lemma show_fields_of: "show_fields (fields_of ((k, v) # ms)) = show_string k @ CHR '':'' # show_json v @ show_tail ms"
proof (induction ms arbitrary: k v)
  case (Cons m ms)
  then show ?case by (cases m) simp
qed simp

lemma field_list_of [simp]: "field_list (fields_of ms) = ms"
  by (induction ms) simp_all

lemma ok_fields_of: "ok_fields (fields_of ms) \<longleftrightarrow> list_all (\<lambda>m. ok_json (snd m)) ms"
  by (induction ms) simp_all

end
