(* ===== verification/Trace_Export.thy ===== *)
theory Trace_Export
  imports Trace_Collector Json
begin

text \<open>
  The Chrome trace writer of \<open>src/observability/trace_export.cpp\<close>: names, number and string formats, the
  validation of a stopped snapshot, the single scan that pairs segment ends with their starts and writes
  the events, the metadata, and the result.  The text is a list of bytes; the output stream is the caller's,
  so whether its write succeeds is an argument.
\<close>

section \<open>Names\<close>

definition all_kinds :: "TraceEventKind list" where
  "all_kinds =
     [Admission, Rejected, TaskReady, TaskClaimed, TaskFirstStart, TaskSegmentEnd, TaskTerminal, CancelRequested,
      LocalClaim, GlobalClaim, StealSuccess, StealAttempt, WorkerPark, WorkerWake, CoroutineSuspend, CoroutineResume,
      CoroutineYield, TimerRegister, TimerFire, TimerCancel, GraphAccepted, GraphTerminal, NodeDependencyRelease,
      DeadlineMet, DeadlineMissed, WaitBegin, WaitEnd, AwaitArmed, AwaitTriggered, AwaitResumed, RuntimeHandoff,
      RuntimeJoinReady, RuntimeJoined, FinalizationBegin, FinalizationEscalate, CoordinatorExit,
      FinalizationComplete, UnobservedFailure]"

text \<open>The enumerator an integer stands for when it is cast to the enumeration.\<close>

definition kind_of_code :: "u16 \<Rightarrow> TraceEventKind option" where
  "kind_of_code w = find (\<lambda>k. kind_code k = w) all_kinds"

fun kind_name :: "TraceEventKind \<Rightarrow> string" where
  "kind_name Admission = ''admission''"
| "kind_name Rejected = ''rejected''"
| "kind_name TaskReady = ''task_ready''"
| "kind_name TaskClaimed = ''task_claimed''"
| "kind_name TaskFirstStart = ''task_first_start''"
| "kind_name TaskSegmentEnd = ''task_segment_end''"
| "kind_name TaskTerminal = ''task_terminal''"
| "kind_name CancelRequested = ''cancel_requested''"
| "kind_name LocalClaim = ''local_claim''"
| "kind_name GlobalClaim = ''global_claim''"
| "kind_name StealSuccess = ''steal_success''"
| "kind_name StealAttempt = ''steal_attempt''"
| "kind_name WorkerPark = ''worker_park''"
| "kind_name WorkerWake = ''worker_wake''"
| "kind_name CoroutineSuspend = ''coroutine_suspend''"
| "kind_name CoroutineResume = ''coroutine_resume''"
| "kind_name CoroutineYield = ''coroutine_yield''"
| "kind_name TimerRegister = ''timer_register''"
| "kind_name TimerFire = ''timer_fire''"
| "kind_name TimerCancel = ''timer_cancel''"
| "kind_name GraphAccepted = ''graph_accepted''"
| "kind_name GraphTerminal = ''graph_terminal''"
| "kind_name NodeDependencyRelease = ''node_dependency_release''"
| "kind_name DeadlineMet = ''deadline_met''"
| "kind_name DeadlineMissed = ''deadline_missed''"
| "kind_name WaitBegin = ''wait_begin''"
| "kind_name WaitEnd = ''wait_end''"
| "kind_name AwaitArmed = ''await_armed''"
| "kind_name AwaitTriggered = ''await_triggered''"
| "kind_name AwaitResumed = ''await_resumed''"
| "kind_name RuntimeHandoff = ''runtime_handoff''"
| "kind_name RuntimeJoinReady = ''runtime_join_ready''"
| "kind_name RuntimeJoined = ''runtime_joined''"
| "kind_name FinalizationBegin = ''finalization_begin''"
| "kind_name FinalizationEscalate = ''finalization_escalate''"
| "kind_name CoordinatorExit = ''coordinator_exit''"
| "kind_name FinalizationComplete = ''finalization_complete''"
| "kind_name UnobservedFailure = ''unobserved_failure''"

definition trace_event_kind_name :: "u16 \<Rightarrow> string option" where
  "trace_event_kind_name w = map_option kind_name (kind_of_code w)"

definition trace_category_name :: "TraceCategory \<Rightarrow> string option" where
  "trace_category_name c =
     (if c = TaskLifecycle then Some ''task''
      else if c = QueueScheduling then Some ''queue''
      else if c = Cat_StealAttempt then Some ''steal_attempt''
      else if c = WaitAwait then Some ''wait_await''
      else if c = Coroutine then Some ''coroutine''
      else if c = Graph then Some ''graph''
      else if c = Timer then Some ''timer''
      else if c = Deadline then Some ''deadline''
      else if c = RuntimeLifecycle then Some ''runtime''
      else if c = Verbose then Some ''verbose''
      else None)"

fun producer_kind_name :: "TraceProducerKind \<Rightarrow> string" where
  "producer_kind_name Worker = ''worker''"
| "producer_kind_name ExternalControl = ''external_control''"
| "producer_kind_name Reaper = ''reaper''"

section \<open>Formats\<close>

definition append_u64 :: "u64 \<Rightarrow> string \<Rightarrow> string" where
  "append_u64 v out = out @ nat_string (unat v)"

definition append_ns_as_us :: "u64 \<Rightarrow> string \<Rightarrow> string" where
  "append_ns_as_us ns out =
     (let fraction = ns mod 1000
      in out @ nat_string (unat (ns div 1000)) @ ''.'' @
         (if fraction < 100 then ''0'' else []) @ (if fraction < 10 then ''0'' else []) @
         nat_string (unat fraction))"

text \<open>The loop that fills \<open>buf\<close> from its last position down.\<close>

fun fill_hex :: "nat \<Rightarrow> u64 \<Rightarrow> string \<Rightarrow> string" where
  "fill_hex 0 v buf = buf"
| "fill_hex (Suc i) v buf = fill_hex i (drop_bit 4 v) (hex_digits ! unat (v AND 0xF) # buf)"

definition append_hex64 :: "u64 \<Rightarrow> string \<Rightarrow> string" where
  "append_hex64 v out = out @ fill_hex 16 v []"

definition append_json_string :: "string \<Rightarrow> string \<Rightarrow> string" where
  "append_json_string t out = out @ [quote] @ concat (map escape t) @ [quote]"

section \<open>Kinds of events\<close>

definition is_flow_start_kind :: "u16 \<Rightarrow> bool" where
  "is_flow_start_kind k \<longleftrightarrow> k = kind_code Admission \<or> k = kind_code TaskReady \<or> k = kind_code CoroutineSuspend \<or>
     k = kind_code AwaitArmed"

definition is_flow_finish_kind :: "u16 \<Rightarrow> bool" where
  "is_flow_finish_kind k \<longleftrightarrow> k = kind_code TaskClaimed \<or> k = kind_code LocalClaim \<or> k = kind_code GlobalClaim \<or>
     k = kind_code StealSuccess \<or> k = kind_code CoroutineResume \<or> k = kind_code AwaitTriggered \<or>
     k = kind_code AwaitResumed"

definition is_segment_end_kind :: "u16 \<Rightarrow> bool" where
  "is_segment_end_kind k \<longleftrightarrow> k = kind_code TaskSegmentEnd \<or> k = kind_code TaskTerminal"

definition is_segment_start_kind :: "u16 \<Rightarrow> bool" where
  "is_segment_start_kind k \<longleftrightarrow> k = kind_code TaskFirstStart \<or> k = kind_code CoroutineResume \<or> k = kind_code AwaitResumed"

section \<open>Validation\<close>

datatype export_error = Invalid_argument string | Runtime_error string

definition validate_event :: "TraceEvent \<Rightarrow> export_error + unit" where
  "validate_event ev =
     (if ev_schema_version ev \<noteq> 1 then
        Inl (Invalid_argument ''trace event carries unsupported schema_version'')
      else case kind_of_code (ev_kind ev) of
        None \<Rightarrow> Inl (Invalid_argument ''trace event carries unknown EventKind'')
      | Some k \<Rightarrow>
          (let cat = category_for_kind k
           in if cat = Cat_None \<or> ev_category ev \<noteq> ucast (cat AND 0xFFFF) then
                Inl (Invalid_argument ''trace event category does not match its EventKind'')
              else if (ev_task_id ev \<noteq> 0 \<or> ev_graph_run_id ev \<noteq> 0 \<or> ev_segment_sequence ev \<noteq> 0) \<and> ev_runtime_id ev = 0 then
                Inl (Invalid_argument ''task-bearing trace event is missing RuntimeId'')
              else if (ev_target_task_id ev \<noteq> 0 \<or> ev_target_runtime_id ev \<noteq> 0) \<and>
                      (ev_target_runtime_id ev = 0 \<or> ev_target_task_id ev = 0) then
                Inl (Invalid_argument ''wait edge trace event has incomplete target identity'')
              else if ev_node_id ev \<noteq> 0 \<and> ev_graph_run_id ev = 0 then
                Inl (Invalid_argument ''trace event carries NodeId without GraphRunId'')
              else if ev_segment_sequence ev \<noteq> 0 \<and> ev_task_id ev = 0 then
                Inl (Invalid_argument ''trace event carries SegmentSequence without TaskId'')
              else Inr ()))"

fun validate_events :: "TraceEvent list \<Rightarrow> export_error + unit" where
  "validate_events [] = Inr ()"
| "validate_events (ev # evs) = (case validate_event ev of Inl e \<Rightarrow> Inl e | Inr _ \<Rightarrow> validate_events evs)"

section \<open>The scan\<close>

type_synonym segment_id = "u64 \<times> u64 \<times> u64"

record export_state =
  ex_segment_start :: "segment_id \<Rightarrow> u64 option"
  ex_recorded :: "u64 \<Rightarrow> u64 option"
  ex_gaps :: u64
  ex_json :: string
  ex_first :: bool

definition segment_key :: "TraceEvent \<Rightarrow> segment_id" where
  "segment_key ev = (ev_producer_id ev, ev_runtime_id ev, ev_task_id ev)"

definition append_text :: "string \<Rightarrow> export_state \<Rightarrow> export_state" where
  "append_text t st = st\<lparr>ex_json := ex_json st @ t\<rparr>"

definition append_member :: "string \<Rightarrow> u64 \<Rightarrow> string \<Rightarrow> string" where
  "append_member key v out = append_u64 v (out @ key)"

text \<open>The phase of an event with its times: a duration, an instant, or one end of a flow.\<close>

definition export_flow :: "string \<Rightarrow> TraceEvent \<Rightarrow> string \<Rightarrow> string" where
  "export_flow phase ev out =
     append_hex64 (ev_task_id ev) (append_hex64 (ev_runtime_id ev)
       (append_ns_as_us (ev_timestamp_ns ev) (out @ phase @ ''\",\"ts\":'') @ '',\"id\":\"0x'')) @ ''\"''"

definition export_instant :: "TraceEvent \<Rightarrow> string \<Rightarrow> string" where
  "export_instant ev out = append_ns_as_us (ev_timestamp_ns ev) (out @ ''i\",\"ts\":'')"

definition export_phase :: "TraceEvent \<Rightarrow> export_state \<Rightarrow> export_state" where
  "export_phase ev st =
     (let key = segment_key ev;
          st1 = (if is_segment_start_kind (ev_kind ev)
                 then st\<lparr>ex_segment_start := (ex_segment_start st)(key \<mapsto> ev_timestamp_ns ev)\<rparr> else st)
      in if is_segment_end_kind (ev_kind ev) then
           (case ex_segment_start st1 key of
              Some start \<Rightarrow>
                if start \<le> ev_timestamp_ns ev then
                  st1\<lparr>ex_json := append_ns_as_us (ev_timestamp_ns ev - start)
                         (append_ns_as_us start (ex_json st1 @ ''X\",\"ts\":'') @ '',\"dur\":''),
                       ex_segment_start := (ex_segment_start st1)(key := None)\<rparr>
                else st1\<lparr>ex_json := export_instant ev (ex_json st1), ex_gaps := ex_gaps st1 + 1\<rparr>
            | None \<Rightarrow> st1\<lparr>ex_json := export_instant ev (ex_json st1), ex_gaps := ex_gaps st1 + 1\<rparr>)
         else if is_flow_start_kind (ev_kind ev) \<and> ev_task_id ev \<noteq> 0 then
           st1\<lparr>ex_json := export_flow ''s'' ev (ex_json st1)\<rparr>
         else if is_flow_finish_kind (ev_kind ev) \<and> ev_task_id ev \<noteq> 0 then
           st1\<lparr>ex_json := export_flow ''f'' ev (ex_json st1)\<rparr>
         else st1\<lparr>ex_json := export_instant ev (ex_json st1)\<rparr>)"

definition export_args :: "TraceEvent \<Rightarrow> string \<Rightarrow> string" where
  "export_args ev out =
     (let o1 = append_member '',\"pid\":1,\"tid\":'' (ev_producer_id ev) out;
          o2 = append_member '',\"args\":{\"producer\":'' (ev_producer_id ev) o1;
          o3 = append_member '',\"sequence\":'' (ev_local_sequence ev) o2;
          o4 = append_member '',\"runtime\":'' (ev_runtime_id ev) o3;
          o5 = (if ev_worker_id ev \<noteq> 0 then append_member '',\"worker\":'' (ucast (ev_worker_id ev)) o4 else o4);
          o6 = (if ev_task_id ev \<noteq> 0 then append_member '',\"task\":'' (ev_task_id ev) o5 else o5);
          o7 = (if ev_target_runtime_id ev \<noteq> 0
                then append_member '',\"target_task\":'' (ev_target_task_id ev)
                       (append_member '',\"target_runtime\":'' (ev_target_runtime_id ev) o6)
                else o6);
          o8 = (if ev_graph_run_id ev \<noteq> 0 then append_member '',\"graph_run\":'' (ev_graph_run_id ev) o7 else o7);
          o9 = (if ev_node_id ev \<noteq> 0 then append_member '',\"node\":'' (ucast (ev_node_id ev)) o8 else o8);
          o10 = (if ev_segment_sequence ev \<noteq> 0
                 then append_member '',\"segment\":'' (ucast (ev_segment_sequence ev)) o9 else o9)
      in o10 @ ''}}'')"

text \<open>
  One turn of the scan.  A name that does not exist is a null pointer in the code; validation has excluded
  it, and \<open>the\<close> is left unspecified there.
\<close>

definition export_event :: "string \<Rightarrow> TraceEvent \<Rightarrow> export_state \<Rightarrow> export_state" where
  "export_event sep ev st =
     (let st1 = (if ex_first st then st else append_text sep st)\<lparr>ex_first := False\<rparr>;
          st2 = st1\<lparr>ex_recorded := (ex_recorded st1)(ev_producer_id ev \<mapsto>
                   (case ex_recorded st1 (ev_producer_id ev) of None \<Rightarrow> 0 | Some c \<Rightarrow> c) + 1)\<rparr>;
          j1 = append_json_string (the (trace_event_kind_name (ev_kind ev))) (ex_json st2 @ ''{\"name\":'');
          j2 = append_json_string (the (trace_category_name (ucast (ev_category ev) AND 0xFFFF))) (j1 @ '',\"cat\":'');
          st3 = export_phase ev (st2\<lparr>ex_json := j2 @ '',\"ph\":\"''\<rparr>)
      in st3\<lparr>ex_json := export_args ev (ex_json st3)\<rparr>)"

definition export_events :: "string \<Rightarrow> TraceEvent list \<Rightarrow> export_state \<Rightarrow> export_state" where
  "export_events sep evs st = fold (export_event sep) evs st"

section \<open>Metadata and result\<close>

record ChromeTraceExportResult =
  res_trace_complete :: bool
  res_recorded_events :: u64
  res_dropped_events :: u64
  res_schema_gaps :: u64

definition format_name :: string where "format_name = ''chrome_trace_event''"
definition exporter_version :: string where "exporter_version = ''1.0''"

definition dropped_total :: "TraceSnapshot \<Rightarrow> u64" where
  "dropped_total snap = (\<Sum>r\<leftarrow>snap_producers snap. rep_dropped_events r)"

definition export_producer :: "(u64 \<Rightarrow> u64 option) \<Rightarrow> ProducerReport \<Rightarrow> string" where
  "export_producer recorded r =
     append_member '',\"dropped\":'' (rep_dropped_events r)
       (append_member '',\"recorded\":'' (case recorded (rep_producer_id r) of None \<Rightarrow> 0 | Some c \<Rightarrow> c)
         (append_member '',\"capacity\":'' (rep_capacity r)
           (append_json_string (producer_kind_name (rep_kind r))
             (append_member ''{\"producer_id\":'' (rep_producer_id r) [] @ '',\"kind\":'')))) @ ''}''"

fun export_producers :: "(u64 \<Rightarrow> u64 option) \<Rightarrow> ProducerReport list \<Rightarrow> string" where
  "export_producers recorded [] = []"
| "export_producers recorded (r # rs) =
     export_producer recorded r @ concat (map (\<lambda>r. '','' @ export_producer recorded r) rs)"

definition export_metadata :: "TraceSnapshot \<Rightarrow> ChromeTraceExportResult \<Rightarrow> (u64 \<Rightarrow> u64 option) \<Rightarrow> string \<Rightarrow> string" where
  "export_metadata snap res recorded out =
     (let o1 = append_json_string format_name (out @ ''\"metadata\":{\"format\":'');
          o2 = append_json_string exporter_version (o1 @ '',\"exporter_version\":'');
          o3 = append_member '',\"schema_version\":'' 1 o2;
          o4 = append_member '',\"event_record_size\":'' 96 o3;
          o5 = o4 @ '',\"trace_complete\":'' @ (if res_trace_complete res then ''true'' else ''false'');
          o6 = append_member '',\"recorded_events\":'' (res_recorded_events res) o5;
          o7 = append_member '',\"dropped_events\":'' (res_dropped_events res) o6;
          o8 = append_member '',\"schema_gaps\":'' (res_schema_gaps res) o7;
          o9 = append_member '',\"capture_origin_steady_ns\":'' (word_of_int (snap_origin snap)) o8;
          o10 = append_hex64 (snap_categories snap AND 0xFFFFFFFF) (o9 @ '',\"categories_mask\":\"0x'') @ ''\"''
      in o10 @ '',\"producers\":['' @ export_producers recorded (snap_producers snap) @ '']}'')"

text \<open>The text given to the stream together with the result; \<open>written\<close> is whether the stream took it.\<close>

definition write_chrome_trace ::
  "TraceSnapshot option \<Rightarrow> bool \<Rightarrow> bool \<Rightarrow> export_error + (string \<times> ChromeTraceExportResult)" where
  "write_chrome_trace snapshot written pretty_print =
     (case snapshot of
        None \<Rightarrow> Inl (Invalid_argument ''write_chrome_trace requires a stopped TraceSnapshot'')
      | Some snap \<Rightarrow>
          (let events = trace_ordered_events snapshot
           in case validate_events events of
                Inl e \<Rightarrow> Inl e
              | Inr _ \<Rightarrow>
                  (let sep = (if pretty_print then '','' @ [CHR 0x0A] else '','');
                       st = export_events sep events
                         \<lparr>ex_segment_start = Map.empty, ex_recorded = Map.empty, ex_gaps = 0,
                          ex_json = ''{\"traceEvents\":['' @ (if pretty_print then [CHR 0x0A] else []),
                          ex_first = True\<rparr>;
                       dropped = dropped_total snap;
                       res = \<lparr>res_trace_complete = (dropped = 0 \<and> ex_gaps st = 0),
                              res_recorded_events = of_nat (length events),
                              res_dropped_events = dropped, res_schema_gaps = ex_gaps st\<rparr>;
                       json = export_metadata snap res (ex_recorded st)
                         (ex_json st @ sep @ (if pretty_print then [CHR 0x0A] else [])) @
                         (if pretty_print then CHR 0x0A # ''}'' else ''}'')
                   in if written then Inr (json, res)
                      else Inl (Runtime_error ''write_chrome_trace failed writing to output stream''))))"

end
