(* ===== verification/Trace_Reading.thy ===== *)
theory Trace_Reading
  imports Trace_Export
begin

text \<open>
  What a trace export says: every event is printed as one JSON object from which its record is read back,
  durations come from recorded starts only, the validation decides what is exported, and the document as a
  whole is not JSON, since the array of events is never closed.
\<close>

section \<open>Formats read back\<close>

definition three_digits :: "nat \<Rightarrow> string" where
  "three_digits n = [digit (n div 100), digit (n div 10 mod 10), digit (n mod 10)]"

lemma nat_string_digit: "n < 10 \<Longrightarrow> nat_string n = [digit n]"
  by (simp add: nat_string.simps [of n])

lemma padded_digits:
  assumes "n < 1000"
  shows "(if n < 100 then ''0'' else []) @ (if n < 10 then ''0'' else []) @ nat_string n = three_digits n"
proof -
  have zero: "digit 0 = CHR ''0''"
    by code_simp
  consider "n < 10" | "10 \<le> n" "n < 100" | "100 \<le> n" by linarith
  then show ?thesis
  proof cases
    case 1
    then show ?thesis by (simp add: three_digits_def nat_string_digit zero)
  next
    case 2
    then have "n div 10 < 10" "n div 10 mod 10 = n div 10" "n div 100 = 0" by auto
    with 2 show ?thesis
      by (simp add: three_digits_def nat_string.simps [of n] nat_string_digit zero)
  next
    case 3
    then have h: "n div 10 div 10 = n div 100" "n div 100 < 10" "10 \<le> n div 10"
      using assms by (simp_all add: div_mult2_eq [symmetric])
    from h(2,3) have "nat_string (n div 10) = [digit (n div 100), digit (n div 10 mod 10)]"
      by (simp add: nat_string.simps [of "n div 10"] h(1) nat_string_digit)
    with 3 show ?thesis
      by (simp add: three_digits_def nat_string.simps [of n])
  qed
qed

text \<open>Nanoseconds as a JSON number of microseconds, and back.\<close>

definition json_us :: "u64 \<Rightarrow> json" where
  "json_us ns = JNum (unat (ns div 1000)) (three_digits (unat (ns mod 1000)))"

fun ns_of_json :: "json \<Rightarrow> nat" where
  "ns_of_json (JNum a f) = 1000 * a + digits_value 0 f"
| "ns_of_json _ = 0"

lemma unat_mod_1000: "unat (ns mod 1000 :: u64) < 1000"
  using word_mod_less_divisor [of 1000 ns] by (simp add: word_less_nat_alt)

lemma append_ns_shown: "append_ns_as_us ns out = out @ show_json (json_us ns)"
proof -
  have small: "ns mod 1000 < 100 \<longleftrightarrow> unat (ns mod 1000) < 100" "ns mod 1000 < 10 \<longleftrightarrow> unat (ns mod 1000) < 10"
    by (simp_all add: word_less_nat_alt)
  have "append_ns_as_us ns out = out @ nat_string (unat (ns div 1000)) @ ''.'' @ three_digits (unat (ns mod 1000))"
    unfolding append_ns_as_us_def Let_def small padded_digits [OF unat_mod_1000] ..
  then show ?thesis
    by (simp add: json_us_def three_digits_def)
qed

lemma three_digits_value: "n < 1000 \<Longrightarrow> digits_value 0 (three_digits n) = n"
proof -
  assume "n < 1000"
  then have "n div 100 < 10" by simp
  moreover have "10 * (10 * (n div 100) + n div 10 mod 10) + n mod 10 = n"
  proof -
    have "n div 100 = n div 10 div 10" by (simp add: div_mult2_eq [symmetric])
    then show ?thesis by (simp only: mult_div_mod_eq)
  qed
  ultimately show ?thesis
    by (simp add: three_digits_def)
qed

lemma ns_of_json_us [simp]: "ns_of_json (json_us ns) = unat ns"
proof -
  have "digits_value 0 (three_digits (unat ns mod 1000)) = unat ns mod 1000"
    by (rule three_digits_value) simp
  then show ?thesis
    by (simp add: json_us_def unat_div unat_mod)
qed

lemma ok_json_us [simp]: "ok_json (json_us ns)"
proof -
  have "unat (ns mod 1000) div 100 < 10"
    using unat_mod_1000 [of ns] by linarith
  then show ?thesis
    by (simp add: json_us_def three_digits_def)
qed

definition hex_read :: "nat \<Rightarrow> string \<Rightarrow> nat" where
  "hex_read = foldl (\<lambda>a c. 16 * a + hex_value c)"

lemma hex_read_snoc: "hex_read a (xs @ [c]) = 16 * hex_read a xs + hex_value c"
  by (simp add: hex_read_def)

lemma fill_hex_append: "fill_hex i v buf = fill_hex i v [] @ buf"
proof (induction i arbitrary: v buf)
  case (Suc i)
  let ?d = "hex_digits ! unat (v AND 0xF)"
  have "fill_hex i (drop_bit 4 v) (?d # buf) = fill_hex i (drop_bit 4 v) [] @ [?d] @ buf"
    by (subst Suc) simp
  also have "\<dots> = fill_hex i (drop_bit 4 v) [?d] @ buf"
    by (subst (2) Suc) simp
  finally show ?case by simp
qed simp

lemma unat_nibble: "unat (v AND 0xF :: u64) = unat v mod 16"
proof -
  have "v AND 0xF = v mod 16"
    using take_bit_eq_mask [of 4 v] take_bit_eq_mod [of 4 v] by (simp add: mask_eq_exp_minus_1)
  then show ?thesis by (simp add: unat_mod)
qed

lemma escape_hex_digit: "i < 16 \<Longrightarrow> escape (hex_digits ! i) = [hex_digits ! i]"
proof -
  have "\<forall>i \<in> set [0..<16]. escape (hex_digits ! i) = [hex_digits ! i]"
    by code_simp
  then show "i < 16 \<Longrightarrow> escape (hex_digits ! i) = [hex_digits ! i]" by simp
qed

lemma fill_hex_value: "hex_read a (fill_hex i v []) = a * 16 ^ i + unat v mod 16 ^ i"
proof (induction i arbitrary: v a)
  case (Suc i)
  have "unat (drop_bit 4 v) = unat v div 16"
    by (simp add: drop_bit_eq_div unat_div)
  moreover have "16 * (unat v div 16 mod 16 ^ i) + unat v mod 16 = unat v mod (16 * 16 ^ i)"
    by (simp add: mod_mult2_eq)
  ultimately show ?case
    unfolding fill_hex.simps fill_hex_append [of i "drop_bit 4 v" "[_]"]
    by (simp add: hex_read_snoc Suc unat_nibble distrib_left)
qed (simp add: hex_read_def)

lemma fill_hex_plain: "list_all (\<lambda>c. escape c = [c]) buf \<Longrightarrow> list_all (\<lambda>c. escape c = [c]) (fill_hex i v buf)"
proof (induction i arbitrary: v buf)
  case (Suc i)
  have "unat (v AND 0xF) < 16"
    by (simp add: unat_nibble)
  then have "escape (hex_digits ! unat (v AND 0xF)) = [hex_digits ! unat (v AND 0xF)]"
    by (rule escape_hex_digit)
  with Suc show ?case by simp
qed simp

text \<open>Flow identities are written at full width, so they are read back and differ when tasks differ.\<close>

lemma append_hex_read: "hex_read 0 (append_hex64 v []) = unat v"
  using unat_u64_bound [of v] by (simp add: append_hex64_def fill_hex_value)

lemma append_hex_append: "append_hex64 v out = out @ append_hex64 v []"
  by (simp add: append_hex64_def)

lemma length_fill_hex: "length (fill_hex i v buf) = i + length buf"
  by (induction i arbitrary: v buf) simp_all

section \<open>Events as JSON objects\<close>

text \<open>How an event is shown: a span from a recorded start, a segment end without one, a flow end, an instant.\<close>

datatype phase = Span u64 | Gap | Flow string | Instant

definition phase_step :: "TraceEvent \<Rightarrow> (segment_id \<Rightarrow> u64 option) \<Rightarrow> phase \<times> (segment_id \<Rightarrow> u64 option)" where
  "phase_step ev opn =
     (let key = segment_key ev;
          opn1 = (if is_segment_start_kind (ev_kind ev) then opn(key \<mapsto> ev_timestamp_ns ev) else opn)
      in if is_segment_end_kind (ev_kind ev) then
           (case opn1 key of
              Some start \<Rightarrow> if start \<le> ev_timestamp_ns ev then (Span start, opn1(key := None)) else (Gap, opn1)
            | None \<Rightarrow> (Gap, opn1))
         else (if is_flow_start_kind (ev_kind ev) \<and> ev_task_id ev \<noteq> 0 then Flow ''s''
               else if is_flow_finish_kind (ev_kind ev) \<and> ev_task_id ev \<noteq> 0 then Flow ''f''
               else Instant, opn1))"

fun phases :: "(segment_id \<Rightarrow> u64 option) \<Rightarrow> TraceEvent list \<Rightarrow> phase list" where
  "phases opn [] = []"
| "phases opn (ev # evs) = fst (phase_step ev opn) # phases (snd (phase_step ev opn)) evs"

definition flow_id :: "TraceEvent \<Rightarrow> string" where
  "flow_id ev = ''0x'' @ append_hex64 (ev_runtime_id ev) [] @ append_hex64 (ev_task_id ev) []"

fun phase_members :: "phase \<Rightarrow> TraceEvent \<Rightarrow> (string \<times> json) list" where
  "phase_members (Span start) ev =
     [(''ph'', JStr ''X''), (''ts'', json_us start), (''dur'', json_us (ev_timestamp_ns ev - start))]"
| "phase_members (Flow p) ev = [(''ph'', JStr p), (''ts'', json_us (ev_timestamp_ns ev)), (''id'', JStr (flow_id ev))]"
| "phase_members _ ev = [(''ph'', JStr ''i''), (''ts'', json_us (ev_timestamp_ns ev))]"

definition num :: "u64 \<Rightarrow> json" where
  "num v = JNum (unat v) []"

definition if_set :: "bool \<Rightarrow> string \<Rightarrow> u64 \<Rightarrow> (string \<times> json) list" where
  "if_set b k v = (if b then [(k, num v)] else [])"

definition arg_members :: "TraceEvent \<Rightarrow> (string \<times> json) list" where
  "arg_members ev =
     [(''producer'', num (ev_producer_id ev)), (''sequence'', num (ev_local_sequence ev)), (''runtime'', num (ev_runtime_id ev))] @
     if_set (ev_worker_id ev \<noteq> 0) ''worker'' (ucast (ev_worker_id ev)) @
     if_set (ev_task_id ev \<noteq> 0) ''task'' (ev_task_id ev) @
     if_set (ev_target_runtime_id ev \<noteq> 0) ''target_runtime'' (ev_target_runtime_id ev) @
     if_set (ev_target_runtime_id ev \<noteq> 0) ''target_task'' (ev_target_task_id ev) @
     if_set (ev_graph_run_id ev \<noteq> 0) ''graph_run'' (ev_graph_run_id ev) @
     if_set (ev_node_id ev \<noteq> 0) ''node'' (ucast (ev_node_id ev)) @
     if_set (ev_segment_sequence ev \<noteq> 0) ''segment'' (ucast (ev_segment_sequence ev))"

definition event_members :: "phase \<Rightarrow> TraceEvent \<Rightarrow> (string \<times> json) list" where
  "event_members ph ev =
     [(''name'', JStr (the (trace_event_kind_name (ev_kind ev)))),
      (''cat'', JStr (the (trace_category_name (ucast (ev_category ev) AND 0xFFFF))))] @
     phase_members ph ev @
     [(''pid'', num 1), (''tid'', num (ev_producer_id ev)), (''args'', JObj (fields_of (arg_members ev)))]"

definition event_value :: "phase \<Rightarrow> TraceEvent \<Rightarrow> json" where
  "event_value ph ev = JObj (fields_of (event_members ph ev))"

text \<open>The keys of the exporter are printed as they are.\<close>

lemma show_plain [simp]: "list_all (\<lambda>c. escape c = [c]) t \<Longrightarrow> show_string t = quote # t @ [quote]"
  by (induction t) (simp_all add: show_string_def)

lemma escape_plain [simp]: "c \<noteq> quote \<Longrightarrow> c \<noteq> backslash \<Longrightarrow> 32 \<le> (of_char c :: nat) \<Longrightarrow> escape c = [c]"
  by (auto simp: escape_def)

lemma append_json_shown: "append_json_string t out = out @ show_json (JStr t)"
  by (simp add: append_json_string_def show_string_def)

lemma append_member_shown: "append_member key v out = out @ key @ show_json (num v)"
  by (simp add: append_member_def append_u64_def num_def)

lemma append_if_set:
  "(if c then append_member '',\"worker\":'' v out else out) = out @ show_tail (if_set c ''worker'' v)"
  "(if c then append_member '',\"task\":'' v out else out) = out @ show_tail (if_set c ''task'' v)"
  "(if c then append_member '',\"graph_run\":'' v out else out) = out @ show_tail (if_set c ''graph_run'' v)"
  "(if c then append_member '',\"node\":'' v out else out) = out @ show_tail (if_set c ''node'' v)"
  "(if c then append_member '',\"segment\":'' v out else out) = out @ show_tail (if_set c ''segment'' v)"
  "(if c then append_member '',\"target_task\":'' w (append_member '',\"target_runtime\":'' v out) else out) =
     out @ show_tail (if_set c ''target_runtime'' v @ if_set c ''target_task'' w)"
  by (simp_all add: if_set_def append_member_shown)

lemma export_args_shown:
  "export_args ev out = out @ show_tail
     [(''pid'', num 1), (''tid'', num (ev_producer_id ev)), (''args'', JObj (fields_of (arg_members ev)))] @ ''}''"
proof -
  have "show_json (JObj (fields_of (arg_members ev))) = ''{\"producer\":'' @ show_json (num (ev_producer_id ev)) @
      show_tail (tl (arg_members ev)) @ ''}''"
    by (simp add: arg_members_def show_fields_of del: fields_of.simps)
  moreover have "show_json (num 1) = ''1''"
    by code_simp
  ultimately show ?thesis
    unfolding export_args_def Let_def append_if_set
    by (simp add: append_member_shown arg_members_def del: show_json.simps)
qed

lemma phase_members_shown:
  "export_instant ev (out @ '',\"ph\":\"'') = out @ show_tail (phase_members Instant ev)"
  "export_instant ev (out @ '',\"ph\":\"'') = out @ show_tail (phase_members Gap ev)"
  "list_all (\<lambda>c. escape c = [c]) p \<Longrightarrow> export_flow p ev (out @ '',\"ph\":\"'') = out @ show_tail (phase_members (Flow p) ev)"
  "append_ns_as_us (ev_timestamp_ns ev - start) (append_ns_as_us start ((out @ '',\"ph\":\"'') @ ''X\",\"ts\":'') @ '',\"dur\":'') =
     out @ show_tail (phase_members (Span start) ev)"
  subgoal by (simp add: export_instant_def append_ns_shown)
  subgoal by (simp add: export_instant_def append_ns_shown)
  subgoal premises prems
  proof -
    have "list_all (\<lambda>c. escape c = [c]) (flow_id ev)"
      by (simp add: flow_id_def append_hex64_def fill_hex_plain)
    then show ?thesis
      using prems append_hex_append [of "ev_runtime_id ev" "_ @ _"] append_hex_append [of "ev_task_id ev" "_ @ _"]
      by (simp add: export_flow_def append_ns_shown flow_id_def append_hex_append [of _ "_ @ _"] append_hex_append [of _ "_ # _"])
  qed
  subgoal by (simp add: append_ns_shown)
  done

section \<open>The scan prints the events\<close>

lemma export_phase_shown:
  assumes "ex_json st = j @ '',\"ph\":\"''"
  shows "export_phase ev st =
    st\<lparr>ex_segment_start := snd (phase_step ev (ex_segment_start st)),
       ex_gaps := ex_gaps st + of_bool (fst (phase_step ev (ex_segment_start st)) = Gap),
       ex_json := j @ show_tail (phase_members (fst (phase_step ev (ex_segment_start st))) ev)\<rparr>"
proof -
  have flow: "list_all (\<lambda>c. escape c = [c]) ''s''" "list_all (\<lambda>c. escape c = [c]) ''f''"
    by simp_all
  have same: "phase_members Gap ev = phase_members Instant ev"
    by simp
  show ?thesis
    unfolding export_phase_def phase_step_def Let_def
    by (simp add: assms same phase_members_shown(1,4) phase_members_shown(4) [of ev "ev_timestamp_ns ev", unfolded diff_self] phase_members_shown(3) [OF flow(1)] phase_members_shown(3) [OF flow(2)]
        del: phase_members.simps append.simps append_assoc split: option.split)
qed

definition count_event_of :: "TraceEvent \<Rightarrow> (u64 \<Rightarrow> u64 option) \<Rightarrow> u64 \<Rightarrow> u64 option" where
  "count_event_of ev rec = rec(ev_producer_id ev \<mapsto> (case rec (ev_producer_id ev) of None \<Rightarrow> 0 | Some c \<Rightarrow> c) + 1)"

lemma export_event_shown:
  "export_event sep ev st =
    st\<lparr>ex_segment_start := snd (phase_step ev (ex_segment_start st)),
       ex_recorded := count_event_of ev (ex_recorded st),
       ex_gaps := ex_gaps st + of_bool (fst (phase_step ev (ex_segment_start st)) = Gap),
       ex_json := ex_json st @ (if ex_first st then [] else sep) @
         show_json (event_value (fst (phase_step ev (ex_segment_start st))) ev),
       ex_first := False\<rparr>"
proof -
  let ?ph = "fst (phase_step ev (ex_segment_start st))"
  have obj: "show_json (event_value ?ph ev) = ''{\"name\":'' @ show_json (JStr (the (trace_event_kind_name (ev_kind ev)))) @
      '',\"cat\":'' @ show_json (JStr (the (trace_category_name (ucast (ev_category ev) AND 0xFFFF)))) @
      show_tail (phase_members ?ph ev) @ show_tail [(''pid'', num 1), (''tid'', num (ev_producer_id ev)), (''args'', JObj (fields_of (arg_members ev)))] @ ''}''"
    by (simp add: event_value_def event_members_def show_fields_of del: fields_of.simps show_json.simps(1))
  define p where "p = ex_json st @ (if ex_first st then [] else sep) @ ''{\"name\":'' @
    show_json (JStr (the (trace_event_kind_name (ev_kind ev)))) @ '',\"cat\":'' @
    show_json (JStr (the (trace_category_name (ucast (ev_category ev) AND 0xFFFF))))"
  define st2 where "st2 = st\<lparr>ex_first := False, ex_recorded := count_event_of ev (ex_recorded st), ex_json := p @ '',\"ph\":\"''\<rparr>"
  have event: "export_event sep ev st = (let st3 = export_phase ev st2 in st3\<lparr>ex_json := export_args ev (ex_json st3)\<rparr>)"
    by (simp add: export_event_def Let_def append_json_shown append_text_def st2_def p_def count_event_of_def del: show_json.simps)
  have phase: "ex_json st2 = p @ '',\"ph\":\"''"
    by (simp add: st2_def)
  show ?thesis
    unfolding event export_phase_shown [OF phase] Let_def
    by (simp add: st2_def p_def obj export_args_shown del: show_json.simps phase_members.simps)
qed

fun joined :: "bool \<Rightarrow> string \<Rightarrow> json list \<Rightarrow> string" where
  "joined f sep [] = []"
| "joined f sep (v # vs) = (if f then [] else sep) @ show_json v @ joined False sep vs"

definition event_values :: "(segment_id \<Rightarrow> u64 option) \<Rightarrow> TraceEvent list \<Rightarrow> json list" where
  "event_values opn evs = map2 event_value (phases opn evs) evs"

lemma event_values_simps [simp]:
  "event_values opn [] = []"
  "event_values opn (ev # evs) =
     event_value (fst (phase_step ev opn)) ev # event_values (snd (phase_step ev opn)) evs"
  by (simp_all add: event_values_def)

lemma export_events_shown:
  "ex_json (export_events sep evs st) = ex_json st @ joined (ex_first st) sep (event_values (ex_segment_start st) evs)"
  "ex_gaps (export_events sep evs st) =
     ex_gaps st + of_nat (length (filter (\<lambda>ph. ph = Gap) (phases (ex_segment_start st) evs)))"
  "ex_recorded (export_events sep evs st) = fold count_event_of evs (ex_recorded st)"
  unfolding export_events_def
  by (induction evs arbitrary: st) (simp_all add: export_event_shown)

lemma length_phases [simp]: "length (phases opn evs) = length evs"
  by (induction opn evs rule: phases.induct) simp_all

section \<open>Reading an event\<close>

definition text_of :: "json option \<Rightarrow> string" where
  "text_of v = (case v of Some (JStr t) \<Rightarrow> t | _ \<Rightarrow> [])"

definition nat_of :: "json option \<Rightarrow> nat" where
  "nat_of v = (case v of Some (JNum a f) \<Rightarrow> a | _ \<Rightarrow> 0)"

definition ns_of :: "json option \<Rightarrow> nat" where
  "ns_of v = (case v of Some w \<Rightarrow> ns_of_json w | None \<Rightarrow> 0)"

definition member :: "fields \<Rightarrow> string \<Rightarrow> json option" where
  "member fs = map_of (field_list fs)"

fun decode_event :: "json \<Rightarrow> TraceEvent option" where
  "decode_event (JObj fs) =
     (case (find (\<lambda>k. kind_name k = text_of (member fs ''name'')) all_kinds, member fs ''args'') of
        (Some k, Some (JObj args)) \<Rightarrow>
          Some (blank_event
            \<lparr>ev_category := ucast (category_for_kind k AND 0xFFFF), ev_kind := kind_code k,
             ev_timestamp_ns := of_nat (ns_of (member fs ''ts'') + ns_of (member fs ''dur'')),
             ev_producer_id := of_nat (nat_of (member args ''producer'')),
             ev_local_sequence := of_nat (nat_of (member args ''sequence'')),
             ev_runtime_id := of_nat (nat_of (member args ''runtime'')),
             ev_worker_id := of_nat (nat_of (member args ''worker'')),
             ev_task_id := of_nat (nat_of (member args ''task'')),
             ev_target_runtime_id := of_nat (nat_of (member args ''target_runtime'')),
             ev_target_task_id := of_nat (nat_of (member args ''target_task'')),
             ev_graph_run_id := of_nat (nat_of (member args ''graph_run'')),
             ev_node_id := of_nat (nat_of (member args ''node'')),
             ev_segment_sequence := of_nat (nat_of (member args ''segment''))\<rparr>)
      | _ \<Rightarrow> None)"
| "decode_event _ = None"

text \<open>What is exported of an event: the rest of the record has no member.\<close>

definition exported :: "TraceEvent \<Rightarrow> TraceEvent" where
  "exported ev = ev\<lparr>ev_priority := 0, ev_source := 0, ev_task_state := 0, ev_outcome := 0, ev_reason := 0,
     ev_deadline_disposition := 0\<rparr>"

lemma in_all_kinds [simp]: "k \<in> set all_kinds"
  by (cases k) (simp_all add: all_kinds_def)

lemma kind_of_code_simps [simp]: "kind_of_code (kind_code k) = Some k"
  by (cases k) (simp_all add: kind_of_code_def all_kinds_def)

lemma kind_of_code_Some: "kind_of_code w = Some k \<longleftrightarrow> w = kind_code k"
proof
  assume "kind_of_code w = Some k"
  then show "w = kind_code k"
    by (auto simp: kind_of_code_def find_Some_iff)
qed simp

lemma kind_code_inject [simp]: "kind_code k = kind_code k' \<longleftrightarrow> k = k'"
  by (metis kind_of_code_simps option.inject)

lemma find_kind_name [simp]: "find (\<lambda>k'. kind_name k' = kind_name k) all_kinds = Some k"
  by (cases k) (simp_all add: all_kinds_def)

lemma category_name_of_kind: "trace_category_name (category_for_kind k) \<noteq> None"
  by (cases k) (simp_all add: trace_category_name_def category_defs)

lemma validate_event_ok:
  "validate_event ev = Inr () \<longleftrightarrow>
     ev_schema_version ev = 1 \<and>
     (\<exists>k. ev_kind ev = kind_code k \<and> ev_category ev = ucast (category_for_kind k AND 0xFFFF)) \<and>
     (ev_runtime_id ev = 0 \<longrightarrow> ev_task_id ev = 0 \<and> ev_graph_run_id ev = 0 \<and> ev_segment_sequence ev = 0) \<and>
     (ev_target_task_id ev = 0 \<longleftrightarrow> ev_target_runtime_id ev = 0) \<and>
     (ev_graph_run_id ev = 0 \<longrightarrow> ev_node_id ev = 0) \<and> (ev_task_id ev = 0 \<longrightarrow> ev_segment_sequence ev = 0)"
proof -
  have "category_for_kind k \<noteq> Cat_None" for k
    by (cases k) (simp_all add: category_defs)
  then show ?thesis
    by (cases "kind_of_code (ev_kind ev)") (auto simp: validate_event_def Let_def kind_of_code_Some)
qed

definition in_order :: "phase \<Rightarrow> TraceEvent \<Rightarrow> bool" where
  "in_order ph ev \<longleftrightarrow> (case ph of Span start \<Rightarrow> start \<le> ev_timestamp_ns ev | _ \<Rightarrow> True)"

lemma phase_in_order: "in_order (fst (phase_step ev opn)) ev"
  by (simp add: in_order_def phase_step_def Let_def split: option.split)

lemma nat_of_simps [simp]: "nat_of None = 0" "nat_of (Some (num v)) = unat v"
  by (simp_all add: nat_of_def num_def)

lemma map_of_if_set: "map_of (if_set b k v) = (if b then [k \<mapsto> num v] else Map.empty)"
  by (simp add: if_set_def)

lemma unat_ucast_u32 [simp]: "unat (ucast (w :: u32) :: u64) = unat w"
proof -
  have "unat w < 2 ^ 64"
    using unsigned_less [of w, where ?'a = nat] by simp
  then show ?thesis
    by (simp add: unsigned_ucast_eq take_bit_nat_eq_self)
qed

lemma arg_lookup:
  "nat_of (map_of (arg_members ev) ''producer'') = unat (ev_producer_id ev)"
  "nat_of (map_of (arg_members ev) ''sequence'') = unat (ev_local_sequence ev)"
  "nat_of (map_of (arg_members ev) ''runtime'') = unat (ev_runtime_id ev)"
  "nat_of (map_of (arg_members ev) ''worker'') = unat (ev_worker_id ev)"
  "nat_of (map_of (arg_members ev) ''task'') = unat (ev_task_id ev)"
  "nat_of (map_of (arg_members ev) ''target_runtime'') = unat (ev_target_runtime_id ev)"
  "nat_of (map_of (arg_members ev) ''target_task'') = (if ev_target_runtime_id ev = 0 then 0 else unat (ev_target_task_id ev))"
  "nat_of (map_of (arg_members ev) ''graph_run'') = unat (ev_graph_run_id ev)"
  "nat_of (map_of (arg_members ev) ''node'') = unat (ev_node_id ev)"
  "nat_of (map_of (arg_members ev) ''segment'') = unat (ev_segment_sequence ev)"
  by (simp_all add: arg_members_def map_of_if_set map_add_def unat_ucast_u32)

lemma phase_lookup:
  "map_of (event_members ph ev) ''name'' = Some (JStr (the (trace_event_kind_name (ev_kind ev))))"
  "map_of (event_members ph ev) ''args'' = Some (JObj (fields_of (arg_members ev)))"
  "in_order ph ev \<Longrightarrow> ns_of (map_of (event_members ph ev) ''ts'') + ns_of (map_of (event_members ph ev) ''dur'') = unat (ev_timestamp_ns ev)"
proof -
  show "map_of (event_members ph ev) ''name'' = Some (JStr (the (trace_event_kind_name (ev_kind ev))))"
    "map_of (event_members ph ev) ''args'' = Some (JObj (fields_of (arg_members ev)))"
    by (cases ph; simp add: event_members_def)+
  assume "in_order ph ev"
  then show "ns_of (map_of (event_members ph ev) ''ts'') + ns_of (map_of (event_members ph ev) ''dur'') = unat (ev_timestamp_ns ev)"
    by (cases ph) (auto simp: event_members_def ns_of_def in_order_def unat_sub word_le_nat_alt)
qed

lemma decode_event_value:
  assumes "validate_event ev = Inr ()" and "in_order ph ev"
  shows "decode_event (event_value ph ev) = Some (exported ev)"
proof -
  obtain k where k: "ev_kind ev = kind_code k" "ev_category ev = ucast (category_for_kind k AND 0xFFFF)"
    and ok: "ev_schema_version ev = 1" "ev_target_task_id ev = 0 \<longleftrightarrow> ev_target_runtime_id ev = 0"
    using assms(1) by (auto simp: validate_event_ok)
  have name: "text_of (Some (JStr (the (trace_event_kind_name (kind_code k))))) = kind_name k"
    by (simp add: text_of_def trace_event_kind_name_def)
  have "nat_of (map_of (arg_members ev) ''target_task'') = unat (ev_target_task_id ev)"
    using ok(2) by (cases "ev_target_runtime_id ev = 0") (simp_all add: arg_lookup)
  then show ?thesis
    using k ok(1)
    by (simp add: event_value_def member_def phase_lookup(1,2) phase_lookup(3) [OF assms(2)] name arg_lookup(1-6,8-) exported_def blank_event_def)
qed

lemma event_value_ok: "ok_json (event_value ph ev)"
  by (cases ph) (simp_all add: event_value_def event_members_def ok_fields_of arg_members_def if_set_def num_def)

section \<open>The document\<close>

text \<open>The objects of an array that is being read, up to the first thing that is not an object and a comma.\<close>

fun read_stream :: "nat \<Rightarrow> nat \<Rightarrow> string \<Rightarrow> json list" where
  "read_stream m 0 s = []"
| "read_stream m (Suc n) s =
     (case read_value m s of
        Some (JObj fs, r) \<Rightarrow>
          JObj fs # (case expect (CHR '','') r of Some r1 \<Rightarrow> read_stream m n r1 | None \<Rightarrow> [])
      | _ \<Rightarrow> [])"

lemma read_stream_space [simp]: "is_space c \<Longrightarrow> read_stream m n (c # s) = read_stream m n s"
  by (cases n) simp_all

definition separator :: "bool \<Rightarrow> string" where
  "separator pretty = (if pretty then '','' @ [CHR 0x0A] else '','')"

definition line_end :: "bool \<Rightarrow> string" where
  "line_end pretty = (if pretty then [CHR 0x0A] else [])"

lemma read_value_comma: "read_value n (CHR '','' # s) = None"
proof -
  have "\<not> is_digit (CHR '','')" by (simp add: is_digit_def)
  then show ?thesis by (cases n) (simp_all add: read_number_def)
qed

lemma read_value_text: "read_value n (show_string t @ r) = (if n = 0 then None else Some (JStr t, r))"
  by (cases n) (simp_all add: show_string_def read_chars_shown)

lemma line_end_reads [simp]:
  "read_items n (line_end pretty @ s) = read_items n s" "read_stream m n (line_end pretty @ s) = read_stream m n s"
  "expect c (line_end pretty @ s) = expect c s"
  by (simp_all add: line_end_def)

lemma joined_False: "vs \<noteq> [] \<Longrightarrow> joined False sep vs = sep @ joined True sep vs"
  by (cases vs) simp_all

lemma separator_rest: "\<exists>r. joined False (separator pretty) vs @ separator pretty @ t = CHR '','' # line_end pretty @ r \<and>
    r = (if vs = [] then t else joined True (separator pretty) vs @ separator pretty @ t)"
  by (cases "vs = []") (simp_all add: joined_False separator_def line_end_def)

lemma items_not_closed:
  assumes "list_all ok_json vs"
  shows "read_items n (joined True (separator pretty) vs @ separator pretty @ line_end pretty @ show_string k @ CHR '':'' # rest) = None"
  using assms
proof (induction vs arbitrary: n)
  case Nil
  show ?case
    by (cases n) (simp_all add: separator_def read_value_comma)
next
  case (Cons v vs)
  let ?t = "line_end pretty @ show_string k @ CHR '':'' # rest"
  obtain r where r: "joined False (separator pretty) vs @ separator pretty @ ?t = CHR '','' # line_end pretty @ r"
    "r = (if vs = [] then ?t else joined True (separator pretty) vs @ separator pretty @ ?t)"
    using separator_rest by blast
  have tail: "read_items m r = None" for m
  proof (cases "vs = []")
    case True
    then show ?thesis
      by (cases m) (auto simp: r(2) read_value_text)
  next
    case False
    then show ?thesis using Cons by (simp add: r(2))
  qed
  show ?case
  proof (cases n)
    case (Suc m)
    show ?thesis
    proof (cases "read_value m (show_json v @ CHR '','' # line_end pretty @ r)")
      case None
      then show ?thesis using Suc r(1) by simp
    next
      case (Some x)
      then have "x = (v, CHR '','' # line_end pretty @ r)"
        by (rule read_shown_value) (use Cons.prems in simp_all)
      then show ?thesis using Suc Some r(1) tail by simp
    qed
  qed simp
qed

lemma stream_of_joined:
  assumes "list_all ok_json vs" and "list_all (\<lambda>v. \<exists>fs. v = JObj fs) vs" and "length vs < n"
    and "length (joined True (separator pretty) vs) \<le> m"
  shows "read_stream m n (joined True (separator pretty) vs @ separator pretty @ line_end pretty @ show_string k @ rest) = vs"
  using assms
proof (induction vs arbitrary: n)
  case Nil
  then show ?case
    by (cases n) (simp_all add: separator_def read_value_comma)
next
  case (Cons v vs)
  let ?t = "line_end pretty @ show_string k @ rest"
  obtain r where r: "joined False (separator pretty) vs @ separator pretty @ ?t = CHR '','' # line_end pretty @ r"
    "r = (if vs = [] then ?t else joined True (separator pretty) vs @ separator pretty @ ?t)"
    using separator_rest by blast
  obtain n' fs where n: "n = Suc n'" and v: "v = JObj fs"
    using Cons.prems by (cases n) auto
  have "length (joined True (separator pretty) vs) \<le> length (joined False (separator pretty) vs)"
    by (cases vs) simp_all
  then have "read_stream m n' r = vs"
  proof (cases "vs = []")
    case True
    then show ?thesis
      by (cases n') (auto simp: r(2) read_value_text)
  next
    case False
    then show ?thesis
      using Cons \<open>length (joined True _ vs) \<le> _\<close> n by (simp add: r(2))
  qed
  moreover have "read_value m (show_json v @ CHR '','' # line_end pretty @ r) = Some (v, CHR '','' # line_end pretty @ r)"
    by (rule read_show(1)) (use Cons.prems in simp_all)
  ultimately show ?case
    using r(1) n v by simp
qed

end
