(* ===== verification/Trace_Documents.thy ===== *)
theory Trace_Documents
  imports Trace_Reading
begin

text \<open>The properties of a trace export as a whole.\<close>

section \<open>The parts of the text\<close>

lemma export_metadata_text:
  "\<exists>r. export_metadata snap res recorded out = out @ show_string ''metadata'' @ CHR '':'' # r"
  unfolding export_metadata_def Let_def append_json_shown append_member_shown
  by (subst append_hex_append) simp

lemma write_parts:
  assumes "write_chrome_trace (Some snap) written pretty = Inr (txt, res)"
  shows "validate_events (trace_ordered_events (Some snap)) = Inr ()"
    and "\<exists>rest. txt = ''{\"traceEvents\":['' @ line_end pretty @
      joined True (separator pretty) (event_values Map.empty (trace_ordered_events (Some snap))) @
      separator pretty @ line_end pretty @ show_string ''metadata'' @ CHR '':'' # rest"
    and "res = \<lparr>res_trace_complete = (dropped_total snap = 0 \<and>
        (of_nat (length (filter (\<lambda>ph. ph = Gap) (phases Map.empty (trace_ordered_events (Some snap))))) :: u64) = 0),
      res_recorded_events = of_nat (length (trace_ordered_events (Some snap))),
      res_dropped_events = dropped_total snap,
      res_schema_gaps = of_nat (length (filter (\<lambda>ph. ph = Gap) (phases Map.empty (trace_ordered_events (Some snap)))))\<rparr>"
proof -
  let ?evs = "trace_ordered_events (Some snap)"
  show v: "validate_events ?evs = Inr ()"
    using assms by (cases "validate_events ?evs") (auto simp: write_chrome_trace_def)
  have w: "written = True"
    using assms v by (cases written) (simp_all add: write_chrome_trace_def Let_def)
  define out where "out = ((''{\"traceEvents\":['' @ line_end pretty) @ joined True (separator pretty) (event_values Map.empty ?evs)) @
    separator pretty @ line_end pretty"
  define tail where "tail = (if pretty then CHR 0x0A # ''}'' else ''}'')"
  have whole: "txt = export_metadata snap res (fold count_event_of ?evs Map.empty) out @ tail"
    and res: "res = \<lparr>res_trace_complete = (dropped_total snap = 0 \<and>
        (of_nat (length (filter (\<lambda>ph. ph = Gap) (phases Map.empty ?evs))) :: u64) = 0),
      res_recorded_events = of_nat (length ?evs), res_dropped_events = dropped_total snap,
      res_schema_gaps = of_nat (length (filter (\<lambda>ph. ph = Gap) (phases Map.empty ?evs)))\<rparr>"
    using assms unfolding write_chrome_trace_def Let_def option.case v sum.case w if_True line_end_def [symmetric] separator_def [symmetric]
      tail_def [symmetric]
    by (auto simp: export_events_shown out_def simp del: append.simps append_assoc of_nat_eq_0_iff)
  obtain r where "export_metadata snap res (fold count_event_of ?evs Map.empty) out = out @ show_string ''metadata'' @ CHR '':'' # r"
    using export_metadata_text by blast
  with whole have "txt = out @ show_string ''metadata'' @ CHR '':'' # (r @ tail)"
    by (simp del: show_plain)
  then show "\<exists>rest. txt = ''{\"traceEvents\":['' @ line_end pretty @
      joined True (separator pretty) (event_values Map.empty ?evs) @
      separator pretty @ line_end pretty @ show_string ''metadata'' @ CHR '':'' # rest"
    by (intro exI [of _ "r @ tail"]) (simp only: out_def append_assoc)
  show "res = \<lparr>res_trace_complete = (dropped_total snap = 0 \<and>
        (of_nat (length (filter (\<lambda>ph. ph = Gap) (phases Map.empty ?evs))) :: u64) = 0),
      res_recorded_events = of_nat (length ?evs), res_dropped_events = dropped_total snap,
      res_schema_gaps = of_nat (length (filter (\<lambda>ph. ph = Gap) (phases Map.empty ?evs)))\<rparr>"
    by (rule res)
qed

lemma event_values_ok:
  "list_all ok_json (event_values opn evs)" "list_all (\<lambda>v. \<exists>fs. v = JObj fs) (event_values opn evs)"
  "length (event_values opn evs) = length evs"
  by (induction evs arbitrary: opn) (simp_all add: event_value_ok [unfolded event_value_def ok_json.simps] event_value_def)

lemma validate_events_all: "validate_events evs = Inr () \<longleftrightarrow> list_all (\<lambda>ev. validate_event ev = Inr ()) evs"
  by (induction evs) (auto split: sum.splits)

lemma decode_event_values:
  "list_all (\<lambda>ev. validate_event ev = Inr ()) evs \<Longrightarrow>
   map decode_event (event_values opn evs) = map (Some \<circ> exported) evs"
  by (induction evs arbitrary: opn) (simp_all add: decode_event_value phase_in_order)

lemma length_joined: "length vs \<le> length (joined True sep vs) \<and> length vs \<le> length (joined False sep vs)"
proof (induction vs)
  case (Cons v vs)
  obtain c cs where "show_json v = c # cs" by (rule show_json_head)
  with Cons show ?case by auto
qed simp

lemma stream_of_write:
  assumes "write_chrome_trace (Some snap) written pretty = Inr (txt, res)"
  shows "read_stream (length txt) (length txt) (drop 16 txt) = event_values Map.empty (trace_ordered_events (Some snap))"
proof -
  let ?vs = "event_values Map.empty (trace_ordered_events (Some snap))"
  obtain rest where doc: "txt = ''{\"traceEvents\":['' @ line_end pretty @ joined True (separator pretty) ?vs @
      separator pretty @ line_end pretty @ show_string ''metadata'' @ CHR '':'' # rest"
    using write_parts(2) [OF assms] by blast
  have len: "length ?vs < length txt" "length (joined True (separator pretty) ?vs) \<le> length txt"
    using length_joined [of ?vs "separator pretty"] by (simp_all add: doc)
  have "drop 16 txt = line_end pretty @ joined True (separator pretty) ?vs @
      separator pretty @ line_end pretty @ show_string ''metadata'' @ CHR '':'' # rest"
    by (simp add: doc)
  then show ?thesis
    using stream_of_joined [OF event_values_ok(1,2) len, of "''metadata''" "CHR '':'' # rest"] by simp
qed

section \<open>Properties\<close>


text \<open>
  C37: No export is a JSON document, whatever the snapshot and the format: the array of events is opened and
  never closed, so a reader meets the metadata as an element of the array and stops there.
\<close>

theorem export_is_not_json:
  assumes "write_chrome_trace (Some snap) written pretty = Inr (txt, res)"
  shows "\<not> is_json_document n txt"
proof -
  let ?vs = "event_values Map.empty (trace_ordered_events (Some snap))"
  obtain rest where doc: "txt = ''{\"traceEvents\":['' @ line_end pretty @ joined True (separator pretty) ?vs @
      separator pretty @ line_end pretty @ show_string ''metadata'' @ CHR '':'' # rest"
    using write_parts(2) [OF assms] by blast
  let ?r = "line_end pretty @ joined True (separator pretty) ?vs @ separator pretty @ line_end pretty @ show_string ''metadata'' @ CHR '':'' # rest"
  have never: "read_items m ?r = None" for m
    using items_not_closed [OF event_values_ok(1)] by (simp del: show_plain)
  have "expect (CHR '']'') ?r = None"
  proof (cases ?vs)
    case (Cons v vs)
    obtain c cs where "show_json v = c # cs" "\<not> is_space c" "c \<noteq> CHR '']''" by (rule show_json_head)
    with Cons show ?thesis by simp
  qed (simp add: separator_def)
  then have "read_value m (CHR ''['' # ?r) = None" for m
    using never by (cases m) simp_all
  moreover have "read_chars (''traceEvents'' @ quote # q) = Some (''traceEvents'', q)" for q
    using read_chars_shown [of "''traceEvents''" q] by simp
  ultimately have "read_fields m (show_string ''traceEvents'' @ CHR '':'' # CHR ''['' # ?r) = None" for m
    by (cases m) simp_all
  then have "read_value n (CHR ''{'' # show_string ''traceEvents'' @ CHR '':'' # CHR ''['' # ?r) = None"
    by (cases n) simp_all
  then show ?thesis
    by (simp add: is_json_document_def doc)
qed

definition exportable :: "TraceEvent \<Rightarrow> bool" where
  "exportable ev \<longleftrightarrow> ev_schema_version ev = 1 \<and>
     list_ex (\<lambda>k. ev_kind ev = kind_code k \<and> ev_category ev = ucast (category_for_kind k AND 0xFFFF)) all_kinds \<and>
     (ev_runtime_id ev \<noteq> 0 \<or> (ev_task_id ev, ev_graph_run_id ev, ev_segment_sequence ev) = (0, 0, 0)) \<and>
     (ev_target_task_id ev = 0 \<longleftrightarrow> ev_target_runtime_id ev = 0) \<and>
     (ev_graph_run_id ev \<noteq> 0 \<or> ev_node_id ev = 0) \<and> (ev_task_id ev \<noteq> 0 \<or> ev_segment_sequence ev = 0)"

lemma validate_exportable: "validate_event ev = Inr () \<longleftrightarrow> exportable ev"
  by (auto simp: validate_event_ok exportable_def list_ex_iff)

text \<open>
  C27: A snapshot is exported exactly when it exists, the stream takes the text, and every event of it has
  the supported schema, a known kind, the category of its kind and complete identities; otherwise the call
  raises and names the first thing that is wrong with the first event, in export order, that is.
\<close>

theorem export_accepts_exactly:
  "(\<exists>r. write_chrome_trace snapshot written pretty = Inr r) \<longleftrightarrow>
     written \<and> (case snapshot of None \<Rightarrow> False | Some snap \<Rightarrow> list_all exportable (snap_events snap))"
proof (cases snapshot)
  case (Some snap)
  have valid: "validate_events (trace_ordered_events snapshot) = Inr () \<longleftrightarrow> list_all (\<lambda>ev. validate_event ev = Inr ()) (snap_events snap)"
    by (simp add: validate_events_all list_all_iff trace_ordered_events_def Some)
  have "(\<exists>r. write_chrome_trace snapshot written pretty = Inr r) \<longleftrightarrow> written \<and> validate_events (trace_ordered_events snapshot) = Inr ()"
    by (cases "validate_events (trace_ordered_events snapshot)") (simp_all add: write_chrome_trace_def Some Let_def)
  also have "\<dots> \<longleftrightarrow> written \<and> list_all (\<lambda>ev. validate_event ev = Inr ()) (snap_events snap)"
    using valid by blast
  finally show ?thesis
    by (simp add: Some validate_exportable)
qed (simp add: write_chrome_trace_def)

section \<open>Durations\<close>

text \<open>
  The reference for the pairing of segments: going back from an event, the last start or end of the same
  segment key; its time stamp when it is a start.
\<close>

definition marks_segment :: "segment_id \<Rightarrow> TraceEvent \<Rightarrow> bool" where
  "marks_segment key ev \<longleftrightarrow> segment_key ev = key \<and> (is_segment_start_kind (ev_kind ev) \<or> is_segment_end_kind (ev_kind ev))"

definition open_start :: "TraceEvent list \<Rightarrow> segment_id \<Rightarrow> u64 option" where
  "open_start before key =
     (case find (marks_segment key) (rev before) of
        Some ev \<Rightarrow> if is_segment_start_kind (ev_kind ev) then Some (ev_timestamp_ns ev) else None
      | None \<Rightarrow> None)"

definition reference_phase :: "TraceEvent list \<Rightarrow> TraceEvent \<Rightarrow> phase" where
  "reference_phase before ev =
     (if is_segment_end_kind (ev_kind ev) then
        (case open_start before (segment_key ev) of Some start \<Rightarrow> Span start | None \<Rightarrow> Gap)
      else if is_flow_start_kind (ev_kind ev) \<and> ev_task_id ev \<noteq> 0 then Flow ''s''
      else if is_flow_finish_kind (ev_kind ev) \<and> ev_task_id ev \<noteq> 0 then Flow ''f''
      else Instant)"

lemma start_not_end: "is_segment_start_kind k \<Longrightarrow> \<not> is_segment_end_kind k"
  by (auto simp: is_segment_start_kind_def is_segment_end_kind_def)

lemma open_start_snoc:
  "open_start (before @ [ev]) key =
     (if segment_key ev = key \<and> is_segment_start_kind (ev_kind ev) then Some (ev_timestamp_ns ev)
      else if segment_key ev = key \<and> is_segment_end_kind (ev_kind ev) then None
      else open_start before key)"
  using start_not_end by (auto simp: open_start_def marks_segment_def)

lemma open_start_earlier: "open_start before key = Some start \<Longrightarrow> \<exists>ev \<in> set before. ev_timestamp_ns ev = start"
proof -
  assume "open_start before key = Some start"
  then obtain ev where "find (marks_segment key) (rev before) = Some ev" "ev_timestamp_ns ev = start"
    by (auto simp: open_start_def split: option.splits if_splits)
  moreover from this(1) have "ev \<in> set (rev before)"
    by (auto simp: find_Some_iff simp del: set_rev)
  ultimately show ?thesis by auto
qed

lemma phases_reference:
  assumes "sorted (map ev_timestamp_ns (before @ evs))"
  shows "phases (open_start before) evs = map (\<lambda>i. reference_phase (before @ take i evs) (evs ! i)) [0..<length evs]"
  using assms
proof (induction evs arbitrary: before)
  case (Cons ev evs)
  have le: "start \<le> ev_timestamp_ns ev" if "open_start before (segment_key ev) = Some start" for start
    using open_start_earlier [OF that] Cons.prems by (auto simp: sorted_append)
  have step: "phase_step ev (open_start before) = (reference_phase before ev, open_start (before @ [ev]))"
    using start_not_end [of "ev_kind ev"] le
    by (auto simp: phase_step_def reference_phase_def Let_def open_start_snoc fun_eq_iff split: option.split)
  have "phases (open_start (before @ [ev])) evs =
      map (\<lambda>i. reference_phase ((before @ [ev]) @ take i evs) (evs ! i)) [0..<length evs]"
    using Cons by simp
  then show ?case
    by (simp add: step map_upt_Suc del: upt_Suc)
qed simp

lemma ordered_by_time: "sorted (map ev_timestamp_ns (trace_ordered_events snapshot))"
proof -
  have "sorted (map event_key (trace_ordered_events snapshot))"
    by (simp add: trace_ordered_events_def)
  then show ?thesis
    by (auto simp: sorted_map event_key_def intro: sorted_wrt_mono_rel [rotated])
qed

text \<open>
  C26: The durations of an export come from the trace itself.  In the text every end of a segment is a span
  from the last start of its segment when no other end lies between them, and an instant otherwise; such an
  instant is what the result counts as a gap, and the trace is declared complete exactly when there is no
  gap and nothing was dropped.  The single pass with a map agrees with looking back from every event.
\<close>

theorem durations_from_starts:
  assumes "write_chrome_trace (Some snap) written pretty = Inr (txt, res)" and "evs = trace_ordered_events (Some snap)"
  shows "read_stream (length txt) (length txt) (drop 16 txt) =
      map (\<lambda>i. event_value (reference_phase (take i evs) (evs ! i)) (evs ! i)) [0..<length evs] \<and>
    res_schema_gaps res = of_nat (length (filter (\<lambda>i. is_segment_end_kind (ev_kind (evs ! i)) \<and>
      open_start (take i evs) (segment_key (evs ! i)) = None) [0..<length evs])) \<and>
    (res_trace_complete res \<longleftrightarrow> dropped_total snap = 0 \<and> res_schema_gaps res = 0)"
proof -
  have start: "open_start [] = Map.empty"
    by (simp add: open_start_def fun_eq_iff)
  have ph: "phases Map.empty evs = map (\<lambda>i. reference_phase (take i evs) (evs ! i)) [0..<length evs]"
    using phases_reference [of "[]" evs] ordered_by_time by (simp add: start assms(2))
  have gap: "reference_phase b ev = Gap \<longleftrightarrow> is_segment_end_kind (ev_kind ev) \<and> open_start b (segment_key ev) = None" for b ev
    by (auto simp: reference_phase_def split: option.split)
  have "event_values Map.empty evs = map (\<lambda>i. event_value (reference_phase (take i evs) (evs ! i)) (evs ! i)) [0..<length evs]"
    by (rule nth_equalityI) (simp_all add: event_values_def ph)
  moreover have "length (filter (\<lambda>p. p = Gap) (phases Map.empty evs)) = length (filter (\<lambda>i. is_segment_end_kind (ev_kind (evs ! i)) \<and>
      open_start (take i evs) (segment_key (evs ! i)) = None) [0..<length evs])"
    by (simp add: ph filter_map o_def gap)
  ultimately show ?thesis
    using stream_of_write [OF assms(1)] write_parts(3) [OF assms(1)] by (simp add: assms(2) [symmetric])
qed

section \<open>A small trace\<close>

definition small_trace :: TraceSnapshot where
  "small_trace =
     \<lparr>snap_origin = 0, snap_categories = Cat_Default,
      snap_producers = [\<lparr>rep_producer_id = 2, rep_kind = Worker, rep_capacity = 8, rep_dropped_events = 0\<rparr>],
      snap_events =
        [blank_event\<lparr>ev_category := 1, ev_kind := 5, ev_timestamp_ns := 1500, ev_producer_id := 2, ev_runtime_id := 1,
           ev_task_id := 3, ev_worker_id := 1\<rparr>,
         blank_event\<lparr>ev_category := 1, ev_kind := 6, ev_timestamp_ns := 4750, ev_producer_id := 2, ev_local_sequence := 1,
           ev_runtime_id := 1, ev_task_id := 3, ev_worker_id := 1\<rparr>],
      snap_total_dropped = 0\<rparr>"

lemma small_trace_written:
  "case write_chrome_trace (Some small_trace) True False of Inl _ \<Rightarrow> False | Inr (t, r) \<Rightarrow> res_trace_complete r \<and> length t < 1000"
  by code_simp


theorem export_is_not_json_witness:
  "\<exists>t r. write_chrome_trace (Some small_trace) True False = Inr (t, r) \<and> \<not> is_json_document 1000 t"
proof -
  obtain t r where w: "write_chrome_trace (Some small_trace) True False = Inr (t, r)"
    using small_trace_written by (auto split: sum.splits)
  show ?thesis
    using w export_is_not_json [OF w] by blast
qed

theorem durations_from_starts_witness:
  "\<exists>t r. write_chrome_trace (Some small_trace) True False = Inr (t, r) \<and> res_trace_complete r \<and> res_schema_gaps r = 0"
proof -
  obtain t r where w: "write_chrome_trace (Some small_trace) True False = Inr (t, r)" and c: "res_trace_complete r"
    using small_trace_written by (auto split: sum.splits)
  show ?thesis
    using w c durations_from_starts [OF w refl] by blast
qed

end
