(* ===== verification/Reaper_Registry.thy ===== *)
theory Reaper_Registry
  imports Ids
begin

text \<open>
  The process-wide registry of runtimes (\<open>src/lifecycle/reaper_registry.cpp\<close> and \<open>.hpp\<close>): a slot per
  registered runtime, the coordinator thread that joins and cleans up runtimes whose workers have left,
  and the finalization of the process.  Every operation here is what the code does while it holds
  \<open>mutex_\<close>; callbacks, which the code collects under the lock and calls after it, are returned.
  A callback is a number that stands for the \<open>std::function\<close>; an empty one is \<open>None\<close>.
\<close>

section \<open>State\<close>

datatype RegistrationState = Open | Finalizing | Finalized

type_synonym callback = "nat option"

record HandoffCapabilitySlot =
  hc_runtime_id :: RuntimeId
  hc_handoff_executed :: bool
  hc_join_ready :: bool
  hc_join_claimed :: bool
  hc_retained_state :: bool
  hc_cleanup_fn :: callback
  hc_request_graceful_fn :: callback
  hc_request_immediate_fn :: callback

record ReaperRegistry =
  rr_state :: RegistrationState
  rr_registered_ids :: "u64 list"
  rr_slots :: "HandoffCapabilitySlot list"
  rr_coordinator_thread :: bool
  rr_coordinator_stop :: bool
  rr_coordinator_exited :: bool
  rr_join_in_progress :: bool
  rr_inject_reservation_fail :: bool
  rr_inject_worker_fail_at :: nat
  rr_inject_coordinator_fail :: bool
  rr_total_registrations :: u64
  rr_total_handoffs :: u64
  rr_total_joins :: u64
  rr_finalization_begin_calls :: u64
  rr_finalization_wait_timeouts :: u64
  rr_finalization_escalations :: u64
  rr_finalization_started_at :: time
  rr_finalization_completed_at :: time

definition new_registry :: ReaperRegistry where
  "new_registry =
     \<lparr>rr_state = Open, rr_registered_ids = [], rr_slots = [], rr_coordinator_thread = False, rr_coordinator_stop = False,
      rr_coordinator_exited = False, rr_join_in_progress = False, rr_inject_reservation_fail = False,
      rr_inject_worker_fail_at = 0, rr_inject_coordinator_fail = False, rr_total_registrations = 0, rr_total_handoffs = 0,
      rr_total_joins = 0, rr_finalization_begin_calls = 0, rr_finalization_wait_timeouts = 0,
      rr_finalization_escalations = 0, rr_finalization_started_at = 0, rr_finalization_completed_at = 0\<rparr>"

section \<open>Registration\<close>

definition ensure_coordinator_started_locked :: "ReaperRegistry \<Rightarrow> ReaperRegistry" where
  "ensure_coordinator_started_locked r =
     (if rr_coordinator_thread r then r
      else r\<lparr>rr_coordinator_stop := False, rr_coordinator_exited := False, rr_coordinator_thread := True\<rparr>)"

definition register_runtime ::
  "RuntimeId \<Rightarrow> callback \<Rightarrow> callback \<Rightarrow> callback \<Rightarrow> ReaperRegistry \<Rightarrow> bool \<times> ReaperRegistry" where
  "register_runtime i graceful immediate cleanup r =
     (if rr_state r \<noteq> Open then (False, r)
      else if rr_inject_reservation_fail r then (False, r)
      else
        (let r1 = ensure_coordinator_started_locked r;
             slot = \<lparr>hc_runtime_id = i, hc_handoff_executed = False, hc_join_ready = False, hc_join_claimed = False,
                     hc_retained_state = False, hc_cleanup_fn = cleanup, hc_request_graceful_fn = graceful,
                     hc_request_immediate_fn = immediate\<rparr>
         in (True, r1\<lparr>rr_slots := rr_slots r1 @ [slot],
                      rr_registered_ids := rr_registered_ids r1 @ [runtime_value i],
                      rr_total_registrations := rr_total_registrations r1 + 1\<rparr>)))"

text \<open>The first match of \<open>std::find\<close> and \<open>std::find_if\<close> is erased.\<close>

fun erase_first :: "('a \<Rightarrow> bool) \<Rightarrow> 'a list \<Rightarrow> 'a list" where
  "erase_first P [] = []"
| "erase_first P (x # xs) = (if P x then xs else x # erase_first P xs)"

fun update_first :: "('a \<Rightarrow> bool) \<Rightarrow> ('a \<Rightarrow> 'a) \<Rightarrow> 'a list \<Rightarrow> 'a list" where
  "update_first P f [] = []"
| "update_first P f (x # xs) = (if P x then f x # xs else x # update_first P f xs)"

definition unregister_runtime :: "RuntimeId \<Rightarrow> ReaperRegistry \<Rightarrow> ReaperRegistry" where
  "unregister_runtime i r =
     r\<lparr>rr_registered_ids := erase_first (\<lambda>v. v = runtime_value i) (rr_registered_ids r),
       rr_slots := erase_first (\<lambda>s. hc_runtime_id s = i) (rr_slots r)\<rparr>"

definition is_registration_open :: "ReaperRegistry \<Rightarrow> bool" where
  "is_registration_open r \<longleftrightarrow> rr_state r = Open"

definition registered_count :: "ReaperRegistry \<Rightarrow> nat" where
  "registered_count r = length (rr_registered_ids r)"

definition coordinator_thread_count :: "ReaperRegistry \<Rightarrow> nat" where
  "coordinator_thread_count r = (if rr_coordinator_thread r then 1 else 0)"

section \<open>Finalization\<close>

definition mark_finalization_started_locked :: "time \<Rightarrow> ReaperRegistry \<Rightarrow> ReaperRegistry" where
  "mark_finalization_started_locked now r =
     (if rr_finalization_started_at r = 0 then r\<lparr>rr_finalization_started_at := now\<rparr> else r)"

definition mark_finalized_locked :: "time \<Rightarrow> ReaperRegistry \<Rightarrow> ReaperRegistry" where
  "mark_finalized_locked now r =
     (let r1 = (mark_finalization_started_locked now r)\<lparr>rr_state := Finalized\<rparr>
      in if rr_finalization_completed_at r1 = 0 then r1\<lparr>rr_finalization_completed_at := now\<rparr> else r1)"

definition note_finalization_begin :: "ReaperRegistry \<Rightarrow> ReaperRegistry" where
  "note_finalization_begin r = r\<lparr>rr_finalization_begin_calls := rr_finalization_begin_calls r + 1\<rparr>"

definition callbacks_of :: "(HandoffCapabilitySlot \<Rightarrow> callback) \<Rightarrow> HandoffCapabilitySlot list \<Rightarrow> nat list" where
  "callbacks_of f ss = List.map_filter f ss"

text \<open>Also whether \<open>coordinator_cv_\<close> and \<open>finalization_cv_\<close> are notified, which happens under the lock.\<close>

definition close_registration ::
  "time \<Rightarrow> ReaperRegistry \<Rightarrow> nat list \<times> bool \<times> bool \<times> ReaperRegistry" where
  "close_registration now r =
     (if rr_state r = Open then
        (let r1 = mark_finalization_started_locked now r;
             calls = callbacks_of hc_request_graceful_fn (rr_slots r1)
         in if rr_registered_ids r1 = [] \<and> \<not> rr_coordinator_thread r1
            then (calls, False, True, mark_finalized_locked now r1)
            else (calls, True, False, r1\<lparr>rr_state := Finalizing\<rparr>))
      else ([], False, False, r))"

definition request_all_immediate :: "ReaperRegistry \<Rightarrow> nat list \<times> ReaperRegistry" where
  "request_all_immediate r =
     (callbacks_of hc_request_immediate_fn (rr_slots r),
      r\<lparr>rr_finalization_escalations := rr_finalization_escalations r + 1\<rparr>)"

section \<open>Handoff\<close>

definition find_slot :: "RuntimeId \<Rightarrow> ReaperRegistry \<Rightarrow> HandoffCapabilitySlot option" where
  "find_slot i r = find (\<lambda>s. hc_runtime_id s = i) (rr_slots r)"

definition execute_worker_handoff :: "RuntimeId \<Rightarrow> callback \<Rightarrow> ReaperRegistry \<Rightarrow> ReaperRegistry" where
  "execute_worker_handoff i cleanup r =
     (if find_slot i r = None then r
      else r\<lparr>rr_slots := update_first (\<lambda>s. hc_runtime_id s = i)
               (\<lambda>s. s\<lparr>hc_handoff_executed := True, hc_retained_state := True, hc_cleanup_fn := cleanup\<rparr>) (rr_slots r),
             rr_total_handoffs := rr_total_handoffs r + 1\<rparr>)"

definition replace_cleanup_fn :: "RuntimeId \<Rightarrow> callback \<Rightarrow> ReaperRegistry \<Rightarrow> ReaperRegistry" where
  "replace_cleanup_fn i cleanup r =
     r\<lparr>rr_slots := update_first (\<lambda>s. hc_runtime_id s = i) (\<lambda>s. s\<lparr>hc_cleanup_fn := cleanup\<rparr>) (rr_slots r)\<rparr>"

definition notify_join_ready :: "RuntimeId \<Rightarrow> ReaperRegistry \<Rightarrow> ReaperRegistry" where
  "notify_join_ready i r =
     r\<lparr>rr_slots := update_first (\<lambda>s. hc_runtime_id s = i) (\<lambda>s. s\<lparr>hc_join_ready := True\<rparr>) (rr_slots r)\<rparr>"

definition slot_claimable :: "ReaperRegistry \<Rightarrow> HandoffCapabilitySlot \<Rightarrow> bool" where
  "slot_claimable r s \<longleftrightarrow>
     (hc_handoff_executed s \<or> rr_state r = Finalizing) \<and> hc_join_ready s \<and> \<not> hc_join_claimed s"

definition has_join_ready_slot_locked :: "ReaperRegistry \<Rightarrow> bool" where
  "has_join_ready_slot_locked r = list_ex (slot_claimable r) (rr_slots r)"

section \<open>The coordinator\<close>

record ReadyWork =
  rw_runtime_id :: RuntimeId
  rw_cleanup_fn :: callback
  rw_retained_state :: bool

definition nothing_registered :: "ReaperRegistry \<Rightarrow> bool" where
  "nothing_registered r \<longleftrightarrow> rr_slots r = [] \<and> rr_registered_ids r = []"

definition coordinator_wakes :: "ReaperRegistry \<Rightarrow> bool" where
  "coordinator_wakes r \<longleftrightarrow>
     rr_coordinator_stop r \<or> rr_inject_coordinator_fail r \<or> has_join_ready_slot_locked r \<or>
     (rr_state r = Finalizing \<and> nothing_registered r)"

definition work_of :: "HandoffCapabilitySlot \<Rightarrow> ReadyWork" where
  "work_of s = \<lparr>rw_runtime_id = hc_runtime_id s, rw_cleanup_fn = hc_cleanup_fn s, rw_retained_state = hc_retained_state s\<rparr>"

text \<open>The loop over the slots: what is claimed, what stays, and the identities left registered.\<close>

fun claim_slots ::
  "ReaperRegistry \<Rightarrow> HandoffCapabilitySlot list \<Rightarrow> u64 list \<Rightarrow> ReadyWork list \<times> HandoffCapabilitySlot list \<times> u64 list" where
  "claim_slots r [] is = ([], [], is)"
| "claim_slots r (s # ss) is =
     (if slot_claimable r s then
        (case claim_slots r ss (erase_first (\<lambda>v. v = runtime_value (hc_runtime_id s)) is) of
           (ws, ss', is') \<Rightarrow> (work_of s # ws, ss', is'))
      else (case claim_slots r ss is of (ws, ss', is') \<Rightarrow> (ws, s # ss', is')))"

datatype coordinator_outcome = Co_terminate | Co_leave | Co_work "ReadyWork list"

text \<open>The body of the loop, from the return of the wait to the unlock.\<close>

definition coordinator_turn :: "ReaperRegistry \<Rightarrow> coordinator_outcome \<times> ReaperRegistry" where
  "coordinator_turn r =
     (if rr_inject_coordinator_fail r then (Co_terminate, r)
      else if rr_coordinator_stop r \<and> \<not> has_join_ready_slot_locked r then (Co_leave, r\<lparr>rr_coordinator_exited := True\<rparr>)
      else if rr_state r = Finalizing \<and> nothing_registered r then (Co_leave, r\<lparr>rr_coordinator_exited := True\<rparr>)
      else
        (case claim_slots r (rr_slots r) (rr_registered_ids r) of
           (ws, ss, is) \<Rightarrow>
             (Co_work ws, r\<lparr>rr_slots := ss, rr_registered_ids := is,
                            rr_total_joins := rr_total_joins r + of_nat (length ws)\<rparr>)))"

section \<open>Waiting for the end\<close>

text \<open>What a thread in a wait does next once it has the lock.\<close>

datatype wait_next = Returns | Times_out | Joins | Awaits_finalized | Awaits_change

definition exited_and_empty :: "ReaperRegistry \<Rightarrow> bool" where
  "exited_and_empty r \<longleftrightarrow> rr_coordinator_exited r \<and> rr_registered_ids r = [] \<and> rr_slots r = []"

text \<open>The first part of \<open>try_join_exited_coordinator_locked\<close>: refused, or the thread is moved out.\<close>

definition try_join_begin :: "ReaperRegistry \<Rightarrow> ReaperRegistry option" where
  "try_join_begin r =
     (if rr_state r = Finalized \<or> \<not> rr_coordinator_exited r \<or> rr_registered_ids r \<noteq> [] \<or> rr_slots r \<noteq> [] \<or> rr_join_in_progress r
      then None
      else Some (r\<lparr>rr_join_in_progress := True, rr_coordinator_thread := False\<rparr>))"

text \<open>Its second part, when the join has returned and the lock is held again; \<open>finalization_cv_\<close> is notified.\<close>

definition try_join_end :: "time \<Rightarrow> ReaperRegistry \<Rightarrow> ReaperRegistry" where
  "try_join_end now r = (mark_finalized_locked now r)\<lparr>rr_join_in_progress := False\<rparr>"

text \<open>One round of the loop in \<open>wait_finalization\<close>.\<close>

definition wait_finalization_round :: "time \<Rightarrow> ReaperRegistry \<Rightarrow> wait_next \<times> ReaperRegistry" where
  "wait_finalization_round now r =
     (if rr_state r = Finalized then (Returns, r)
      else if \<not> rr_coordinator_thread r then (Returns, mark_finalized_locked now r)
      else if exited_and_empty r then
        (case try_join_begin r of Some r1 \<Rightarrow> (Joins, r1) | None \<Rightarrow> (Awaits_finalized, r))
      else (Awaits_change, r))"

text \<open>\<open>wait_finalization_for_impl\<close> up to its loop; \<open>None\<close> says that the loop is entered.\<close>

definition wait_for_entry :: "int \<Rightarrow> time \<Rightarrow> ReaperRegistry \<Rightarrow> wait_next option \<times> ReaperRegistry" where
  "wait_for_entry timeout now r =
     (if rr_state r = Finalized then (Some Returns, r)
      else if \<not> rr_coordinator_thread r then (Some Returns, mark_finalized_locked now r)
      else if timeout \<le> 0 then
        (if exited_and_empty r then
           (case try_join_begin r of Some r1 \<Rightarrow> (Some Joins, r1) | None \<Rightarrow> (Some Times_out, r))
         else (Some Times_out, r))
      else (None, r))"

text \<open>One round of its loop; \<open>expired\<close> is whether the clock has reached the deadline.\<close>

definition wait_for_round :: "bool \<Rightarrow> ReaperRegistry \<Rightarrow> wait_next \<times> ReaperRegistry" where
  "wait_for_round expired r =
     (if rr_state r = Finalized then (Returns, r)
      else if exited_and_empty r then
        (case try_join_begin r of Some r1 \<Rightarrow> (Joins, r1) | None \<Rightarrow> (Awaits_finalized, r))
      else if expired then (Times_out, r)
      else (Awaits_change, r))"

definition count_wait_timeout :: "ReaperRegistry \<Rightarrow> ReaperRegistry" where
  "count_wait_timeout r = r\<lparr>rr_finalization_wait_timeouts := rr_finalization_wait_timeouts r + 1\<rparr>"

section \<open>Process metrics\<close>

datatype ProcessServiceState = Service_not_started | Service_active | Service_finalizing | Service_finalized
datatype ProcessFinalizationState = Finalization_not_started | Finalization_running | Finalization_done

record ProcessMetricsCounters =
  pc_runtime_registrations :: u64
  pc_runtime_handoffs :: u64
  pc_runtimes_joined :: u64
  pc_finalization_begin_calls :: u64
  pc_finalization_wait_timeouts :: u64
  pc_finalization_escalations :: u64

record ProcessMetricsSnapshot =
  pm_counters :: ProcessMetricsCounters
  pm_service_state :: ProcessServiceState
  pm_finalization_state :: ProcessFinalizationState
  pm_registered_runtimes :: u64
  pm_pending_runtimes :: u64
  pm_join_ready_runtimes :: u64
  pm_finalization_started_at :: time
  pm_finalization_elapsed_ns :: u64
  pm_finalization_completion_duration_ns :: u64
  pm_saturated :: bool

definition count_slots :: "(HandoffCapabilitySlot \<Rightarrow> bool) \<Rightarrow> ReaperRegistry \<Rightarrow> u64" where
  "count_slots P r = of_nat (length (filter P (rr_slots r)))"

definition process_snapshot :: "time \<Rightarrow> ReaperRegistry \<Rightarrow> ProcessMetricsSnapshot" where
  "process_snapshot now r =
     (let finished = rr_state r = Finalized \<and> rr_finalization_started_at r \<noteq> 0 \<and> rr_finalization_completed_at r \<noteq> 0;
          duration = word_of_int (rr_finalization_completed_at r - rr_finalization_started_at r)
      in \<lparr>pm_counters =
            \<lparr>pc_runtime_registrations = rr_total_registrations r, pc_runtime_handoffs = rr_total_handoffs r,
             pc_runtimes_joined = rr_total_joins r, pc_finalization_begin_calls = rr_finalization_begin_calls r,
             pc_finalization_wait_timeouts = rr_finalization_wait_timeouts r,
             pc_finalization_escalations = rr_finalization_escalations r\<rparr>,
          pm_service_state =
            (case rr_state r of Finalizing \<Rightarrow> Service_finalizing | Finalized \<Rightarrow> Service_finalized
             | Open \<Rightarrow> if rr_coordinator_thread r \<or> rr_total_registrations r \<noteq> 0 then Service_active else Service_not_started),
          pm_finalization_state =
            (case rr_state r of Finalizing \<Rightarrow> Finalization_running | Finalized \<Rightarrow> Finalization_done
             | Open \<Rightarrow> Finalization_not_started),
          pm_registered_runtimes = of_nat (length (rr_registered_ids r)),
          pm_pending_runtimes = count_slots (\<lambda>s. \<not> hc_join_ready s \<and> hc_handoff_executed s) r,
          pm_join_ready_runtimes = count_slots (\<lambda>s. hc_join_ready s \<and> \<not> hc_join_claimed s) r,
          pm_finalization_started_at = rr_finalization_started_at r,
          pm_finalization_elapsed_ns =
            (if rr_state r = Finalizing \<and> rr_finalization_started_at r \<noteq> 0
             then word_of_int (now - rr_finalization_started_at r) else if finished then duration else 0),
          pm_finalization_completion_duration_ns = (if finished then duration else 0),
          pm_saturated =
            (rr_total_registrations r = u64_max \<or> rr_total_handoffs r = u64_max \<or> rr_total_joins r = u64_max \<or>
             rr_finalization_begin_calls r = u64_max \<or> rr_finalization_wait_timeouts r = u64_max \<or>
             rr_finalization_escalations r = u64_max)\<rparr>)"

section \<open>Seams for tests\<close>

definition inject_handoff_reservation_failure :: "bool \<Rightarrow> ReaperRegistry \<Rightarrow> ReaperRegistry" where
  "inject_handoff_reservation_failure b r = r\<lparr>rr_inject_reservation_fail := b\<rparr>"

definition inject_worker_creation_failure_at :: "nat \<Rightarrow> ReaperRegistry \<Rightarrow> ReaperRegistry" where
  "inject_worker_creation_failure_at k r = r\<lparr>rr_inject_worker_fail_at := k\<rparr>"

definition inject_coordinator_failure :: "bool \<Rightarrow> ReaperRegistry \<Rightarrow> ReaperRegistry" where
  "inject_coordinator_failure b r = r\<lparr>rr_inject_coordinator_fail := b\<rparr>"

text \<open>
  \<open>reset_for_testing\<close>: the graceful requests it makes first, then under the lock again the cleanups it
  takes, whether there is a thread to join, and the state it leaves.
\<close>

definition reset_requests :: "ReaperRegistry \<Rightarrow> nat list" where
  "reset_requests r = callbacks_of hc_request_graceful_fn (rr_slots r)"

definition reset_clear :: "ReaperRegistry \<Rightarrow> nat list \<times> bool \<times> ReaperRegistry" where
  "reset_clear r =
     (callbacks_of hc_cleanup_fn (rr_slots r), rr_coordinator_thread r,
      new_registry\<lparr>rr_coordinator_stop := True\<rparr>)"

end
