(* ===== verification/Reaper_System.thy ===== *)
theory Reaper_System
  imports Reaper_Registry
begin

text \<open>
  The registry in use: runtimes that register, hand themselves over and report that their workers have
  left, the coordinator thread in \<open>coordinator_loop\<close>, and any number of threads in
  \<open>wait_finalization\<close> and \<open>wait_finalization_for\<close>, interleaved at the acquisitions of \<open>mutex_\<close>, the waits on
  the two condition variables and the calls made without the lock.  A run is a list of moves.
\<close>

section \<open>Threads\<close>

text \<open>The coordinator evaluates its predicate, sleeps, or is calling the cleanups it has claimed.\<close>

datatype coordinator_pc = Co_absent | Co_test | Co_asleep | Co_cleaning "ReadyWork list" | Co_exited | Co_joined | Co_dead

datatype FinalizationWaitResult = Completed | TimedOut

text \<open>
  \<open>Wt_sleep timed final notified\<close> waits for the state \<open>Finalized\<close> when \<open>final\<close>, otherwise also for the end
  of the coordinator; \<open>timed\<close> tells \<open>wait_finalization_for\<close> from \<open>wait_finalization\<close>.
\<close>

datatype wait_pc = Wt_round bool | Wt_sleep bool bool bool | Wt_join bool | Wt_relock bool | Wt_done FinalizationWaitResult

datatype reaper_call = Graceful_request nat | Immediate_request nat | Cleanup_call nat

record reaper_system =
  rs_reg :: ReaperRegistry
  rs_coord :: coordinator_pc
  rs_started :: nat
  rs_notices :: nat
  rs_waiters :: "wait_pc list"
  rs_registered :: "RuntimeId list"
  rs_unregistered :: "RuntimeId list"
  rs_ready :: "RuntimeId list"
  rs_cleaned :: "RuntimeId list"
  rs_calls :: "reaper_call list"

definition reaper_initial :: reaper_system where
  "reaper_initial = \<lparr>rs_reg = new_registry, rs_coord = Co_absent, rs_started = 0, rs_notices = 0, rs_waiters = [],
     rs_registered = [], rs_unregistered = [], rs_ready = [], rs_cleaned = [], rs_calls = []\<rparr>"

text \<open>Notifications: of the coordinator, and of all threads that wait for the finalization.\<close>

definition notify_coordinator :: "reaper_system \<Rightarrow> reaper_system" where
  "notify_coordinator s = (if rs_coord s = Co_asleep then s\<lparr>rs_coord := Co_test\<rparr> else s)"

fun notified :: "wait_pc \<Rightarrow> wait_pc" where
  "notified (Wt_sleep timed final n) = Wt_sleep timed final True"
| "notified pc = pc"

definition notify_finalization :: "reaper_system \<Rightarrow> reaper_system" where
  "notify_finalization s = s\<lparr>rs_waiters := map notified (rs_waiters s)\<rparr>"

section \<open>Moves\<close>

datatype reaper_action =
    M_register RuntimeId callback callback callback
  | M_unregister RuntimeId
  | M_notice
  | M_begin_finalization time
  | M_request_immediate
  | M_handoff RuntimeId callback
  | M_replace_cleanup RuntimeId callback
  | M_join_ready RuntimeId
  | M_coordinate
  | M_spurious
  | M_clean
  | M_wait
  | M_wait_for int time
  | M_round nat time bool
  | M_wake nat
  | M_expire nat
  | M_join nat
  | M_relock nat time

definition do_register :: "RuntimeId \<Rightarrow> callback \<Rightarrow> callback \<Rightarrow> callback \<Rightarrow> reaper_system \<Rightarrow> reaper_system" where
  "do_register i g im c s =
     (case register_runtime i g im c (rs_reg s) of
        (ok, r) \<Rightarrow>
          if ok then
            s\<lparr>rs_reg := r, rs_registered := i # rs_registered s,
              rs_coord := (if rr_coordinator_thread (rs_reg s) then rs_coord s else Co_test),
              rs_started := (if rr_coordinator_thread (rs_reg s) then rs_started s else Suc (rs_started s))\<rparr>
          else s)"

definition do_unregister :: "RuntimeId \<Rightarrow> reaper_system \<Rightarrow> reaper_system" where
  "do_unregister i s =
     s\<lparr>rs_reg := unregister_runtime i (rs_reg s), rs_notices := Suc (rs_notices s),
       rs_unregistered := (if find_slot i (rs_reg s) = None then rs_unregistered s else i # rs_unregistered s)\<rparr>"

definition do_begin_finalization :: "time \<Rightarrow> reaper_system \<Rightarrow> reaper_system" where
  "do_begin_finalization now s =
     (case close_registration now (note_finalization_begin (rs_reg s)) of
        (calls, coord, final, r) \<Rightarrow>
          (let s1 = s\<lparr>rs_reg := r, rs_calls := rs_calls s @ map Graceful_request calls\<rparr>;
               s2 = (if coord then notify_coordinator s1 else s1)
           in if final then notify_finalization s2 else s2))"

definition do_request_immediate :: "reaper_system \<Rightarrow> reaper_system" where
  "do_request_immediate s =
     (case request_all_immediate (rs_reg s) of
        (calls, r) \<Rightarrow> s\<lparr>rs_reg := r, rs_calls := rs_calls s @ map Immediate_request calls\<rparr>)"

definition do_coordinate :: "reaper_system \<Rightarrow> reaper_system" where
  "do_coordinate s =
     (if \<not> coordinator_wakes (rs_reg s) then s\<lparr>rs_coord := Co_asleep\<rparr>
      else case coordinator_turn (rs_reg s) of
        (Co_terminate, r) \<Rightarrow> s\<lparr>rs_coord := Co_dead\<rparr>
      | (Co_leave, r) \<Rightarrow> notify_finalization (s\<lparr>rs_reg := r, rs_coord := Co_exited\<rparr>)
      | (Co_work ws, r) \<Rightarrow> s\<lparr>rs_reg := r, rs_coord := Co_cleaning ws\<rparr>)"

definition do_clean :: "ReadyWork list \<Rightarrow> reaper_system \<Rightarrow> reaper_system" where
  "do_clean ws s =
     (case ws of
        [] \<Rightarrow> s\<lparr>rs_coord := Co_test\<rparr>
      | w # ws' \<Rightarrow>
          s\<lparr>rs_coord := Co_cleaning ws', rs_cleaned := rs_cleaned s @ [rw_runtime_id w],
            rs_calls := rs_calls s @ (case rw_cleanup_fn w of None \<Rightarrow> [] | Some f \<Rightarrow> [Cleanup_call f])\<rparr>)"

text \<open>What a waiting thread becomes; returning after \<open>mark_finalized_locked\<close> has notified the others.\<close>

definition do_next :: "nat \<Rightarrow> bool \<Rightarrow> wait_next \<Rightarrow> ReaperRegistry \<Rightarrow> reaper_system \<Rightarrow> reaper_system" where
  "do_next k timed nxt r s =
     (let fresh = rr_state r = Finalized \<and> rr_state (rs_reg s) \<noteq> Finalized;
          s1 = s\<lparr>rs_reg := r\<rparr>;
          s2 = (if fresh then notify_finalization s1 else s1)
      in case nxt of
           Returns \<Rightarrow> s2\<lparr>rs_waiters := (rs_waiters s2)[k := Wt_done Completed]\<rparr>
         | Times_out \<Rightarrow> s2\<lparr>rs_reg := count_wait_timeout (rs_reg s2), rs_waiters := (rs_waiters s2)[k := Wt_done TimedOut]\<rparr>
         | Joins \<Rightarrow> s2\<lparr>rs_waiters := (rs_waiters s2)[k := Wt_join timed]\<rparr>
         | Awaits_finalized \<Rightarrow> s2\<lparr>rs_waiters := (rs_waiters s2)[k := Wt_sleep timed True False]\<rparr>
         | Awaits_change \<Rightarrow> s2\<lparr>rs_waiters := (rs_waiters s2)[k := Wt_sleep timed False False]\<rparr>)"

definition do_round :: "nat \<Rightarrow> bool \<Rightarrow> time \<Rightarrow> bool \<Rightarrow> reaper_system \<Rightarrow> reaper_system" where
  "do_round k timed now expired s =
     (case (if timed then wait_for_round expired (rs_reg s) else wait_finalization_round now (rs_reg s)) of
        (nxt, r) \<Rightarrow> do_next k timed nxt r s)"

definition do_wait_for :: "int \<Rightarrow> time \<Rightarrow> reaper_system \<Rightarrow> reaper_system" where
  "do_wait_for timeout now s =
     (let s1 = s\<lparr>rs_waiters := rs_waiters s @ [Wt_round True]\<rparr>
      in case wait_for_entry timeout now (rs_reg s) of
           (None, r) \<Rightarrow> s1\<lparr>rs_reg := r\<rparr>
         | (Some nxt, r) \<Rightarrow> do_next (length (rs_waiters s)) True nxt r s1)"

text \<open>A thread that wakes up evaluates the predicate of its wait.\<close>

definition wait_over :: "bool \<Rightarrow> ReaperRegistry \<Rightarrow> bool" where
  "wait_over final r \<longleftrightarrow> rr_state r = Finalized \<or> (\<not> final \<and> exited_and_empty r)"

definition do_wake :: "nat \<Rightarrow> bool \<Rightarrow> bool \<Rightarrow> reaper_system \<Rightarrow> reaper_system" where
  "do_wake k timed final s =
     s\<lparr>rs_waiters := (rs_waiters s)[k :=
         (if \<not> wait_over final (rs_reg s) then Wt_sleep timed final False
          else if final then Wt_done Completed else Wt_round timed)]\<rparr>"

definition do_expire :: "nat \<Rightarrow> bool \<Rightarrow> reaper_system \<Rightarrow> reaper_system" where
  "do_expire k final s =
     (if \<not> final \<and> wait_over False (rs_reg s) then s\<lparr>rs_waiters := (rs_waiters s)[k := Wt_round True]\<rparr>
      else if rr_state (rs_reg s) = Finalized then s\<lparr>rs_waiters := (rs_waiters s)[k := Wt_done Completed]\<rparr>
      else s\<lparr>rs_reg := count_wait_timeout (rs_reg s), rs_waiters := (rs_waiters s)[k := Wt_done TimedOut]\<rparr>)"

definition do_relock :: "nat \<Rightarrow> time \<Rightarrow> reaper_system \<Rightarrow> reaper_system" where
  "do_relock k now s =
     (notify_finalization (s\<lparr>rs_reg := try_join_end now (rs_reg s)\<rparr>))
       \<lparr>rs_waiters := (map notified (rs_waiters s))[k := Wt_done Completed]\<rparr>"

text \<open>
  When a move is possible.  Runtime identities are fresh, one per runtime; the threads that wait hold a
  \<open>FinalizationControl\<close>, which only \<open>begin_finalization\<close> hands out; a join returns when the thread has ended.  A
  worker's call of a wait raises before it takes the lock and changes nothing, so it is no move.
\<close>

fun reaper_move :: "reaper_action \<Rightarrow> reaper_system \<Rightarrow> reaper_system option" where
  "reaper_move (M_register i g im c) s = (if i \<in> set (rs_registered s) then None else Some (do_register i g im c s))"
| "reaper_move (M_unregister i) s = Some (do_unregister i s)"
| "reaper_move M_notice s =
     (if rs_notices s = 0 then None else Some (notify_coordinator (s\<lparr>rs_notices := rs_notices s - 1\<rparr>)))"
| "reaper_move (M_begin_finalization now) s = Some (do_begin_finalization now s)"
| "reaper_move M_request_immediate s = Some (do_request_immediate s)"
| "reaper_move (M_handoff i c) s = Some (notify_coordinator (s\<lparr>rs_reg := execute_worker_handoff i c (rs_reg s)\<rparr>))"
| "reaper_move (M_replace_cleanup i c) s = Some (s\<lparr>rs_reg := replace_cleanup_fn i c (rs_reg s)\<rparr>)"
| "reaper_move (M_join_ready i) s =
     Some (s\<lparr>rs_reg := notify_join_ready i (rs_reg s), rs_notices := Suc (rs_notices s), rs_ready := i # rs_ready s\<rparr>)"
| "reaper_move M_coordinate s = (if rs_coord s = Co_test then Some (do_coordinate s) else None)"
| "reaper_move M_spurious s = (if rs_coord s = Co_asleep then Some (s\<lparr>rs_coord := Co_test\<rparr>) else None)"
| "reaper_move M_clean s = (case rs_coord s of Co_cleaning ws \<Rightarrow> Some (do_clean ws s) | _ \<Rightarrow> None)"
| "reaper_move M_wait s =
     (if rr_state (rs_reg s) = Open then None else Some (s\<lparr>rs_waiters := rs_waiters s @ [Wt_round False]\<rparr>))"
| "reaper_move (M_wait_for timeout now) s =
     (if rr_state (rs_reg s) = Open then None else Some (do_wait_for timeout now s))"
| "reaper_move (M_round k now expired) s =
     (if k < length (rs_waiters s) then
        (case rs_waiters s ! k of Wt_round timed \<Rightarrow> Some (do_round k timed now expired s) | _ \<Rightarrow> None)
      else None)"
| "reaper_move (M_wake k) s =
     (if k < length (rs_waiters s) then
        (case rs_waiters s ! k of Wt_sleep timed final n \<Rightarrow> Some (do_wake k timed final s) | _ \<Rightarrow> None)
      else None)"
| "reaper_move (M_expire k) s =
     (if k < length (rs_waiters s) then
        (case rs_waiters s ! k of Wt_sleep timed final n \<Rightarrow> if timed then Some (do_expire k final s) else None | _ \<Rightarrow> None)
      else None)"
| "reaper_move (M_join k) s =
     (if k < length (rs_waiters s) then
        (case rs_waiters s ! k of
           Wt_join timed \<Rightarrow> if rs_coord s = Co_exited
             then Some (s\<lparr>rs_coord := Co_joined, rs_waiters := (rs_waiters s)[k := Wt_relock timed]\<rparr>) else None
         | _ \<Rightarrow> None)
      else None)"
| "reaper_move (M_relock k now) s =
     (if k < length (rs_waiters s) then
        (case rs_waiters s ! k of Wt_relock timed \<Rightarrow> Some (do_relock k now s) | _ \<Rightarrow> None)
      else None)"

fun reaper_plays :: "reaper_action list \<Rightarrow> reaper_system \<Rightarrow> reaper_system option" where
  "reaper_plays [] s = Some s"
| "reaper_plays (m # ms) s = (case reaper_move m s of None \<Rightarrow> None | Some t \<Rightarrow> reaper_plays ms t)"

end
