(* ===== verification/Reaper_Claims.thy ===== *)
theory Reaper_Claims
  imports Reaper_System
begin

text \<open>What holds in every run of the registry: who is registered, who sleeps, and what a finished wait means.\<close>

section \<open>Slots and identities\<close>

definition slot_value :: "HandoffCapabilitySlot \<Rightarrow> u64" where
  "slot_value s = runtime_value (hc_runtime_id s)"

lemma runtime_value_inj [simp]: "runtime_value i = runtime_value j \<longleftrightarrow> i = j"
  by (cases i; cases j) simp

lemma map_erase_first:
  "(\<And>x. Q (f x) = P x) \<Longrightarrow> map f (erase_first P xs) = erase_first Q (map f xs)"
  by (induction xs) auto

lemma mset_erase_find: "find P xs = Some x \<Longrightarrow> mset xs = add_mset x (mset (erase_first P xs))"
  by (induction xs) (auto split: if_splits)

lemma erase_find_None: "find P xs = None \<Longrightarrow> erase_first P xs = xs"
  by (induction xs) (auto split: if_splits)

lemma set_erase_first: "set (erase_first P xs) \<subseteq> set xs"
  by (induction xs) auto

lemma map_update_first: "(\<And>x. f (h x) = f x) \<Longrightarrow> map f (update_first P h xs) = map f xs"
  by (induction xs) auto

lemma set_update_first: "x \<in> set (update_first P h xs) \<Longrightarrow> x \<in> set xs \<or> (\<exists>y \<in> set xs. P y \<and> x = h y)"
  by (induction xs) (auto split: if_splits)

lemma update_first_Nil [simp]: "update_first P h xs = [] \<longleftrightarrow> xs = []"
  by (cases xs) simp_all

lemma claim_slots_filter:
  "distinct (pre @ map slot_value ss) \<Longrightarrow>
   claim_slots r ss (pre @ map slot_value ss) =
     (map work_of (filter (slot_claimable r) ss), filter (\<lambda>s. \<not> slot_claimable r s) ss,
      pre @ map slot_value (filter (\<lambda>s. \<not> slot_claimable r s) ss))"
proof (induction ss arbitrary: pre)
  case (Cons s ss)
  have "erase_first (\<lambda>v. v = slot_value s) (pre @ slot_value s # map slot_value ss) = pre @ map slot_value ss"
    using Cons.prems by (induction pre) auto
  moreover have "distinct (pre @ map slot_value ss)" "distinct ((pre @ [slot_value s]) @ map slot_value ss)"
    using Cons.prems by auto
  ultimately show ?case
    using Cons.IH [of pre] Cons.IH [of "pre @ [slot_value s]"] by (simp add: slot_value_def [symmetric])
qed simp

section \<open>The invariant\<close>

fun in_hand :: "coordinator_pc \<Rightarrow> RuntimeId list" where
  "in_hand (Co_cleaning ws) = map rw_runtime_id ws"
| "in_hand _ = []"

text \<open>Every runtime that registered is in a slot, unregistered, cleaned up, or in the hands of the coordinator.\<close>

definition accounts_ok :: "reaper_system \<Rightarrow> bool" where
  "accounts_ok s \<longleftrightarrow>
     rr_registered_ids (rs_reg s) = map slot_value (rr_slots (rs_reg s)) \<and> distinct (rs_registered s) \<and>
     mset (rs_registered s) = mset (map hc_runtime_id (rr_slots (rs_reg s))) + mset (rs_unregistered s) +
       mset (rs_cleaned s) + mset (in_hand (rs_coord s)) \<and>
     (\<forall>sl \<in> set (rr_slots (rs_reg s)). \<not> hc_join_claimed sl \<and> (hc_join_ready sl \<longrightarrow> hc_runtime_id sl \<in> set (rs_ready s))) \<and>
     set (rs_cleaned s @ in_hand (rs_coord s)) \<subseteq> set (rs_ready s) \<and>
     \<not> rr_coordinator_stop (rs_reg s) \<and> \<not> rr_inject_coordinator_fail (rs_reg s) \<and> \<not> rr_inject_reservation_fail (rs_reg s)"

fun joining :: "wait_pc \<Rightarrow> bool" where
  "joining (Wt_join timed) \<longleftrightarrow> True" | "joining (Wt_relock timed) \<longleftrightarrow> True" | "joining _ \<longleftrightarrow> False"

definition left_loop :: "coordinator_pc \<Rightarrow> bool" where
  "left_loop pc \<longleftrightarrow> pc = Co_exited \<or> pc = Co_joined"

text \<open>The coordinator thread exists once; its flags, its handle and the one thread that may join it agree.\<close>

definition coordinator_ok :: "reaper_system \<Rightarrow> bool" where
  "coordinator_ok s \<longleftrightarrow> (let r = rs_reg s; pc = rs_coord s in
     rs_started s = of_bool (pc \<noteq> Co_absent) \<and> pc \<noteq> Co_dead \<and>
     rr_coordinator_exited r = left_loop pc \<and>
     (pc = Co_absent \<longrightarrow> rr_slots r = [] \<and> rr_state r \<noteq> Finalizing) \<and>
     rr_coordinator_thread r = (pc \<noteq> Co_absent \<and> pc \<noteq> Co_joined \<and> \<not> rr_join_in_progress r) \<and>
     (left_loop pc \<longrightarrow> rr_slots r = [] \<and> rr_state r \<noteq> Open) \<and>
     (rr_state r = Finalized \<longrightarrow> pc = Co_absent \<or> left_loop pc) \<and>
     (pc = Co_joined \<longrightarrow> rr_state r = Finalized \<or> rr_join_in_progress r) \<and>
     length (filter joining (rs_waiters s)) = of_bool (rr_join_in_progress r) \<and>
     (rr_join_in_progress r \<longrightarrow> left_loop pc) \<and>
     (rr_state r = Open \<longrightarrow> rs_waiters s = []))"

definition waiter_ok :: "reaper_system \<Rightarrow> wait_pc \<Rightarrow> bool" where
  "waiter_ok s w \<longleftrightarrow>
     (case w of
        Wt_sleep timed final n \<Rightarrow> (\<not> n \<longrightarrow> \<not> wait_over final (rs_reg s)) \<and>
          (final \<and> rr_state (rs_reg s) \<noteq> Finalized \<longrightarrow> rr_join_in_progress (rs_reg s))
      | Wt_join timed \<Rightarrow> rs_coord s = Co_exited
      | Wt_relock timed \<Rightarrow> rs_coord s = Co_joined
      | Wt_done res \<Rightarrow> res = Completed \<longrightarrow> rr_state (rs_reg s) = Finalized
      | Wt_round timed \<Rightarrow> True)"

text \<open>Nobody sleeps over what it waits for, except while the notification is on its way.\<close>

definition sleepers_ok :: "reaper_system \<Rightarrow> bool" where
  "sleepers_ok s \<longleftrightarrow> (rs_coord s = Co_asleep \<longrightarrow> rs_notices s = 0 \<longrightarrow> \<not> coordinator_wakes (rs_reg s)) \<and>
     (\<forall>w \<in> set (rs_waiters s). waiter_ok s w)"

definition reaper_inv :: "reaper_system \<Rightarrow> bool" where
  "reaper_inv s \<longleftrightarrow> accounts_ok s \<and> coordinator_ok s \<and> sleepers_ok s"

lemma initial_inv: "reaper_inv reaper_initial"
  by (simp add: reaper_inv_def accounts_ok_def coordinator_ok_def sleepers_ok_def reaper_initial_def new_registry_def left_loop_def)

section \<open>Lists of waiting threads\<close>

lemma filter_update:
  "k < length xs \<Longrightarrow> length (filter P (xs[k := v])) + of_bool (P (xs ! k)) = length (filter P xs) + of_bool (P v)"
proof (induction xs arbitrary: k)
  case (Cons x xs)
  then show ?case by (cases k) auto
qed simp

lemma joining_notified [simp]: "joining (notified w) = joining w"
  by (cases w) simp_all

lemma joining_comp [simp]: "joining \<circ> notified = joining"
  by (simp add: fun_eq_iff)

lemma filter_notified [simp]: "length (filter joining (map notified ws)) = length (filter joining ws)"
  by (induction ws) simp_all

lemma notified_ok: "waiter_ok s w \<Longrightarrow> waiter_ok s (notified w)"
  by (cases w) (simp_all add: waiter_ok_def)

lemma waiters_update:
  "\<forall>w \<in> set ws. P w \<Longrightarrow> P v \<Longrightarrow> \<forall>w \<in> set (ws[k := v]). P w"
  using set_update_subset_insert [of ws k v] by blast

section \<open>What the operations leave alone\<close>

lemma mark_finalized_simps [simp]:
  "rr_state (mark_finalized_locked now r) = Finalized" "rr_slots (mark_finalized_locked now r) = rr_slots r"
  "rr_registered_ids (mark_finalized_locked now r) = rr_registered_ids r"
  "rr_coordinator_thread (mark_finalized_locked now r) = rr_coordinator_thread r"
  "rr_coordinator_exited (mark_finalized_locked now r) = rr_coordinator_exited r"
  "rr_coordinator_stop (mark_finalized_locked now r) = rr_coordinator_stop r"
  "rr_join_in_progress (mark_finalized_locked now r) = rr_join_in_progress r"
  "rr_inject_coordinator_fail (mark_finalized_locked now r) = rr_inject_coordinator_fail r"
  "rr_inject_reservation_fail (mark_finalized_locked now r) = rr_inject_reservation_fail r"
  by (simp_all add: mark_finalized_locked_def mark_finalization_started_locked_def Let_def)

lemma mark_started_simps [simp]:
  "rr_state (mark_finalization_started_locked now r) = rr_state r" "rr_slots (mark_finalization_started_locked now r) = rr_slots r"
  "rr_registered_ids (mark_finalization_started_locked now r) = rr_registered_ids r"
  "rr_coordinator_thread (mark_finalization_started_locked now r) = rr_coordinator_thread r"
  "rr_coordinator_exited (mark_finalization_started_locked now r) = rr_coordinator_exited r"
  "rr_coordinator_stop (mark_finalization_started_locked now r) = rr_coordinator_stop r"
  "rr_join_in_progress (mark_finalization_started_locked now r) = rr_join_in_progress r"
  "rr_inject_coordinator_fail (mark_finalization_started_locked now r) = rr_inject_coordinator_fail r"
  "rr_inject_reservation_fail (mark_finalization_started_locked now r) = rr_inject_reservation_fail r"
  by (simp_all add: mark_finalization_started_locked_def)

text \<open>The part of the registry that the invariant reads.\<close>

definition registry_core :: "ReaperRegistry \<Rightarrow> RegistrationState \<times> u64 list \<times> HandoffCapabilitySlot list \<times> bool \<times> bool \<times> bool \<times> bool \<times> bool \<times> bool"
  where "registry_core r = (rr_state r, rr_registered_ids r, rr_slots r, rr_coordinator_thread r, rr_coordinator_stop r,
    rr_coordinator_exited r, rr_join_in_progress r, rr_inject_coordinator_fail r, rr_inject_reservation_fail r)"

lemma registry_coreD:
  assumes "registry_core r = registry_core q"
  shows "rr_state r = rr_state q" "rr_registered_ids r = rr_registered_ids q" "rr_slots r = rr_slots q"
    "rr_coordinator_thread r = rr_coordinator_thread q" "rr_coordinator_stop r = rr_coordinator_stop q"
    "rr_coordinator_exited r = rr_coordinator_exited q" "rr_join_in_progress r = rr_join_in_progress q"
    "rr_inject_coordinator_fail r = rr_inject_coordinator_fail q" "rr_inject_reservation_fail r = rr_inject_reservation_fail q"
  using assms by (simp_all add: registry_core_def)

lemma slot_claimable_cong: "rr_state r = rr_state q \<Longrightarrow> slot_claimable r = slot_claimable q"
  by (simp add: slot_claimable_def fun_eq_iff)

lemma predicates_cong:
  assumes "registry_core r = registry_core q"
  shows "coordinator_wakes r = coordinator_wakes q" "exited_and_empty r = exited_and_empty q" "wait_over f r = wait_over f q"
  using registry_coreD [OF assms] slot_claimable_cong [of r q]
  by (simp_all add: coordinator_wakes_def has_join_ready_slot_locked_def nothing_registered_def exited_and_empty_def wait_over_def)

lemma inv_frame:
  assumes "reaper_inv s" and "registry_core (rs_reg t) = registry_core (rs_reg s)" and "rs_coord t = rs_coord s" and "rs_started t = rs_started s"
    and "rs_notices s = 0 \<longrightarrow> rs_notices t = 0 \<or> rs_coord s \<noteq> Co_asleep" and "rs_notices s \<noteq> 0 \<longrightarrow> rs_notices t \<noteq> 0 \<or> rs_coord s \<noteq> Co_asleep"
    and "rs_waiters t = rs_waiters s" and "rs_registered t = rs_registered s" and "rs_unregistered t = rs_unregistered s"
    and "rs_ready t = rs_ready s" and "rs_cleaned t = rs_cleaned s"
  shows "reaper_inv t"
proof -
  note e = registry_coreD [OF assms(2)]
  have a: "accounts_ok t"
    using assms(1) unfolding reaper_inv_def accounts_ok_def by (simp add: e assms)
  have c: "coordinator_ok t"
    using assms(1) unfolding reaper_inv_def coordinator_ok_def Let_def by (simp add: e assms)
  have "waiter_ok t = waiter_ok s"
    by (simp add: fun_eq_iff waiter_ok_def e assms(3) predicates_cong(3) [OF assms(2)] split: wait_pc.split)
  then have "sleepers_ok t"
    using assms(1,3,5,6,7) unfolding reaper_inv_def sleepers_ok_def predicates_cong(1) [OF assms(2)] by auto
  with a c show ?thesis by (simp add: reaper_inv_def)
qed

text \<open>A change that notifies every waiting thread and lets no finished wait become wrong.\<close>

lemma notified_waiters_ok:
  assumes "\<forall>w \<in> set ws. waiter_ok s w" and "rs_coord t = rs_coord s \<or> (\<forall>w \<in> set ws. \<not> joining w)"
    and "rr_state (rs_reg s) = Finalized \<longrightarrow> rr_state (rs_reg t) = Finalized"
    and "rr_state (rs_reg t) = Finalized \<or> (rr_join_in_progress (rs_reg s) \<longrightarrow> rr_join_in_progress (rs_reg t))"
  shows "\<forall>w \<in> set (map notified ws). waiter_ok t w"
proof
  fix v
  assume "v \<in> set (map notified ws)"
  then obtain w where "w \<in> set ws" "v = notified w" by auto
  with assms show "waiter_ok t v"
    by (cases w) (auto simp: waiter_ok_def)
qed

section \<open>Every move keeps the invariant\<close>

lemma reaper_invD:
  assumes "reaper_inv s"
  shows "accounts_ok s" "coordinator_ok s" "\<forall>w \<in> set (rs_waiters s). waiter_ok s w"
    "rs_coord s = Co_asleep \<longrightarrow> rs_notices s = 0 \<longrightarrow> \<not> coordinator_wakes (rs_reg s)"
  using assms by (simp_all add: reaper_inv_def sleepers_ok_def)

lemma coordinator_okD:
  assumes "coordinator_ok s"
  shows "rs_started s = of_bool (rs_coord s \<noteq> Co_absent)" "rs_coord s \<noteq> Co_dead"
    "rr_coordinator_exited (rs_reg s) = left_loop (rs_coord s)"
    "rs_coord s = Co_absent \<Longrightarrow> rr_slots (rs_reg s) = [] \<and> rr_state (rs_reg s) \<noteq> Finalizing"
    "rr_coordinator_thread (rs_reg s) = (rs_coord s \<noteq> Co_absent \<and> rs_coord s \<noteq> Co_joined \<and> \<not> rr_join_in_progress (rs_reg s))"
    "left_loop (rs_coord s) \<Longrightarrow> rr_slots (rs_reg s) = [] \<and> rr_state (rs_reg s) \<noteq> Open"
    "rr_state (rs_reg s) = Finalized \<Longrightarrow> rs_coord s = Co_absent \<or> left_loop (rs_coord s)"
    "rs_coord s = Co_joined \<Longrightarrow> rr_state (rs_reg s) = Finalized \<or> rr_join_in_progress (rs_reg s)"
    "length (filter joining (rs_waiters s)) = of_bool (rr_join_in_progress (rs_reg s))"
    "rr_join_in_progress (rs_reg s) \<Longrightarrow> left_loop (rs_coord s)"
    "rr_state (rs_reg s) = Open \<Longrightarrow> rs_waiters s = []"
  using assms by (simp_all add: coordinator_ok_def Let_def)

lemma notify_coordinator_inv:
  assumes "accounts_ok s" and "coordinator_ok s" and "\<forall>w \<in> set (rs_waiters s). waiter_ok s w"
  shows "reaper_inv (notify_coordinator s)"
proof (cases "rs_coord s = Co_asleep")
  case True
  let ?t = "s\<lparr>rs_coord := Co_test\<rparr>"
  have "accounts_ok ?t"
    using assms(1) True by (simp add: accounts_ok_def)
  moreover have "coordinator_ok ?t"
    using assms(2) True by (simp add: coordinator_ok_def left_loop_def Let_def)
  moreover have "waiter_ok ?t w" if "waiter_ok s w" for w
    using that True by (cases w) (simp_all add: waiter_ok_def)
  ultimately show ?thesis
    using assms(3) True by (simp add: notify_coordinator_def reaper_inv_def sleepers_ok_def)
qed (use assms in \<open>simp add: notify_coordinator_def reaper_inv_def sleepers_ok_def\<close>)

text \<open>An operation on the slots only.\<close>

definition slots_only :: "ReaperRegistry \<Rightarrow> ReaperRegistry \<Rightarrow> bool" where
  "slots_only r q \<longleftrightarrow> rr_state q = rr_state r \<and> rr_coordinator_thread q = rr_coordinator_thread r \<and>
     rr_coordinator_stop q = rr_coordinator_stop r \<and> rr_coordinator_exited q = rr_coordinator_exited r \<and>
     rr_join_in_progress q = rr_join_in_progress r \<and> rr_inject_coordinator_fail q = rr_inject_coordinator_fail r \<and>
     rr_inject_reservation_fail q = rr_inject_reservation_fail r \<and> (rr_slots r = [] \<longrightarrow> rr_slots q = [] \<and> rr_registered_ids q = rr_registered_ids r)"

lemma slots_only_ok:
  assumes "reaper_inv s" and "slots_only (rs_reg s) (rs_reg t)" and "rs_coord t = rs_coord s" and "rs_started t = rs_started s"
    and "rs_waiters t = rs_waiters s"
  shows "coordinator_ok t" "\<forall>w \<in> set (rs_waiters t). waiter_ok t w"
proof -
  note inv = reaper_invD [OF assms(1)]
  show "coordinator_ok t"
    using inv(2) assms(2-) by (auto simp: coordinator_ok_def slots_only_def Let_def)
  have "exited_and_empty (rs_reg t) = exited_and_empty (rs_reg s)"
    using coordinator_okD(3,6) [OF inv(2)] inv(1) assms(2) by (auto simp: exited_and_empty_def slots_only_def accounts_ok_def)
  then have "waiter_ok t = waiter_ok s"
    using assms(2,3) by (auto simp: fun_eq_iff waiter_ok_def wait_over_def slots_only_def split: wait_pc.split)
  with inv(3) assms(5) show "\<forall>w \<in> set (rs_waiters t). waiter_ok t w" by simp
qed

lemma reaper_invI:
  assumes "accounts_ok s" "coordinator_ok s" "\<forall>w \<in> set (rs_waiters s). waiter_ok s w"
    "rs_coord s = Co_asleep \<Longrightarrow> rs_notices s = 0 \<Longrightarrow> \<not> coordinator_wakes (rs_reg s)"
  shows "reaper_inv s"
  using assms by (simp add: reaper_inv_def sleepers_ok_def)

lemma register_inv:
  assumes inv: "reaper_inv s" and i: "i \<notin> set (rs_registered s)"
  shows "reaper_inv (do_register i g im c s)"
proof (cases "rr_state (rs_reg s) = Open")
  case True
  note parts = reaper_invD [OF inv]
  note co = coordinator_okD [OF parts(2)]
  have nl: "\<not> left_loop (rs_coord s)" "\<not> rr_join_in_progress (rs_reg s)" "rs_waiters s = []" and noinj: "\<not> rr_inject_reservation_fail (rs_reg s)"
    using co(6,10,11) True parts(1) by (auto simp: accounts_ok_def)
  have thread: "rr_coordinator_thread (rs_reg s) \<longleftrightarrow> rs_coord s \<noteq> Co_absent"
    using co(5) nl by (auto simp: left_loop_def)
  define slot where "slot = \<lparr>hc_runtime_id = i, hc_handoff_executed = False, hc_join_ready = False, hc_join_claimed = False,
    hc_retained_state = False, hc_cleanup_fn = c, hc_request_graceful_fn = g, hc_request_immediate_fn = im\<rparr>"
  define r where "r = snd (register_runtime i g im c (rs_reg s))"
  have r: "rr_state r = Open" "rr_slots r = rr_slots (rs_reg s) @ [slot]" "rr_registered_ids r = rr_registered_ids (rs_reg s) @ [runtime_value i]"
    "rr_coordinator_thread r" "\<not> rr_join_in_progress r" "\<not> rr_inject_reservation_fail r"
    "rr_inject_coordinator_fail r = rr_inject_coordinator_fail (rs_reg s)"
    "rr_coordinator_exited r = (rr_coordinator_thread (rs_reg s) \<and> rr_coordinator_exited (rs_reg s))"
    "rr_coordinator_stop r = (rr_coordinator_thread (rs_reg s) \<and> rr_coordinator_stop (rs_reg s))"
    using True noinj nl(2) by (simp_all add: r_def register_runtime_def ensure_coordinator_started_locked_def slot_def Let_def)
  have t: "do_register i g im c s = s\<lparr>rs_reg := r, rs_registered := i # rs_registered s,
      rs_coord := (if rs_coord s = Co_absent then Co_test else rs_coord s),
      rs_started := (if rs_coord s = Co_absent then Suc (rs_started s) else rs_started s)\<rparr>"
    using True noinj thread by (auto simp: do_register_def r_def register_runtime_def Let_def)
  show ?thesis
    unfolding t
  proof (rule reaper_invI)
    show "accounts_ok (s\<lparr>rs_reg := r, rs_registered := i # rs_registered s,
      rs_coord := (if rs_coord s = Co_absent then Co_test else rs_coord s),
      rs_started := (if rs_coord s = Co_absent then Suc (rs_started s) else rs_started s)\<rparr>)"
      using parts(1) i r by (auto simp: accounts_ok_def slot_def slot_value_def)
    show "coordinator_ok (s\<lparr>rs_reg := r, rs_registered := i # rs_registered s,
      rs_coord := (if rs_coord s = Co_absent then Co_test else rs_coord s),
      rs_started := (if rs_coord s = Co_absent then Suc (rs_started s) else rs_started s)\<rparr>)"
      using co(1,2,3) nl r thread by (auto simp: coordinator_ok_def left_loop_def Let_def)
    show "\<not> coordinator_wakes (rs_reg (s\<lparr>rs_reg := r, rs_registered := i # rs_registered s,
      rs_coord := (if rs_coord s = Co_absent then Co_test else rs_coord s),
      rs_started := (if rs_coord s = Co_absent then Suc (rs_started s) else rs_started s)\<rparr>))"
      if "rs_coord (s\<lparr>rs_reg := r, rs_registered := i # rs_registered s,
      rs_coord := (if rs_coord s = Co_absent then Co_test else rs_coord s),
      rs_started := (if rs_coord s = Co_absent then Suc (rs_started s) else rs_started s)\<rparr>) = Co_asleep"
       "rs_notices (s\<lparr>rs_reg := r, rs_registered := i # rs_registered s,
      rs_coord := (if rs_coord s = Co_absent then Co_test else rs_coord s),
      rs_started := (if rs_coord s = Co_absent then Suc (rs_started s) else rs_started s)\<rparr>) = 0"
      using that parts(4) r True slot_claimable_cong [of r "rs_reg s"]
      by (auto simp: coordinator_wakes_def has_join_ready_slot_locked_def slot_def slot_claimable_def split: if_splits)
  qed (simp add: nl)
next
  case False
  then show ?thesis using inv by (simp add: do_register_def register_runtime_def)
qed

text \<open>An operation on the first slot of a runtime that keeps whose slot it is.\<close>

lemma update_slots_accounts:
  assumes "accounts_ok s" and "rr_slots q = update_first P h (rr_slots (rs_reg s))" and "\<And>x. hc_runtime_id (h x) = hc_runtime_id x"
    and "rr_registered_ids q = rr_registered_ids (rs_reg s)" and "rr_coordinator_stop q = rr_coordinator_stop (rs_reg s)"
    and "rr_inject_coordinator_fail q = rr_inject_coordinator_fail (rs_reg s)" and "rr_inject_reservation_fail q = rr_inject_reservation_fail (rs_reg s)"
    and "rs_registered t = rs_registered s" and "rs_unregistered t = rs_unregistered s" and "rs_cleaned t = rs_cleaned s"
    and "in_hand (rs_coord t) = in_hand (rs_coord s)" and "rs_reg t = q" and "set (rs_ready s) \<subseteq> set (rs_ready t)"
    and "\<And>x. P x \<Longrightarrow> \<not> hc_join_claimed x \<Longrightarrow> (hc_join_ready x \<longrightarrow> hc_runtime_id x \<in> set (rs_ready s)) \<Longrightarrow>
      \<not> hc_join_claimed (h x) \<and> (hc_join_ready (h x) \<longrightarrow> hc_runtime_id x \<in> set (rs_ready t))"
  shows "accounts_ok t"
proof -
  have ids: "map hc_runtime_id (rr_slots q) = map hc_runtime_id (rr_slots (rs_reg s))"
    "map slot_value (rr_slots q) = map slot_value (rr_slots (rs_reg s))"
    unfolding assms(2) by (rule map_update_first, simp add: assms(3) slot_value_def)+
  have "\<not> hc_join_claimed sl \<and> (hc_join_ready sl \<longrightarrow> hc_runtime_id sl \<in> set (rs_ready t))" if "sl \<in> set (rr_slots q)" for sl
  proof -
    have old: "\<not> hc_join_claimed y \<and> (hc_join_ready y \<longrightarrow> hc_runtime_id y \<in> set (rs_ready s))" if "y \<in> set (rr_slots (rs_reg s))" for y
      using assms(1) that by (simp add: accounts_ok_def)
    from that [unfolded assms(2)] consider "sl \<in> set (rr_slots (rs_reg s))" | y where "y \<in> set (rr_slots (rs_reg s))" "P y" "sl = h y"
      using set_update_first by metis
    then show ?thesis
      using old assms(3,13,14) by cases auto
  qed
  moreover have "set (rs_cleaned t @ in_hand (rs_coord t)) \<subseteq> set (rs_ready t)"
    using assms(1,10,11,13) by (auto simp: accounts_ok_def)
  ultimately show ?thesis
    using assms(1) ids unfolding accounts_ok_def by (simp add: assms(4-9,10,11,12))
qed

lemma handoff_only: "slots_only r (execute_worker_handoff i c r)" "slots_only r (replace_cleanup_fn i c r)" "slots_only r (notify_join_ready i r)"
  by (simp_all add: slots_only_def execute_worker_handoff_def replace_cleanup_fn_def notify_join_ready_def)

lemma handoff_inv:
  assumes "reaper_inv s"
  shows "reaper_inv (notify_coordinator (s\<lparr>rs_reg := execute_worker_handoff i c (rs_reg s)\<rparr>))"
proof -
  let ?t = "s\<lparr>rs_reg := execute_worker_handoff i c (rs_reg s)\<rparr>"
  have "accounts_ok ?t"
  proof (cases "find_slot i (rs_reg s)")
    case None
    then show ?thesis using reaper_invD(1) [OF assms] by (simp add: execute_worker_handoff_def)
  next
    case (Some x)
    show ?thesis
      by (rule update_slots_accounts [OF reaper_invD(1) [OF assms], of "execute_worker_handoff i c (rs_reg s)" "\<lambda>s. hc_runtime_id s = i"
        "\<lambda>s. s\<lparr>hc_handoff_executed := True, hc_retained_state := True, hc_cleanup_fn := c\<rparr>"])
        (use Some in \<open>simp_all add: execute_worker_handoff_def\<close>)
  qed
  moreover have "slots_only (rs_reg s) (rs_reg ?t)"
    using handoff_only(1) [of "rs_reg s" i c] by simp
  note slots_only_ok [OF assms this]
  ultimately show ?thesis
    by (intro notify_coordinator_inv) simp_all
qed

lemma replace_inv:
  assumes "reaper_inv s"
  shows "reaper_inv (s\<lparr>rs_reg := replace_cleanup_fn i c (rs_reg s)\<rparr>)"
proof -
  let ?t = "s\<lparr>rs_reg := replace_cleanup_fn i c (rs_reg s)\<rparr>"
  have "accounts_ok ?t"
    by (rule update_slots_accounts [OF reaper_invD(1) [OF assms], of "replace_cleanup_fn i c (rs_reg s)" "\<lambda>s. hc_runtime_id s = i"
        "\<lambda>s. s\<lparr>hc_cleanup_fn := c\<rparr>"]) (simp_all add: replace_cleanup_fn_def)
  moreover have "slots_only (rs_reg s) (rs_reg ?t)"
    using handoff_only(2) [of "rs_reg s" i c] by simp
  note slots_only_ok [OF assms this]
  moreover have "list_ex (slot_claimable r) (update_first P (\<lambda>s. s\<lparr>hc_cleanup_fn := c\<rparr>) ss) = list_ex (slot_claimable r) ss" for r ss P
    by (induction ss) (auto simp: slot_claimable_def)
  then have "coordinator_wakes (rs_reg ?t) = coordinator_wakes (rs_reg s)"
    by (simp add: coordinator_wakes_def has_join_ready_slot_locked_def nothing_registered_def replace_cleanup_fn_def
        slot_claimable_cong [of "rs_reg s\<lparr>rr_slots := _\<rparr>" "rs_reg s"])
  ultimately show ?thesis
    using reaper_invD(4) [OF assms] by (intro reaper_invI) simp_all
qed

lemma join_ready_inv:
  assumes "reaper_inv s"
  shows "reaper_inv (s\<lparr>rs_reg := notify_join_ready i (rs_reg s), rs_notices := Suc (rs_notices s), rs_ready := i # rs_ready s\<rparr>)"
proof -
  let ?t = "s\<lparr>rs_reg := notify_join_ready i (rs_reg s), rs_notices := Suc (rs_notices s), rs_ready := i # rs_ready s\<rparr>"
  have "accounts_ok ?t"
    by (rule update_slots_accounts [OF reaper_invD(1) [OF assms], of "notify_join_ready i (rs_reg s)" "\<lambda>s. hc_runtime_id s = i"
        "\<lambda>s. s\<lparr>hc_join_ready := True\<rparr>"]) (auto simp: notify_join_ready_def)
  moreover have "slots_only (rs_reg s) (rs_reg ?t)"
    using handoff_only(3) [of "rs_reg s" i] by simp
  note slots_only_ok [OF assms this]
  ultimately show ?thesis
    by (intro reaper_invI) simp_all
qed

lemma unregister_inv:
  assumes "reaper_inv s"
  shows "reaper_inv (do_unregister i s)"
proof -
  note acc = reaper_invD(1) [OF assms]
  let ?ss = "rr_slots (rs_reg s)"
  have ids: "erase_first (\<lambda>v. v = runtime_value i) (rr_registered_ids (rs_reg s)) = map slot_value (erase_first (\<lambda>s. hc_runtime_id s = i) ?ss)"
    using acc by (simp add: accounts_ok_def map_erase_first [of "\<lambda>v. v = runtime_value i" slot_value "\<lambda>s. hc_runtime_id s = i"] slot_value_def)
  have bal: "mset (map hc_runtime_id ?ss) = mset (map hc_runtime_id (erase_first (\<lambda>s. hc_runtime_id s = i) ?ss)) +
      (if find_slot i (rs_reg s) = None then {#} else {#i#})"
  proof (cases "find_slot i (rs_reg s)")
    case None
    then show ?thesis by (simp add: find_slot_def erase_find_None)
  next
    case (Some x)
    then have "hc_runtime_id x = i" by (auto simp: find_slot_def find_Some_iff)
    with Some mset_erase_find [of "\<lambda>s. hc_runtime_id s = i" ?ss x] show ?thesis
      by (simp add: find_slot_def)
  qed
  have "accounts_ok (do_unregister i s)"
    using acc ids bal set_erase_first [of "\<lambda>s. hc_runtime_id s = i" ?ss]
    by (auto simp: accounts_ok_def do_unregister_def unregister_runtime_def)
  moreover have "slots_only (rs_reg s) (rs_reg (do_unregister i s))"
    using acc by (simp add: slots_only_def do_unregister_def unregister_runtime_def accounts_ok_def)
  note slots_only_ok [OF assms this]
  ultimately show ?thesis
    by (intro reaper_invI) (simp_all add: do_unregister_def)
qed

lemma notice_inv:
  assumes "reaper_inv s"
  shows "reaper_inv (notify_coordinator (s\<lparr>rs_notices := n\<rparr>))"
proof (rule notify_coordinator_inv)
  have "waiter_ok (s\<lparr>rs_notices := n\<rparr>) = waiter_ok s"
    by (simp add: fun_eq_iff waiter_ok_def split: wait_pc.split)
  then show "\<forall>w \<in> set (rs_waiters (s\<lparr>rs_notices := n\<rparr>)). waiter_ok (s\<lparr>rs_notices := n\<rparr>) w"
    using reaper_invD(3) [OF assms] by simp
qed (use reaper_invD(1,2) [OF assms] in \<open>simp_all add: accounts_ok_def coordinator_ok_def\<close>)

lemma finalized_accounts: "accounts_ok s \<Longrightarrow> accounts_ok (s\<lparr>rs_reg := mark_finalized_locked now (rs_reg s)\<rparr>)"
  by (simp add: accounts_ok_def)

text \<open>When the process is finalized every waiting thread is notified; the coordinator is not in its loop.\<close>

lemma finalized_inv:
  assumes "accounts_ok s" and co: "coordinator_ok s" and "\<forall>w \<in> set (rs_waiters s). waiter_ok s w"
    and "rs_coord s = Co_absent \<or> left_loop (rs_coord s)"
  shows "reaper_inv (notify_finalization (s\<lparr>rs_reg := mark_finalized_locked now (rs_reg s)\<rparr>))"
proof (rule reaper_invI)
  let ?t = "notify_finalization (s\<lparr>rs_reg := mark_finalized_locked now (rs_reg s)\<rparr>)"
  show "accounts_ok ?t"
    using assms(1) by (simp add: accounts_ok_def notify_finalization_def)
  show "coordinator_ok ?t"
    using co assms(4) by (elim disjE) (simp_all add: coordinator_ok_def notify_finalization_def left_loop_def Let_def filter_map)
  have "\<forall>w \<in> set (map notified (rs_waiters s)). waiter_ok ?t w"
    by (rule notified_waiters_ok [OF assms(3)]) (simp_all add: notify_finalization_def)
  moreover have "rs_waiters ?t = map notified (rs_waiters s)"
    by (simp add: notify_finalization_def)
  ultimately show "\<forall>w \<in> set (rs_waiters ?t). waiter_ok ?t w"
    by (simp only:)
  show "\<not> coordinator_wakes (rs_reg ?t)" if "rs_coord ?t = Co_asleep"
    using that assms(4) by (simp add: notify_finalization_def left_loop_def)
qed

lemma begin_inv:
  assumes inv: "reaper_inv s"
  shows "reaper_inv (do_begin_finalization now s)"
proof -
  define s0 where "s0 = s\<lparr>rs_reg := note_finalization_begin (rs_reg s)\<rparr>"
  have inv0: "reaper_inv (s0\<lparr>rs_calls := cs\<rparr>)" for cs
    by (rule inv_frame [OF inv]) (simp_all add: s0_def registry_core_def note_finalization_begin_def)
  show ?thesis
  proof (cases "rr_state (rs_reg s) = Open")
    case False
    then have "do_begin_finalization now s = s0\<lparr>rs_calls := rs_calls s\<rparr>"
      by (simp add: do_begin_finalization_def close_registration_def note_finalization_begin_def s0_def)
    then show ?thesis using inv0 by simp
  next
    case True
    define s1 where "s1 = s\<lparr>rs_reg := mark_finalization_started_locked now (note_finalization_begin (rs_reg s)),
      rs_calls := rs_calls s @ map Graceful_request (callbacks_of hc_request_graceful_fn (rr_slots (rs_reg s)))\<rparr>"
    have upd: "s1\<lparr>rs_reg := q\<rparr> = s\<lparr>rs_reg := q,
        rs_calls := rs_calls s @ map Graceful_request (callbacks_of hc_request_graceful_fn (rr_slots (rs_reg s)))\<rparr>" for q
      by (simp add: s1_def)
    have "reaper_inv s1"
      by (rule inv_frame [OF inv]) (simp_all add: s1_def registry_core_def note_finalization_begin_def)
    note p1 = reaper_invD [OF this]
    note co = coordinator_okD [OF p1(2)]
    have open1: "rr_state (rs_reg s1) = Open" "rs_waiters s1 = []"
      using True co(11) by (simp_all add: s1_def note_finalization_begin_def)
    show ?thesis
    proof (cases "rr_registered_ids (rs_reg s) = [] \<and> \<not> rr_coordinator_thread (rs_reg s)")
      case fin: True
      then have "do_begin_finalization now s = notify_finalization (s1\<lparr>rs_reg := mark_finalized_locked now (rs_reg s1)\<rparr>)"
        unfolding upd using True by (simp add: do_begin_finalization_def close_registration_def note_finalization_begin_def s1_def Let_def
            mark_finalization_started_locked_def)
      moreover have "rs_coord s1 = Co_absent \<or> left_loop (rs_coord s1)"
        using co(5,10) fin by (auto simp: s1_def note_finalization_begin_def left_loop_def)
      ultimately show ?thesis
        using finalized_inv [OF p1(1-3)] by simp
    next
      case False
      define s2 where "s2 = s1\<lparr>rs_reg := (rs_reg s1)\<lparr>rr_state := Finalizing\<rparr>\<rparr>"
      have "do_begin_finalization now s = notify_coordinator s2"
        unfolding s2_def upd using False True
        by (auto simp: do_begin_finalization_def close_registration_def note_finalization_begin_def s1_def Let_def
            mark_finalization_started_locked_def)
      moreover have "accounts_ok s2"
        using p1(1) by (simp add: s2_def accounts_ok_def)
      moreover have "rs_coord s1 \<noteq> Co_absent"
      proof
        assume "rs_coord s1 = Co_absent"
        with co(4,5) p1(1) have "rr_registered_ids (rs_reg s1) = []" "\<not> rr_coordinator_thread (rs_reg s1)"
          by (simp_all add: accounts_ok_def)
        with False show False by (simp add: s1_def note_finalization_begin_def)
      qed
      then have "coordinator_ok s2"
        using p1(2) open1 co(6,8) by (auto simp: coordinator_ok_def s2_def left_loop_def Let_def)
      moreover have "\<forall>w \<in> set (rs_waiters s2). waiter_ok s2 w"
        using open1(2) by (simp add: s2_def)
      ultimately show ?thesis
        using notify_coordinator_inv by simp
    qed
  qed
qed

lemma immediate_inv:
  assumes "reaper_inv s"
  shows "reaper_inv (do_request_immediate s)"
  by (rule inv_frame [OF assms]) (simp_all add: do_request_immediate_def request_all_immediate_def registry_core_def)

lemma spurious_inv:
  assumes "reaper_inv s" and "rs_coord s = Co_asleep"
  shows "reaper_inv (s\<lparr>rs_coord := Co_test\<rparr>)"
  using notify_coordinator_inv [OF reaper_invD(1-3) [OF assms(1)]] assms(2) by (simp add: notify_coordinator_def)

text \<open>A step of the coordinator inside its loop.\<close>

definition in_loop :: "coordinator_pc \<Rightarrow> bool" where
  "in_loop pc \<longleftrightarrow> pc \<noteq> Co_absent \<and> pc \<noteq> Co_exited \<and> pc \<noteq> Co_joined \<and> pc \<noteq> Co_dead"

lemma in_loop_change:
  assumes "reaper_inv s" and "in_loop (rs_coord s)" and "in_loop (rs_coord t)"
    and "rs_started t = rs_started s" and "slots_only (rs_reg s) (rs_reg t)" and "rs_waiters t = rs_waiters s"
  shows "coordinator_ok t" "\<forall>w \<in> set (rs_waiters t). waiter_ok t w"
proof -
  let ?u = "t\<lparr>rs_coord := rs_coord s\<rparr>"
  have u: "coordinator_ok ?u" "\<forall>w \<in> set (rs_waiters ?u). waiter_ok ?u w"
    using slots_only_ok [OF assms(1), of ?u] assms by simp_all
  then show "coordinator_ok t"
    using assms(2,3) by (simp add: coordinator_ok_def left_loop_def in_loop_def Let_def)
  have "waiter_ok ?u w \<Longrightarrow> waiter_ok t w" for w
    using assms(2,3) by (cases w) (auto simp: waiter_ok_def in_loop_def)
  with u(2) show "\<forall>w \<in> set (rs_waiters t). waiter_ok t w" by simp
qed

lemma clean_inv:
  assumes inv: "reaper_inv s" and pc: "rs_coord s = Co_cleaning ws"
  shows "reaper_inv (do_clean ws s)"
proof (rule reaper_invI)
  have "in_loop (rs_coord (do_clean ws s))"
    "rs_started (do_clean ws s) = rs_started s" "slots_only (rs_reg s) (rs_reg (do_clean ws s))" "rs_waiters (do_clean ws s) = rs_waiters s"
    by (simp_all add: do_clean_def slots_only_def in_loop_def split: list.split)
  with in_loop_change [OF inv, of "do_clean ws s"] pc
  show "coordinator_ok (do_clean ws s)" "\<forall>w \<in> set (rs_waiters (do_clean ws s)). waiter_ok (do_clean ws s) w"
    by (simp_all add: in_loop_def)
  show "accounts_ok (do_clean ws s)"
    using reaper_invD(1) [OF inv] pc by (auto simp: do_clean_def accounts_ok_def split: list.split)
qed (simp add: do_clean_def split: list.splits)

lemma coordinate_inv:
  assumes inv: "reaper_inv s" and pc: "rs_coord s = Co_test"
  shows "reaper_inv (do_coordinate s)"
proof -
  note acc = reaper_invD(1) [OF inv]
  let ?r = "rs_reg s"
  have quiet: "\<not> rr_inject_coordinator_fail ?r" "\<not> rr_coordinator_stop ?r"
    using acc by (simp_all add: accounts_ok_def)
  consider (sleeps) "\<not> coordinator_wakes ?r"
    | (leaves) "coordinator_wakes ?r" "rr_state ?r = Finalizing" "nothing_registered ?r"
    | (works) "coordinator_wakes ?r" "\<not> (rr_state ?r = Finalizing \<and> nothing_registered ?r)"
    by blast
  then show ?thesis
  proof cases
    case sleeps
    then have t: "do_coordinate s = s\<lparr>rs_coord := Co_asleep\<rparr>" by (simp add: do_coordinate_def)
    have "coordinator_ok (s\<lparr>rs_coord := Co_asleep\<rparr>)" "\<forall>w \<in> set (rs_waiters (s\<lparr>rs_coord := Co_asleep\<rparr>)). waiter_ok (s\<lparr>rs_coord := Co_asleep\<rparr>) w"
      using in_loop_change [OF inv, of "s\<lparr>rs_coord := Co_asleep\<rparr>"] pc by (simp_all add: slots_only_def in_loop_def)
    moreover have "accounts_ok (s\<lparr>rs_coord := Co_asleep\<rparr>)"
      using acc pc by (simp add: accounts_ok_def)
    ultimately show ?thesis
      unfolding t using sleeps by (intro reaper_invI) simp_all
  next
    case leaves
    then have t: "do_coordinate s = notify_finalization (s\<lparr>rs_reg := ?r\<lparr>rr_coordinator_exited := True\<rparr>, rs_coord := Co_exited\<rparr>)"
      using quiet by (simp add: do_coordinate_def coordinator_turn_def)
    note co = coordinator_okD [OF reaper_invD(2) [OF inv]]
    show ?thesis
      unfolding t
    proof (rule reaper_invI)
      show "accounts_ok (notify_finalization (s\<lparr>rs_reg := ?r\<lparr>rr_coordinator_exited := True\<rparr>, rs_coord := Co_exited\<rparr>))"
        using acc pc by (simp add: accounts_ok_def notify_finalization_def)
      show "coordinator_ok (notify_finalization (s\<lparr>rs_reg := ?r\<lparr>rr_coordinator_exited := True\<rparr>, rs_coord := Co_exited\<rparr>))"
        using reaper_invD(2) [OF inv] pc leaves by (auto simp: coordinator_ok_def notify_finalization_def left_loop_def nothing_registered_def Let_def)
      have "\<not> rr_join_in_progress ?r" using co(10) pc by (auto simp: left_loop_def)
      then have "\<forall>w \<in> set (rs_waiters s). \<not> joining w"
        using co(9) by (simp add: filter_empty_conv)
      then have "\<forall>w \<in> set (map notified (rs_waiters s)). waiter_ok (notify_finalization (s\<lparr>rs_reg := ?r\<lparr>rr_coordinator_exited := True\<rparr>, rs_coord := Co_exited\<rparr>)) w"
        by (intro notified_waiters_ok [OF reaper_invD(3) [OF inv]]) (simp_all add: notify_finalization_def)
      moreover have "rs_waiters (notify_finalization (s\<lparr>rs_reg := ?r\<lparr>rr_coordinator_exited := True\<rparr>, rs_coord := Co_exited\<rparr>)) = map notified (rs_waiters s)"
        by (simp add: notify_finalization_def)
      ultimately show "\<forall>w \<in> set (rs_waiters (notify_finalization (s\<lparr>rs_reg := ?r\<lparr>rr_coordinator_exited := True\<rparr>, rs_coord := Co_exited\<rparr>))). waiter_ok (notify_finalization (s\<lparr>rs_reg := ?r\<lparr>rr_coordinator_exited := True\<rparr>, rs_coord := Co_exited\<rparr>)) w"
        by (simp only:)
    qed (simp add: notify_finalization_def)
  next
    case works
    let ?ids = "map slot_value (rr_slots ?r)"
    have ids: "rr_registered_ids ?r = ?ids" "distinct (rs_registered s)" using acc by (simp_all add: accounts_ok_def)
    have "mset (rs_registered s) = mset (map hc_runtime_id (rr_slots ?r) @ rs_unregistered s @ rs_cleaned s @ in_hand (rs_coord s))"
      using acc by (simp add: accounts_ok_def)
    then have "distinct (map hc_runtime_id (rr_slots ?r))"
      using ids(2) mset_eq_imp_distinct_iff by fastforce
    then have d: "distinct ([] @ ?ids)"
      by (simp add: distinct_map slot_value_def inj_on_def)
    define keep where "keep = filter (\<lambda>s. \<not> slot_claimable ?r s) (rr_slots ?r)"
    define take where "take = filter (slot_claimable ?r) (rr_slots ?r)"
    have t: "do_coordinate s = s\<lparr>rs_reg := ?r\<lparr>rr_slots := keep, rr_registered_ids := map slot_value keep,
        rr_total_joins := rr_total_joins ?r + of_nat (length take)\<rparr>, rs_coord := Co_cleaning (map work_of take)\<rparr>"
      using works quiet claim_slots_filter [OF d, of ?r] ids(1)
      by (auto simp: do_coordinate_def coordinator_turn_def keep_def take_def)
    have split: "mset (map hc_runtime_id (rr_slots ?r)) = mset (map hc_runtime_id keep) + mset (map hc_runtime_id take)"
      unfolding keep_def take_def mset_map [symmetric]
      by (simp add: image_mset_union [symmetric] multiset_partition [of "mset (rr_slots ?r)" "\<lambda>s. \<not> slot_claimable ?r s", symmetric]
          del: image_mset_union)
    have ready: "hc_runtime_id sl \<in> set (rs_ready s)" if "sl \<in> set take" for sl
      using acc that by (auto simp: accounts_ok_def take_def slot_claimable_def)
    show ?thesis
      unfolding t
    proof (rule reaper_invI)
      let ?t = "s\<lparr>rs_reg := ?r\<lparr>rr_slots := keep, rr_registered_ids := map slot_value keep,
        rr_total_joins := rr_total_joins ?r + of_nat (length take)\<rparr>, rs_coord := Co_cleaning (map work_of take)\<rparr>"
      have "rw_runtime_id \<circ> work_of = hc_runtime_id" by (simp add: fun_eq_iff work_of_def)
      then show "accounts_ok ?t"
        using acc split ready pc by (auto simp: accounts_ok_def keep_def)
      have so: "slots_only (rs_reg s) (rs_reg ?t)"
        by (simp add: slots_only_def keep_def ids(1))
      show "coordinator_ok ?t" "\<forall>w \<in> set (rs_waiters ?t). waiter_ok ?t w"
        using in_loop_change [OF inv, of ?t] pc so by (simp_all add: in_loop_def)
    qed simp
  qed
qed

subsection \<open>The threads that wait\<close>

lemma waiter_ok_waiters [simp]: "waiter_ok (s\<lparr>rs_waiters := ws\<rparr>) = waiter_ok s"
  by (simp add: fun_eq_iff waiter_ok_def split: wait_pc.split)

lemma set_waiter_inv:
  assumes inv: "reaper_inv s" and k: "k < length (rs_waiters s)" "\<not> joining (rs_waiters s ! k)" "\<not> joining v" and v: "waiter_ok s v"
  shows "reaper_inv (s\<lparr>rs_waiters := (rs_waiters s)[k := v]\<rparr>)"
proof (rule reaper_invI)
  show "accounts_ok (s\<lparr>rs_waiters := (rs_waiters s)[k := v]\<rparr>)"
    using reaper_invD(1) [OF inv] by (simp add: accounts_ok_def)
  have "length (filter joining ((rs_waiters s)[k := v])) = length (filter joining (rs_waiters s))"
    using filter_update [OF k(1), of joining v] k(2,3) by simp
  then show "coordinator_ok (s\<lparr>rs_waiters := (rs_waiters s)[k := v]\<rparr>)"
    using reaper_invD(2) [OF inv] by (simp add: coordinator_ok_def Let_def)
  show "\<forall>w \<in> set (rs_waiters (s\<lparr>rs_waiters := (rs_waiters s)[k := v]\<rparr>)). waiter_ok (s\<lparr>rs_waiters := (rs_waiters s)[k := v]\<rparr>) w"
    using waiters_update [OF reaper_invD(3) [OF inv] v] by simp
qed (use reaper_invD(4) [OF inv] in simp)

lemma enter_inv:
  assumes inv: "reaper_inv s" and "rr_state (rs_reg s) \<noteq> Open"
  shows "reaper_inv (s\<lparr>rs_waiters := rs_waiters s @ [Wt_round timed]\<rparr>)"
proof (rule reaper_invI)
  show "accounts_ok (s\<lparr>rs_waiters := rs_waiters s @ [Wt_round timed]\<rparr>)"
    using reaper_invD(1) [OF inv] by (simp add: accounts_ok_def)
  show "coordinator_ok (s\<lparr>rs_waiters := rs_waiters s @ [Wt_round timed]\<rparr>)"
    using reaper_invD(2) [OF inv] assms(2) by (simp add: coordinator_ok_def Let_def)
  show "\<forall>w \<in> set (rs_waiters (s\<lparr>rs_waiters := rs_waiters s @ [Wt_round timed]\<rparr>)). waiter_ok (s\<lparr>rs_waiters := rs_waiters s @ [Wt_round timed]\<rparr>) w"
    using reaper_invD(3) [OF inv] by (auto simp: waiter_ok_def)
qed (use reaper_invD(4) [OF inv] in simp)

lemma timed_out_inv:
  assumes inv: "reaper_inv s" and k: "k < length (rs_waiters s)" "\<not> joining (rs_waiters s ! k)"
  shows "reaper_inv (s\<lparr>rs_reg := count_wait_timeout (rs_reg s), rs_waiters := (rs_waiters s)[k := Wt_done TimedOut]\<rparr>)"
proof -
  have "reaper_inv (s\<lparr>rs_reg := count_wait_timeout (rs_reg s)\<rparr>)"
    by (rule inv_frame [OF inv]) (simp_all add: registry_core_def count_wait_timeout_def)
  from set_waiter_inv [OF this, of k "Wt_done TimedOut"] k show ?thesis
    by (simp add: waiter_ok_def)
qed

lemma without_thread:
  assumes "reaper_inv s" and "\<not> rr_coordinator_thread (rs_reg s)"
  shows "rs_coord s = Co_absent \<or> left_loop (rs_coord s)"
  using coordinator_okD(5,10) [OF reaper_invD(2) [OF assms(1)]] assms(2) by (auto simp: left_loop_def)

lemma finalize_inv:
  assumes inv: "reaper_inv s" and k: "k < length (rs_waiters s)" "\<not> joining (rs_waiters s ! k)" and thr: "\<not> rr_coordinator_thread (rs_reg s)"
    and t: "t = notify_finalization (s\<lparr>rs_reg := mark_finalized_locked now (rs_reg s)\<rparr>)"
  shows "reaper_inv (t\<lparr>rs_waiters := (rs_waiters t)[k := Wt_done Completed]\<rparr>)"
proof -
  have "reaper_inv t"
    unfolding t by (rule finalized_inv [OF reaper_invD(1-3) [OF inv] without_thread [OF inv thr]])
  then show ?thesis
    by (rule set_waiter_inv) (use k in \<open>simp_all add: t notify_finalization_def waiter_ok_def\<close>)
qed

lemma begin_join_inv:
  assumes inv: "reaper_inv s" and k: "k < length (rs_waiters s)" "\<not> joining (rs_waiters s ! k)"
    and join: "try_join_begin (rs_reg s) = Some r"
  shows "reaper_inv (s\<lparr>rs_reg := r, rs_waiters := (rs_waiters s)[k := Wt_join timed]\<rparr>)"
proof -
  let ?t = "s\<lparr>rs_reg := r, rs_waiters := (rs_waiters s)[k := Wt_join timed]\<rparr>"
  have r: "r = (rs_reg s)\<lparr>rr_join_in_progress := True, rr_coordinator_thread := False\<rparr>"
    and pre: "rr_state (rs_reg s) \<noteq> Finalized" "rr_coordinator_exited (rs_reg s)" "\<not> rr_join_in_progress (rs_reg s)"
    using join by (auto simp: try_join_begin_def split: if_splits)
  note co = coordinator_okD [OF reaper_invD(2) [OF inv]]
  have exited: "rs_coord s = Co_exited"
    using co(3,8) pre by (auto simp: left_loop_def)
  show ?thesis
  proof (rule reaper_invI)
    show "accounts_ok ?t"
      using reaper_invD(1) [OF inv] by (simp add: accounts_ok_def r)
    have "length (filter joining ((rs_waiters s)[k := Wt_join timed])) = 1"
      using filter_update [OF k(1), of joining "Wt_join timed"] k(2) co(9) pre(3) by simp
    then show "coordinator_ok ?t"
      using reaper_invD(2) [OF inv] exited pre by (simp add: coordinator_ok_def r left_loop_def Let_def)
    have "waiter_ok ?t w" if "waiter_ok s w" for w
      using that pre by (cases w) (auto simp: waiter_ok_def wait_over_def exited_and_empty_def r)
    then show "\<forall>w \<in> set (rs_waiters ?t). waiter_ok ?t w"
      using waiters_update [of "rs_waiters s" "waiter_ok ?t" "Wt_join timed" k] reaper_invD(3) [OF inv] exited
      by (simp add: waiter_ok_def)
  qed (simp add: exited)
qed

lemma others_not_joining:
  assumes "reaper_inv s" and "k < length (rs_waiters s)" and "joining (rs_waiters s ! k)" and "\<not> joining v"
  shows "\<forall>w \<in> set ((rs_waiters s)[k := v]). \<not> joining w"
proof -
  have "length (filter joining ((rs_waiters s)[k := v])) = 0"
    using filter_update [OF assms(2), of joining v] assms(3,4) coordinator_okD(9) [OF reaper_invD(2) [OF assms(1)]]
    by (cases "rr_join_in_progress (rs_reg s)") simp_all
  then show ?thesis by (simp add: filter_empty_conv)
qed

lemma join_inv:
  assumes inv: "reaper_inv s" and k: "k < length (rs_waiters s)" "rs_waiters s ! k = Wt_join timed" and pc: "rs_coord s = Co_exited"
  shows "reaper_inv (s\<lparr>rs_coord := Co_joined, rs_waiters := (rs_waiters s)[k := Wt_relock timed]\<rparr>)"
proof -
  let ?t = "s\<lparr>rs_coord := Co_joined, rs_waiters := (rs_waiters s)[k := Wt_relock timed]\<rparr>"
  note co = coordinator_okD [OF reaper_invD(2) [OF inv]]
  have count: "length (filter joining ((rs_waiters s)[k := Wt_relock timed])) = length (filter joining (rs_waiters s))"
    using filter_update [OF k(1), of joining "Wt_relock timed"] k(2) by simp
  have "0 < length (filter joining (rs_waiters s))"
    using k by (metis filter_empty_conv joining.simps(1) length_greater_0_conv nth_mem)
  then have prog: "rr_join_in_progress (rs_reg s)"
    using co(9) by (cases "rr_join_in_progress (rs_reg s)") simp_all
  show ?thesis
  proof (rule reaper_invI)
    show "accounts_ok ?t"
      using reaper_invD(1) [OF inv] pc by (simp add: accounts_ok_def)
    show "coordinator_ok ?t"
      using reaper_invD(2) [OF inv] pc prog count by (simp add: coordinator_ok_def left_loop_def Let_def)
    have "\<forall>w \<in> set ((rs_waiters s)[k := Wt_round timed]). \<not> joining w \<and> waiter_ok s w"
      using others_not_joining [OF inv k(1), of "Wt_round timed"] k(2)
        waiters_update [OF reaper_invD(3) [OF inv], of "Wt_round timed" k] by (simp add: waiter_ok_def)
    moreover have "waiter_ok ?t w" if "\<not> joining w" "waiter_ok s w" for w
      using that by (cases w) (auto simp: waiter_ok_def)
    ultimately have "\<forall>w \<in> set ((rs_waiters s)[k := Wt_round timed]). waiter_ok ?t w"
      by blast
    then have "\<forall>w \<in> set (((rs_waiters s)[k := Wt_round timed])[k := Wt_relock timed]). waiter_ok ?t w"
      by (rule waiters_update) (simp add: waiter_ok_def)
    then show "\<forall>w \<in> set (rs_waiters ?t). waiter_ok ?t w"
      by simp
  qed simp
qed

lemma relock_inv:
  assumes inv: "reaper_inv s" and k: "k < length (rs_waiters s)" "rs_waiters s ! k = Wt_relock timed"
  shows "reaper_inv (do_relock k now s)"
proof -
  let ?t = "do_relock k now s"
  note co = coordinator_okD [OF reaper_invD(2) [OF inv]]
  have pc: "rs_coord s = Co_joined"
    using reaper_invD(3) [OF inv] k nth_mem [OF k(1)] by (fastforce simp: waiter_ok_def)
  have ws: "rs_waiters ?t = map notified ((rs_waiters s)[k := Wt_done Completed])"
    by (simp add: do_relock_def map_update)
  have none: "\<forall>w \<in> set ((rs_waiters s)[k := Wt_done Completed]). \<not> joining w"
    using others_not_joining [OF inv k(1), of "Wt_done Completed"] k(2) by simp
  show ?thesis
  proof (rule reaper_invI)
    show "accounts_ok ?t"
      using reaper_invD(1) [OF inv] by (simp add: accounts_ok_def do_relock_def try_join_end_def notify_finalization_def)
    have "filter joining (rs_waiters ?t) = []"
      unfolding ws using none by (simp add: filter_map filter_empty_conv)
    then show "coordinator_ok ?t"
      using reaper_invD(2) [OF inv] pc by (simp add: coordinator_ok_def do_relock_def try_join_end_def notify_finalization_def left_loop_def Let_def)
    have "waiter_ok ?t (notified w)" if "\<not> joining w" for w
      using that by (cases w) (simp_all add: waiter_ok_def do_relock_def try_join_end_def notify_finalization_def)
    with none show "\<forall>w \<in> set (rs_waiters ?t). waiter_ok ?t w"
      unfolding ws by auto
  qed (simp add: do_relock_def notify_finalization_def pc)
qed

lemma round_inv:
  assumes inv: "reaper_inv s" and k: "k < length (rs_waiters s)" "rs_waiters s ! k = Wt_round timed"
  shows "reaper_inv (do_round k timed now expired s)"
proof -
  let ?r = "rs_reg s"
  have nj: "\<not> joining (rs_waiters s ! k)" by (simp add: k(2))
  consider (over) "rr_state ?r = Finalized"
    | (gone) "rr_state ?r \<noteq> Finalized" "\<not> timed" "\<not> rr_coordinator_thread ?r"
    | (joins) q where "rr_state ?r \<noteq> Finalized" "timed \<or> rr_coordinator_thread ?r" "exited_and_empty ?r" "try_join_begin ?r = Some q"
    | (other) "rr_state ?r \<noteq> Finalized" "timed \<or> rr_coordinator_thread ?r" "exited_and_empty ?r" "try_join_begin ?r = None"
    | (late) "rr_state ?r \<noteq> Finalized" "timed" "expired" "\<not> exited_and_empty ?r"
    | (sleep) "rr_state ?r \<noteq> Finalized" "timed \<or> rr_coordinator_thread ?r" "\<not> exited_and_empty ?r" "timed \<longrightarrow> \<not> expired"
    by (cases "try_join_begin ?r") blast+
  then show ?thesis
  proof cases
    case over
    then have "do_round k timed now expired s = s\<lparr>rs_waiters := (rs_waiters s)[k := Wt_done Completed]\<rparr>"
      by (simp add: do_round_def do_next_def wait_for_round_def wait_finalization_round_def Let_def)
    then show ?thesis
      using set_waiter_inv [OF inv k(1) nj, of "Wt_done Completed"] over by (simp add: waiter_ok_def)
  next
    case gone
    then show ?thesis
      using finalize_inv [OF inv k(1) nj _ refl] by (simp add: do_round_def do_next_def wait_finalization_round_def Let_def)
  next
    case joins
    then have "rr_state q \<noteq> Finalized"
      by (auto simp: try_join_begin_def split: if_splits)
    then have "do_round k timed now expired s = s\<lparr>rs_reg := q, rs_waiters := (rs_waiters s)[k := Wt_join timed]\<rparr>"
      using joins by (auto simp: do_round_def do_next_def wait_for_round_def wait_finalization_round_def Let_def)
    then show ?thesis
      using begin_join_inv [OF inv k(1) nj joins(4)] by simp
  next
    case other
    then have "do_round k timed now expired s = s\<lparr>rs_waiters := (rs_waiters s)[k := Wt_sleep timed True False]\<rparr>"
      by (auto simp: do_round_def do_next_def wait_for_round_def wait_finalization_round_def Let_def)
    moreover have "rr_join_in_progress ?r"
      using other by (auto simp: try_join_begin_def exited_and_empty_def split: if_splits)
    ultimately show ?thesis
      using set_waiter_inv [OF inv k(1) nj, of "Wt_sleep timed True False"] other by (simp add: waiter_ok_def wait_over_def)
  next
    case late
    then have "do_round k timed now expired s = s\<lparr>rs_reg := count_wait_timeout ?r, rs_waiters := (rs_waiters s)[k := Wt_done TimedOut]\<rparr>"
      by (simp add: do_round_def do_next_def wait_for_round_def Let_def)
    then show ?thesis
      using timed_out_inv [OF inv k(1) nj] by simp
  next
    case sleep
    then have "do_round k timed now expired s = s\<lparr>rs_waiters := (rs_waiters s)[k := Wt_sleep timed False False]\<rparr>"
      by (auto simp: do_round_def do_next_def wait_for_round_def wait_finalization_round_def Let_def)
    then show ?thesis
      using set_waiter_inv [OF inv k(1) nj, of "Wt_sleep timed False False"] sleep by (simp add: waiter_ok_def wait_over_def)
  qed
qed

lemma wait_for_inv:
  assumes inv: "reaper_inv s" and "rr_state (rs_reg s) \<noteq> Open"
  shows "reaper_inv (do_wait_for timeout now s)"
proof -
  define s1 where "s1 = s\<lparr>rs_waiters := rs_waiters s @ [Wt_round True]\<rparr>"
  let ?k = "length (rs_waiters s)" and ?r = "rs_reg s"
  have inv1: "reaper_inv s1"
    unfolding s1_def by (rule enter_inv [OF assms])
  have k: "?k < length (rs_waiters s1)" "rs_waiters s1 ! ?k = Wt_round True" "\<not> joining (rs_waiters s1 ! ?k)"
    by (simp_all add: s1_def)
  have reg: "rs_reg s1 = ?r" by (simp add: s1_def)
  consider (over) "rr_state ?r = Finalized" | (gone) "rr_state ?r \<noteq> Finalized" "\<not> rr_coordinator_thread ?r"
    | (joins) q where "rr_state ?r \<noteq> Finalized" "rr_coordinator_thread ?r" "timeout \<le> 0" "exited_and_empty ?r" "try_join_begin ?r = Some q"
    | (late) "rr_state ?r \<noteq> Finalized" "rr_coordinator_thread ?r" "timeout \<le> 0" "exited_and_empty ?r \<longrightarrow> try_join_begin ?r = None"
    | (loop) "rr_state ?r \<noteq> Finalized" "rr_coordinator_thread ?r" "\<not> timeout \<le> 0"
    by (cases "try_join_begin ?r") blast+
  then show ?thesis
  proof cases
    case over
    then have "do_wait_for timeout now s = s1\<lparr>rs_waiters := (rs_waiters s1)[?k := Wt_done Completed]\<rparr>"
      by (simp add: do_wait_for_def do_next_def wait_for_entry_def Let_def s1_def)
    then show ?thesis
      using set_waiter_inv [OF inv1 k(1,3), of "Wt_done Completed"] over by (simp add: waiter_ok_def reg)
  next
    case gone
    then show ?thesis
      using finalize_inv [OF inv1 k(1,3) _ refl] by (simp add: do_wait_for_def do_next_def wait_for_entry_def Let_def s1_def)
  next
    case joins
    then have "rr_state q \<noteq> Finalized"
      by (auto simp: try_join_begin_def split: if_splits)
    then have "do_wait_for timeout now s = s1\<lparr>rs_reg := q, rs_waiters := (rs_waiters s1)[?k := Wt_join True]\<rparr>"
      using joins by (simp add: do_wait_for_def do_next_def wait_for_entry_def Let_def s1_def)
    then show ?thesis
      using begin_join_inv [OF inv1 k(1,3), of q True] joins(5) by (simp add: reg)
  next
    case late
    then have "wait_for_entry timeout now ?r = (Some Times_out, ?r)"
      by (auto simp: wait_for_entry_def)
    then have "do_wait_for timeout now s = s1\<lparr>rs_reg := count_wait_timeout (rs_reg s1), rs_waiters := (rs_waiters s1)[?k := Wt_done TimedOut]\<rparr>"
      by (simp add: do_wait_for_def do_next_def Let_def s1_def)
    then show ?thesis
      using timed_out_inv [OF inv1 k(1,3)] by simp
  next
    case loop
    then show ?thesis
      using inv1 by (simp add: do_wait_for_def wait_for_entry_def Let_def s1_def)
  qed
qed

lemma wake_inv:
  assumes inv: "reaper_inv s" and k: "k < length (rs_waiters s)" "rs_waiters s ! k = Wt_sleep timed final n"
  shows "reaper_inv (do_wake k timed final s)"
proof -
  have "waiter_ok s (Wt_sleep timed final n)"
    using reaper_invD(3) [OF inv] nth_mem [OF k(1)] by (simp add: k(2))
  then show ?thesis
    unfolding do_wake_def
    by (intro set_waiter_inv [OF inv k(1)]) (auto simp: k(2) waiter_ok_def wait_over_def)
qed

lemma expire_inv:
  assumes inv: "reaper_inv s" and k: "k < length (rs_waiters s)" "rs_waiters s ! k = Wt_sleep timed final n"
  shows "reaper_inv (do_expire k final s)"
proof -
  have nj: "\<not> joining (rs_waiters s ! k)" by (simp add: k(2))
  show ?thesis
    unfolding do_expire_def
    using set_waiter_inv [OF inv k(1) nj, of "Wt_round True"] set_waiter_inv [OF inv k(1) nj, of "Wt_done Completed"] timed_out_inv [OF inv k(1) nj]
    by (simp add: waiter_ok_def)
qed

lemma move_inv:
  assumes "reaper_inv s" and "reaper_move m s = Some t"
  shows "reaper_inv t"
  using assms
  by (cases m) (auto split: if_splits wait_pc.splits coordinator_pc.splits
      intro: register_inv unregister_inv notice_inv begin_inv immediate_inv handoff_inv replace_inv join_ready_inv coordinate_inv
        spurious_inv clean_inv enter_inv wait_for_inv round_inv wake_inv expire_inv join_inv relock_inv)

lemma plays_inv: "reaper_plays ms s = Some t \<Longrightarrow> reaper_inv s \<Longrightarrow> reaper_inv t"
  by (induction ms s rule: reaper_plays.induct) (auto split: option.splits dest: move_inv)

end
