(* ===== verification/Reaper_Ends.thy ===== *)
theory Reaper_Ends
  imports Reaper_Claims
begin

text \<open>The properties of the registry and of the finalization of the process.\<close>

text \<open>
  C16: Whatever the threads do, every runtime that ever registered is accounted for exactly once: it holds a
  slot, was unregistered, was cleaned up, or is in the hands of the coordinator; only runtimes whose workers
  have reported leaving are cleaned up; the identities listed are those of the slots; and at most one
  coordinator thread is ever started.
\<close>

theorem reaper_accounts_runtimes:
  assumes "reaper_plays ms reaper_initial = Some s"
  shows "distinct (rs_registered s) \<and>
    mset (rs_registered s) = mset (map hc_runtime_id (rr_slots (rs_reg s))) + mset (rs_unregistered s) +
      mset (rs_cleaned s) + mset (in_hand (rs_coord s)) \<and>
    set (rs_cleaned s @ in_hand (rs_coord s)) \<subseteq> set (rs_ready s) \<and>
    registered_count (rs_reg s) = length (rr_slots (rs_reg s)) \<and> rs_started s \<le> 1"
proof -
  note inv = reaper_invD [OF plays_inv [OF assms initial_inv]]
  have "rs_started s \<le> 1"
    using coordinator_okD(1) [OF inv(2)] by simp
  with inv(1) show ?thesis
    by (simp add: accounts_ok_def registered_count_def)
qed

text \<open>
  C17: A wait for the finalization that reports completion tells the truth about the runtimes: the process is
  finalized, nothing is registered any more nor in the hands of the coordinator, which is past its loop or
  was never started, every runtime that registered has been unregistered or cleaned up, and no runtime can
  register from then on.
\<close>

theorem completed_wait_means_finalized:
  assumes "reaper_plays ms reaper_initial = Some s" and "Wt_done Completed \<in> set (rs_waiters s)"
  shows "rr_state (rs_reg s) = Finalized \<and> nothing_registered (rs_reg s) \<and> rs_coord s \<in> {Co_absent, Co_exited, Co_joined} \<and>
    mset (rs_registered s) = mset (rs_unregistered s) + mset (rs_cleaned s) \<and>
    (\<forall>i g im c. do_register i g im c s = s)"
proof -
  note inv = reaper_invD [OF plays_inv [OF assms(1) initial_inv]]
  note co = coordinator_okD [OF inv(2)]
  have final: "rr_state (rs_reg s) = Finalized"
    using inv(3) assms(2) by (auto simp: waiter_ok_def)
  then have pc: "rs_coord s \<in> {Co_absent, Co_exited, Co_joined}"
    using co(7) by (auto simp: left_loop_def)
  then have slots: "rr_slots (rs_reg s) = []" "in_hand (rs_coord s) = []"
    using co(4,6) by (auto simp: left_loop_def)
  with inv(1) have "nothing_registered (rs_reg s)" "mset (rs_registered s) = mset (rs_unregistered s) + mset (rs_cleaned s)"
    by (simp_all add: accounts_ok_def nothing_registered_def)
  with final pc show ?thesis
    by (simp add: do_register_def register_runtime_def)
qed

text \<open>Nothing moves: no notification is on its way, and every thread of the registry sleeps or is done.\<close>

definition reaper_quiet :: "reaper_system \<Rightarrow> bool" where
  "reaper_quiet s \<longleftrightarrow> rs_notices s = 0 \<and> rs_coord s \<noteq> Co_test \<and> (case rs_coord s of Co_cleaning ws \<Rightarrow> False | _ \<Rightarrow> True) \<and>
     list_all (\<lambda>w. case w of Wt_sleep timed final n \<Rightarrow> \<not> n | Wt_done res \<Rightarrow> True | _ \<Rightarrow> False) (rs_waiters s)"

text \<open>
  C18: No wake-up is lost.  When nothing moves and a thread still waits for the finalization, some registered
  runtime has workers that have not left yet: neither the coordinator sleeps over a runtime it could clean
  up or over the end of its loop, nor a waiting thread over the end of the coordinator or the finalization.
\<close>

theorem waits_end_with_the_runtimes:
  assumes "reaper_plays ms reaper_initial = Some s" and "reaper_quiet s" and "Wt_sleep timed final n \<in> set (rs_waiters s)"
  shows "\<exists>sl \<in> set (rr_slots (rs_reg s)). \<not> hc_join_ready sl"
proof -
  note inv = reaper_invD [OF plays_inv [OF assms(1) initial_inv]]
  note co = coordinator_okD [OF inv(2)]
  let ?r = "rs_reg s"
  have w: "waiter_ok s (Wt_sleep timed final n)" "\<not> n"
    using inv(3) assms(2,3) by (auto simp: reaper_quiet_def list_all_iff)
  have "filter joining (rs_waiters s) = []"
    using assms(2) by (auto simp: reaper_quiet_def list_all_iff filter_empty_conv elim!: joining.elims(2))
  then have "\<not> rr_join_in_progress ?r"
    using co(9) by simp
  with w have nf: "\<not> final" "rr_state ?r \<noteq> Finalized" "\<not> exited_and_empty ?r"
    by (auto simp: waiter_ok_def wait_over_def)
  have fin: "rr_state ?r = Finalizing"
    using nf(2) co(11) assms(3) by (cases "rr_state ?r") auto
  have left: "\<not> left_loop (rs_coord s)"
    using co(3,6) nf(3) inv(1) by (auto simp: exited_and_empty_def accounts_ok_def)
  then have asleep: "rs_coord s = Co_asleep"
    using assms(2) co(2,4) fin by (cases "rs_coord s") (auto simp: reaper_quiet_def left_loop_def)
  with inv(4) assms(2) have "\<not> coordinator_wakes ?r"
    by (simp add: reaper_quiet_def)
  with fin have "\<not> nothing_registered ?r" "\<forall>sl \<in> set (rr_slots ?r). \<not> slot_claimable ?r sl"
    by (auto simp: coordinator_wakes_def has_join_ready_slot_locked_def list_ex_iff)
  with fin inv(1) show ?thesis
    by (cases "rr_slots ?r") (auto simp: nothing_registered_def slot_claimable_def accounts_ok_def)
qed

section \<open>Two runs\<close>

text \<open>One runtime whose workers leave while the process is being finalized.\<close>

abbreviation some_runtime :: RuntimeId where "some_runtime \<equiv> RuntimeId 1"

definition until_claimed :: "reaper_action list" where
  "until_claimed = [M_register some_runtime (Some 1) (Some 2) (Some 3), M_coordinate, M_begin_finalization 10,
     M_join_ready some_runtime, M_notice, M_coordinate]"

lemma until_claimed_run:
  "case reaper_plays until_claimed reaper_initial of None \<Rightarrow> False
   | Some s \<Rightarrow> rs_cleaned s = [] \<and> in_hand (rs_coord s) = [some_runtime] \<and>
       (case reaper_plays [M_unregister some_runtime, M_clean] s of None \<Rightarrow> False
        | Some t \<Rightarrow> rs_calls t = [Graceful_request 1, Cleanup_call 3] \<and> rs_unregistered t = [])"
  by code_simp

text \<open>
  C34: Unregistering a runtime does not keep its cleanup from being called: the coordinator may have claimed
  the slot already, so that \<open>unregister_runtime\<close> finds nothing and returns, and the callback runs after it.
  The startup of a runtime that is rolled back unregisters itself and is then destroyed, while that callback
  still is the one that holds its plain address.
\<close>

theorem cleanup_after_unregister:
  "\<exists>ms s t u. reaper_plays ms reaper_initial = Some s \<and> reaper_move (M_unregister some_runtime) s = Some t \<and>
     reaper_move M_clean t = Some u \<and> Cleanup_call 3 \<notin> set (rs_calls t) \<and> Cleanup_call 3 \<in> set (rs_calls u)"
proof -
  obtain s where s: "reaper_plays until_claimed reaper_initial = Some s"
    using until_claimed_run by (auto split: option.splits)
  with until_claimed_run obtain u where u: "reaper_plays [M_unregister some_runtime, M_clean] s = Some u"
    "rs_calls u = [Graceful_request 1, Cleanup_call 3]" and hand: "in_hand (rs_coord s) = [some_runtime]"
    by (auto split: option.splits)
  obtain t where t: "reaper_move (M_unregister some_runtime) s = Some t" "reaper_move M_clean t = Some u"
    using u(1) by (auto split: option.splits)
  have "rs_calls t = rs_calls s"
    using t(1) by (auto simp: do_unregister_def)
  moreover have "case reaper_plays until_claimed reaper_initial of None \<Rightarrow> False | Some s \<Rightarrow> rs_calls s = [Graceful_request 1]"
    by code_simp
  ultimately have "Cleanup_call 3 \<notin> set (rs_calls t)"
    using s by simp
  with s t u(2) show ?thesis
    by (intro exI conjI) auto
qed

text \<open>Two threads wait; the second looks while the first is joining the coordinator.\<close>

definition two_waits :: "reaper_action list" where
  "two_waits = until_claimed @ [M_clean, M_clean, M_coordinate, M_wait, M_round 0 20 False, M_wait, M_round 1 21 False]"

lemma two_waits_run:
  "case reaper_plays two_waits reaper_initial of None \<Rightarrow> False
   | Some s \<Rightarrow> rs_waiters s = [Wt_join False, Wt_done Completed] \<and> rs_coord s = Co_exited"
  by code_simp

text \<open>
  A wait can report completion before the coordinator thread has been joined: while one thread is joining
  it, the handle is already moved out, and a second thread takes that for a coordinator that never was.
\<close>

theorem wait_returns_before_join:
  "\<exists>ms s. reaper_plays ms reaper_initial = Some s \<and> rs_waiters s = [Wt_join False, Wt_done Completed] \<and> rs_coord s = Co_exited \<and>
     rr_state (rs_reg s) = Finalized"
proof -
  obtain s where s: "reaper_plays two_waits reaper_initial = Some s" "rs_waiters s = [Wt_join False, Wt_done Completed]"
    "rs_coord s = Co_exited"
    using two_waits_run by (auto split: option.splits)
  have "rr_state (rs_reg s) = Finalized"
    using reaper_invD(3) [OF plays_inv [OF s(1) initial_inv]] by (simp add: s(2) waiter_ok_def)
  with s show ?thesis by blast
qed

section \<open>Witnesses\<close>

theorem reaper_accounts_runtimes_witness:
  "\<exists>s. reaper_plays two_waits reaper_initial = Some s \<and> distinct (rs_registered s) \<and> rs_started s \<le> 1"
proof -
  obtain s where "reaper_plays two_waits reaper_initial = Some s"
    using two_waits_run by (auto split: option.splits)
  with reaper_accounts_runtimes [OF this] show ?thesis by blast
qed

theorem completed_wait_means_finalized_witness:
  "\<exists>s. reaper_plays two_waits reaper_initial = Some s \<and> nothing_registered (rs_reg s) \<and>
     mset (rs_registered s) = mset (rs_unregistered s) + mset (rs_cleaned s)"
proof -
  obtain s where s: "reaper_plays two_waits reaper_initial = Some s" "rs_waiters s = [Wt_join False, Wt_done Completed]"
    using two_waits_run by (auto split: option.splits)
  from completed_wait_means_finalized [OF s(1)] s show ?thesis by simp
qed

definition early_wait :: "reaper_action list" where
  "early_wait = [M_register some_runtime (Some 1) (Some 2) (Some 3), M_coordinate, M_begin_finalization 10, M_coordinate, M_wait, M_round 0 20 False]"

lemma early_wait_run:
  "case reaper_plays early_wait reaper_initial of None \<Rightarrow> False
   | Some s \<Rightarrow> rs_waiters s = [Wt_sleep False False False] \<and> rs_coord s = Co_asleep \<and> rs_notices s = 0"
  by code_simp

theorem waits_end_with_the_runtimes_witness:
  "\<exists>s. reaper_plays early_wait reaper_initial = Some s \<and> (\<exists>sl \<in> set (rr_slots (rs_reg s)). \<not> hc_join_ready sl)"
proof -
  obtain s where s: "reaper_plays early_wait reaper_initial = Some s" "rs_waiters s = [Wt_sleep False False False]"
    "rs_coord s = Co_asleep" "rs_notices s = 0"
    using early_wait_run by (auto split: option.splits)
  then have "reaper_quiet s"
    by (simp add: reaper_quiet_def)
  from waits_end_with_the_runtimes [OF s(1) this] s show ?thesis by auto
qed

end
