(* ===== verification/Caller_Wait.thy ===== *)
theory Caller_Wait
  imports Worker_Invariant
begin

text \<open>
  Waiting for a task or a graph run (\<open>perform_caller_wait\<close>, \<open>perform_graph_caller_wait\<close> and
  \<open>perform_helping_loop\<close> in \<open>src/runtime/scheduler.cpp\<close>): what a call does before and after it waits, and
  the loop in which a worker that waits executes other tasks of its runtime.
\<close>

section \<open>The call\<close>

text \<open>
  What becomes of a call: refused because the caller is what it waits for, over at once, blocked on the
  condition variable of the target, refused because of its nesting, or helping.
\<close>

datatype wait_verdict = Self_wait | Wait_over | Wait_blocked | Too_deep | Wait_helping

text \<open>
  What the call reads: the clock where it begins, whether the target is complete and the deadline has
  passed at the entry, and at the end whether the target is complete, with the clock.
\<close>

record wait_input =
  wi_begin :: time
  wi_completed :: bool
  wi_now :: time
  wi_finished :: bool
  wi_end :: time

definition passed :: "time option \<Rightarrow> time \<Rightarrow> bool" where
  "passed dl now = (case dl of None \<Rightarrow> False | Some d \<Rightarrow> d \<le> now)"

text \<open>The entry counter and \<open>WaitBegin\<close>; the guard that is left for the scope exit.\<close>

definition open_wait ::
  "thread_locals \<Rightarrow> RuntimeId option \<Rightarrow> RuntimeId \<Rightarrow> counter \<Rightarrow> TaskId \<Rightarrow> GraphRunId \<Rightarrow> time option \<Rightarrow> time \<Rightarrow> process \<Rightarrow>
     wait_guard \<times> process" where
  "open_wait th diag target_runtime outside target run dl now p =
     (let ctx = tl_context th;
          helping = (current_worker_impl ctx \<noteq> None);
          p1 = (case diag of
                  None \<Rightarrow> p
                | Some rt \<Rightarrow> (case find_runtime_instance rt p of
                      None \<Rightarrow> p
                    | Some d \<Rightarrow> on_metrics rt (count_event ctx
                        (if \<not> helping then outside
                         else if target_runtime = diag_runtime_id d then N_same_runtime_helping_waits
                         else N_cross_runtime_helping_waits)) p))
      in (\<lparr>wg_diagnostics = diag, wg_deadline = dl, wg_begin = now, wg_helping = helping,
           wg_source = tl_task th, wg_target = target, wg_graph_target = run\<rparr>,
          emit_wait_trace_event ctx diag WaitBegin (tl_task th) target run 0 p1))"

definition caller_verdict :: "nat \<Rightarrow> thread_locals \<Rightarrow> time option \<Rightarrow> wait_input \<Rightarrow> wait_verdict" where
  "caller_verdict max_depth th dl inp =
     (if wi_completed inp \<or> passed dl (wi_now inp) then Wait_over
      else if current_worker_impl (tl_context th) = None then Wait_blocked
      else if max_depth \<le> tl_helping_depth th then Too_deep
      else Wait_helping)"

text \<open>
  The runtime of a worker is registered while its threads run, so its metrics are those the registry
  points to.
\<close>

definition perform_caller_wait ::
  "nat \<Rightarrow> thread_locals \<Rightarrow> TaskId \<Rightarrow> time option \<Rightarrow> wait_input \<Rightarrow> process \<Rightarrow> wait_verdict \<times> process" where
  "perform_caller_wait max_depth th target dl inp p =
     (let ctx = tl_context th
      in if current_worker_impl ctx \<noteq> None \<and> tl_task th \<noteq> no_task \<and> tl_task th = target
         then (Self_wait, record_self_wait_rejection ctx target p)
         else
           (case open_wait th (waiting_diagnostics ctx target p) (task_runtime target) N_task_wait_calls
                   target no_graph_run dl (wi_begin inp) p of
              (g, p1) \<Rightarrow>
                let v = caller_verdict max_depth th dl inp;
                    p2 = (if v = Too_deep
                          then on_metrics (current_worker_runtime_id ctx) (count_event ctx N_helping_depth_rejections) p1
                          else p1)
                in (v, wait_diagnostics_end ctx g (wi_finished inp) (wi_end inp) p2)))"

definition perform_graph_caller_wait ::
  "nat \<Rightarrow> thread_locals \<Rightarrow> GraphRunId \<Rightarrow> time option \<Rightarrow> wait_input \<Rightarrow> process \<Rightarrow> wait_verdict \<times> process" where
  "perform_graph_caller_wait max_depth th target dl inp p =
     (let ctx = tl_context th
      in if current_worker_impl ctx \<noteq> None \<and> tl_graph_run th \<noteq> no_graph_run \<and> tl_graph_run th = target
         then (Self_wait, p)
         else
           (case open_wait th
                   (if current_worker_impl ctx \<noteq> None then current_worker_diagnostics ctx p
                    else find_runtime_diagnostics (run_runtime target) p)
                   (run_runtime target) N_graph_wait_calls no_task target dl (wi_begin inp) p of
              (g, p1) \<Rightarrow>
                (caller_verdict max_depth th dl inp,
                 wait_diagnostics_end ctx g (wi_finished inp) (wi_end inp) p1)))"

section \<open>The loop of a helping thread\<close>

text \<open>
  A frame is one wait that helps; waits nest, so a thread has a stack of frames.  The calendars, the burst
  counters and the random number generator are thread-local, one set for the waits on tasks and one for
  those on graph runs; they are kept in the fields of a worker record, of which the others are not used.
\<close>

datatype help_pc =
    Test | Clock | Help_local | Help_global | Help_draw | Help_probe "nat list"
  | Help_start | Help_body | Help_complete | Help_announce | Help_wait | Help_return

record frame =
  fr_pc :: help_pc
  fr_graph :: bool
  fr_deadline :: "time option"
  fr_task :: "QueuedTask option"

definition new_frame :: "bool \<Rightarrow> time option \<Rightarrow> frame" where
  "new_frame graph dl = \<lparr>fr_pc = Test, fr_graph = graph, fr_deadline = dl, fr_task = None\<rparr>"

text \<open>Whether the target is complete when a step looks at it, beside the clock and the allocations.\<close>

record help_input = loop_input +
  hi_complete :: bool

definition new_calendars :: "nat \<Rightarrow> worker" where
  "new_calendars i = (new_worker i)\<lparr>wk_pc := Body, wk_random := 0x854329415849\<rparr>"

text \<open>After a claim: the task goes to the local variable of the frame.\<close>

definition help_claimed :: "help_pc \<Rightarrow> frame \<Rightarrow> worker \<times> loop_shared \<Rightarrow> frame \<times> worker \<times> loop_shared" where
  "help_claimed other f = (\<lambda>(w, s).
     (f\<lparr>fr_task := wk_task w, fr_pc := (if wk_task w = None then other else Help_start)\<rparr>, w\<lparr>wk_task := None\<rparr>, s))"

definition help_goto :: "help_pc \<Rightarrow> frame \<Rightarrow> frame" where
  "help_goto pc f = f\<lparr>fr_pc := pc\<rparr>"

fun help_at :: "nat \<Rightarrow> help_input \<Rightarrow> help_pc \<Rightarrow> frame \<Rightarrow> worker \<Rightarrow> loop_shared \<Rightarrow> (frame \<times> worker \<times> loop_shared) option" where
  "help_at k inp Test f w s = Some (help_goto (if hi_complete inp then Help_return else Clock) f, w, s)"
| "help_at k inp Clock f w s =
     Some (help_goto (if passed (fr_deadline f) (li_now inp) then Help_return else Help_local) f, w, s)"
| "help_at k inp Help_local f w s = Some (help_claimed Help_global f (loop_claim_local k (li_alloc inp) w s))"
| "help_at k inp Help_global f w s =
     (if ls_mutex s then None
      else Some (let st = get_status (ls_runtime s)
                 in if state st \<noteq> Stopped \<and> shutdown_mode st \<noteq> Immediate
                    then help_claimed Help_draw f (loop_claim_global k w s)
                    else (help_goto Help_draw f, w, s)))"
| "help_at k inp Help_draw f w s = Some (case loop_draw w s of (vs, w') \<Rightarrow> (help_goto (Help_probe vs) f, w', s))"
| "help_at k inp (Help_probe []) f w s = Some (help_goto Help_wait f, w, s)"
| "help_at k inp (Help_probe (v # vs)) f w s = Some (help_claimed (Help_probe vs) f (loop_probe k v w s))"
| "help_at k inp Help_start f w s =
     (case fr_task f of
        None \<Rightarrow> None
      | Some t \<Rightarrow> Some (help_goto Help_body f, w, s\<lparr>ls_executed := ls_executed s @ [qt_facts t]\<rparr>))"
| "help_at k inp Help_body f w s = Some (help_goto Help_complete f, w, s)"
| "help_at k inp Help_complete f w s =
     Some (help_goto Help_announce (f\<lparr>fr_task := None\<rparr>), w, on_runtime (\<lambda>r. r\<lparr>rt_ready := complete_claim (rt_ready r)\<rparr>) s)"
| "help_at k inp Help_announce f w s = Some (help_goto Test f, w, s)"
| "help_at k inp Help_wait f w s =
     (if hi_complete inp \<or> fr_deadline f = None \<or> passed (fr_deadline f) (li_now inp)
      then Some (help_goto Test f, w, s) else None)"
| "help_at k inp Help_return f w s = None"

definition help_step :: "nat \<Rightarrow> help_input \<Rightarrow> frame \<Rightarrow> worker \<Rightarrow> loop_shared \<Rightarrow> (frame \<times> worker \<times> loop_shared) option" where
  "help_step k inp f w s = help_at k inp (fr_pc f) f w s"

end
