(* ===== verification/Wait_Records.thy ===== *)
theory Wait_Records
  imports Caller_Wait
begin

text \<open>What a wait leaves in the trace and in the metrics.\<close>

section \<open>Recording changes metrics only\<close>

text \<open>The same runtimes are registered, with the same identities, collectors and slots.\<close>

definition same_routes :: "process \<Rightarrow> process \<Rightarrow> bool" where
  "same_routes p p' \<longleftrightarrow> (\<forall>rt. \<exists>m. find_runtime_instance rt p' = map_option (\<lambda>d. d\<lparr>diag_metrics := m\<rparr>) (find_runtime_instance rt p))"

lemma same_routes_refl [simp]: "same_routes p p"
  unfolding same_routes_def
proof
  fix rt
  show "\<exists>m. find_runtime_instance rt p = map_option (\<lambda>d. d\<lparr>diag_metrics := m\<rparr>) (find_runtime_instance rt p)"
    by (cases "find_runtime_instance rt p") (auto intro: exI [of _ "diag_metrics (the (find_runtime_instance rt p))"])
qed

lemma same_routes_trans:
  assumes "same_routes p q" and "same_routes q s"
  shows "same_routes p s"
  unfolding same_routes_def
proof
  fix rt
  obtain m m' where "find_runtime_instance rt q = map_option (\<lambda>d. d\<lparr>diag_metrics := m\<rparr>) (find_runtime_instance rt p)"
    "find_runtime_instance rt s = map_option (\<lambda>d. d\<lparr>diag_metrics := m'\<rparr>) (find_runtime_instance rt q)"
    using assms unfolding same_routes_def by blast
  then show "\<exists>m. find_runtime_instance rt s = map_option (\<lambda>d. d\<lparr>diag_metrics := m\<rparr>) (find_runtime_instance rt p)"
    by (auto intro!: exI [of _ m'] simp: option.map_comp comp_def)
qed

lemma on_metrics_routes [simp]: "same_routes p (on_metrics rt f p)"
  unfolding same_routes_def
proof
  fix rt'
  show "\<exists>m. find_runtime_instance rt' (on_metrics rt f p) = map_option (\<lambda>d. d\<lparr>diag_metrics := m\<rparr>) (find_runtime_instance rt' p)"
    by (cases "find_runtime_instance rt' p")
      (auto simp: on_metrics_def update_metrics_def find_runtime_instance_def split: option.split
        intro: exI [of _ "diag_metrics (the (find_runtime_instance rt' p))"])
qed

lemma log_routes [simp]: "same_routes p (q\<lparr>trace_log := l\<rparr>) = same_routes p q"
  by (simp add: same_routes_def find_runtime_instance_def)

lemma emit_routes [simp]: "same_routes p (emit_wait_trace_event ctx rt_opt k src tgt g rsn q) = same_routes p q"
  by (simp add: emit_wait_trace_event_def emit_wait_event_def split: option.split)

lemma on_metrics_log [simp]: "trace_log (on_metrics rt f p) = trace_log p"
  by (simp add: on_metrics_def update_metrics_def split: option.split)

lemma routes_diagnostics:
  assumes "same_routes p q"
  shows "current_worker_diagnostics ctx q = current_worker_diagnostics ctx p"
proof -
  have "(find_runtime_instance rt q = None) = (find_runtime_instance rt p = None)" for rt
    using assms unfolding same_routes_def by (metis option.map_disc_iff)
  then show ?thesis by (simp add: current_worker_diagnostics_def)
qed

text \<open>Where an event goes, as seen before any recording.\<close>

lemma emit_log:
  assumes "same_routes p q" and "find_runtime_instance rt p = Some d" and "diag_collector d = Some col"
    and "select_slot d (current_worker_diagnostics ctx p = Some rt) (current_worker_index ctx) = Some slot"
  shows "trace_log (emit_wait_trace_event ctx (Some rt) k src tgt g rsn q) =
    trace_log q @ [(col, slot, wait_description (diag_runtime_id d) k src tgt g rsn)]"
proof -
  obtain m where "find_runtime_instance rt q = Some (d\<lparr>diag_metrics := m\<rparr>)"
    using assms(1,2) unfolding same_routes_def by (metis option.simps(9))
  moreover have "select_slot (d\<lparr>diag_metrics := m\<rparr>) b i = select_slot d b i" for b i
    by (simp add: select_slot_def)
  ultimately show ?thesis
    using assms(3,4) by (simp add: emit_wait_trace_event_def emit_wait_event_def routes_diagnostics [OF assms(1)])
qed

section \<open>The events of a wait\<close>

lemma open_wait_effect:
  assumes "open_wait th diag target_rt c target run dl now p = (g, q)"
  shows "\<exists>p1. same_routes p p1 \<and> trace_log p1 = trace_log p \<and>
    q = emit_wait_trace_event (tl_context th) diag WaitBegin (tl_task th) target run 0 p1 \<and>
    g = \<lparr>wg_diagnostics = diag, wg_deadline = dl, wg_begin = now, wg_helping = (current_worker_impl (tl_context th) \<noteq> None),
      wg_source = tl_task th, wg_target = target, wg_graph_target = run\<rparr>"
proof -
  define p1 where "p1 = (case diag of None \<Rightarrow> p
    | Some rt \<Rightarrow> (case find_runtime_instance rt p of None \<Rightarrow> p
      | Some d \<Rightarrow> on_metrics rt (count_event (tl_context th)
          (if \<not> (current_worker_impl (tl_context th) \<noteq> None) then c
           else if target_rt = diag_runtime_id d then N_same_runtime_helping_waits else N_cross_runtime_helping_waits)) p))"
  have "same_routes p p1 \<and> trace_log p1 = trace_log p" by (simp add: p1_def split: option.split)
  then show ?thesis
    using assms unfolding open_wait_def Let_def p1_def [symmetric] by (intro exI [of _ p1]) simp
qed

lemma end_wait_effect:
  "\<exists>p1. same_routes p p1 \<and> trace_log p1 = trace_log p \<and>
    wait_diagnostics_end ctx g finished now p = emit_wait_trace_event ctx (wg_diagnostics g) WaitEnd (wg_source g) (wg_target g) (wg_graph_target g)
      (if finished then 1 else if passed (wg_deadline g) now then 2 else 0) p1"
proof -
  define p1 where "p1 = (case wg_diagnostics g of None \<Rightarrow> p
    | Some rt \<Rightarrow> on_metrics rt (\<lambda>m.
        let m1 = (if level m = Detailed
                  then record_duration ctx (if wg_helping g then H_helping_wait_duration else H_thread_wait_duration)
                    (word_of_int (now - wg_begin g)) m
                  else m)
        in if \<not> finished \<and> passed (wg_deadline g) now then count_event ctx N_wait_for_timeouts m1 else m1) p)"
  have "same_routes p p1 \<and> trace_log p1 = trace_log p" by (simp add: p1_def split: option.split)
  moreover have "wait_diagnostics_end ctx g finished now p =
    emit_wait_trace_event ctx (wg_diagnostics g) WaitEnd (wg_source g) (wg_target g) (wg_graph_target g)
      (if finished then 1 else if passed (wg_deadline g) now then 2 else 0) p1"
    unfolding wait_diagnostics_end_def p1_def passed_def Let_def by (cases finished) (simp_all only: simp_thms if_False if_True)
  ultimately show ?thesis by blast
qed

lemma wait_log:
  assumes open_p: "open_wait th (Some rt) target_rt c target run dl now p = (g, q)" and mid: "same_routes q q'" "trace_log q' = trace_log q"
    and d: "find_runtime_instance rt p = Some d" "diag_collector d = Some col"
      "select_slot d (current_worker_diagnostics (tl_context th) p = Some rt) (current_worker_index (tl_context th)) = Some slot"
  shows "trace_log (wait_diagnostics_end (tl_context th) g finished e q') = trace_log p @
    [(col, slot, wait_description (diag_runtime_id d) WaitBegin (tl_task th) target run 0),
     (col, slot, wait_description (diag_runtime_id d) WaitEnd (tl_task th) target run (if finished then 1 else if passed dl e then 2 else 0))]"
proof -
  obtain p1 where p1: "same_routes p p1" "trace_log p1 = trace_log p"
    "q = emit_wait_trace_event (tl_context th) (Some rt) WaitBegin (tl_task th) target run 0 p1"
    and g: "wg_diagnostics g = Some rt" "wg_source g = tl_task th" "wg_target g = target" "wg_graph_target g = run" "wg_deadline g = dl"
    using open_wait_effect [OF open_p] by auto
  obtain p2 where p2: "same_routes q' p2" "trace_log p2 = trace_log q'"
    "wait_diagnostics_end (tl_context th) g finished e q' = emit_wait_trace_event (tl_context th) (Some rt) WaitEnd (tl_task th) target run
      (if finished then 1 else if passed dl e then 2 else 0) p2"
    using end_wait_effect [of q' "tl_context th" g finished e] g by auto
  have "same_routes p q" using p1(1,3) by simp
  then have "same_routes p p2" using mid(1) p2(1) same_routes_trans by blast
  from emit_log [OF this d] emit_log [OF p1(1) d] p1(2,3) p2(2,3) mid(2) show ?thesis by simp
qed


text \<open>A thread outside waits for a task that is complete when it looks.\<close>

definition traced_process :: process where
  "traced_process = \<lparr>registry = [1 \<mapsto> (new_diagnostics (RuntimeId 1) (metrics_init Off 1 (RuntimeId 1)))
     \<lparr>diag_collector := Some 3, diag_worker_slots := [4], diag_external_slot := Some 5\<rparr>], trace_log = []\<rparr>"

definition outside_locals :: thread_locals where
  "outside_locals = idle_locals\<lparr>tl_context := \<lparr>current_worker_index = 0, current_worker_runtime_id = no_runtime, current_worker_impl = None\<rparr>\<rparr>"


end
