(* ===== verification/Helping_System.thy ===== *)
theory Helping_System
  imports Caller_Wait Worker_Claims
begin

text \<open>
  The workers of a runtime together with the waits they make from inside the tasks they execute: while it
  waits, a worker executes other tasks of its runtime, which may wait again.
\<close>

section \<open>Steps\<close>

text \<open>The thread-local calendars of a worker, and its waits that help, the innermost first.\<close>

record helper =
  hp_task_calendars :: worker
  hp_graph_calendars :: worker
  hp_frames :: "frame list"

definition new_helper :: "nat \<Rightarrow> helper" where
  "new_helper i = \<lparr>hp_task_calendars = new_calendars i, hp_graph_calendars = new_calendars i, hp_frames = []\<rparr>"

definition calendars_of :: "bool \<Rightarrow> helper \<Rightarrow> worker" where
  "calendars_of graph h = (if graph then hp_graph_calendars h else hp_task_calendars h)"

definition store_calendars :: "bool \<Rightarrow> worker \<Rightarrow> helper \<Rightarrow> helper" where
  "store_calendars graph w h = (if graph then h\<lparr>hp_graph_calendars := w\<rparr> else h\<lparr>hp_task_calendars := w\<rparr>)"

text \<open>Whether the code that runs on the thread is that of a task, rather than of a wait.\<close>

definition in_body :: "helper \<Rightarrow> bool" where
  "in_body h \<longleftrightarrow> (case hp_frames h of [] \<Rightarrow> True | f # _ \<Rightarrow> fr_pc f = Help_body)"

record helping_system =
  hs_system :: loop_system
  hs_helpers :: "helper list"

definition hs_workers :: "helping_system \<Rightarrow> worker list" where
  "hs_workers s = sy_workers (hs_system s)"

definition depth_limit :: "helping_system \<Rightarrow> nat" where
  "depth_limit s = unat (max_helping_depth (rt_options (sy_runtime (hs_system s))))"

definition initial_helping :: "runtime \<Rightarrow> nat \<Rightarrow> helping_system" where
  "initial_helping r n = \<lparr>hs_system = initial_system r n, hs_helpers = map new_helper [0..<n]\<rparr>"

datatype help_label = Base loop_label | Begin_wait nat | Help nat | End_wait nat

text \<open>A step of the rest is possible when the thread that makes it is not in a wait.\<close>

fun waits_allow :: "loop_label \<Rightarrow> helper list \<Rightarrow> bool" where
  "waits_allow (Work i) hs \<longleftrightarrow> hp_frames (hs ! i) = []"
| "waits_allow (Post_from i) hs \<longleftrightarrow> in_body (hs ! i)"
| "waits_allow (Timer_from i) hs \<longleftrightarrow> in_body (hs ! i)"
| "waits_allow _ hs \<longleftrightarrow> True"

inductive helping_step :: "nat \<Rightarrow> helping_system \<Rightarrow> help_label \<Rightarrow> helping_system \<Rightarrow> bool" for k where
  base: "system_step k (hs_system s) l t \<Longrightarrow> waits_allow l (hs_helpers s) \<Longrightarrow>
    helping_step k s (Base l) (s\<lparr>hs_system := t\<rparr>)"
| begin_wait: "i < length (hs_helpers s) \<Longrightarrow> h = hs_helpers s ! i \<Longrightarrow> wk_pc (hs_workers s ! i) = Body \<Longrightarrow> in_body h \<Longrightarrow>
    length (hp_frames h) < depth_limit s \<Longrightarrow>
    helping_step k s (Begin_wait i) (s\<lparr>hs_helpers := (hs_helpers s)[i := h\<lparr>hp_frames := new_frame graph dl # hp_frames h\<rparr>]\<rparr>)"
| work_on: "i < length (hs_helpers s) \<Longrightarrow> h = hs_helpers s ! i \<Longrightarrow> hp_frames h = f # fs \<Longrightarrow>
    help_step k inp f (calendars_of (fr_graph f) h) (sy_shared (hs_system s)) = Some (f', w', sh) \<Longrightarrow>
    h' = (store_calendars (fr_graph f) w' h)\<lparr>hp_frames := f' # fs\<rparr> \<Longrightarrow>
    t = (hs_system s)\<lparr>sy_shared := sh\<rparr> \<Longrightarrow>
    helping_step k s (Help i) (s\<lparr>hs_system := (if fr_pc f = Help_announce then broadcast t else t),
      hs_helpers := (hs_helpers s)[i := h']\<rparr>)"
| end_wait: "i < length (hs_helpers s) \<Longrightarrow> h = hs_helpers s ! i \<Longrightarrow> hp_frames h = f # fs \<Longrightarrow> fr_pc f = Help_return \<Longrightarrow>
    helping_step k s (End_wait i) (s\<lparr>hs_helpers := (hs_helpers s)[i := h\<lparr>hp_frames := fs\<rparr>]\<rparr>)"

inductive helping_trace :: "nat \<Rightarrow> helping_system \<Rightarrow> help_label list \<Rightarrow> helping_system \<Rightarrow> bool" for k s0 where
  helping_start: "helping_trace k s0 [] s0"
| helping_snoc: "helping_trace k s0 tr s \<Longrightarrow> helping_step k s l t \<Longrightarrow> helping_trace k s0 (tr @ [l]) t"

section \<open>What a step of a helping thread does\<close>

definition frame_claim :: "frame \<Rightarrow> nat" where
  "frame_claim f = of_bool (fr_task f \<noteq> None)"

text \<open>The task of a frame that has been claimed and not begun.\<close>

definition frame_awaiting :: "frame \<Rightarrow> task_facts multiset" where
  "frame_awaiting f = (case fr_task f of None \<Rightarrow> {#} | Some t \<Rightarrow> if fr_pc f = Help_start then {#qt_facts t#} else {#})"

definition frame_ok :: "frame \<Rightarrow> bool" where
  "frame_ok f \<longleftrightarrow> (fr_task f \<noteq> None \<longleftrightarrow> fr_pc f = Help_start \<or> fr_pc f = Help_body \<or> fr_pc f = Help_complete)"

definition help_effect :: "frame \<Rightarrow> worker \<Rightarrow> loop_shared \<Rightarrow> frame \<Rightarrow> worker \<Rightarrow> loop_shared \<Rightarrow> bool" where
  "help_effect f w s f' w' s' \<longleftrightarrow> rq_inv (ls_ready s') \<and> stock s + frame_awaiting f = stock s' + frame_awaiting f' \<and>
     claimed (ls_ready s') + frame_claim f = claimed (ls_ready s) + frame_claim f' \<and> ls_mutex s' = ls_mutex s \<and>
     wk_index w' = wk_index w \<and> wk_task w' = None \<and> frame_ok f' \<and> same_rest s s'"

lemma help_goto_simps [simp]:
  "fr_pc (help_goto pc f) = pc" "fr_task (help_goto pc f) = fr_task f" "fr_graph (help_goto pc f) = fr_graph f"
  by (simp_all add: help_goto_def)

lemma same_rest_refl [simp]: "same_rest s s"
  by (simp add: same_rest_def)

lemma help_claim_effect:
  assumes "claim_effect w s w1 s1" and "fr_task f = None" "fr_pc f \<noteq> Help_start"
    and "other \<notin> {Help_start, Help_body, Help_complete}" and "help_claimed other f (w1, s1) = (f', w', s')"
  shows "help_effect f w s f' w' s'"
  using assms
  by (cases "wk_task w1")
    (auto simp: help_effect_def claim_effect_def help_claimed_def frame_awaiting_def frame_claim_def frame_ok_def
      carried_def has_claim_def)

lemma help_idle_effect:
  assumes "rq_inv (ls_ready s)" and "wk_task w' = None" "wk_index w' = wk_index w"
    and "fr_task f' = fr_task f" "frame_ok f'" and "fr_pc f \<noteq> Help_start" "fr_pc f' \<noteq> Help_start"
  shows "help_effect f w s f' w' s"
  using assms by (auto simp: help_effect_def frame_awaiting_def frame_claim_def split: option.split)

lemma help_step_effect:
  assumes st: "help_step k inp f w s = Some (f', w', s')" and inv: "rq_inv (ls_ready s)" and f: "frame_ok f" and w: "wk_task w = None"
    and c: "frame_claim f \<le> claimed (ls_ready s)"
  shows "help_effect f w s f' w' s'"
proof (cases "fr_pc f")
  case Help_local
  obtain w1 s1 where c: "loop_claim_local k (li_alloc inp) w s = (w1, s1)" by fastforce
  from loop_claim_local_effect [OF c inv] have "claim_effect w s w1 s1" by simp
  from help_claim_effect [OF this, of f Help_global f' w' s'] show ?thesis
    using st f Help_local c by (simp add: help_step_def frame_ok_def)
next
  case Help_global
  obtain w1 s1 where c: "loop_claim_global k w s = (w1, s1)" by fastforce
  from loop_claim_global_effect [OF c inv] have e: "claim_effect w s w1 s1" by simp
  show ?thesis
  proof (cases "state (get_status (ls_runtime s)) \<noteq> Stopped \<and> shutdown_mode (get_status (ls_runtime s)) \<noteq> Immediate")
    case True
    with help_claim_effect [OF e, of f Help_draw f' w' s'] show ?thesis
      using st f Help_global c by (simp add: help_step_def frame_ok_def Let_def split: if_splits)
  next
    case False
    then have "f' = help_goto Help_draw f" "w' = w" "s' = s"
      using st Help_global by (auto simp: help_step_def Let_def split: if_splits)
    then show ?thesis
      using help_idle_effect [of s w w f' f] inv f w Help_global by (simp add: frame_ok_def)
  qed
next
  case Help_draw
  obtain vs w1 where d: "loop_draw w s = (vs, w1)" by fastforce
  then have "wk_task w1 = None" "wk_index w1 = wk_index w"
    using w by (auto simp: loop_draw_def Let_def split: prod.splits)
  then show ?thesis
    using help_idle_effect [of s w' w f' f] st inv f Help_draw d by (auto simp: help_step_def frame_ok_def)
next
  case (Help_probe vs)
  show ?thesis
  proof (cases vs)
    case Nil
    then show ?thesis
      using help_idle_effect [of s w w f' f] st inv f w Help_probe by (auto simp: help_step_def frame_ok_def)
  next
    case (Cons v us)
    obtain w1 s1 where c: "loop_probe k v w s = (w1, s1)" by fastforce
    from loop_probe_effect [OF c inv] have "claim_effect w s w1 s1" by simp
    from help_claim_effect [OF this, of f "Help_probe us" f' w' s'] show ?thesis
      using st f Help_probe Cons c by (simp add: help_step_def frame_ok_def)
  qed
next
  case Help_start
  then obtain t where t: "fr_task f = Some t" using f by (auto simp: frame_ok_def)
  then show ?thesis
    using st inv w Help_start
    by (auto simp: help_step_def help_effect_def frame_awaiting_def frame_claim_def frame_ok_def same_rest_def)
next
  case Help_complete
  then obtain t where t: "fr_task f = Some t" using f by (auto simp: frame_ok_def)
  have "claimed (complete_claim (ls_ready s)) + 1 = claimed (ls_ready s)"
    using c t by (simp add: frame_claim_def complete_claim_def)
  then show ?thesis
    using st inv w t Help_complete
    by (auto simp: help_step_def help_effect_def frame_awaiting_def frame_claim_def frame_ok_def same_rest_def
        stock_def settings_def Let_def has_timers_def complete_claim_inv)
qed (use st inv f w help_idle_effect [of s w w f' f] in \<open>auto simp: help_step_def frame_ok_def split: if_splits\<close>)


end
