(* ===== verification/Helping_Invariant.thy ===== *)
theory Helping_Invariant
  imports Helping_System
begin

text \<open>The invariant of the workers and their waits, and that every run keeps it.\<close>

section \<open>Sums over the frames\<close>

definition frame_total :: "(frame \<Rightarrow> 'a :: comm_monoid_add) \<Rightarrow> helper list \<Rightarrow> 'a" where
  "frame_total f hs = sum_list (map (\<lambda>h. sum_list (map f (hp_frames h))) hs)"

lemma frame_total_update:
  "i < length hs \<Longrightarrow> frame_total f (hs[i := h]) + sum_list (map f (hp_frames (hs ! i))) =
     frame_total f hs + sum_list (map f (hp_frames h))"
  unfolding frame_total_def by (rule sum_list_swap)

lemma frame_total_replace:
  assumes "i < length hs" and "hp_frames (hs ! i) = f # fs" and "hp_frames h = f' # fs"
  shows "frame_total g (hs[i := h]) + g f = frame_total g hs + (g f' :: 'a :: cancel_comm_monoid_add)"
  using frame_total_update [OF assms(1), of g h] assms(2,3) by (simp flip: add.assoc)

lemma frame_total_part:
  assumes "i < length hs" and "f \<in> set (hp_frames (hs ! i))"
  shows "g f \<le> (frame_total g hs :: nat)"
proof -
  have "g f \<le> sum_list (map g (hp_frames (hs ! i)))"
    using assms(2) by (intro member_le_sum_list) simp_all
  also have "\<dots> \<le> frame_total g hs"
    unfolding frame_total_def using assms(1) by (intro member_le_sum_list) simp_all
  finally show ?thesis .
qed

definition beside :: "helper list \<Rightarrow> nat \<times> task_facts multiset" where
  "beside hs = (frame_total frame_claim hs, frame_total frame_awaiting hs)"

section \<open>The invariant\<close>

definition calendars_ok :: "nat \<Rightarrow> worker \<Rightarrow> bool" where
  "calendars_ok i w \<longleftrightarrow> wk_task w = None \<and> wk_index w = i"

definition helper_ok :: "nat \<Rightarrow> nat \<Rightarrow> worker \<Rightarrow> helper \<Rightarrow> bool" where
  "helper_ok D i w h \<longleftrightarrow> (hp_frames h \<noteq> [] \<longrightarrow> wk_pc w = Body) \<and> length (hp_frames h) \<le> D \<and>
     (\<forall>f \<in> set (hp_frames h). frame_ok f) \<and> (\<forall>f \<in> set (tl (hp_frames h)). fr_pc f = Help_body) \<and>
     calendars_ok i (hp_task_calendars h) \<and> calendars_ok i (hp_graph_calendars h)"

definition helping_inv :: "nat \<Rightarrow> nat \<Rightarrow> helping_system \<Rightarrow> bool" where
  "helping_inv L D s \<longleftrightarrow> sy_inv_beside (beside (hs_helpers s)) L (hs_system s) \<and>
     length (hs_helpers s) = length (hs_workers s) \<and> depth_limit s = D \<and>
     (\<forall>i < length (hs_helpers s). helper_ok D i (hs_workers s ! i) (hs_helpers s ! i))"

lemma loop_inv_exchange:
  assumes inv: "loop_inv_beside x L s ws pub" and e: "help_effect f w s f' w' s'"
    and x: "fst x' + frame_claim f = fst x + frame_claim f'" "snd x' + frame_awaiting f = snd x + frame_awaiting f'"
  shows "loop_inv_beside x' L s' ws pub"
proof -
  have "mset pub + frame_awaiting f = (stock s' + worker_sum awaiting ws + snd x') + frame_awaiting f"
  proof -
    have "mset pub + frame_awaiting f = (stock s + frame_awaiting f) + worker_sum awaiting ws + snd x"
      using inv by (simp add: loop_inv_beside_def ac_simps)
    also have "\<dots> = stock s' + worker_sum awaiting ws + (snd x + frame_awaiting f')"
      using e by (simp add: help_effect_def ac_simps)
    finally show ?thesis by (simp only: x(2) [symmetric] add.assoc)
  qed
  then have "mset pub = stock s' + worker_sum awaiting ws + snd x'" by (rule add_right_imp_eq)
  moreover have "claimed (ls_ready s') = worker_sum has_claim ws + fst x'"
    using inv e x(1) by (simp add: loop_inv_beside_def help_effect_def)
  moreover have "burst_limit s' = burst_limit s"
    using e by (intro burst_limit_settings) (simp add: help_effect_def same_rest_def)
  ultimately show ?thesis
    using inv e by (simp add: loop_inv_beside_def help_effect_def same_rest_def)
qed

section \<open>Every run keeps it\<close>

lemma step_options:
  assumes inv: "sy_inv_beside x L s" and st: "system_step k s l t" and L: "0 < L"
  shows "rt_options (sy_runtime t) = rt_options (sy_runtime s)"
  using st
proof cases
  case (work i w inp w' sh t')
  have i: "i < length (sy_workers s)" and w: "w = sy_workers s ! i" using work by simp_all
  have "step_effect w (sy_shared s) w' sh"
    using loop_step_effect [of k inp w "sy_shared s" w' sh] loop_invD [OF inv [unfolded sy_inv_beside_def] i] work L
    by (simp add: w)
  then have "rt_options (ls_runtime sh) = rt_options (ls_runtime (sy_shared s))"
    by (simp add: step_effect_def settings_def Let_def)
  then show ?thesis using work by (simp add: sy_runtime_def broadcast_def)
next
  case (cleanup cs r sh)
  have "rq_inv (rt_ready (sy_runtime s))"
    using inv by (simp add: sy_inv_beside_def loop_inv_beside_def sy_runtime_def)
  with cleanup cancel_all_unstarted_frame [of "sy_runtime s" cs r] show ?thesis
    by (simp add: sy_runtime_def)
next
  case (cancel_timers sh ctx acts ws r)
  obtain ds where "on_timers (timer_cancel_all ctx) (ls_runtime sh) = (ds, r)"
    using cancel_timers by (auto simp: cancel_all_timers_def split: prod.splits)
  then show ?thesis
    using cancel_timers timer_neutral [of _ "ls_runtime sh" ds r sh] by (simp add: sy_runtime_def neutral_def)
next
  case (timer_from i w t' tp hs act)
  then show ?thesis
    using register_timer_neutral by (simp add: sy_runtime_def on_sy_runtime_def neutral_def)
next
  case (timer_outside ctx t' tp hs act)
  then show ?thesis
    using register_timer_neutral by (simp add: sy_runtime_def on_sy_runtime_def neutral_def)
next
  case (timer_cancel ctx tid)
  obtain y r1 where "on_timers (\<lambda>q. ((), Timer_Queue.timer_cancel ctx tid q)) (ls_runtime (sy_shared s)) = (y, r1)" by (rule prod.exhaust)
  from timer_neutral [OF this, of "sy_shared s"] this timer_cancel show ?thesis
    by (simp add: sy_runtime_def on_sy_runtime_def neutral_def cancel_timer_def)
qed (simp_all add: sy_runtime_def on_sy_runtime_def broadcast_def publish_ready_frame store_admission_def bump_epoch_def)

text \<open>The worker of a thread that waits stays where it is.\<close>

lemma helper_ok_keep:
  assumes "helper_ok D i w h" and "hp_frames h \<noteq> [] \<longrightarrow> wk_pc w' = wk_pc w"
  shows "helper_ok D i w' h"
  using assms by (auto simp: helper_ok_def)

lemma helper_ok_wake [simp]: "helper_ok D i (wake w) h = helper_ok D i w h"
  by (simp add: helper_ok_def wake_def)

lemma base_keeps_helpers:
  assumes "system_step k s l t" and "waits_allow l hs" and "length hs = length (sy_workers s)"
    and ok: "\<forall>i < length hs. helper_ok D i (sy_workers s ! i) (hs ! i)"
  shows "length (sy_workers t) = length (sy_workers s) \<and> (\<forall>i < length hs. helper_ok D i (sy_workers t ! i) (hs ! i))"
proof -
  have "helper_ok D i (sy_workers t ! i) (hs ! i)" if i: "i < length hs" for i
  proof (rule helper_ok_keep)
    show h: "helper_ok D i (sy_workers s ! i) (hs ! i)" using ok i by blast
    show "hp_frames (hs ! i) \<noteq> [] \<longrightarrow> wk_pc (sy_workers t ! i) = wk_pc (sy_workers s ! i)"
    proof
      assume f: "hp_frames (hs ! i) \<noteq> []"
      then have "l \<noteq> Work i" and pc: "wk_pc (sy_workers s ! i) = Body"
        using assms(2) h by (auto simp: helper_ok_def)
      then show "wk_pc (sy_workers t ! i) = wk_pc (sy_workers s ! i)"
        using step_on_worker [OF assms(1), of i] i assms(3) by (auto simp: wake_def)
    qed
  qed
  moreover have "length (sy_workers t) = length (sy_workers s)"
  proof (cases "sy_workers s")
    case Nil
    with assms(1) show ?thesis by cases (auto simp: broadcast_def on_sy_runtime_def)
  next
    case (Cons w ws)
    then show ?thesis using step_on_worker [OF assms(1), of 0] by simp
  qed
  ultimately show ?thesis by simp
qed

lemma new_frame_simps [simp]:
  "fr_pc (new_frame g dl) = Test" "fr_task (new_frame g dl) = None" "frame_claim (new_frame g dl) = 0"
  "frame_awaiting (new_frame g dl) = {#}" "frame_ok (new_frame g dl)"
  by (simp_all add: new_frame_def frame_claim_def frame_awaiting_def frame_ok_def)

lemma returned_simps:
  assumes "frame_ok f" and "fr_pc f = Help_return"
  shows "frame_claim f = 0" "frame_awaiting f = {#}"
  using assms by (simp_all add: frame_claim_def frame_awaiting_def frame_ok_def)

lemma store_calendars_simps [simp]:
  "hp_frames (store_calendars g w h) = hp_frames h"
  "calendars_ok i (hp_task_calendars h) \<Longrightarrow> calendars_ok i (hp_graph_calendars h) \<Longrightarrow> calendars_ok i w \<Longrightarrow>
    calendars_ok i (hp_task_calendars (store_calendars g w h)) \<and> calendars_ok i (hp_graph_calendars (store_calendars g w h))"
  by (simp_all add: store_calendars_def)

lemma helping_inv_frames:
  assumes inv: "helping_inv L D s" and i: "i < length (hs_helpers s)" and b: "beside ((hs_helpers s)[i := h]) = beside (hs_helpers s)"
    and h: "helper_ok D i (hs_workers s ! i) h"
  shows "helping_inv L D (s\<lparr>hs_helpers := (hs_helpers s)[i := h]\<rparr>)"
  using assms by (auto simp: helping_inv_def hs_workers_def depth_limit_def nth_list_update)

lemma helping_step_inv:
  assumes inv: "helping_inv L D s" and st: "helping_step k s l t" and L: "0 < L"
  shows "helping_inv L D t"
  using st
proof cases
  case (base l' t')
  have sy: "sy_inv_beside (beside (hs_helpers s)) L (hs_system s)" using inv by (simp add: helping_inv_def)
  show ?thesis
    using inv base system_step_inv [OF sy base(3) L] step_options [OF sy base(3) L]
      base_keeps_helpers [OF base(3,4), of D]
    by (simp add: helping_inv_def hs_workers_def depth_limit_def)
next
  case (begin_wait i h graph dl)
  have ok: "helper_ok D i (hs_workers s ! i) h" using inv begin_wait by (simp add: helping_inv_def)
  have "beside ((hs_helpers s)[i := h\<lparr>hp_frames := new_frame graph dl # hp_frames h\<rparr>]) = beside (hs_helpers s)"
    using frame_total_update [of i "hs_helpers s" frame_claim "h\<lparr>hp_frames := new_frame graph dl # hp_frames h\<rparr>"]
      frame_total_update [of i "hs_helpers s" frame_awaiting "h\<lparr>hp_frames := new_frame graph dl # hp_frames h\<rparr>"] begin_wait
    by (simp add: beside_def)
  moreover have "helper_ok D i (hs_workers s ! i) (h\<lparr>hp_frames := new_frame graph dl # hp_frames h\<rparr>)"
    using ok inv begin_wait by (cases "hp_frames h") (auto simp: helper_ok_def in_body_def helping_inv_def)
  ultimately show ?thesis
    using helping_inv_frames [OF inv] begin_wait by simp
next
  case (end_wait i h f fs)
  have ok: "helper_ok D i (hs_workers s ! i) h" using inv end_wait by (simp add: helping_inv_def)
  then have "frame_ok f" using end_wait by (simp add: helper_ok_def)
  from returned_simps [OF this] end_wait
  have "beside ((hs_helpers s)[i := h\<lparr>hp_frames := fs\<rparr>]) = beside (hs_helpers s)"
    using frame_total_update [of i "hs_helpers s" frame_claim "h\<lparr>hp_frames := fs\<rparr>"]
      frame_total_update [of i "hs_helpers s" frame_awaiting "h\<lparr>hp_frames := fs\<rparr>"]
    by (simp add: beside_def)
  moreover have "helper_ok D i (hs_workers s ! i) (h\<lparr>hp_frames := fs\<rparr>)"
    using ok end_wait by (cases fs) (auto simp: helper_ok_def)
  ultimately show ?thesis
    using helping_inv_frames [OF inv] end_wait by simp
next
  case (work_on i h f fs inp f' w' sh h' t')
  let ?w = "calendars_of (fr_graph f) h"
  have ok: "helper_ok D i (hs_workers s ! i) h" and sy: "sy_inv_beside (beside (hs_helpers s)) L (hs_system s)"
    using inv work_on by (simp_all add: helping_inv_def)
  have f: "frame_ok f" "calendars_ok i ?w" using ok work_on by (simp_all add: helper_ok_def calendars_of_def)
  have "frame_claim f \<le> frame_total frame_claim (hs_helpers s)"
    using frame_total_part [of i "hs_helpers s" f frame_claim] work_on by simp
  then have "frame_claim f \<le> claimed (ls_ready (sy_shared (hs_system s)))"
    using sy by (simp add: sy_inv_beside_def loop_inv_beside_def beside_def)
  then have e: "help_effect f ?w (sy_shared (hs_system s)) f' w' sh"
    using help_step_effect [OF work_on(6)] f sy by (simp add: sy_inv_beside_def loop_inv_beside_def calendars_ok_def)
  have h': "hp_frames h' = f' # fs" using work_on by simp
  have "loop_inv_beside (beside ((hs_helpers s)[i := h'])) L sh (hs_workers s) (sy_published (hs_system s))"
    using loop_inv_exchange [OF sy [unfolded sy_inv_beside_def] e, of "beside ((hs_helpers s)[i := h'])"]
      frame_total_replace [of i "hs_helpers s" f fs h' f' frame_claim]
      frame_total_replace [of i "hs_helpers s" f fs h' f' frame_awaiting] work_on h'
    by (simp add: beside_def hs_workers_def)
  then have "sy_inv_beside (beside ((hs_helpers s)[i := h'])) L (if fr_pc f = Help_announce then broadcast t' else t')"
    using work_on loop_inv_broadcast by (simp add: sy_inv_beside_def broadcast_def hs_workers_def)
  moreover have "helper_ok D i (hs_workers s ! i) h'"
  proof -
    have w': "calendars_ok i w'" using e f(2) by (simp add: help_effect_def calendars_ok_def)
    have cal: "calendars_ok i (hp_task_calendars h) \<and> calendars_ok i (hp_graph_calendars h)" using ok by (simp add: helper_ok_def)
    have "calendars_ok i (hp_task_calendars h') \<and> calendars_ok i (hp_graph_calendars h')"
      using store_calendars_simps(2) [of i h w' "fr_graph f"] cal w' work_on(7) by (simp add: store_calendars_def)
    moreover have "frame_ok f'" using e by (simp add: help_effect_def)
    ultimately show ?thesis using ok work_on(5) h' by (simp add: helper_ok_def)
  qed
  moreover have "rt_options (ls_runtime sh) = rt_options (sy_runtime (hs_system s))"
    using e by (simp add: help_effect_def same_rest_def settings_def Let_def sy_runtime_def)
  ultimately show ?thesis
    using inv work_on
    by (auto simp: helping_inv_def depth_limit_def hs_workers_def sy_runtime_def broadcast_def nth_list_update)
qed

lemma initial_helping_inv:
  assumes "fresh_runtime n r"
  shows "helping_inv (unat (local_burst_limit (rt_options r))) (unat (max_helping_depth (rt_options r))) (initial_helping r n)"
proof -
  have "frame_total frame_claim (map new_helper xs) = 0" "frame_total frame_awaiting (map new_helper xs) = {#}" for xs
    by (induction xs) (simp_all add: frame_total_def new_helper_def)
  then have "beside (map new_helper [0..<n]) = nothing_beside" by (simp add: beside_def)
  then show ?thesis
    using fresh_inv(1) [OF assms]
    by (auto simp: helping_inv_def initial_helping_def hs_workers_def depth_limit_def sy_runtime_def initial_system_def helper_ok_def
        new_helper_def calendars_ok_def new_calendars_def new_worker_def)
qed

lemma trace_helping_inv:
  assumes "fresh_runtime n r" and "helping_trace k (initial_helping r n) tr s"
  shows "helping_inv (unat (local_burst_limit (rt_options r))) (unat (max_helping_depth (rt_options r))) s"
  using assms(2)
  by (induction rule: helping_trace.induct) (auto intro: initial_helping_inv [OF assms(1)] helping_step_inv fresh_inv(3) [OF assms(1)])

end
