(* ===== verification/Helping_Claims.thy ===== *)
theory Helping_Claims
  imports Helping_Invariant
begin

text \<open>The properties of waits that help.\<close>

section \<open>Concrete runs\<close>

text \<open>Moves of the rest of the process, the beginning of a wait, and steps of a thread in its innermost wait,
  whose target is not complete.\<close>

datatype help_move = Sys "sys_move list" | Do_wait nat "time option" | Do_help nat nat

definition quiet_help :: help_input where
  "quiet_help = loop_input.extend quiet_input \<lparr>hi_complete = False\<rparr>"

fun help_on :: "nat \<Rightarrow> nat \<Rightarrow> nat \<Rightarrow> helping_system \<Rightarrow> (help_label list \<times> helping_system) option" where
  "help_on k i 0 s = Some ([], s)"
| "help_on k i (Suc m) s =
     (if i < length (hs_helpers s) then
        (let h = hs_helpers s ! i
         in case hp_frames h of
              [] \<Rightarrow> None
            | f # fs \<Rightarrow>
                (case help_step k quiet_help f (calendars_of (fr_graph f) h) (sy_shared (hs_system s)) of
                   None \<Rightarrow> None
                 | Some (f', w', sh) \<Rightarrow>
                     (let t = (hs_system s)\<lparr>sy_shared := sh\<rparr>;
                          u = s\<lparr>hs_system := (if fr_pc f = Help_announce then broadcast t else t),
                            hs_helpers := (hs_helpers s)[i := (store_calendars (fr_graph f) w' h)\<lparr>hp_frames := f' # fs\<rparr>]\<rparr>
                      in case help_on k i m u of None \<Rightarrow> None | Some (ls, v) \<Rightarrow> Some (Help i # ls, v))))
      else None)"

fun help_play :: "nat \<Rightarrow> help_move \<Rightarrow> helping_system \<Rightarrow> (help_label list \<times> helping_system) option" where
  "help_play k (Sys ms) s =
     (case sys_plays k ms (hs_system s) of
        None \<Rightarrow> None
      | Some (ls, t) \<Rightarrow> if list_all (\<lambda>l. waits_allow l (hs_helpers s)) ls then Some (map Base ls, s\<lparr>hs_system := t\<rparr>) else None)"
| "help_play k (Do_wait i dl) s =
     (if i < length (hs_helpers s) \<and> wk_pc (hs_workers s ! i) = Body \<and> in_body (hs_helpers s ! i) \<and>
         length (hp_frames (hs_helpers s ! i)) < depth_limit s
      then Some ([Begin_wait i], s\<lparr>hs_helpers := (hs_helpers s)[i :=
        (hs_helpers s ! i)\<lparr>hp_frames := new_frame False dl # hp_frames (hs_helpers s ! i)\<rparr>]\<rparr>)
      else None)"
| "help_play k (Do_help i m) s = help_on k i m s"

fun help_plays :: "nat \<Rightarrow> help_move list \<Rightarrow> helping_system \<Rightarrow> (help_label list \<times> helping_system) option" where
  "help_plays k [] s = Some ([], s)"
| "help_plays k (m # ms) s =
     (case help_play k m s of
        None \<Rightarrow> None
      | Some (ls, t) \<Rightarrow> (case help_plays k ms t of None \<Rightarrow> None | Some (ls', u) \<Rightarrow> Some (ls @ ls', u)))"

lemma help_on_trace: "help_on k i m s = Some (ls, t) \<Longrightarrow> helping_trace k s0 tr s \<Longrightarrow> helping_trace k s0 (tr @ ls) t"
proof (induction m arbitrary: s ls tr)
  case (Suc m)
  then obtain f fs f' w' sh ls' where i: "i < length (hs_helpers s)" and fr: "hp_frames (hs_helpers s ! i) = f # fs"
    and st: "help_step k quiet_help f (calendars_of (fr_graph f) (hs_helpers s ! i)) (sy_shared (hs_system s)) = Some (f', w', sh)"
    and g: "help_on k i m (s\<lparr>hs_system := (if fr_pc f = Help_announce then broadcast ((hs_system s)\<lparr>sy_shared := sh\<rparr>)
          else (hs_system s)\<lparr>sy_shared := sh\<rparr>),
        hs_helpers := (hs_helpers s)[i := (store_calendars (fr_graph f) w' (hs_helpers s ! i))\<lparr>hp_frames := f' # fs\<rparr>]\<rparr>) = Some (ls', t)"
      "ls = Help i # ls'"
    by (auto simp: Let_def split: if_splits option.splits prod.splits list.splits)
  show ?case
    using Suc.IH [OF g(1) helping_snoc [OF Suc.prems(2) work_on [OF i refl fr st refl refl]]] by (simp add: g(2))
qed simp

lemma help_play_trace:
  assumes p: "help_play k m s = Some (ls, t)" and tr: "helping_trace k s0 tr s"
  shows "helping_trace k s0 (tr @ ls) t"
proof (cases m)
  case (Sys ms)
  then obtain bs u where b: "sys_plays k ms (hs_system s) = Some (bs, u)" "list_all (\<lambda>l. waits_allow l (hs_helpers s)) bs"
    "ls = map Base bs" "t = s\<lparr>hs_system := u\<rparr>"
    using p by (auto split: option.splits prod.splits if_splits)
  define R where "R bs u \<longleftrightarrow> (list_all (\<lambda>l. waits_allow l (hs_helpers s)) bs \<longrightarrow>
      helping_trace k s0 (tr @ map Base bs) (s\<lparr>hs_system := u\<rparr>))" for bs u
  have "R (bs @ [l]) v" if "R bs u" "system_step k u l v" for bs u l v
    using that base [of k "s\<lparr>hs_system := u\<rparr>" l v] helping_snoc [of k s0 "tr @ map Base bs" "s\<lparr>hs_system := u\<rparr>" "Base l"]
    by (simp add: R_def)
  then have "step_closed k False R" unfolding step_closed_def by blast
  moreover have "R [] (hs_system s)" using tr by (simp add: R_def)
  ultimately have "R bs u"
    using sys_plays_closed [of k False R ms "hs_system s" bs u "[]"] b(1) by simp
  with b show ?thesis by (simp add: R_def)
next
  case (Do_wait i dl)
  then show ?thesis
    using p helping_snoc [OF tr begin_wait [of i s "hs_helpers s ! i" k False dl]] by (auto split: if_splits)
next
  case (Do_help i m)
  then show ?thesis using p tr help_on_trace by simp
qed

lemma help_plays_trace: "help_plays k ms s = Some (ls, t) \<Longrightarrow> helping_trace k s0 tr s \<Longrightarrow> helping_trace k s0 (tr @ ls) t"
proof (induction ms arbitrary: s ls tr)
  case (Cons m ms)
  then obtain l1 s1 l2 where p: "help_play k m s = Some (l1, s1)" "help_plays k ms s1 = Some (l2, t)" "ls = l1 @ l2"
    by (auto split: option.splits prod.splits)
  from Cons.IH [OF p(2) help_play_trace [OF p(1) Cons.prems(2)]] show ?case by (simp add: p(3))
qed simp

definition one_thread :: helping_system where
  "one_thread = initial_helping (new_runtime (RuntimeId 1) (default_scheduler_options 1) Locked) 1"

definition b_task :: TaskInvoker where
  "b_task = Envelope \<lparr>tf_task = 8, tf_priority = Normal, tf_deadline = None, tf_resume = False, tf_coroutine_node = False\<rparr>"

text \<open>The worker executes a task that has spawned another and waits; then it has claimed the other in its wait.\<close>

definition until_wait :: "help_move list" where
  "until_wait = [Sys [Go 0 1, Do_start, Go 0 2, Do_admit, Do_post a_task, Do_notify, Go 0 3, Do_spawn 0 b_task, Do_notify], Do_wait 0 None]"

definition wait_claims :: "help_move list" where
  "wait_claims = until_wait @ [Do_help 0 3]"

lemma wait_claims_run:
  "case help_plays 0 wait_claims one_thread of
     None \<Rightarrow> False
   | Some (tr, s) \<Rightarrow> map wk_pc (hs_workers s) = [Body] \<and> map (\<lambda>h. map fr_pc (hp_frames h)) (hs_helpers s) = [[Help_start]] \<and>
       ls_executed (sy_shared (hs_system s)) = [facts_of a_task] \<and> sy_published (hs_system s) = [facts_of a_task, facts_of b_task]"
  by code_simp

text \<open>The same run up to the wait, then the status of an immediate shutdown, then the wait goes on.\<close>

definition wait_meets_shutdown :: "help_move list" where
  "wait_meets_shutdown = until_wait @ [Sys [Do_status Immediate]]"

lemma wait_meets_shutdown_run:
  "case help_plays 0 wait_meets_shutdown one_thread of
     None \<Rightarrow> False
   | Some (tr, s) \<Rightarrow> shutdown_mode (get_status (sy_runtime (hs_system s))) = Immediate \<and>
       ls_executed (sy_shared (hs_system s)) = [facts_of a_task] \<and> sy_published (hs_system s) = [facts_of a_task, facts_of b_task] \<and>
       ls_cancelled (sy_shared (hs_system s)) = [] \<and> map wk_pc (hs_workers s) = [Body] \<and>
       map (\<lambda>h. map fr_pc (hp_frames h)) (hs_helpers s) = [[Test]] \<and>
       (case help_plays 0 [Do_help 0 4] s of
          None \<Rightarrow> False
        | Some (tr2, t) \<Rightarrow> ls_executed (sy_shared (hs_system t)) = [facts_of a_task, facts_of b_task] \<and>
            get_status (sy_runtime (hs_system t)) = get_status (sy_runtime (hs_system s)))"
  by code_simp

text \<open>A wait with a deadline that has found nothing to do, and a task that is submitted then.\<close>

definition wait_sleeps :: "help_move list" where
  "wait_sleeps = [Sys [Go 0 1, Do_start, Go 0 2, Do_admit, Do_post a_task, Do_notify, Go 0 3], Do_wait 0 (Some 5), Do_help 0 6,
     Sys [Do_admit, Do_post b_task, Do_notify]]"

lemma wait_sleeps_run:
  "case help_plays 0 wait_sleeps one_thread of
     None \<Rightarrow> False
   | Some (tr, s) \<Rightarrow> map (\<lambda>h. map (\<lambda>f. (fr_pc f, fr_deadline f)) (hp_frames h)) (hs_helpers s) = [[(Help_wait, Some 5)]] \<and>
       any_queued_work (rt_ready (sy_runtime (hs_system s))) \<and> length (hs_workers s) = 1"
  by code_simp

section \<open>What is conserved and bounded\<close>

lemma sum_claims:
  "worker_sum has_claim ws = length (filter (\<lambda>w. wk_task w \<noteq> None) ws)"
  "frame_total frame_claim hs = (\<Sum>h \<leftarrow> hs. length (filter (\<lambda>f. fr_task f \<noteq> None) (hp_frames h)))"
proof -
  have "sum_list (map frame_claim fs) = length (filter (\<lambda>f. fr_task f \<noteq> None) fs)" for fs
    by (induction fs) (simp_all add: frame_claim_def)
  then show "frame_total frame_claim hs = (\<Sum>h \<leftarrow> hs. length (filter (\<lambda>f. fr_task f \<noteq> None) (hp_frames h)))"
    by (simp add: frame_total_def)
  show "worker_sum has_claim ws = length (filter (\<lambda>w. wk_task w \<noteq> None) ws)"
    by (induction ws) (simp_all add: worker_sum_def has_claim_def)
qed

lemmas helping_inv_defs = helping_inv_def sy_inv_beside_def loop_inv_beside_def beside_def stock_def sy_runtime_def hs_workers_def

text \<open>C7: Waits that help lose no task and execute none twice, in every interleaving and for waits nested in
  waits: the tasks published are exactly those executed, cancelled, queued, held by a worker that has not
  begun them and held by a wait that has not begun them; and the number of unfinished claims, on which the
  workers' stop tests rely, counts the tasks in the hands of workers and of waits.\<close>

theorem helping_settles_tasks_once:
  assumes "fresh_runtime n r" and "helping_trace k (initial_helping r n) tr s"
  shows "mset (sy_published (hs_system s)) = mset (ls_executed (sy_shared (hs_system s))) + mset (ls_cancelled (sy_shared (hs_system s))) +
      rq_facts (rt_ready (sy_runtime (hs_system s))) + (\<Sum>w \<leftarrow> hs_workers s. awaiting w) +
      (\<Sum>h \<leftarrow> hs_helpers s. \<Sum>f \<leftarrow> hp_frames h. frame_awaiting f) \<and>
    claimed (rt_ready (sy_runtime (hs_system s))) = length (filter (\<lambda>w. wk_task w \<noteq> None) (hs_workers s)) +
      (\<Sum>h \<leftarrow> hs_helpers s. length (filter (\<lambda>f. fr_task f \<noteq> None) (hp_frames h)))"
proof -
  have "mset (sy_published (hs_system s)) = stock (sy_shared (hs_system s)) + worker_sum awaiting (hs_workers s) + frame_total frame_awaiting (hs_helpers s)"
    and "claimed (rt_ready (sy_runtime (hs_system s))) = worker_sum has_claim (hs_workers s) + frame_total frame_claim (hs_helpers s)"
    using trace_helping_inv [OF assms]
    by (simp_all add: helping_inv_def sy_inv_beside_def loop_inv_beside_def beside_def hs_workers_def sy_runtime_def)
  then show ?thesis
    unfolding sum_claims by (simp add: stock_def sy_runtime_def) (simp add: worker_sum_def frame_total_def)
qed

lemma one_thread_trace:
  assumes "help_plays 0 ms one_thread = Some (tr, s)"
  shows "helping_trace 0 (initial_helping (new_runtime (RuntimeId 1) (default_scheduler_options 1) Locked) 1) tr s"
  using help_plays_trace [OF assms helping_start] by (simp add: one_thread_def)

theorem helping_settles_tasks_once_witness:
  "\<exists>tr s. helping_trace 0 one_thread tr s \<and> length (sy_published (hs_system s)) = 2 \<and>
     (\<Sum>h \<leftarrow> hs_helpers s. \<Sum>f \<leftarrow> hp_frames h. frame_awaiting f) \<subseteq># mset (sy_published (hs_system s))"
proof -
  obtain tr s where p: "help_plays 0 wait_claims one_thread = Some (tr, s)"
    using wait_claims_run by (auto split: option.splits)
  with wait_claims_run have two: "length (sy_published (hs_system s)) = 2" by simp
  have tr: "helping_trace 0 one_thread tr s" using one_thread_trace [OF p] by (simp only: one_thread_def)
  have "(\<Sum>h \<leftarrow> hs_helpers s. \<Sum>f \<leftarrow> hp_frames h. frame_awaiting f) \<subseteq># mset (sy_published (hs_system s))"
    unfolding conjunct1 [OF helping_settles_tasks_once [OF one_worker_fresh one_thread_trace [OF p]]] by simp
  with two tr show ?thesis by blast
qed

text \<open>C23: The nesting of waits is bounded: a worker is never in more than \<open>max_helping_depth\<close> waits that
  help, it waits only from inside a task, and every wait but the innermost is executing a task it has
  claimed.\<close>

theorem helping_depth_bounded:
  assumes "fresh_runtime n r" and "helping_trace k (initial_helping r n) tr s" and "i < n"
    and "hp_frames (hs_helpers s ! i) = f # fs"
  shows "length (f # fs) \<le> unat (max_helping_depth (rt_options r)) \<and> wk_pc (hs_workers s ! i) = Body \<and>
    wk_task (hs_workers s ! i) \<noteq> None \<and> list_all (\<lambda>g. fr_pc g = Help_body \<and> fr_task g \<noteq> None) fs"
proof -
  have len: "length (hs_helpers t) = n" if "helping_trace k (initial_helping r n) tr t" for tr t
    using that
  proof (induction rule: helping_trace.induct)
    case helping_start
    show ?case by (simp add: initial_helping_def)
  next
    case (helping_snoc tr s l t)
    from helping_snoc.hyps(2) show ?case by cases (use helping_snoc.IH in auto)
  qed
  note inv = trace_helping_inv [OF assms(1,2)]
  have ok: "helper_ok (unat (max_helping_depth (rt_options r))) i (hs_workers s ! i) (hs_helpers s ! i)"
    using inv len [OF assms(2)] assms(3) by (simp add: helping_inv_def)
  have "hs_workers s ! i \<in> set (hs_workers s)"
    using inv len [OF assms(2)] assms(3) by (simp add: helping_inv_def)
  then have "worker_ok (unat (local_burst_limit (rt_options r))) (hs_workers s ! i)"
    using inv by (simp add: helping_inv_defs)
  then show ?thesis
    using ok assms(4) by (auto simp: helper_ok_def worker_ok_def list_all_iff frame_ok_def)
qed

theorem helping_depth_bounded_witness:
  "\<exists>tr s f. helping_trace 0 one_thread tr s \<and> hp_frames (hs_helpers s ! 0) = [f] \<and> fr_pc f = Help_start \<and> wk_task (hs_workers s ! 0) \<noteq> None"
proof -
  obtain tr s where p: "help_plays 0 wait_claims one_thread = Some (tr, s)"
    using wait_claims_run by (auto split: option.splits)
  with wait_claims_run obtain f h where f: "hs_helpers s = [h]" "hp_frames h = [f]" "fr_pc f = Help_start"
    by (auto simp: map_eq_Cons_conv)
  have tr: "helping_trace 0 one_thread tr s" using one_thread_trace [OF p] by (simp only: one_thread_def)
  have fr: "hp_frames (hs_helpers s ! 0) = [f]" using f by simp
  from helping_depth_bounded [OF one_worker_fresh one_thread_trace [OF p] _ fr] have "wk_task (hs_workers s ! 0) \<noteq> None"
    by simp
  with f(3) fr tr show ?thesis by blast
qed

text \<open>The stop test of a worker.\<close>

lemma exit_only_unclaimed:
  assumes "loop_step k inp w s = Some (w', s')" and "wk_pc w' = Exit_notify"
  shows "claimed (ls_ready s) = 0"
proof (cases "wk_pc w")
  case (Probe b vs)
  with assms show ?thesis
    by (cases vs) (auto simp: loop_step_def claimed_or_def split: if_splits prod.splits)
qed (use assms in \<open>auto simp: loop_step_def claimed_or_def start_loop_def loop_draw_def Let_def split: if_splits prod.splits option.splits\<close>)

text \<open>While a wait holds a task it has claimed, no worker passes the test after which it leaves the
  loop, whatever the queues and the stop flag say: a task executed inside a wait counts as one in flight.\<close>

theorem waits_keep_workers:
  assumes "fresh_runtime n r" and "helping_trace k (initial_helping r n) tr s"
    and "h \<in> set (hs_helpers s)" "f \<in> set (hp_frames h)" "fr_task f \<noteq> None"
    and "helping_step k s (Base (Work j)) t" "j < length (hs_workers s)"
  shows "wk_pc (hs_workers t ! j) \<noteq> Exit_notify"
proof -
  obtain i where i: "i < length (hs_helpers s)" "h = hs_helpers s ! i"
    using assms(3) by (auto simp: in_set_conv_nth)
  have "claimed (ls_ready (sy_shared (hs_system s))) \<noteq> 0"
    using trace_helping_inv [OF assms(1,2)] frame_total_part [OF i(1), of f frame_claim] assms(4,5) i(2)
    by (simp add: helping_inv_def sy_inv_beside_def loop_inv_beside_def beside_def frame_claim_def)
  then have busy: "claimed (ls_ready (sy_shared (hs_system s))) > 0" by simp
  obtain inp w' sh where st: "loop_step k inp (hs_workers s ! j) (sy_shared (hs_system s)) = Some (w', sh)"
    and w: "hs_workers t ! j \<in> {w', wake w'}"
    using assms(6)
  proof cases
    case (base t')
    then show thesis
      using step_on_worker [OF base(2), of j] assms(7) that by (auto simp: hs_workers_def)
  qed
  have "wk_pc w' \<noteq> Exit_notify" using exit_only_unclaimed [OF st] busy by auto
  with w show ?thesis by (auto simp: wake_def split: if_splits)
qed

definition two_threads :: helping_system where
  "two_threads = initial_helping (new_runtime (RuntimeId 1) (default_scheduler_options 2) Locked) 2"

definition wait_beside_worker :: "help_move list" where
  "wait_beside_worker = [Sys [Go 0 1, Go 1 1, Do_start, Go 0 2, Do_admit, Do_post a_task, Do_notify, Go 0 3, Do_spawn 0 b_task, Do_notify],
     Do_wait 0 None, Do_help 0 3]"

lemma wait_beside_worker_run:
  "case help_plays 0 wait_beside_worker two_threads of
     None \<Rightarrow> False
   | Some (tr, s) \<Rightarrow> length (hs_workers s) = 2 \<and> map (\<lambda>h. map (\<lambda>f. fr_task f \<noteq> None) (hp_frames h)) (hs_helpers s) = [[True], []] \<and>
       (case help_play 0 (Sys [Go 1 1]) s of
          None \<Rightarrow> False
        | Some (ls, t) \<Rightarrow> ls = [Base (Work 1)])"
  by code_simp

lemma two_workers_fresh: "fresh_runtime 2 (new_runtime (RuntimeId 1) (default_scheduler_options 2) Locked)"
  unfolding fresh_runtime_def
  by (intro exI [of _ "RuntimeId 1"] exI [of _ "default_scheduler_options 2"] exI [of _ Locked])
    (simp add: default_scheduler_options_def validate_options_def recommended_worker_count_def)

lemma helping_trace_last: "helping_trace k s0 tr s \<Longrightarrow> tr = [l] \<Longrightarrow> helping_step k s0 l s"
  by (induction rule: helping_trace.induct) (auto elim: helping_trace.cases)

theorem waits_keep_workers_witness:
  "\<exists>tr s t. helping_trace 0 two_threads tr s \<and> helping_step 0 s (Base (Work 1)) t \<and> wk_pc (hs_workers t ! 1) \<noteq> Exit_notify"
proof -
  obtain tr s where p: "help_plays 0 wait_beside_worker two_threads = Some (tr, s)"
    using wait_beside_worker_run by (auto split: option.splits)
  with wait_beside_worker_run have len: "length (hs_workers s) = 2"
    and fr: "map (\<lambda>h. map (\<lambda>f. fr_task f \<noteq> None) (hp_frames h)) (hs_helpers s) = [[True], []]" by (simp_all del: help_play.simps)
  from p wait_beside_worker_run obtain t where t: "help_play 0 (Sys [Go 1 1]) s = Some ([Base (Work 1)], t)"
    by (auto simp del: help_play.simps split: option.splits)
  have tr: "helping_trace 0 two_threads tr s" using help_plays_trace [OF p helping_start] by simp
  have st: "helping_step 0 s (Base (Work 1)) t"
    using helping_trace_last [OF help_play_trace [OF t helping_start]] by simp
  obtain h f h' where "hs_helpers s = [h, h']" "hp_frames h = [f]" "fr_task f \<noteq> None"
    using fr by (auto simp: map_eq_Cons_conv)
  then have "h \<in> set (hs_helpers s)" "f \<in> set (hp_frames h)" "fr_task f \<noteq> None" by simp_all
  from waits_keep_workers [OF two_workers_fresh tr [unfolded two_threads_def] this st] len tr st show ?thesis by auto
qed

section \<open>Where helping departs from the specification\<close>

text \<open>C33: A wait can start a task under an immediate shutdown.  Only the claim from the global queue looks at
  the shutdown mode: the wait of a worker claims a task of its own local queue that has never been started,
  and executes it, when the status is already that of an immediate shutdown; the worker loop cancels such
  a task.\<close>

theorem immediate_wait_starts_task:
  "\<exists>r n tr s tr2 t f. fresh_runtime n r \<and> helping_trace 0 (initial_helping r n) tr s \<and>
     shutdown_mode (get_status (sy_runtime (hs_system s))) = Immediate \<and> f \<in># rq_facts (rt_ready (sy_runtime (hs_system s))) \<and>
     \<not> tf_resume f \<and> f \<notin> set (ls_executed (sy_shared (hs_system s))) \<and>
     helping_trace 0 s tr2 t \<and> f \<in> set (ls_executed (sy_shared (hs_system t)))"
proof -
  obtain tr s where p: "help_plays 0 wait_meets_shutdown one_thread = Some (tr, s)"
    using wait_meets_shutdown_run by (auto split: option.splits)
  with wait_meets_shutdown_run have s: "shutdown_mode (get_status (sy_runtime (hs_system s))) = Immediate"
    "ls_executed (sy_shared (hs_system s)) = [facts_of a_task]" "sy_published (hs_system s) = [facts_of a_task, facts_of b_task]"
    "ls_cancelled (sy_shared (hs_system s)) = []" "map wk_pc (hs_workers s) = [Body]"
    "map (\<lambda>h. map fr_pc (hp_frames h)) (hs_helpers s) = [[Test]]"
    by (simp_all del: help_plays.simps)
  from p wait_meets_shutdown_run obtain tr2 t where t: "help_plays 0 [Do_help 0 4] s = Some (tr2, t)"
    "ls_executed (sy_shared (hs_system t)) = [facts_of a_task, facts_of b_task]"
    by (auto simp del: help_plays.simps split: option.splits)
  note tr = one_thread_trace [OF p]
  obtain w h f where one: "hs_workers s = [w]" "wk_pc w = Body" "hs_helpers s = [h]" "hp_frames h = [f]" "fr_pc f = Test"
    using s(5,6) by (auto simp: map_eq_Cons_conv)
  then have "worker_sum awaiting (hs_workers s) = {#}" "frame_total frame_awaiting (hs_helpers s) = {#}"
    by (simp_all add: worker_sum_def awaiting_def frame_total_def frame_awaiting_def split: option.split)
  then have "rq_facts (rt_ready (sy_runtime (hs_system s))) = {#facts_of b_task#}"
    using trace_helping_inv [OF one_worker_fresh tr] s(2-4)
    by (simp add: helping_inv_def sy_inv_beside_def loop_inv_beside_def beside_def hs_workers_def sy_runtime_def stock_def)
  moreover have "\<not> tf_resume (facts_of b_task)" "facts_of b_task \<noteq> facts_of a_task"
    by (simp_all add: a_task_def b_task_def)
  moreover have "helping_trace 0 s tr2 t" using help_plays_trace [OF t(1) helping_start] by simp
  ultimately show ?thesis
    using one_worker_fresh tr s(1,2) t(2)
    by (intro exI [of _ "new_runtime (RuntimeId 1) (default_scheduler_options 1) Locked"] exI [of _ "1::nat"] exI [of _ tr] exI [of _ s]
        exI [of _ tr2] exI [of _ t] exI [of _ "facts_of b_task"]) simp
qed


end
