(* ===== verification/Submission.thy ===== *)
theory Submission
  imports Runtime_State Task_Handle Errors
begin

text \<open>
  Submitting a callable and spawning a coroutine (\<open>submit_impl\<close>, \<open>try_submit_impl\<close>, \<open>spawn_impl\<close>,
  \<open>try_spawn_impl\<close>, \<open>publish_submission\<close> in \<open>include/astra/scheduler.hpp\<close>; \<open>prepare_submission\<close> and what
  it calls in \<open>src/runtime/scheduler.cpp\<close>).  A scheduler handle is the address of its runtime or empty.
\<close>

section \<open>Before the task exists\<close>

datatype submit_error =
    Empty_scheduler | Empty_coroutine | Bad_option invalid_argument | Not_admitted SubmissionError
  | No_identity overflow_error | Cell_failed nat | Factory_failed nat

record submission_context =
  sc_internal :: bool
  sc_priority :: Priority
  sc_deadline :: "TaskDeadline option"
  sc_decision :: AdmissionDecision

text \<open>A valid scheduler's runtime is registered, and the registry points to its metrics.\<close>

definition count_attempt :: "thread_context \<Rightarrow> runtime \<Rightarrow> runtime" where
  "count_attempt ctx r =
     (if level (rt_metrics r) \<noteq> Off then r\<lparr>rt_metrics := count_event ctx N_submission_attempts (rt_metrics r)\<rparr> else r)"

definition resolve_priority :: "thread_locals \<Rightarrow> TaskOptions option \<Rightarrow> bool \<Rightarrow> submit_error + Priority" where
  "resolve_priority th opts is_internal =
     (case opts of
        Some x \<Rightarrow> (case validate_priority (priority x) of Inl e \<Rightarrow> Inl (Bad_option e) | Inr _ \<Rightarrow> Inr (priority x))
      | None \<Rightarrow> Inr (if is_internal then tl_priority th else Normal))"

text \<open>\<open>None\<close> is a caller that still waits for a slot when the environment steps run out.\<close>

definition acquire_admission ::
  "thread_context \<Rightarrow> bool \<Rightarrow> bool \<Rightarrow> time \<Rightarrow> (time \<times> env_step) list \<Rightarrow> runtime \<Rightarrow> (AdmissionDecision \<times> runtime) option" where
  "acquire_admission ctx block is_internal now es r =
     map_option (\<lambda>(d, a). (d, (store_admission a r)\<lparr>rt_packed_status := adm_packed_status a\<rparr>))
       (acquire ctx 1 block is_internal now es (shared_admission r))"

definition prepare_submission ::
  "thread_locals \<Rightarrow> TaskOptions option \<Rightarrow> bool \<Rightarrow> time \<Rightarrow> (time \<times> env_step) list \<Rightarrow> runtime \<Rightarrow>
     ((submit_error + submission_context) \<times> runtime) option" where
  "prepare_submission th opts nonblocking now es r =
     (let ctx = tl_context th;
          r1 = count_attempt ctx r;
          is_internal = (current_worker_runtime_id ctx = rt_id r);
          is_worker = (current_worker_runtime_id ctx \<noteq> no_runtime);
          can_block = (\<not> nonblocking \<and> \<not> is_worker)
      in case resolve_priority th opts is_internal of
           Inl e \<Rightarrow> Some (Inl e, r1)
         | Inr prio \<Rightarrow>
             map_option (\<lambda>(d, r2). (Inr \<lparr>sc_internal = is_internal, sc_priority = prio,
                 sc_deadline = (case opts of None \<Rightarrow> None | Some x \<Rightarrow> deadline x), sc_decision = d\<rparr>, r2))
               (acquire_admission ctx can_block is_internal now es r1))"

fun submission_error_for :: "AdmissionDecision \<Rightarrow> SubmissionError option" where
  "submission_error_for Stopping_decision = Some Rejected_stopping"
| "submission_error_for Stopped_decision = Some Rejected_stopped"
| "submission_error_for CapacityExhausted = Some Rejected_capacity"
| "submission_error_for Success = None"

section \<open>Publication\<close>

text \<open>
  What the environment decides: whether the allocation of the result cell or the construction of the
  invoker (which copies the callable and its arguments) raises, the allocations of the queues, the clock.
\<close>

record publish_input =
  pi_cell :: "nat option"
  pi_factory :: "nat option"
  pi_alloc :: bool
  pi_now :: time

type_synonym submission_state = "thread_locals \<times> process_runtimes \<times> id_allocator"

definition rollback_external_slot :: "nat \<Rightarrow> process_runtimes \<Rightarrow> process_runtimes" where
  "rollback_external_slot k rts = rts(k := map_option (release_external_slots 1) (rts k))"

text \<open>The invoker of a submitted task forwards the priority and the deadline of its block.\<close>

definition submitted_invoker :: "TaskId \<Rightarrow> submission_context \<Rightarrow> TaskInvoker" where
  "submitted_invoker t sc = Linked \<lparr>tf_task = unat (task_sequence t), tf_priority = sc_priority sc,
     tf_deadline = sc_deadline sc, tf_resume = False, tf_coroutine_node = False\<rparr>"

definition publish_submission ::
  "nat \<Rightarrow> RuntimeId \<Rightarrow> submission_context \<Rightarrow> (unit result_cell \<Rightarrow> unit result_cell) \<Rightarrow> publish_input \<Rightarrow> submission_state \<Rightarrow>
     (submit_error + unit result_cell) \<times> submission_state" where
  "publish_submission k rid sc equip inp = (\<lambda>(th, rts, ids).
     (let failed = (\<lambda>e ids'. (Inl e, th, if sc_internal sc then rts else rollback_external_slot k rts, ids'))
      in case allocate_task rid ids of
           Inl e \<Rightarrow> failed (No_identity e) ids
         | Inr (t, ids') \<Rightarrow>
             (case (pi_cell inp, pi_factory inp) of
                (Some e, _) \<Rightarrow> failed (Cell_failed e) ids'
              | (None, Some e) \<Rightarrow> failed (Factory_failed e) ids'
              | (None, None) \<Rightarrow>
                  (case post_task_internal (pi_alloc inp) k (Some (submitted_invoker t sc)) (\<not> sc_internal sc) (th, rts) of
                     (th', rts') \<Rightarrow> (Inr (equip (new_cell t (sc_priority sc) (sc_deadline sc) (pi_now inp))), th', rts', ids')))))"

section \<open>The four calls\<close>

datatype 'a submit_outcome = Raised submit_error | Refused SubmissionError | Handle 'a

definition submit_with ::
  "bool \<Rightarrow> nat option \<Rightarrow> (nat \<Rightarrow> unit result_cell \<Rightarrow> unit result_cell) \<Rightarrow> TaskOptions option \<Rightarrow> time \<Rightarrow> (time \<times> env_step) list \<Rightarrow>
     publish_input \<Rightarrow> submission_state \<Rightarrow> (unit result_cell submit_outcome \<times> submission_state) option" where
  "submit_with nonblocking sched equip opts now es inp = (\<lambda>(th, rts, ids).
     (case Option.bind sched (\<lambda>k. map_option (Pair k) (rts k)) of
        None \<Rightarrow> Some (Raised Empty_scheduler, th, rts, ids)
      | Some (k, r) \<Rightarrow>
          (case prepare_submission th opts nonblocking now es r of
             None \<Rightarrow> None
           | Some (Inl e, r1) \<Rightarrow> Some (Raised e, th, rts(k \<mapsto> r1), ids)
           | Some (Inr sc, r1) \<Rightarrow>
               (case submission_error_for (sc_decision sc) of
                  Some e \<Rightarrow> Some (if nonblocking then Refused e else Raised (Not_admitted e), th, rts(k \<mapsto> r1), ids)
                | None \<Rightarrow>
                    (case publish_submission k (rt_id r) sc (equip k) inp (th, rts(k \<mapsto> r1), ids) of
                       (Inl e, st) \<Rightarrow> Some (Raised e, st)
                     | (Inr c, st) \<Rightarrow> Some (Handle c, st))))))"

definition submit_impl where
  "submit_impl sched = submit_with False sched (\<lambda>_ c. c)"

definition try_submit_impl where
  "try_submit_impl sched = submit_with True sched (\<lambda>_ c. c)"

text \<open>A coroutine's cell is given the functions that post, register and cancel on the runtime.\<close>

definition make_spawn_invoker :: "nat \<Rightarrow> unit result_cell \<Rightarrow> unit result_cell" where
  "make_spawn_invoker k = on_protocol (\<lambda>b. set_timer_functions (Some k) (Some k) (set_rescheduler (Some k) b))"

definition spawn_with ::
  "bool \<Rightarrow> bool \<Rightarrow> nat option \<Rightarrow> TaskOptions option \<Rightarrow> time \<Rightarrow> (time \<times> env_step) list \<Rightarrow> publish_input \<Rightarrow> submission_state \<Rightarrow>
     (unit result_cell submit_outcome \<times> submission_state) option" where
  "spawn_with nonblocking task_valid sched opts now es inp st =
     (if \<not> task_valid then Some (Raised Empty_coroutine, st)
      else submit_with nonblocking sched make_spawn_invoker opts now es inp st)"

definition spawn_impl where
  "spawn_impl = spawn_with False"

definition try_spawn_impl where
  "try_spawn_impl = spawn_with True"

section \<open>What a call leaves behind\<close>

definition pending_of :: "runtime \<Rightarrow> u64" where
  "pending_of r = adm_pending (rt_admission r)"

definition ready_gauge :: "runtime \<Rightarrow> u64" where
  "ready_gauge r = ready_tasks (rt_metrics r)"

lemma count_attempt_frame [simp]:
  "rt_ready (count_attempt ctx r) = rt_ready r" "pending_of (count_attempt ctx r) = pending_of r"
  "rt_id (count_attempt ctx r) = rt_id r" "ready_gauge (count_attempt ctx r) = ready_gauge r"
  "level (rt_metrics (count_attempt ctx r)) = level (rt_metrics r)" "rt_admission (count_attempt ctx r) = rt_admission r"
  by (simp_all add: count_attempt_def pending_of_def ready_gauge_def)

lemma release_slots_frame [simp]:
  "rt_ready (release_external_slots n r) = rt_ready r" "ready_gauge (release_external_slots n r) = ready_gauge r"
  "rt_id (release_external_slots n r) = rt_id r"
  by (simp_all add: release_external_slots_def store_admission_def ready_gauge_def shared_admission_def release_def)

lemma shard_keeps_ready [simp]: "ready_tasks (on_current_shard ctx f m) = ready_tasks m" "level (on_current_shard ctx f m) = level m"
  by (simp_all add: on_current_shard_def split: shard_choice.split)

text \<open>An admission that does not wait: a slot is taken exactly when an external submission is admitted.\<close>

lemma acquire_now:
  assumes "acquire_admission ctx block is_internal now [] r = Some (d, r')"
  shows "rt_ready r' = rt_ready r \<and> rt_id r' = rt_id r \<and> rt_timers r' = rt_timers r \<and>
    pending_of r' = pending_of r + (if d = Success \<and> \<not> is_internal then 1 else 0) \<and>
    ready_gauge r' = ready_gauge r + (if d = Success \<and> level (rt_metrics r) \<noteq> Off then 1 else 0)"
  using assms
  by (auto simp: acquire_admission_def acquire_def admission_attempt_def Let_def store_admission_def shared_admission_def
      pending_of_def ready_gauge_def adm_accepted_def adm_count_def split: if_splits option.splits prod.splits)

lemma rollback_exact:
  assumes "pending_of r' = pending_of r + 1" and "pending_of r \<noteq> u64_max"
  shows "pending_of (release_external_slots 1 r') = pending_of r"
proof -
  have "pending_of r + 1 \<noteq> 0" using assms(2) by (metis inc_not_zero)
  then have "1 \<le> pending_of r'" by (simp add: assms(1) word_le_nat_alt unat_gt_0 Suc_leI)
  then show ?thesis
    using assms(1) by (simp add: pending_of_def release_external_slots_def store_admission_def shared_admission_def release_def)
qed

lemma publish_keeps_pending: "pending_of (publish_ready ctx alloc k i ext r) = pending_of r"
  by (simp add: pending_of_def publish_ready_def bump_epoch_def Let_def split: prod.split)

definition option_ok :: "thread_locals \<Rightarrow> TaskOptions option \<Rightarrow> bool" where
  "option_ok th opts \<longleftrightarrow> tl_priority th \<in> set named_priorities \<and> (case opts of None \<Rightarrow> True | Some x \<Rightarrow> wf_priority (priority x))"

lemma resolved_named:
  assumes "resolve_priority th opts i = Inr p" and "option_ok th opts"
  shows "p \<in> set named_priorities"
  using assms valid_priority_cases
  by (auto simp: resolve_priority_def option_ok_def validate_priority_def named_priorities_def split: option.splits if_splits sum.splits)

text \<open>The parts of a call that ends.\<close>

lemma prepare_now:
  assumes "prepare_submission th opts nonblocking now [] r = Some (res, r1)"
  shows "rt_ready r1 = rt_ready r \<and> rt_id r1 = rt_id r \<and>
    (case res of
       Inl e \<Rightarrow> pending_of r1 = pending_of r \<and> ready_gauge r1 = ready_gauge r \<and> e \<in> range Bad_option
     | Inr sc \<Rightarrow> sc_internal sc = (current_worker_runtime_id (tl_context th) = rt_id r) \<and>
         resolve_priority th opts (sc_internal sc) = Inr (sc_priority sc) \<and>
         pending_of r1 = pending_of r + (if sc_decision sc = Success \<and> \<not> sc_internal sc then 1 else 0) \<and>
         ready_gauge r1 = ready_gauge r + (if sc_decision sc = Success \<and> level (rt_metrics r) \<noteq> Off then 1 else 0))"
proof (cases "resolve_priority th opts (current_worker_runtime_id (tl_context th) = rt_id r)")
  case (Inl e)
  moreover have "e \<in> range Bad_option"
    using Inl by (auto simp: resolve_priority_def split: option.splits sum.splits)
  ultimately show ?thesis
    using assms by (auto simp: prepare_submission_def Let_def)
next
  case (Inr prio)
  then obtain d r2 where a: "acquire_admission (tl_context th) (\<not> nonblocking \<and> \<not> current_worker_runtime_id (tl_context th) \<noteq> no_runtime)
      (current_worker_runtime_id (tl_context th) = rt_id r) now [] (count_attempt (tl_context th) r) = Some (d, r2)"
    and res: "r1 = r2" "res = Inr \<lparr>sc_internal = (current_worker_runtime_id (tl_context th) = rt_id r), sc_priority = prio,
        sc_deadline = (case opts of None \<Rightarrow> None | Some x \<Rightarrow> deadline x), sc_decision = d\<rparr>"
    using assms by (auto simp: prepare_submission_def Let_def)
  show ?thesis
    using acquire_now [OF a] Inr by (simp add: res)
qed

lemma error_for_success: "submission_error_for d = None \<longleftrightarrow> d = Success"
  by (cases d) simp_all

lemma publish_now:
  assumes p: "publish_submission k rid sc equip inp (th, rts, ids) = (res, th', rts', ids')" and r1: "rts k = Some r1"
    and inv: "rq_inv (rt_ready r1)" and prio: "sc_priority sc \<in> set named_priorities"
    and pend: "pending_of r1 = pending_of r + (if \<not> sc_internal sc then 1 else 0)" "pending_of r \<noteq> u64_max"
  shows "th' = th \<and> (\<exists>r'. rts' = rts(k \<mapsto> r') \<and>
    (case res of
       Inl e \<Rightarrow> rt_ready r' = rt_ready r1 \<and> pending_of r' = pending_of r \<and> ready_gauge r' = ready_gauge r1
     | Inr c \<Rightarrow> task_seq ids \<noteq> u64_max \<and> ids' = ids\<lparr>task_seq := task_seq ids + 1\<rparr> \<and> pending_of r' = pending_of r1 \<and>
         c = equip (new_cell (TaskId rid (task_seq ids + 1)) (sc_priority sc) (sc_deadline sc) (pi_now inp)) \<and>
         rq_facts (rt_ready r') = add_mset (facts_of (submitted_invoker (TaskId rid (task_seq ids + 1)) sc)) (rq_facts (rt_ready r1))))"
proof (cases res)
  case (Inl e)
  then have "th' = th" "rts' = (if sc_internal sc then rts else rollback_external_slot k rts)"
    using p by (auto simp: publish_submission_def Let_def split: sum.splits option.splits prod.splits)
  moreover have "rts = rts(k \<mapsto> r1)" using r1 by auto
  ultimately show ?thesis
    using Inl r1 pend rollback_exact [of r1 r]
    by (cases "sc_internal sc") (auto simp: rollback_external_slot_def)
next
  case (Inr c)
  obtain t where t: "allocate_task rid ids = Inr (t, ids')"
    and post: "post_task_internal (pi_alloc inp) k (Some (submitted_invoker t sc)) (\<not> sc_internal sc) (th, rts) = (th', rts')"
    and c: "c = equip (new_cell t (sc_priority sc) (sc_deadline sc) (pi_now inp))"
    using p Inr by (auto simp: publish_submission_def Let_def split: sum.splits option.splits prod.splits)
  have iv: "\<not> is_resume_segment (submitted_invoker t sc)" "iv_priority (submitted_invoker t sc) = sc_priority sc"
    by (simp_all add: submitted_invoker_def is_resume_segment_def iv_priority_def)
  let ?r = "publish_ready (tl_context th) (pi_alloc inp) k (submitted_invoker t sc) (\<not> sc_internal sc) r1"
  have "th' = th" "rts' = rts(k \<mapsto> ?r)" using post iv r1 by (auto simp: post_task_internal_def)
  moreover have "rq_facts (rt_ready ?r) = add_mset (facts_of (submitted_invoker t sc)) (rq_facts (rt_ready r1))"
    using publish_ready_law(2) [OF inv] prio iv(2) by simp
  moreover have "task_seq ids \<noteq> u64_max" "t = TaskId rid (task_seq ids + 1)" "ids' = ids\<lparr>task_seq := task_seq ids + 1\<rparr>"
    using t by (simp_all add: allocate_task_Inr)
  ultimately show ?thesis
    using Inr c publish_keeps_pending by auto
qed

lemma submit_now:
  assumes call: "submit_with nonblocking (Some k) equip opts now [] inp (th, rts, ids) = Some (out, th', rts', ids')"
    and r: "rts k = Some r" and inv: "rq_inv (rt_ready r)" and ok: "option_ok th opts" and pend: "pending_of r \<noteq> u64_max"
  shows "th' = th \<and> (\<exists>r'. rts' = rts(k \<mapsto> r') \<and>
    (case out of
       Handle c \<Rightarrow> task_seq ids \<noteq> u64_max \<and> ids' = ids\<lparr>task_seq := task_seq ids + 1\<rparr> \<and>
         pending_of r' = pending_of r + (if current_worker_runtime_id (tl_context th) = rt_id r then 0 else 1) \<and>
         (\<exists>sc. c = equip k (new_cell (TaskId (rt_id r) (task_seq ids + 1)) (sc_priority sc) (sc_deadline sc) (pi_now inp)) \<and>
           rq_facts (rt_ready r') = add_mset (facts_of (submitted_invoker (TaskId (rt_id r) (task_seq ids + 1)) sc)) (rq_facts (rt_ready r)))
     | Refused e \<Rightarrow> rt_ready r' = rt_ready r \<and> pending_of r' = pending_of r \<and> ready_gauge r' = ready_gauge r \<and> ids' = ids
     | Raised e \<Rightarrow> rt_ready r' = rt_ready r \<and> pending_of r' = pending_of r \<and>
         ready_gauge r' = ready_gauge r + (if e \<in> range No_identity \<union> range Cell_failed \<union> range Factory_failed \<and>
           level (rt_metrics r) \<noteq> Off then 1 else 0)))"
proof -
  obtain res r1 where p: "prepare_submission th opts nonblocking now [] r = Some (res, r1)"
    using call r by (auto simp: submit_with_def split: option.splits)
  note pr = prepare_now [OF p]
  show ?thesis
  proof (cases res)
    case (Inl e)
    then show ?thesis using call r p pr by (auto simp: submit_with_def)
  next
    case (Inr sc)
    show ?thesis
    proof (cases "sc_decision sc = Success")
      case False
      then obtain e where "submission_error_for (sc_decision sc) = Some e" using error_for_success by fastforce
      then show ?thesis using call r p pr Inr False by (auto simp: submit_with_def split: if_splits)
    next
      case True
      obtain res2 th2 rts2 ids2 where q: "publish_submission k (rt_id r) sc (equip k) inp (th, rts(k \<mapsto> r1), ids) = (res2, th2, rts2, ids2)"
        by (metis prod_cases4)
      have named: "sc_priority sc \<in> set named_priorities" using pr Inr ok resolved_named by auto
      have inv1: "rq_inv (rt_ready r1)" using pr inv by simp
      have step: "pending_of r1 = pending_of r + (if \<not> sc_internal sc then 1 else 0)" using pr Inr True by simp
      have out: "(out, th', rts', ids') = ((case res2 of Inl e \<Rightarrow> Raised e | Inr c \<Rightarrow> Handle c), th2, rts2, ids2)"
        using call r p Inr True q by (auto simp: submit_with_def error_for_success split: sum.splits)
      from publish_now [OF q _ inv1 named step pend]
      have eff: "th2 = th \<and> (\<exists>r'. rts2 = (rts(k \<mapsto> r1))(k \<mapsto> r') \<and>
        (case res2 of
           Inl e \<Rightarrow> rt_ready r' = rt_ready r1 \<and> pending_of r' = pending_of r \<and> ready_gauge r' = ready_gauge r1
         | Inr c \<Rightarrow> task_seq ids \<noteq> u64_max \<and> ids2 = ids\<lparr>task_seq := task_seq ids + 1\<rparr> \<and> pending_of r' = pending_of r1 \<and>
             c = equip k (new_cell (TaskId (rt_id r) (task_seq ids + 1)) (sc_priority sc) (sc_deadline sc) (pi_now inp)) \<and>
             rq_facts (rt_ready r') = add_mset (facts_of (submitted_invoker (TaskId (rt_id r) (task_seq ids + 1)) sc)) (rq_facts (rt_ready r1))))"
        by simp
      show ?thesis
      proof (cases res2)
        case (Inl e)
        have "e \<in> range No_identity \<union> range Cell_failed \<union> range Factory_failed"
          using q Inl by (auto simp: publish_submission_def Let_def split: sum.splits option.splits prod.splits)
        with Inl show ?thesis using eff out pr Inr True by auto
      next
        case (Inr c)
        with eff out pr step \<open>res = Inr sc\<close> show ?thesis by auto
      qed
    qed
  qed
qed

section \<open>All or nothing, but for the gauge\<close>

text \<open>C29: A submission or spawn that does not have to wait either publishes one task, or leaves no task.  When
  it returns a handle, exactly one task has been added to the queues, under the next identity of the
  runtime, and a thread outside the runtime holds one slot more; when it refuses or raises, the queues and
  the slots are as before, whichever step has failed, and a refused call has not used an identity.\<close>

theorem submission_publishes_or_restores:
  assumes "submit_with nonblocking (Some k) equip opts now [] inp (th, rts, ids) = Some (out, th', rts', ids')"
    and "rts k = Some r" and "rq_inv (rt_ready r)" and "option_ok th opts" and "pending_of r \<noteq> u64_max"
  shows "\<exists>r'. rts' = rts(k \<mapsto> r') \<and>
    (case out of
       Handle c \<Rightarrow> ids' = ids\<lparr>task_seq := task_seq ids + 1\<rparr> \<and>
         (\<exists>f. rq_facts (rt_ready r') = add_mset f (rq_facts (rt_ready r)) \<and> tf_task f = unat (task_seq ids + 1)) \<and>
         pending_of r' = pending_of r + (if current_worker_runtime_id (tl_context th) = rt_id r then 0 else 1)
     | Refused e \<Rightarrow> rt_ready r' = rt_ready r \<and> pending_of r' = pending_of r \<and> ids' = ids
     | Raised e \<Rightarrow> rt_ready r' = rt_ready r \<and> pending_of r' = pending_of r)"
proof -
  have f: "tf_task (facts_of (submitted_invoker (TaskId i n) sc)) = unat n" for i n sc
    by (simp add: submitted_invoker_def)
  show ?thesis
    using submit_now [OF assms] by (cases out) (auto simp: f)
qed


definition demo_input :: "nat option \<Rightarrow> publish_input" where
  "demo_input f = \<lparr>pi_cell = None, pi_factory = f, pi_alloc = True, pi_now = 0\<rparr>"

lemma demo_calls:
  "case submit_impl (Some 0) None 0 [] (demo_input None) (idle_locals, [0 \<mapsto> demo_runtime], fresh_allocator) of
     Some (Handle c, th, rts, ids) \<Rightarrow> task_seq ids = 1 | _ \<Rightarrow> False"
  "case submit_impl (Some 0) None 0 [] (demo_input (Some 7)) (idle_locals, [0 \<mapsto> demo_runtime], fresh_allocator) of
     Some (Raised (Factory_failed e), th, rts, ids) \<Rightarrow> e = 7 | _ \<Rightarrow> False"
  "pending_of demo_runtime = 0" "ready_gauge demo_runtime = 0" "level (rt_metrics demo_runtime) = Basic"
  by code_simp+

lemma idle_option_ok: "option_ok idle_locals None"
  by (simp add: option_ok_def idle_locals_def named_priorities_def)

theorem submission_publishes_or_restores_witness:
  "\<exists>c th rts ids r f. submit_impl (Some 0) None 0 [] (demo_input None) (idle_locals, [0 \<mapsto> demo_runtime], fresh_allocator) =
     Some (Handle c, th, rts, ids) \<and> rts 0 = Some r \<and> rq_facts (rt_ready r) = {#f#} \<and> tf_task f = 1"
proof -
  obtain c th rts ids where s: "submit_impl (Some 0) None 0 [] (demo_input None) (idle_locals, [0 \<mapsto> demo_runtime], fresh_allocator) =
      Some (Handle c, th, rts, ids)"
    using demo_calls(1) by (auto split: option.splits prod.splits submit_outcome.splits)
  have p: "pending_of demo_runtime \<noteq> u64_max" using demo_calls(3) by simp
  from submission_publishes_or_restores [OF s [unfolded submit_impl_def] _ demo_runtime_ready(1) idle_option_ok p]
  obtain r f where "rts = [0 \<mapsto> demo_runtime, 0 \<mapsto> r]" "rq_facts (rt_ready r) = add_mset f {#}" "tf_task f = 1"
    by (auto simp: demo_runtime_ready(2) fresh_allocator_def)
  with s show ?thesis by auto
qed


end
