(* ===== verification/Spec2Isabelle.thy ===== *)
theory Spec2Isabelle
  imports Diagnostics Admission Timer_Queue Ready_Runs Await_Handshake Task_Gauges Shutdown Graph_Validation Graph_Accounts Worker_Claims Trace_Documents Reaper_Ends Wait_Records Helping_Claims Submission
begin

text \<open>
  AstraScheduler: a model of the C++ runtime under \<open>src/\<close> and the theorems that make it correct.

  \<^bold>\<open>The program.\<close>  A \<open>Scheduler\<close> owns a \<open>RuntimeState\<close>: the ready queues (one deque per worker, global
  priority bands, a lock-free or a locked backend), the admission controller, the timer queue and the
  lifecycle word.  A submission takes an external slot, allocates an identity and publishes an invoker;
  workers claim, steal, park and drain; a task's body and outcome live in its control block, on which
  handles, callbacks and coroutine suspensions work; a task graph is frozen once and then run, its nodes
  being tasks of the runtime that release each other; a shutdown stops the workers and joins them once.
  Metrics, diagnostics and the trace record what happens.

  \<^bold>\<open>Conventions.\<close>  A C++ integer is a word of its width (\<open>u64\<close>, \<open>u32\<close>, \<open>u16\<close>, \<open>u8\<close>), so that its
  arithmetic wraps; a time point is an \<open>int\<close> with the bounds written where the code clamps.  A class is a
  record, an enumeration a datatype, an exception the left summand of a result; a pointer is an index or
  an identity.  Code behind one mutex is one step; what runs concurrently is a step relation at the
  granularity of the atomic accesses and critical sections, and a program run is any interleaving.  What
  the environment decides (the clock, whether an allocation succeeds, the outcome of a user's body) is an
  argument of the step.

  \<^bold>\<open>Theories and the code they model.\<close>
  \<^item> \<open>Prelude\<close>: words, lists and the collections of facts.
  \<^item> \<open>Ids\<close> (\<open>include/astra/id.hpp\<close>, \<open>runtime_identity.hpp\<close>): identities, their order, hash and allocators.
  \<^item> \<open>Status\<close> (\<open>status.hpp\<close>, \<open>task_options.hpp\<close>, \<open>scheduler_options.hpp\<close>): the packed lifecycle word,
    deadlines, validation of options.  \<open>Errors\<close> (\<open>error.hpp\<close>): machine-readable reasons.
  \<^item> \<open>Metrics\<close> (\<open>runtime_metrics.cpp\<close>): saturating counters, sharded per worker, histograms, snapshots.
    \<open>Diagnostics\<close> (\<open>runtime_diagnostics.cpp\<close>, \<open>runtime_registry.cpp\<close>): the records of lifecycle events.
  \<^item> \<open>Trace_Event\<close>, \<open>Trace_Collector\<close> (\<open>trace.hpp\<close>, \<open>trace_collector.cpp\<close>): the event schema, capture
    generations and bounded buffers.  \<open>Json\<close>, \<open>Trace_Export\<close>, \<open>Trace_Reading\<close>, \<open>Trace_Documents\<close>
    (\<open>trace_export.cpp\<close>): a JSON reader, the exporter, reading its events back, the document as a whole.
  \<^item> \<open>Admission\<close> (\<open>admission_controller.cpp\<close>): external slots, blocking and trying acquisition.
  \<^item> \<open>Heap_Vector\<close>, \<open>Timer_Queue\<close> (\<open>timer_queue.cpp\<close>): the binary heap with an index per entry.
  \<^item> \<open>Deque\<close>, \<open>Chase_Lev\<close> (\<open>chase_lev_deque.hpp\<close>): the contract of a work-stealing deque, the production
    deque with its growth and rebasing, and the reference deque.
  \<^item> \<open>Intrusive_Fifo\<close>, \<open>Local_Queues\<close>, \<open>Ready_Queues\<close>, \<open>Ready_Runs\<close> (\<open>ready_queues.cpp\<close>,
    \<open>ready_linked_invoker.hpp\<close>): the linked lists, EDF heaps and calendars of the global bands, the local
    queues, publication, claims, the immediate cleanup, and runs of all these.
  \<^item> \<open>Await_Handshake\<close> (\<open>await_handshake.hpp\<close>): the three-way race of arming, triggering and cancelling.
  \<^item> \<open>Task_Block\<close>, \<open>Task_Handle\<close>, \<open>Task_Lifecycle\<close>, \<open>Task_Gauges\<close> (\<open>task_control_block.cpp\<close>,
    \<open>task_handle.hpp\<close>): the state machine of a task, result cells and handles, the interleavings of
    everything that touches a task, and its agreement with the runtime's gauges.
  \<^item> \<open>Runtime_State\<close> (\<open>runtime_state.cpp\<close>, posting in \<open>scheduler.cpp\<close>): the aggregate, the deferred
    self-resumption and the execution context.  \<open>Shutdown\<close> (\<open>scheduler.cpp\<close>): the election of the joiner.
  \<^item> \<open>Reaper_Registry\<close>, \<open>Reaper_System\<close>, \<open>Reaper_Claims\<close>, \<open>Reaper_Ends\<close> (\<open>reaper_registry.cpp\<close>,
    \<open>finalization.cpp\<close>): the process-wide registry, the coordinator thread and the waits for its end, with the
    two condition variables; its invariant, and what a finished wait means.
  \<^item> \<open>Digraphs\<close>, \<open>Task_Graph\<close>, \<open>Graph_Validation\<close> (\<open>graph.hpp\<close>, \<open>graph.cpp\<close>): the builder, Kahn's
    algorithm and the search for the cycle that is reported.
  \<^item> \<open>Graph_Run\<close>, \<open>Graph_Exec\<close> (\<open>graph.cpp\<close>, \<open>graph_execution.cpp\<close>, \<open>graph_shared_state.hpp\<close>): starting a run
    and executing its nodes, as a small machine whose instructions are the accesses to the shared state.
    \<open>Graph_Invariant\<close>, \<open>Graph_Steps\<close>, \<open>Graph_Counts\<close>, \<open>Graph_Protocol\<close>, \<open>Graph_Reach\<close>, \<open>Graph_Start\<close>,
    \<open>Graph_Ends\<close>: its invariant, one aspect per theory.  \<open>Graph_Claims\<close>, \<open>Graph_Accounts\<close>: what follows.
  \<^item> \<open>Steal_Victims\<close>, \<open>Worker_Loop\<close>, \<open>Worker_System\<close> (\<open>worker_loop.cpp\<close>): the worker's loop with its mutex
    and condition variable, and any number of workers running with submissions, timers and the shutdown.
    \<open>Worker_Effects\<close>, \<open>Worker_Invariant\<close>, \<open>Worker_Drain\<close>, \<open>Worker_Claims\<close>: the invariants and what follows.
  \<^item> \<open>Caller_Wait\<close>, \<open>Wait_Records\<close> (\<open>perform_caller_wait\<close> and its like in \<open>scheduler.cpp\<close>): a wait for a
    task or a graph run, what it records, and the loop in which a waiting worker executes other tasks.
    \<open>Helping_System\<close>, \<open>Helping_Invariant\<close>, \<open>Helping_Claims\<close>: such waits nested in the workers' loops.
  \<^item> \<open>Submission\<close> (\<open>scheduler.hpp\<close>, \<open>prepare_submission\<close> in \<open>scheduler.cpp\<close>): the calls that submit a callable
    or spawn a coroutine, from the options to the handle, with every failure on the way.

  \<^bold>\<open>Interfaces.\<close>  \<open>deque_backend\<close> is interpreted by both deques, \<open>heap_order\<close> by the timers and the EDF
  bands, \<open>fifo_queue\<close> by the intrusive list and \<open>calendar_bands\<close> by both global backends; the laws of a
  run are proved once inside each.

  \<^bold>\<open>What is shown.\<close>  Conservation: no task, slot or identity is lost or used twice, in every
  interleaving.  Order: a graph's node runs after its predecessors, bands get their share, deadlines do
  not starve the others.  Counts: metrics, gauges, reports and captures are exact.  Progress: runs,
  validation and stops end.  Where the code does not do what it means to, a theorem exhibits the run
  (\<open>coroutine_node_ends_twice\<close>, \<open>cancelled_nodes_stay_ready\<close>, \<open>deferred_resumption_keeps_last\<close>,
  \<open>helping_postpones_resumption\<close>, \<open>parked_worker_misses_task\<close>, \<open>admitted_task_lost\<close>,
  \<open>failed_submission_stays_ready\<close>, \<open>immediate_wait_starts_task\<close>, \<open>bounded_wait_stops_helping\<close>,
  \<open>export_is_not_json\<close>, \<open>cleanup_after_unregister\<close>, \<open>wait_returns_before_join\<close>).

  \<^bold>\<open>Bounds.\<close>  Loops are structural or have a measure; the few bounded searches (a claim's calendar
  walk, a thief's draws) carry the bound the code has.  Hypotheses on sizes (fewer than \<open>2 ^ 64\<close> events, say)
  stand in the theorems.

  \<^bold>\<open>Not modelled.\<close>  Memory orders: the atomic accesses are sequentially consistent.  Allocation failure
  inside the standard containers, except where the code handles it.  The template machinery that selects
  call signatures and result types.  Thread creation, and the platform's probes behind process metrics.
  The awaitable and promise types of \<open>coroutine.hpp\<close> and the ownership of coroutine frames; what they
  rest on (the handshake, suspension and resumption of a block, timers) is modelled.
\<close>

text \<open>
  C40: However many times a runtime allocates task identities, the identities it hands out are
  pairwise distinct, in strictly increasing sequence, carry the runtime's identity and are valid:
  the sequence never wraps, and once it is exhausted every further call raises.
\<close>

theorem task_identities_never_reused:
  assumes "runtime_id_valid r" and "allocate_tasks k r a = (ts, a')"
  shows "distinct ts \<and> sorted_wrt (<) ts \<and> (\<forall>t \<in> set ts. task_id_valid t \<and> task_runtime t = r) \<and>
         length ts = min k (2 ^ 64 - 1 - unat (task_seq a))"
proof -
  note sp = allocate_tasks_spec [OF assms(2)]
  have less: "sorted_wrt (<) ts"
    using sp by (auto simp: sorted_wrt_iff_nth_less less_TaskId_def word_less_nat_alt)
  moreover have "task_id_valid t \<and> task_runtime t = r" if "t \<in> set ts" for t
    using that sp assms(1) by (auto simp: in_set_conv_nth task_id_valid_def)
  ultimately show ?thesis
    using sp strict_sorted_iff [of ts] by blast
qed

theorem task_identities_never_reused_witness:
  "\<exists>ts a'. allocate_tasks 3 (RuntimeId 7) fresh_allocator = (ts, a') \<and> distinct ts \<and> length ts = 3"
proof -
  have v: "runtime_id_valid (RuntimeId 7)"
    by (simp add: runtime_id_valid_def)
  obtain ts a' where r: "allocate_tasks 3 (RuntimeId 7) fresh_allocator = (ts, a')"
    by (cases "allocate_tasks 3 (RuntimeId 7) fresh_allocator")
  from task_identities_never_reused [OF v r] r show ?thesis
    by (auto simp: fresh_allocator_def)
qed

end
